(* ===== verification/Prelude.thy ===== *)
theory Prelude
  imports Main "HOL-Library.Word" "HOL-Library.Signed_Division" "HOL-Library.Monad_Syntax"
begin

unbundle bit_operations_syntax

text \<open>
  Shared vocabulary of the development: the machine integer types of the kernel
  (\<open>share/stdint.h\<close>), C truth values, the flat byte memory that the C string and memory
  routines work on, NUL-terminated strings in it, and the generic lemmas on lists, maps
  and words that the component theories use.

  Addresses are natural numbers: pointer arithmetic that leaves the address space is
  undefined in C, so no routine is given a meaning there. Address \<open>0\<close> is \<open>NULL\<close>.
\<close>

section \<open>Machine integers\<close>

type_synonym u8 = "8 word"
type_synonym u16 = "16 word"
type_synonym u32 = "32 word"
type_synonym u64 = "64 word"
type_synonym addr = nat
type_synonym mem = "addr \<Rightarrow> u8"

text \<open>A C comparison or \<open>!\<close> used as a value.\<close>

definition c_bool :: "bool \<Rightarrow> int" where
  "c_bool b = (if b then 1 else 0)"

text \<open>The C value of a (signed) \<open>char\<close> after integer promotion.\<close>

definition chr :: "u8 \<Rightarrow> int" where
  "chr c = sint c"

definition INT_MAX :: int where
  "INT_MAX = 2147483647"

text \<open>The wrapped value of a 32-bit signed result.\<close>

definition i32 :: "int \<Rightarrow> int" where
  "i32 x = sint (word_of_int x :: u32)"

section \<open>Lemma collections\<close>

named_theorems mem_simps
named_theorems step_simps

section \<open>Flat memory\<close>

definition wr_bytes :: "mem \<Rightarrow> addr \<Rightarrow> u8 list \<Rightarrow> mem" where
  "wr_bytes m p xs = (\<lambda>a. if p \<le> a \<and> a < p + length xs then xs ! (a - p) else m a)"

definition rd_bytes :: "mem \<Rightarrow> addr \<Rightarrow> nat \<Rightarrow> u8 list" where
  "rd_bytes m p n = map m [p..<p + n]"

text \<open>\<open>cstr m p s\<close>: the bytes \<open>s\<close>, none of them NUL, stand at \<open>p\<close> and a NUL ends them.\<close>

definition cstr :: "mem \<Rightarrow> addr \<Rightarrow> u8 list \<Rightarrow> bool" where
  "cstr m p s \<longleftrightarrow> rd_bytes m p (length s) = s \<and> 0 \<notin> set s \<and> m (p + length s) = 0"

lemma length_rd_bytes [simp]: "length (rd_bytes m p n) = n"
  by (simp add: rd_bytes_def)

lemma rd_bytes_0 [simp]: "rd_bytes m p 0 = []"
  by (simp add: rd_bytes_def)

lemma rd_bytes_Suc [mem_simps]: "rd_bytes m p (Suc n) = m p # rd_bytes m (Suc p) n"
  by (simp add: rd_bytes_def upt_conv_Cons del: upt_Suc)

lemma nth_rd_bytes [simp]: "i < n \<Longrightarrow> rd_bytes m p n ! i = m (p + i)"
  by (simp add: rd_bytes_def)

lemma rd_bytes_cong: "(\<And>a. p \<le> a \<Longrightarrow> a < p + n \<Longrightarrow> m a = m' a) \<Longrightarrow> rd_bytes m p n = rd_bytes m' p n"
  by (simp add: rd_bytes_def)

lemma wr_bytes_Nil [simp]: "wr_bytes m p [] = m"
  by (auto simp: wr_bytes_def fun_eq_iff)

lemma wr_bytes_single [simp]: "wr_bytes m p [x] = m(p := x)"
  by (auto simp: wr_bytes_def fun_eq_iff)

lemma wr_bytes_Cons [mem_simps]: "wr_bytes m p (x # xs) = wr_bytes (m(p := x)) (Suc p) xs"
  by (auto simp: wr_bytes_def fun_eq_iff nth_Cons split: nat.splits intro!: arg_cong [where f = "nth xs"])

lemma wr_bytes_snoc: "wr_bytes m p (xs @ [x]) = (wr_bytes m p xs)(p + length xs := x)"
  by (auto simp: wr_bytes_def fun_eq_iff nth_append)

lemma wr_bytes_append: "wr_bytes m p (xs @ ys) = wr_bytes (wr_bytes m p xs) (p + length xs) ys"
  by (auto simp: wr_bytes_def fun_eq_iff nth_append)

lemma wr_bytes_outside [simp]: "a < p \<or> p + length xs \<le> a \<Longrightarrow> wr_bytes m p xs a = m a"
  by (auto simp: wr_bytes_def)

lemma wr_bytes_inside [simp]: "i < length xs \<Longrightarrow> wr_bytes m p xs (p + i) = xs ! i"
  by (simp add: wr_bytes_def)

lemma rd_bytes_upd_outside [simp]:
  "a < p \<or> p + n \<le> a \<Longrightarrow> rd_bytes (m(a := v)) p n = rd_bytes m p n"
  by (rule rd_bytes_cong) auto

lemma rd_wr_bytes_same [simp]: "rd_bytes (wr_bytes m p xs) p (length xs) = xs"
  by (simp add: list_eq_iff_nth_eq)

lemma rd_wr_bytes_disjoint:
  "q + n \<le> p \<or> p + length xs \<le> q \<Longrightarrow> rd_bytes (wr_bytes m p xs) q n = rd_bytes m q n"
  by (rule rd_bytes_cong) auto

subsection \<open>NUL-terminated strings\<close>

lemma cstr_Nil [simp]: "cstr m p [] \<longleftrightarrow> m p = 0"
  by (simp add: cstr_def)

lemma cstr_Cons [simp]: "cstr m p (c # s) \<longleftrightarrow> m p = c \<and> c \<noteq> 0 \<and> cstr m (Suc p) s"
  by (auto simp: cstr_def mem_simps)

lemma cstr_unique: "cstr m p s \<Longrightarrow> cstr m p t \<Longrightarrow> s = t"
proof (induction s arbitrary: p t)
  case Nil
  then show ?case by (cases t) auto
next
  case (Cons c s)
  then show ?case by (cases t) auto
qed

lemma cstr_cong:
  assumes "\<And>a. p \<le> a \<Longrightarrow> a \<le> p + length s \<Longrightarrow> m a = m' a"
  shows "cstr m p s = cstr m' p s"
  using assms by (simp add: cstr_def cong: rd_bytes_cong)

lemma cstr_wr_bytes_disjoint:
  "q + length s < p \<or> p + length xs \<le> q \<Longrightarrow> cstr (wr_bytes m p xs) q s = cstr m q s"
  by (rule cstr_cong) auto

lemma cstr_wr_bytes [simp]: "0 \<notin> set s \<Longrightarrow> cstr (wr_bytes m p (s @ [0])) p s"
  using rd_bytes_cong [of p "length s" "wr_bytes m p (s @ [0])" "wr_bytes m p s"]
  by (auto simp: cstr_def wr_bytes_snoc)

lemma cstr_append:
  "cstr m p (s @ t) \<longleftrightarrow> rd_bytes m p (length s) = s \<and> 0 \<notin> set s \<and> cstr m (p + length s) t"
  by (induction s arbitrary: p) (auto simp: mem_simps)

section \<open>Case analysis on positions\<close>

lemma all_ge_step: "(\<forall>k \<ge> i. P k) \<longleftrightarrow> P i \<and> (\<forall>k \<ge> Suc i. P k)"
  by (metis le_refl Suc_leD not_less_eq_eq le_antisym)

lemma less_8_set: "(n::nat) < 8 \<longleftrightarrow> n \<in> {
     0, 1, 2, 3, 4, 5, 6, 7}"
  unfolding insert_iff empty_iff by presburger

lemma less_16_set: "(n::nat) < 16 \<longleftrightarrow> n \<in> {
     0, 1, 2, 3, 4, 5, 6, 7, 8, 9, 10, 11, 12, 13, 14, 15}"
  unfolding insert_iff empty_iff by presburger

lemma less_32_set: "(n::nat) < 32 \<longleftrightarrow> n \<in> {
     0, 1, 2, 3, 4, 5, 6, 7, 8, 9, 10, 11, 12, 13, 14, 15, 16, 17, 18, 19, 20, 21, 22, 23,
     24, 25, 26, 27, 28, 29, 30, 31}"
  unfolding insert_iff empty_iff by presburger

lemmas less_8 = less_8_set [unfolded insert_iff empty_iff]
lemmas less_16 = less_16_set [unfolded insert_iff empty_iff]
lemmas less_32 = less_32_set [unfolded insert_iff empty_iff]

section \<open>Singly linked lists\<close>

text \<open>\<open>seg nx p xs q\<close>: following the links \<open>nx\<close> from \<open>p\<close> passes the nodes \<open>xs\<close> and arrives at \<open>q\<close>.\<close>

fun seg :: "('a \<Rightarrow> 'a option) \<Rightarrow> 'a option \<Rightarrow> 'a list \<Rightarrow> 'a option \<Rightarrow> bool" where
  "seg nx p [] q \<longleftrightarrow> p = q"
| "seg nx p (x # xs) q \<longleftrightarrow> p = Some x \<and> seg nx (nx x) xs q"

lemma seg_append [simp]: "seg nx p (xs @ ys) q \<longleftrightarrow> (\<exists>r. seg nx p xs r \<and> seg nx r ys q)"
  by (induction xs arbitrary: p) auto

lemma seg_upd [simp]: "u \<notin> set xs \<Longrightarrow> seg (nx(u := v)) p xs q = seg nx p xs q"
  by (induction xs arbitrary: p) auto

lemma seg_cong: "(\<And>x. x \<in> set xs \<Longrightarrow> nx x = nx' x) \<Longrightarrow> seg nx p xs q = seg nx' p xs q"
  by (induction xs arbitrary: p) auto

lemma seg_hd: "seg nx p xs None \<Longrightarrow> p = (case xs of [] \<Rightarrow> None | x # _ \<Rightarrow> Some x)"
  by (cases xs) auto

lemma seg_unique: "seg nx p xs None \<Longrightarrow> seg nx p ys None \<Longrightarrow> xs = ys"
proof (induction xs arbitrary: p ys)
  case Nil
  then show ?case by (cases ys) auto
next
  case (Cons x xs)
  then show ?case by (cases ys) auto
qed

lemma seg_distinct: "seg nx p xs None \<Longrightarrow> distinct xs"
proof (induction xs arbitrary: p)
  case (Cons x xs)
  have "x \<notin> set xs"
  proof
    assume "x \<in> set xs"
    then obtain ys zs where "xs = ys @ x # zs" by (auto simp: in_set_conv_decomp)
    with Cons.prems have "seg nx (nx x) zs None" "seg nx (nx x) (ys @ x # zs) None" by auto
    from seg_unique [OF this] show False by (metis add_eq_self_zero length_append list.size(4) add.commute add_Suc_right nat.simps(3) add.assoc)
  qed
  with Cons show ?case by auto
qed simp

lemma unat_add_less: "unat (a :: u32) + unat b < 2 ^ 32 \<Longrightarrow> unat (a + b) = unat a + unat b"
  by (simp add: unat_word_ariths)

lemma find_append: "List.find P (xs @ ys) = (case List.find P xs of None \<Rightarrow> List.find P ys | Some x \<Rightarrow> Some x)"
  by (induction xs) auto

end
