(* ===== verification/CString.thy ===== *)
theory CString
  imports Prelude
begin

text \<open>
  The C string and memory library of \<open>share/string.c\<close>: block writes (\<open>memset\<close> and its
  16- and 32-bit forms, \<open>memcpy\<close>, \<open>memmove\<close>), NUL-terminated strings (\<open>strlen\<close>, \<open>strcpy\<close>,
  \<open>strncpy\<close>, \<open>strcat\<close>, \<open>strncat\<close>, \<open>strcmp\<close>, \<open>strncmp\<close>, \<open>strchr\<close>, \<open>strrchr\<close>, \<open>strpos\<close>,
  \<open>strmet\<close>), \<open>memcmp\<close>, and the number conversions \<open>itoa\<close>, \<open>itoa16_align\<close> and \<open>atoi\<close>.

  Every routine works on the flat memory of the prelude. A loop that is bounded by a
  count is structural recursion on the count; a loop that runs until it meets a
  character is a \<^theory_text>\<open>partial_function (option)\<close>, so \<open>None\<close> is a loop that never stops.
\<close>

section \<open>Block operations\<close>

fun memset_loop :: "mem \<Rightarrow> addr \<Rightarrow> u8 \<Rightarrow> nat \<Rightarrow> mem" where
  "memset_loop m s value 0 = m"
| "memset_loop m s value (Suc sz) = memset_loop (m(s := value)) (s + 1) value sz"

definition memset :: "mem \<Rightarrow> addr \<Rightarrow> u8 \<Rightarrow> u32 \<Rightarrow> mem \<times> addr" where
  "memset m src value sz = (memset_loop m src value (unat sz), src)"

text \<open>A store of a 16- or 32-bit value is little-endian.\<close>

definition le16 :: "u16 \<Rightarrow> u8 list" where
  "le16 v = [ucast v, ucast (drop_bit 8 v)]"

definition le32 :: "u32 \<Rightarrow> u8 list" where
  "le32 v = [ucast v, ucast (drop_bit 8 v), ucast (drop_bit 16 v), ucast (drop_bit 24 v)]"

fun memset16_loop :: "mem \<Rightarrow> addr \<Rightarrow> u16 \<Rightarrow> nat \<Rightarrow> mem" where
  "memset16_loop m s value 0 = m"
| "memset16_loop m s value (Suc sz) = memset16_loop (wr_bytes m s (le16 value)) (s + 2) value sz"

definition memset16 :: "mem \<Rightarrow> addr \<Rightarrow> u16 \<Rightarrow> u32 \<Rightarrow> mem \<times> addr" where
  "memset16 m src value sz = (memset16_loop m src value (unat sz), src)"

fun memset32_loop :: "mem \<Rightarrow> addr \<Rightarrow> u32 \<Rightarrow> nat \<Rightarrow> mem" where
  "memset32_loop m s value 0 = m"
| "memset32_loop m s value (Suc sz) = memset32_loop (wr_bytes m s (le32 value)) (s + 4) value sz"

definition memset32 :: "mem \<Rightarrow> addr \<Rightarrow> u32 \<Rightarrow> u32 \<Rightarrow> mem \<times> addr" where
  "memset32 m src value sz = (memset32_loop m src value (unat sz), src)"

fun copy_up :: "mem \<Rightarrow> addr \<Rightarrow> addr \<Rightarrow> nat \<Rightarrow> mem" where
  "copy_up m dst src 0 = m"
| "copy_up m dst src (Suc sz) = copy_up (m(dst := m src)) (dst + 1) (src + 1) sz"

fun copy_down :: "mem \<Rightarrow> addr \<Rightarrow> addr \<Rightarrow> nat \<Rightarrow> mem" where
  "copy_down m dst src 0 = m"
| "copy_down m dst src (Suc sz) = copy_down (m(dst := m src)) (dst - 1) (src - 1) sz"

definition memcpy :: "mem \<Rightarrow> addr \<Rightarrow> addr \<Rightarrow> u32 \<Rightarrow> mem" where
  "memcpy m dst src sz = copy_up m dst src (unat sz)"

definition memmove :: "mem \<Rightarrow> addr \<Rightarrow> addr \<Rightarrow> u32 \<Rightarrow> mem \<times> addr" where
  "memmove m dst src count =
     (let n = unat count in
      if dst \<le> src \<or> src + n \<le> dst then (copy_up m dst src n, dst)
      else (copy_down m (dst + n - 1) (src + n - 1) n, dst))"

fun memcmp_loop :: "mem \<Rightarrow> addr \<Rightarrow> addr \<Rightarrow> nat \<Rightarrow> int" where
  "memcmp_loop m p1 p2 0 = 0"
| "memcmp_loop m p1 p2 (Suc k) =
     (if m p1 \<noteq> m p2 then chr (m p1) - chr (m p2) else memcmp_loop m (p1 + 1) (p2 + 1) k)"

definition memcmp :: "mem \<Rightarrow> addr \<Rightarrow> addr \<Rightarrow> int \<Rightarrow> int" where
  "memcmp m s1 s2 n =
     (if s1 = 0 \<or> s2 = 0 then i32 (int s1 - int s2) else memcmp_loop m s1 s2 (nat n))"

section \<open>Strings\<close>

partial_function (option) strlen_loop :: "mem \<Rightarrow> addr \<Rightarrow> addr option" where
  "strlen_loop m p = (if m p \<noteq> 0 then strlen_loop m (p + 1) else Some (p + 1))"

definition strlen :: "mem \<Rightarrow> addr \<Rightarrow> u32 option" where
  "strlen m str = map_option (\<lambda>p. word_of_nat (p - str - 1)) (strlen_loop m str)"

partial_function (option) strcpy_loop :: "mem \<Rightarrow> addr \<Rightarrow> addr \<Rightarrow> mem option" where
  "strcpy_loop m dst src =
     (if m src \<noteq> 0 then strcpy_loop (m(dst := m src)) (dst + 1) (src + 1)
      else Some (m(dst := m src)))"

definition strcpy :: "mem \<Rightarrow> addr \<Rightarrow> addr \<Rightarrow> (mem \<times> addr) option" where
  "strcpy m dst src = map_option (\<lambda>m'. (m', dst)) (strcpy_loop m dst src)"

partial_function (option) strncpy_loop :: "mem \<Rightarrow> addr \<Rightarrow> addr \<Rightarrow> int \<Rightarrow> mem option" where
  "strncpy_loop m dst src n =
     (if m src \<noteq> 0 \<and> n > 0 then strncpy_loop (m(dst := m src)) (dst + 1) (src + 1) (n - 1)
      else Some (m(dst := m src)))"

definition strncpy :: "mem \<Rightarrow> addr \<Rightarrow> addr \<Rightarrow> int \<Rightarrow> (mem \<times> addr) option" where
  "strncpy m dst src n = map_option (\<lambda>m'. (m', dst)) (strncpy_loop m dst src n)"

partial_function (option) strcmp_loop :: "mem \<Rightarrow> addr \<Rightarrow> addr \<Rightarrow> (addr \<times> addr) option" where
  "strcmp_loop m a b =
     (if m a \<noteq> 0 \<and> m a = m b then strcmp_loop m (a + 1) (b + 1) else Some (a, b))"

definition strcmp :: "mem \<Rightarrow> addr \<Rightarrow> addr \<Rightarrow> int option" where
  "strcmp m a b = map_option
     (\<lambda>(a, b). if chr (m a) < chr (m b) then -1 else c_bool (chr (m a) > chr (m b)))
     (strcmp_loop m a b)"

partial_function (option) strncmp_loop :: "mem \<Rightarrow> addr \<Rightarrow> addr \<Rightarrow> int \<Rightarrow> int option" where
  "strncmp_loop m s1 s2 n =
     (if n - 1 \<noteq> 0 \<and> m s1 \<noteq> 0 \<and> m s1 = m s2 then strncmp_loop m (s1 + 1) (s2 + 1) (n - 1)
      else Some (chr (m s1) - chr (m s2)))"

definition strncmp :: "mem \<Rightarrow> addr \<Rightarrow> addr \<Rightarrow> int \<Rightarrow> int option" where
  "strncmp m s1 s2 n = (if n = 0 then Some 0 else strncmp_loop m s1 s2 n)"

partial_function (option) strend_loop :: "mem \<Rightarrow> addr \<Rightarrow> addr option" where
  "strend_loop m p = (if m p \<noteq> 0 then strend_loop m (p + 1) else Some p)"

definition strcat :: "mem \<Rightarrow> addr \<Rightarrow> addr \<Rightarrow> (mem \<times> addr) option" where
  "strcat m dest src =
     do { e \<leftarrow> strend_loop m dest; m' \<leftarrow> strcpy_loop m e src; Some (m', dest) }"

partial_function (option) strncat_loop :: "mem \<Rightarrow> addr \<Rightarrow> addr \<Rightarrow> int \<Rightarrow> mem option" where
  "strncat_loop m dst src n =
     (if n \<noteq> 0 then
        (if m src \<noteq> 0 then strncat_loop (m(dst := m src)) (dst + 1) (src + 1) (n - 1)
         else Some (m(dst := m src)))
      else Some m)"

text \<open>The final \<open>dst = '\0'\<close> of the code clears the local pointer and stores nothing.\<close>

definition strncat :: "mem \<Rightarrow> addr \<Rightarrow> addr \<Rightarrow> int \<Rightarrow> (mem \<times> addr) option" where
  "strncat m dst src n =
     do { e \<leftarrow> strend_loop m dst; m' \<leftarrow> strncat_loop m e src n; Some (m', dst) }"

partial_function (option) strchr_loop :: "mem \<Rightarrow> addr \<Rightarrow> u8 \<Rightarrow> addr option" where
  "strchr_loop m s c =
     (if m s \<noteq> 0 then (if m s = c then Some s else strchr_loop m (s + 1) c) else Some 0)"

definition strchr :: "mem \<Rightarrow> addr \<Rightarrow> int \<Rightarrow> addr option" where
  "strchr m s c = (if s = 0 then Some 0 else strchr_loop m s (word_of_int c))"

partial_function (option) strrchr_loop :: "mem \<Rightarrow> addr \<Rightarrow> u8 \<Rightarrow> addr \<Rightarrow> addr option" where
  "strrchr_loop m str c ret =
     (if m str \<noteq> 0 then strrchr_loop m (str + 1) c (if m str = c then str else ret)
      else Some (if c = m str then str else ret))"

definition strrchr :: "mem \<Rightarrow> addr \<Rightarrow> int \<Rightarrow> addr option" where
  "strrchr m str c = strrchr_loop m str (word_of_int c) 0"

partial_function (option) strpos_loop :: "mem \<Rightarrow> addr \<Rightarrow> u8 \<Rightarrow> int \<Rightarrow> int option" where
  "strpos_loop m str ch i =
     (if m str \<noteq> 0 then (if m str = ch then Some i else strpos_loop m (str + 1) ch (i + 1))
      else Some (-1))"

definition strpos :: "mem \<Rightarrow> addr \<Rightarrow> u8 \<Rightarrow> int option" where
  "strpos m str ch = strpos_loop m str ch 0"

partial_function (option) strmet_loop :: "mem \<Rightarrow> addr \<Rightarrow> addr \<Rightarrow> u8 \<Rightarrow> (mem \<times> addr) option" where
  "strmet_loop m p buf ch =
     (if m p \<noteq> 0 \<and> m p \<noteq> ch then strmet_loop (m(buf := m p)) (p + 1) (buf + 1) ch
      else Some (m(buf := 0), p))"

definition strmet :: "mem \<Rightarrow> addr \<Rightarrow> addr \<Rightarrow> u8 \<Rightarrow> (mem \<times> int) option" where
  "strmet m src buf ch =
     map_option (\<lambda>(m', p). (m', int p - int src)) (strmet_loop m src buf ch)"

section \<open>Numbers\<close>

text \<open>
  \<open>itoa\<close> advances the caller's pointer, which the model returns. \<open>%\<close> and \<open>/\<close> of C
  truncate towards zero (\<open>smod\<close>, \<open>sdiv\<close>). A zero base traps, as does the one quotient
  that does not fit (\<open>INT_MIN / -1\<close>).
\<close>

partial_function (option) itoa :: "mem \<Rightarrow> addr \<Rightarrow> int \<Rightarrow> int \<Rightarrow> (mem \<times> addr) option" where
  "itoa m ps val base =
     (if base = 0 \<or> (base = -1 \<and> val = - INT_MAX - 1) then None
      else (let r = val smod base; q = val sdiv base in
        do { (m', p) \<leftarrow> (if q \<noteq> 0 then itoa m ps q base else Some (m, ps));
             Some (m'(p := word_of_int (if r < 10 then r + 48 else r - 10 + 65)), p + 1) }))"

definition is_dig :: "u8 \<Rightarrow> bool" where
  "is_dig c \<longleftrightarrow> 48 \<le> chr c \<and> chr c \<le> 57"

partial_function (option) atoi_skip :: "mem \<Rightarrow> addr \<Rightarrow> addr option" where
  "atoi_skip m src = (if m src = 32 then atoi_skip m (src + 1) else Some src)"

partial_function (option) atoi_digits :: "mem \<Rightarrow> addr \<Rightarrow> int \<Rightarrow> int option" where
  "atoi_digits m src s =
     (if m src \<noteq> 0 \<and> is_dig (m src)
      then atoi_digits m (src + 1) (i32 (s * 10 + chr (m src) - 48)) else Some s)"

definition atoi :: "mem \<Rightarrow> addr \<Rightarrow> int option" where
  "atoi m src =
     do { p \<leftarrow> atoi_skip m src;
          (if m p = 43 \<or> m p = 45 then
             do { s \<leftarrow> atoi_digits m (p + 1) 0;
                  Some (i32 (s * (if m p = 45 then -1 else 1))) }
           else if \<not> is_dig (m p) then Some 2147483647
           else do { s \<leftarrow> atoi_digits m p 0; Some (i32 (s * 1)) }) }"

fun itoa16_loop :: "mem \<Rightarrow> addr \<Rightarrow> u32 \<Rightarrow> nat \<Rightarrow> mem \<times> addr" where
  "itoa16_loop m p num 0 = (m, p)"
| "itoa16_loop m p num (Suc k) =
     (let ch = ucast (drop_bit (4 * k) num AND 0xF) + 48 :: u8;
          ch = (if chr ch > 57 then ch + 7 else ch)
      in itoa16_loop (m(p := ch)) (p + 1) num k)"

text \<open>The loop \<open>for (i = 28; i >= 0; i -= 4)\<close> runs with \<open>i = 4 * k\<close>, \<open>k\<close> from 7 down to 0.\<close>

definition itoa16_align :: "mem \<Rightarrow> addr \<Rightarrow> u32 \<Rightarrow> mem \<times> addr" where
  "itoa16_align m str num =
     (let (m', p) = (if num = 0 then (m(str := 48), str + 1) else itoa16_loop m str num 8)
      in (m'(p := 0), str))"


section \<open>Block operations: lemmas\<close>

lemma memset_loop_eq: "memset_loop m s v n = wr_bytes m s (replicate n v)"
  by (induction n arbitrary: m s) (simp_all add: mem_simps)

lemma length_le16 [simp]: "length (le16 v) = 2"
  by (simp add: le16_def)

lemma length_le32 [simp]: "length (le32 v) = 4"
  by (simp add: le32_def)

lemma memset16_loop_eq: "memset16_loop m s v n = wr_bytes m s (concat (replicate n (le16 v)))"
  by (induction n arbitrary: m s) (simp_all add: wr_bytes_append)

lemma memset32_loop_eq: "memset32_loop m s v n = wr_bytes m s (concat (replicate n (le32 v)))"
  by (induction n arbitrary: m s) (simp_all add: wr_bytes_append)

lemma wr_bytes_upd_outside:
  "a < p \<or> p + length xs \<le> a \<Longrightarrow> wr_bytes (m(a := v)) p xs = (wr_bytes m p xs)(a := v)"
  by (auto simp: wr_bytes_def fun_eq_iff)

lemma rd_bytes_snoc: "rd_bytes m p (Suc n) = rd_bytes m p n @ [m (p + n)]"
  by (simp add: rd_bytes_def)

lemma copy_up_eq:
  "dst \<le> src \<or> src + n \<le> dst \<Longrightarrow> copy_up m dst src n = wr_bytes m dst (rd_bytes m src n)"
proof (induction n arbitrary: m dst src)
  case (Suc n)
  then have "copy_up (m(dst := m src)) (dst + 1) (src + 1) n
      = wr_bytes (m(dst := m src)) (dst + 1) (rd_bytes (m(dst := m src)) (src + 1) n)"
    by (intro Suc.IH) auto
  moreover have "rd_bytes (m(dst := m src)) (src + 1) n = rd_bytes m (src + 1) n"
    using Suc.prems by (intro rd_bytes_upd_outside) auto
  ultimately show ?case by (simp add: mem_simps)
qed simp

lemma copy_down_eq:
  "src \<le> dst \<Longrightarrow> copy_down m (dst + n - 1) (src + n - 1) n = wr_bytes m dst (rd_bytes m src n)"
proof (induction n arbitrary: m)
  case (Suc n)
  then have "copy_down (m(dst + n := m (src + n))) (dst + n - 1) (src + n - 1) n
      = wr_bytes (m(dst + n := m (src + n))) dst (rd_bytes (m(dst + n := m (src + n))) src n)"
    by (intro Suc.IH) auto
  then show ?case using Suc.prems by (simp add: rd_bytes_snoc wr_bytes_snoc wr_bytes_upd_outside)
qed simp

lemma memcmp_loop_0_iff: "memcmp_loop m p q n = 0 \<longleftrightarrow> rd_bytes m p n = rd_bytes m q n"
  by (induction n arbitrary: p q) (auto simp: mem_simps chr_def signed_word_eqI)

section \<open>Strings: lemmas\<close>

lemma strlen_loop_cstr: "cstr m p s \<Longrightarrow> strlen_loop m p = Some (p + length s + 1)"
  by (induction s arbitrary: p) (simp_all add: strlen_loop.simps)

lemma strend_loop_cstr: "cstr m p s \<Longrightarrow> strend_loop m p = Some (p + length s)"
  by (induction s arbitrary: p) (simp_all add: strend_loop.simps)

text \<open>Copying the first \<open>k\<close> characters before the place they are read from does no harm.\<close>

lemma cstr_upd_outside [simp]:
  "a < p \<or> p + length s < a \<Longrightarrow> cstr (m(a := v)) p s = cstr m p s"
  by (rule cstr_cong) auto

text \<open>The defining equations with their memory updates in folded form.\<close>

lemma strcpy_loop_unfold:
  "strcpy_loop m dst src =
     (if m src \<noteq> 0 then strcpy_loop (m(dst := m src)) (dst + 1) (src + 1)
      else Some (m(dst := m src)))"
  by (subst strcpy_loop.simps) (simp add: fun_upd_def)

lemma strncpy_loop_unfold:
  "strncpy_loop m dst src n =
     (if m src \<noteq> 0 \<and> n > 0 then strncpy_loop (m(dst := m src)) (dst + 1) (src + 1) (n - 1)
      else Some (m(dst := m src)))"
  by (subst strncpy_loop.simps) (simp add: fun_upd_def)

lemma strncat_loop_unfold:
  "strncat_loop m dst src n =
     (if n \<noteq> 0 then
        (if m src \<noteq> 0 then strncat_loop (m(dst := m src)) (dst + 1) (src + 1) (n - 1)
         else Some (m(dst := m src)))
      else Some m)"
  by (subst strncat_loop.simps) (simp add: fun_upd_def)

lemma itoa_unfold:
  "itoa m ps val base =
     (if base = 0 \<or> (base = -1 \<and> val = - INT_MAX - 1) then None
      else (let r = val smod base; q = val sdiv base in
        do { (m', p) \<leftarrow> (if q \<noteq> 0 then itoa m ps q base else Some (m, ps));
             Some (m'(p := word_of_int (if r < 10 then r + 48 else r - 10 + 65)), p + 1) }))"
  by (subst itoa.simps) (simp add: fun_upd_def Let_def)

lemma strcpy_loop_cstr:
  "cstr m src s \<Longrightarrow> dst \<le> src \<or> src + length s < dst \<Longrightarrow>
   strcpy_loop m dst src = Some (wr_bytes m dst (s @ [0]))"
proof (induction s arbitrary: m dst src)
  case Nil
  then show ?case by (subst strcpy_loop_unfold) simp
next
  case (Cons c s)
  have "strcpy_loop (m(dst := c)) (dst + 1) (src + 1)
      = Some (wr_bytes (m(dst := c)) (dst + 1) (s @ [0]))"
    using Cons.prems by (intro Cons.IH) (auto simp del: fun_upd_apply)
  then show ?case using Cons.prems by (simp add: strcpy_loop_unfold [of m] mem_simps del: fun_upd_apply)
qed

lemma strncpy_loop_cstr:
  "cstr m src s \<Longrightarrow> dst \<le> src \<or> src + length s < dst \<Longrightarrow>
   strncpy_loop m dst src (int n) = Some (wr_bytes m dst (take (Suc n) (s @ [0])))"
proof (induction s arbitrary: m dst src n)
  case Nil
  then show ?case by (subst strncpy_loop_unfold) simp
next
  case (Cons c s)
  show ?case
  proof (cases n)
    case 0
    with Cons.prems show ?thesis by (simp add: strncpy_loop_unfold [of m] mem_simps del: fun_upd_apply)
  next
    case (Suc n')
    have "strncpy_loop (m(dst := c)) (dst + 1) (src + 1) (int n')
        = Some (wr_bytes (m(dst := c)) (dst + 1) (take (Suc n') (s @ [0])))"
      using Cons.prems by (intro Cons.IH) (auto simp del: fun_upd_apply)
    with Suc Cons.prems show ?thesis by (simp add: strncpy_loop_unfold [of m] mem_simps del: fun_upd_apply)
  qed
qed

lemma strncat_loop_cstr:
  "cstr m src s \<Longrightarrow> dst \<le> src \<or> src + length s < dst \<Longrightarrow>
   strncat_loop m dst src (int n) = Some (wr_bytes m dst (take n (s @ [0])))"
proof (induction s arbitrary: m dst src n)
  case Nil
  then show ?case by (subst strncat_loop_unfold, cases n) simp_all
next
  case (Cons c s)
  show ?case
  proof (cases n)
    case 0
    then show ?thesis by (simp add: strncat_loop_unfold [of m] del: fun_upd_apply)
  next
    case (Suc n')
    have "strncat_loop (m(dst := c)) (dst + 1) (src + 1) (int n')
        = Some (wr_bytes (m(dst := c)) (dst + 1) (take n' (s @ [0])))"
      using Cons.prems by (intro Cons.IH) (auto simp del: fun_upd_apply)
    with Suc Cons.prems show ?thesis by (simp add: strncat_loop_unfold [of m] mem_simps del: fun_upd_apply)
  qed
qed

text \<open>The reference order of \<open>strcmp\<close>: lexicographic on signed characters, NUL counting as 0.\<close>

fun cmp_chars :: "u8 list \<Rightarrow> u8 list \<Rightarrow> int" where
  "cmp_chars [] [] = 0"
| "cmp_chars [] (y # ys) = (if 0 < chr y then -1 else 1)"
| "cmp_chars (x # xs) [] = (if chr x < 0 then -1 else 1)"
| "cmp_chars (x # xs) (y # ys) =
     (if x = y then cmp_chars xs ys else if chr x < chr y then -1 else 1)"

lemma chr_eq_iff [simp]: "chr x = chr y \<longleftrightarrow> x = y"
  by (auto simp: chr_def signed_word_eqI)

lemma chr_0 [simp]: "chr 0 = 0"
  by (simp add: chr_def)

lemma chr_eq_0_iff [simp]: "chr x = 0 \<longleftrightarrow> x = 0"
  using chr_eq_iff [of x 0] by (simp del: chr_eq_iff)

lemma strcmp_cstr: "cstr m a s \<Longrightarrow> cstr m b t \<Longrightarrow> strcmp m a b = Some (cmp_chars s t)"
proof (induction s t arbitrary: a b rule: cmp_chars.induct)
  case (2 y ys)
  moreover have "chr y \<noteq> 0" using 2 by simp
  ultimately show ?case
    by (auto simp: strcmp_def strcmp_loop.simps [of m a b] c_bool_def simp del: chr_eq_0_iff)
next
  case (3 x xs)
  moreover have "chr x \<noteq> 0" using 3 by simp
  ultimately show ?case
    by (auto simp: strcmp_def strcmp_loop.simps [of m a b] c_bool_def simp del: chr_eq_0_iff)
next
  case (4 x xs y ys)
  show ?case
  proof (cases "x = y")
    case True
    then have "strcmp m (a + 1) (b + 1) = Some (cmp_chars xs ys)"
      using 4 by simp
    then show ?thesis using 4 True by (simp add: strcmp_def strcmp_loop.simps [of m a b])
  next
    case False
    then have "chr x \<noteq> chr y" by simp
    with False 4 show ?thesis
      by (auto simp: strcmp_def strcmp_loop.simps [of m a b] c_bool_def simp del: chr_eq_iff)
  qed
qed (simp_all add: strcmp_def strcmp_loop.simps c_bool_def)

lemma cmp_chars_0_iff: "0 \<notin> set s \<Longrightarrow> 0 \<notin> set t \<Longrightarrow> cmp_chars s t = 0 \<longleftrightarrow> s = t"
  by (induction s t rule: cmp_chars.induct) auto

lemma cmp_chars_sym: "0 \<notin> set s \<Longrightarrow> 0 \<notin> set t \<Longrightarrow> cmp_chars s t = - cmp_chars t s"
proof (induction s t rule: cmp_chars.induct)
  case (4 x xs y ys)
  then show ?case using chr_eq_iff [of x y] by (auto simp del: chr_eq_iff)
next
  case (2 y ys)
  then show ?case using chr_eq_0_iff [of y] by (auto simp del: chr_eq_0_iff)
next
  case (3 x xs)
  then show ?case using chr_eq_0_iff [of x] by (auto simp del: chr_eq_0_iff)
qed simp

lemma strchr_loop_cstr:
  "cstr m p s \<Longrightarrow> strchr_loop m p c
     = Some (if c \<in> set s then p + length (takeWhile (\<lambda>x. x \<noteq> c) s) else 0)"
  by (induction s arbitrary: p) (simp_all add: strchr_loop.simps)

lemma strpos_loop_cstr:
  "cstr m p s \<Longrightarrow> strpos_loop m p c i
     = Some (if c \<in> set s then i + int (length (takeWhile (\<lambda>x. x \<noteq> c) s)) else -1)"
  by (induction s arbitrary: p i) (simp_all add: strpos_loop.simps)

section \<open>Numbers: lemmas\<close>

text \<open>The decimal digits of a number, most significant first.\<close>

fun dec :: "nat \<Rightarrow> u8 list" where
  "dec n = (if n < 10 then [word_of_nat (48 + n)]
     else dec (n div 10) @ [word_of_nat (48 + n mod 10)])"

declare dec.simps [simp del]

lemma sdiv_pos [simp]: "0 \<le> (a::int) \<Longrightarrow> 0 < b \<Longrightarrow> a sdiv b = a div b"
  by (cases "a = 0") (simp_all add: signed_divide_int_def)

lemma smod_pos [simp]: "0 \<le> (a::int) \<Longrightarrow> 0 < b \<Longrightarrow> a smod b = a mod b"
  by (cases "a = 0") (simp_all add: signed_modulo_int_def)

lemma itoa_dec:
  "itoa m ps (int n) 10 = Some (wr_bytes m ps (dec n), ps + length (dec n))"
proof (induction n rule: dec.induct)
  case (1 n)
  have ch: "word_of_int (int n mod 10 + 48) = (word_of_nat (48 + n mod 10) :: u8)"
    by (metis add.commute of_int_of_nat_eq of_nat_add of_nat_mod of_nat_numeral)
  show ?case
  proof (cases "n < 10")
    case True
    then show ?thesis using ch
      by (subst itoa_unfold) (simp add: Let_def dec.simps [of n] del: of_nat_add)
  next
    case False
    then have "int n div 10 \<noteq> 0" by linarith
    moreover have "itoa m ps (int n div 10) 10
        = Some (wr_bytes m ps (dec (n div 10)), ps + length (dec (n div 10)))"
      using 1 False by (simp add: zdiv_int)
    ultimately show ?thesis using False ch
      by (subst itoa_unfold) (simp add: Let_def dec.simps [of n] wr_bytes_snoc del: of_nat_add)
  qed
qed

lemma chr_digit: "k < 10 \<Longrightarrow> chr (word_of_nat (48 + k)) = 48 + int k"
  by (simp add: chr_def signed_of_nat signed_take_bit_int_eq_self del: of_nat_add)

lemma atoi_digits_foldl:
  "\<forall>c\<in>set cs. is_dig c \<Longrightarrow> cstr m p cs \<Longrightarrow>
   atoi_digits m p s = Some (foldl (\<lambda>s c. i32 (s * 10 + chr c - 48)) s cs)"
  by (induction cs arbitrary: p s) (simp_all add: atoi_digits.simps)

lemma i32_id: "- 2147483648 \<le> x \<Longrightarrow> x \<le> 2147483647 \<Longrightarrow> i32 x = x"
  by (simp add: i32_def signed_of_int signed_take_bit_int_eq_self)

lemma foldl_dec:
  "int n \<le> INT_MAX \<Longrightarrow> foldl (\<lambda>s c. i32 (s * 10 + chr c - 48)) 0 (dec n) = int n"
proof (induction n rule: dec.induct)
  case (1 n)
  show ?case
  proof (cases "n < 10")
    case True
    then show ?thesis
      by (simp add: dec.simps [of n] chr_digit i32_id del: of_nat_add)
  next
    case False
    then have "foldl (\<lambda>s c. i32 (s * 10 + chr c - 48)) 0 (dec (n div 10)) = int (n div 10)"
      using 1 by (simp add: zdiv_int INT_MAX_def)
    moreover have "int (n div 10) * 10 + int (n mod 10) = int n"
      by (metis div_mult_mod_eq of_nat_add of_nat_mult of_nat_numeral)
    ultimately show ?thesis using False 1(2)
      by (simp add: dec.simps [of n] chr_digit i32_id INT_MAX_def del: of_nat_add of_nat_div of_nat_mod)
  qed
qed

lemma dec_digits: "\<forall>c\<in>set (dec n). is_dig c"
proof (induction n rule: dec.induct)
  case (1 n)
  have "is_dig (word_of_nat (48 + k))" if "k < 10" for k
    using chr_digit [OF that] that by (simp add: is_dig_def del: of_nat_add)
  with 1 show ?case by (subst dec.simps) (auto simp del: of_nat_add)
qed

lemma dec_not_Nil [simp]: "dec n \<noteq> []"
  by (subst dec.simps) simp

lemma is_dig_facts: "is_dig c \<Longrightarrow> c \<noteq> 0 \<and> c \<noteq> 32 \<and> c \<noteq> 43 \<and> c \<noteq> 45"
  by (auto simp: is_dig_def chr_def)


section \<open>Properties\<close>

text \<open>
  \<open>memmove\<close> copies the block as it was before the call, for every overlap of source and
  destination, and changes nothing else.
\<close>

theorem memmove_correct:
  "memmove m dst src n = (wr_bytes m dst (rd_bytes m src (unat n)), dst)"
  by (auto simp: memmove_def Let_def copy_up_eq copy_down_eq [unfolded One_nat_def])

text \<open>
  \<open>strcat\<close> on two strings whose bytes do not overlap returns the destination, which then
  holds the concatenation, and writes only the bytes from the old terminator to the new one.
\<close>

theorem strcat_correct:
  assumes "cstr m dest d" "cstr m src s"
    and "dest + length d + length s < src \<or> src + length s < dest"
  shows "\<exists>m'. strcat m dest src = Some (m', dest) \<and> cstr m' dest (d @ s) \<and>
    (\<forall>a. a < dest + length d \<or> dest + length d + length s < a \<longrightarrow> m' a = m a)"
proof -
  let ?m' = "wr_bytes m (dest + length d) (s @ [0])"
  have "strcpy_loop m (dest + length d) src = Some ?m'"
    using assms by (intro strcpy_loop_cstr) auto
  moreover have "cstr ?m' (dest + length d) s"
    using assms(2) by (intro cstr_wr_bytes) (simp add: cstr_def)
  moreover have "rd_bytes ?m' dest (length d) = d"
    using assms(1) by (simp add: rd_wr_bytes_disjoint) (simp add: cstr_def)
  ultimately have "cstr ?m' dest (d @ s)"
    using assms(1) by (simp add: cstr_append) (simp add: cstr_def)
  moreover have "strcat m dest src = Some (?m', dest)"
    using assms(1) \<open>strcpy_loop m (dest + length d) src = Some ?m'\<close>
    by (simp add: strcat_def strend_loop_cstr)
  ultimately show ?thesis by auto
qed

text \<open>
  \<open>strcmp\<close> on two strings always returns; it returns 0 exactly when they are equal, and
  exchanging the arguments negates the result.
\<close>

theorem strcmp_correct:
  assumes "cstr m a s" "cstr m b t"
  shows "\<exists>r. strcmp m a b = Some r \<and> strcmp m b a = Some (- r) \<and> (r = 0 \<longleftrightarrow> s = t)"
proof -
  have nz: "0 \<notin> set s" "0 \<notin> set t" using assms by (auto simp: cstr_def)
  have "cmp_chars t s = - cmp_chars s t" using cmp_chars_sym [of t s] nz by simp
  with assms nz show ?thesis by (auto simp: strcmp_cstr cmp_chars_0_iff)
qed

text \<open>
  \<open>strncpy\<close> with a bound \<open>n\<close> smaller than the source string writes \<open>n + 1\<close> bytes, the last
  of them at \<open>dst + n\<close>, behind a buffer of \<open>n\<close> bytes, and leaves no terminator: every byte
  it wrote is a character of the source.
\<close>

theorem strncpy_overrun:
  assumes "cstr m src s" "n < length s" "dst \<le> src \<or> src + length s < dst"
  shows "strncpy m dst src (int n) = Some (wr_bytes m dst (take (n + 1) s), dst) \<and>
    wr_bytes m dst (take (n + 1) s) (dst + n) = s ! n \<and> 0 \<notin> set (take (n + 1) s)"
  using assms by (auto simp: strncpy_def strncpy_loop_cstr cstr_def dest: in_set_takeD)

text \<open>
  printing a non-negative \<open>int\<close> in decimal with \<open>itoa\<close>, terminating the digits with a
  NUL and reading them back with \<open>atoi\<close> gives the number again.
\<close>

theorem atoi_itoa:
  assumes "int n \<le> INT_MAX"
  shows "\<exists>m' p. itoa m ps (int n) 10 = Some (m', p) \<and> atoi (m'(p := 0)) ps = Some (int n)"
proof -
  let ?m = "wr_bytes m ps (dec n @ [0])"
  have dig: "\<forall>c\<in>set (dec n). is_dig c" by (rule dec_digits)
  then have "0 \<notin> set (dec n)" using is_dig_facts by blast
  then have str: "cstr ?m ps (dec n)" by simp
  obtain c cs where cs: "dec n = c # cs" by (cases "dec n") simp_all
  have "?m ps = c" using str cs by simp
  moreover have "is_dig c" using dig cs by simp
  moreover have "atoi_digits ?m ps 0 = Some (int n)"
    using atoi_digits_foldl [OF dig str] foldl_dec [OF assms] by simp
  ultimately have "atoi ?m ps = Some (int n)"
    using is_dig_facts [of c] assms by (simp add: atoi_def atoi_skip.simps i32_id INT_MAX_def)
  then show ?thesis by (simp add: itoa_dec wr_bytes_snoc)
qed

end
