(* ===== verification/CType.thy ===== *)
theory CType
  imports CString
begin

text \<open>
  Character classes and \<open>strtoul\<close>/\<open>strtol\<close> (\<open>share/ctype.c\<close>), the integer helpers of
  \<open>share/math.c\<close> and the byte-order conversions of \<open>share/inet.c\<close>. An \<open>int\<close> argument is a
  32-bit word: its unsigned cast is the word itself and its signed value is \<open>sint\<close>.
\<close>

section \<open>Character classes (share/ctype.c)\<close>

definition isspace :: "u8 \<Rightarrow> int" where
  "isspace c = c_bool (c \<in> set [32, 9, 10, 13, 11, 12])"

definition isalnum :: "u32 \<Rightarrow> bool" where
  "isalnum ch \<longleftrightarrow> (ch OR 0x20) - 97 < 26 \<or> ch - 48 < 10"

definition isxdigit :: "u32 \<Rightarrow> bool" where
  "isxdigit c \<longleftrightarrow> (48 \<le> sint c \<and> sint c \<le> 57) \<or> (97 \<le> sint c \<and> sint c \<le> 102)
     \<or> (65 \<le> sint c \<and> sint c \<le> 70)"

definition isdigit :: "u32 \<Rightarrow> bool" where
  "isdigit ch \<longleftrightarrow> ch - 48 < 10"

definition isalpha :: "u32 \<Rightarrow> bool" where
  "isalpha ch \<longleftrightarrow> (97 \<le> sint ch \<and> sint ch \<le> 122) \<or> (97 \<le> sint ch \<and> sint ch \<le> 90)"

definition TOLOWER :: "u32 \<Rightarrow> u32" where
  "TOLOWER x = x OR 0x20"

section \<open>Reading unsigned numbers\<close>

definition promote :: "u8 \<Rightarrow> u32" where
  "promote c = scast c"

definition digit_value :: "u32 \<Rightarrow> u32" where
  "digit_value c = (if isdigit c then c - 48 else TOLOWER c - 97 + 10)"

partial_function (option) strtoul_loop :: "mem \<Rightarrow> addr \<Rightarrow> u32 \<Rightarrow> u32 \<Rightarrow> (u32 \<times> addr) option" where
  "strtoul_loop m cp base result =
     (if isxdigit (promote (m cp)) \<and> digit_value (promote (m cp)) < base
      then strtoul_loop m (cp + 1) base (result * base + digit_value (promote (m cp)))
      else Some (result, cp))"

text \<open>The result and the address stored in \<open>*endp\<close> when the caller passes one.\<close>

definition strtoul :: "mem \<Rightarrow> addr \<Rightarrow> u32 \<Rightarrow> (u32 \<times> addr) option" where
  "strtoul m cp base =
     (if base = 0 then
        (if m cp = 48 then
           (if TOLOWER (promote (m (cp + 1))) = 120 \<and> isxdigit (promote (m (cp + 2)))
            then strtoul_loop m (cp + 2) 16 0
            else strtoul_loop m (cp + 1) 8 0)
         else strtoul_loop m cp 10 0)
      else if base = 16 then
        (if m cp = 48 \<and> TOLOWER (promote (m (cp + 1))) = 120
         then strtoul_loop m (cp + 2) 16 0 else strtoul_loop m cp 16 0)
      else strtoul_loop m cp base 0)"

definition strtol :: "mem \<Rightarrow> addr \<Rightarrow> u32 \<Rightarrow> (u32 \<times> addr) option" where
  "strtol m cp base =
     (if m cp = 45 then map_option (\<lambda>(v, e). (- v, e)) (strtoul m (cp + 1) base)
      else strtoul m cp base)"

section \<open>Integer helpers (share/math.c)\<close>

definition c_max :: "u32 \<Rightarrow> u32 \<Rightarrow> u32" where
  "c_max a b = (if sint a > sint b then a else b)"

definition c_min :: "u32 \<Rightarrow> u32 \<Rightarrow> u32" where
  "c_min a b = (if sint a < sint b then a else b)"

definition c_abs :: "u32 \<Rightarrow> u32" where
  "c_abs n = (if sint n < 0 then - n else n)"

definition DIV_ROUND_UP :: "u32 \<Rightarrow> u32 \<Rightarrow> u32" where
  "DIV_ROUND_UP x st = (x + st - 1) div st"

function pow_loop :: "u32 \<Rightarrow> int \<Rightarrow> u32 \<Rightarrow> u32" where
  "pow_loop x y r =
     (if y > 1 then pow_loop (x * x) (drop_bit 1 y) (if y AND 1 = 1 then r * x else r)
      else r * x)"
  by pat_completeness auto
termination
  by (relation "measure (\<lambda>(x, y, r). nat y)") (auto simp: drop_bit_Suc)

declare pow_loop.simps [simp del]

definition c_pow :: "u32 \<Rightarrow> int \<Rightarrow> u32" where
  "c_pow x y = pow_loop x y 1"

section \<open>Byte order (share/inet.c)\<close>

definition htons :: "u16 \<Rightarrow> u16" where
  "htons hostshort = push_bit 8 (hostshort AND 0xFF) OR drop_bit 8 (hostshort AND 0xFF00)"

definition ntohs :: "u16 \<Rightarrow> u16" where
  "ntohs netshort = push_bit 8 (netshort AND 0xFF) OR drop_bit 8 (netshort AND 0xFF00)"

definition htonl :: "u32 \<Rightarrow> u32" where
  "htonl hostlong = push_bit 24 (hostlong AND 0xFF) OR push_bit 8 (hostlong AND 0xFF00)
     OR drop_bit 8 (hostlong AND 0xFF0000) OR drop_bit 24 (hostlong AND 0xFF000000)"

definition ntohl :: "u32 \<Rightarrow> u32" where
  "ntohl netlong = push_bit 24 (netlong AND 0xFF) OR push_bit 8 (netlong AND 0xFF00)
     OR drop_bit 8 (netlong AND 0xFF0000) OR drop_bit 24 (netlong AND 0xFF000000)"

section \<open>Lemmas\<close>

lemma pow_loop_eq: "1 \<le> y \<Longrightarrow> pow_loop x y r = r * x ^ nat y"
proof (induction x y r rule: pow_loop.induct)
  case (1 x y r)
  show ?case
  proof (cases "y > 1")
    case True
    define k where "k = nat (drop_bit 1 y)"
    have half: "drop_bit 1 y = y div 2" by (simp add: drop_bit_Suc)
    have odd: "(y AND 1 = 1) = odd y" by (simp add: and_one_eq odd_iff_mod_2_eq_one)
    have "nat y = (if odd y then 2 * k + 1 else 2 * k)"
      unfolding k_def half using True by (auto simp: nat_mult_distrib elim!: oddE evenE)
    moreover have "1 \<le> drop_bit 1 y" unfolding half using True by simp
    then have "pow_loop (x * x) (drop_bit 1 y) (if y AND 1 = 1 then r * x else r)
        = (if odd y then r * x else r) * (x * x) ^ k"
      using 1(1) True unfolding k_def odd by blast
    moreover have "(x * x) ^ k = x ^ (2 * k)"
      by (simp add: power_mult power2_eq_square)
    ultimately show ?thesis using True
      by (subst pow_loop.simps) (simp add: mult.assoc power_add del: One_nat_def)
  next
    case False
    with 1(2) have "y = 1" by simp
    then show ?thesis by (simp add: pow_loop.simps)
  qed
qed

text \<open>The upper-case hexadecimal digits that \<open>itoa16_align\<close> writes.\<close>

definition hexch :: "u32 \<Rightarrow> u8" where
  "hexch d = (if d < 10 then ucast d + 48 else ucast d + 55)"

definition nibble :: "u32 \<Rightarrow> nat \<Rightarrow> u32" where
  "nibble num k = drop_bit (4 * k) num AND 0xF"

lemma nibble_cases:
  "nibble num k \<in> {0, 1, 2, 3, 4, 5, 6, 7, 8, 9, 10, 11, 12, 13, 14, 15}"
proof -
  have "nibble num k \<le> 15" by (simp add: nibble_def word_and_le1)
  then have "unat (nibble num k) \<le> 15" by (simp add: word_le_nat_alt)
  then have n: "unat (nibble num k) < 16" "nibble num k = word_of_nat (unat (nibble num k))"
    by simp_all
  from n(1) show ?thesis unfolding less_16 by (subst n(2), elim disjE) simp_all
qed

lemma hexch_facts:
  assumes "d \<in> {0, 1, 2, 3, 4, 5, 6, 7, 8, 9, 10, 11, 12, 13, 14, 15}"
  shows "isxdigit (promote (hexch d)) \<and> digit_value (promote (hexch d)) = d \<and> d < 16 \<and>
    hexch d \<noteq> 0 \<and> TOLOWER (promote (hexch d)) \<noteq> 120 \<and>
    hexch d = (let ch = ucast d + 48 :: u8 in if chr ch > 57 then ch + 7 else ch)"
  using assms unfolding insert_iff empty_iff
  by (elim disjE)
    (simp_all add: hexch_def promote_def digit_value_def isdigit_def isxdigit_def TOLOWER_def chr_def)

lemma hexch_set:
  assumes "c \<in> set (map (\<lambda>i. hexch (nibble num i)) ks)"
  shows "isxdigit (promote c) \<and> digit_value (promote c) < 16 \<and> c \<noteq> 0"
proof -
  obtain i where "c = hexch (nibble num i)" using assms by auto
  then show ?thesis using hexch_facts [OF nibble_cases [of num i]] by metis
qed

lemma itoa16_loop_eq:
  "itoa16_loop m p num k
     = (wr_bytes m p (map (\<lambda>i. hexch (nibble num i)) (rev [0..<k])), p + k)"
proof (induction k arbitrary: m p)
  case (Suc k)
  have "hexch (nibble num k) =
      (let ch = ucast (nibble num k) + 48 :: u8 in if chr ch > 57 then ch + 7 else ch)"
    using hexch_facts [OF nibble_cases] by blast
  then have "itoa16_loop m p num (Suc k)
      = itoa16_loop (m(p := hexch (nibble num k))) (p + 1) num k"
    by (simp only: itoa16_loop.simps Let_def nibble_def)
  then show ?case by (simp add: Suc mem_simps del: itoa16_loop.simps fun_upd_apply)
qed simp

lemma nibble_shift: "drop_bit (4 * Suc k) num * 16 + nibble num k = drop_bit (4 * k) (num :: u32)"
proof -
  let ?x = "drop_bit (4 * k) num"
  have "nibble num k = take_bit 4 ?x"
    by (simp add: nibble_def take_bit_eq_mask mask_eq_exp_minus_1)
  moreover have "drop_bit (4 * Suc k) num * 16 = push_bit 4 (drop_bit 4 ?x)"
    by (simp add: push_bit_eq_mult add.commute)
  ultimately show ?thesis using bits_ident [of 4 ?x] by simp
qed

lemma strtoul_loop_foldl:
  assumes "\<forall>c\<in>set cs. isxdigit (promote c) \<and> digit_value (promote c) < base"
    and "cstr m p cs"
  shows "strtoul_loop m p base r
    = Some (foldl (\<lambda>r c. r * base + digit_value (promote c)) r cs, p + length cs)"
  using assms
proof (induction cs arbitrary: p r)
  case Nil
  have "\<not> isxdigit (promote 0)" by (simp add: isxdigit_def promote_def)
  with Nil show ?case by (simp add: strtoul_loop.simps)
qed (simp add: strtoul_loop.simps)

lemma foldl_nibbles:
  "k \<le> 8 \<Longrightarrow> foldl (\<lambda>r c. r * 16 + digit_value (promote c)) (drop_bit (4 * k) num)
     (map (\<lambda>i. hexch (nibble num i)) (rev [0..<k])) = num"
proof (induction k)
  case (Suc k)
  have "digit_value (promote (hexch (nibble num k))) = nibble num k"
    using hexch_facts [OF nibble_cases] by blast
  with Suc show ?case using nibble_shift [of k num] by simp
qed simp

section \<open>Properties\<close>

text \<open>
  the eight hexadecimal digits that \<open>itoa16_align\<close> prints for any 32-bit value (one for
  zero) form a NUL-terminated string that \<open>strtoul\<close> in base 16 reads back as that value.
\<close>

theorem strtoul_itoa16:
  "\<exists>e. strtoul (fst (itoa16_align m p num)) p 16 = Some (num, e)"
proof (cases "num = 0")
  case True
  have "\<not> isxdigit (promote 0)" "isxdigit (promote 48)" "digit_value (promote 48) = 0"
      "TOLOWER (promote 0) \<noteq> 120"
    by (simp_all add: isxdigit_def promote_def digit_value_def isdigit_def TOLOWER_def)
  with True show ?thesis by (simp add: itoa16_align_def strtoul_def strtoul_loop.simps)
next
  case False
  let ?cs = "map (\<lambda>i. hexch (nibble num i)) (rev [0..<8])"
  let ?m = "wr_bytes m p (?cs @ [0])"
  have hex: "\<forall>c\<in>set ?cs. isxdigit (promote c) \<and> digit_value (promote c) < 16"
    using hexch_set by blast
  have "0 \<notin> set ?cs" using hexch_set by blast
  then have str: "cstr ?m p ?cs" by (rule cstr_wr_bytes)
  have "?m (p + 1) = hexch (nibble num 6)"
    using wr_bytes_inside [of 1 "?cs @ [0]" m p] by (simp add: nth_append rev_nth)
  then have "TOLOWER (promote (?m (p + 1))) \<noteq> 120"
    using hexch_facts [OF nibble_cases [of num 6]] by metis
  moreover have "strtoul_loop ?m p 16 0 = Some (num, p + length ?cs)"
    using strtoul_loop_foldl [OF hex str, of 0] foldl_nibbles [of 8 num] by simp
  moreover have "fst (itoa16_align m p num) = ?m"
    using False wr_bytes_snoc [of m p ?cs 0] by (simp add: itoa16_align_def itoa16_loop_eq)
  ultimately show ?thesis by (simp add: strtoul_def)
qed

text \<open>
  for exponents of at least 1 the square-and-multiply loop of \<open>pow\<close> computes the power
  modulo \<open>2 ^ 32\<close>; for every other exponent, zero included, it returns the base itself.
\<close>

theorem pow_correct: "c_pow x y = (if 1 \<le> y then x ^ nat y else x)"
  by (simp add: c_pow_def pow_loop_eq) (simp add: pow_loop.simps)

text \<open>
  the conversion of a 32-bit value to network order is undone by the conversion back,
  and in memory it is the value with its four bytes in reverse order.
\<close>

theorem byte_order: "ntohl (htonl x) = x \<and> le32 (htonl x) = rev (le32 x)"
proof
  show "ntohl (htonl x) = x"
    by (rule bit_word_eqI)
      (simp add: htonl_def ntohl_def bit_simps, unfold less_32, elim disjE, simp_all)
  show "le32 (htonl x) = rev (le32 x)"
    unfolding le32_def htonl_def rev.simps append.simps list.inject
    by (intro conjI refl bit_word_eqI; simp add: bit_simps; unfold less_8; elim disjE; simp)
qed

end
