(* ===== verification/KList.thy ===== *)
theory KList
  imports Prelude
begin

text \<open>
  The circular doubly linked list of \<open>include/book/list.h\<close>, on which the task, timer, wait
  and work queues of the kernel are built.

  A state \<open>links\<close> gives the two pointers of every \<open>struct List\<close> node; \<open>None\<close> is NULL. An
  operation that dereferences NULL faults (\<open>None\<close>). The node type is a parameter: each
  client says which structures embed nodes. \<open>dlist s h xs\<close> states that the list with head
  \<open>h\<close> holds exactly the nodes \<open>xs\<close>, in order, with consistent pointers in both directions.
  The lemmas say what every operation does to that list and that it leaves the other nodes
  alone. The locale \<open>node_queue\<close> states the queue contract the clients rely on.
\<close>

section \<open>Model\<close>

record 'n links =
  lprev :: "'n \<Rightarrow> 'n option"
  lnext :: "'n \<Rightarrow> 'n option"

definition set_next :: "'n \<Rightarrow> 'n option \<Rightarrow> 'n links \<Rightarrow> 'n links" where
  "set_next a v s = s\<lparr>lnext := (lnext s)(a := v)\<rparr>"

definition set_prev :: "'n \<Rightarrow> 'n option \<Rightarrow> 'n links \<Rightarrow> 'n links" where
  "set_prev a v s = s\<lparr>lprev := (lprev s)(a := v)\<rparr>"

definition INIT_LIST_HEAD :: "'n \<Rightarrow> 'n links \<Rightarrow> 'n links" where
  "INIT_LIST_HEAD list s = set_prev list (Some list) (set_next list (Some list) s)"

definition ListAdd_between :: "'n \<Rightarrow> 'n \<Rightarrow> 'n \<Rightarrow> 'n links \<Rightarrow> 'n links" where
  "ListAdd_between new p n s =
     (let s = set_prev n (Some new) s;
          s = set_next new (Some n) s;
          s = set_prev new (Some p) s
      in set_next p (Some new) s)"

definition ListAdd :: "'n \<Rightarrow> 'n \<Rightarrow> 'n links \<Rightarrow> 'n links option" where
  "ListAdd new head s = do { n \<leftarrow> lnext s head; Some (ListAdd_between new head n s) }"

definition ListAddTail :: "'n \<Rightarrow> 'n \<Rightarrow> 'n links \<Rightarrow> 'n links option" where
  "ListAddTail new head s = do { p \<leftarrow> lprev s head; Some (ListAdd_between new p head s) }"

definition ListAddBefore :: "'n \<Rightarrow> 'n \<Rightarrow> 'n links \<Rightarrow> 'n links option" where
  "ListAddBefore new node s =
     do { p \<leftarrow> lprev s node;
          let s = set_next p (Some new) s;
          let s = set_prev new (lprev s node) s;
          let s = set_next new (Some node) s;
          Some (set_prev node (Some new) s) }"

definition ListAddAfter :: "'n \<Rightarrow> 'n \<Rightarrow> 'n links \<Rightarrow> 'n links option" where
  "ListAddAfter new node s =
     do { n \<leftarrow> lnext s node;
          let s = set_prev n (Some new) s;
          let s = set_prev new (Some node) s;
          let s = set_next new (lnext s node) s;
          Some (set_next node (Some new) s) }"

definition ListDel_between :: "'n \<Rightarrow> 'n \<Rightarrow> 'n links \<Rightarrow> 'n links" where
  "ListDel_between p n s = set_next p (Some n) (set_prev n (Some p) s)"

definition ListDelNode :: "'n \<Rightarrow> 'n links \<Rightarrow> 'n links option" where
  "ListDelNode node s =
     do { p \<leftarrow> lprev s node; n \<leftarrow> lnext s node; Some (ListDel_between p n s) }"

definition ListDel :: "'n \<Rightarrow> 'n links \<Rightarrow> 'n links option" where
  "ListDel node s =
     do { s \<leftarrow> ListDelNode node s; Some (set_next node None (set_prev node None s)) }"

definition ListDelInit :: "'n \<Rightarrow> 'n links \<Rightarrow> 'n links option" where
  "ListDelInit node s = do { s \<leftarrow> ListDelNode node s; Some (INIT_LIST_HEAD node s) }"

definition ListReplace :: "'n \<Rightarrow> 'n \<Rightarrow> 'n links \<Rightarrow> 'n links option" where
  "ListReplace old new s =
     do { let s = set_next new (lnext s old) s;
          n \<leftarrow> lnext s new;
          let s = set_prev n (Some new) s;
          let s = set_prev new (lprev s old) s;
          p \<leftarrow> lprev s new;
          Some (set_next p (Some new) s) }"

definition ListReplaceInit :: "'n \<Rightarrow> 'n \<Rightarrow> 'n links \<Rightarrow> 'n links option" where
  "ListReplaceInit old new s =
     do { s \<leftarrow> ListReplace old new s; Some (INIT_LIST_HEAD old s) }"

definition ListMove :: "'n \<Rightarrow> 'n \<Rightarrow> 'n links \<Rightarrow> 'n links option" where
  "ListMove node head s = do { s \<leftarrow> ListDelNode node s; ListAdd node head s }"

definition ListMoveTail :: "'n \<Rightarrow> 'n \<Rightarrow> 'n links \<Rightarrow> 'n links option" where
  "ListMoveTail node head s = do { s \<leftarrow> ListDelNode node s; ListAddTail node head s }"

definition ListIsFirst :: "'n \<Rightarrow> 'n \<Rightarrow> 'n links \<Rightarrow> bool" where
  "ListIsFirst node head s \<longleftrightarrow> lprev s node = Some head"

definition ListIsLast :: "'n \<Rightarrow> 'n \<Rightarrow> 'n links \<Rightarrow> bool" where
  "ListIsLast node head s \<longleftrightarrow> lnext s node = Some head"

definition ListEmpty :: "'n \<Rightarrow> 'n links \<Rightarrow> bool" where
  "ListEmpty head s \<longleftrightarrow> lnext s head = Some head"

partial_function (option) ListFind_loop :: "'n links \<Rightarrow> 'n \<Rightarrow> 'n \<Rightarrow> 'n option \<Rightarrow> bool option" where
  "ListFind_loop s list head pos =
     (if pos = Some head then Some False
      else do { p \<leftarrow> pos; if p = list then Some True else ListFind_loop s list head (lnext s p) })"

definition ListFind :: "'n \<Rightarrow> 'n \<Rightarrow> 'n links \<Rightarrow> bool option" where
  "ListFind list head s = ListFind_loop s list head (lnext s head)"

partial_function (option) ListLength_loop :: "'n links \<Rightarrow> 'n \<Rightarrow> 'n option \<Rightarrow> nat \<Rightarrow> nat option" where
  "ListLength_loop s head list n =
     (if list = Some head then Some n
      else do { p \<leftarrow> list; ListLength_loop s head (lnext s p) (n + 1) })"

definition ListLength :: "'n \<Rightarrow> 'n links \<Rightarrow> nat option" where
  "ListLength head s = ListLength_loop s head (lnext s head) 0"

section \<open>The list a head denotes\<close>

lemma set_sel [simp]:
  "lnext (set_next a v s) = (lnext s)(a := v)" "lprev (set_next a v s) = lprev s"
  "lprev (set_prev a v s) = (lprev s)(a := v)" "lnext (set_prev a v s) = lnext s"
  by (simp_all add: set_next_def set_prev_def)

fun chain :: "'n links \<Rightarrow> 'n list \<Rightarrow> bool" where
  "chain s (a # b # r) \<longleftrightarrow> lnext s a = Some b \<and> lprev s b = Some a \<and> chain s (b # r)"
| "chain s _ \<longleftrightarrow> True"

definition dlist :: "'n links \<Rightarrow> 'n \<Rightarrow> 'n list \<Rightarrow> bool" where
  "dlist s h xs \<longleftrightarrow> distinct (h # xs) \<and> chain s (h # xs @ [h])"

text \<open>\<open>agree s s' A\<close>: the two states differ at most in the nodes of \<open>A\<close>.\<close>

definition agree :: "'n set \<Rightarrow> 'n links \<Rightarrow> 'n links \<Rightarrow> bool" where
  "agree A s s' \<longleftrightarrow> (\<forall>k. k \<notin> A \<longrightarrow> lnext s' k = lnext s k \<and> lprev s' k = lprev s k)"

lemma chain_append: "chain s (xs @ a # ys) \<longleftrightarrow> chain s (xs @ [a]) \<and> chain s (a # ys)"
proof (induction xs)
  case (Cons x xs)
  then show ?case by (cases xs) auto
qed simp

lemma chain_cong:
  assumes "\<And>a. a \<in> set (butlast xs) \<Longrightarrow> lnext s' a = lnext s a"
    and "\<And>a. a \<in> set (tl xs) \<Longrightarrow> lprev s' a = lprev s a"
  shows "chain s' xs = chain s xs"
  using assms
proof (induction s xs rule: chain.induct)
  case (1 s a b r)
  have "chain s' (b # r) = chain s (b # r)"
    using 1(2,3) by (intro 1(1)) (auto dest: list.set_sel(2) [rotated] split: if_splits)
  then show ?case using 1(2,3) [of b] 1(2) [of a] by simp
qed simp_all

lemma chain_frame [simp]:
  "a \<notin> set (butlast xs) \<Longrightarrow> chain (set_next a v s) xs = chain s xs"
  "a \<notin> set (tl xs) \<Longrightarrow> chain (set_prev a v s) xs = chain s xs"
  by (rule chain_cong; auto)+

lemma dlist_agree: "\<lbrakk>agree A s s'; dlist s h xs; A \<inter> set (h # xs) = {}\<rbrakk> \<Longrightarrow> dlist s' h xs"
  unfolding dlist_def agree_def
  by (subst chain_cong [of _ s' s]) (auto dest: in_set_butlastD)

lemma agree_refl [simp]: "agree A s s"
  by (simp add: agree_def)

lemma agree_trans: "agree A s s' \<Longrightarrow> agree A s' s'' \<Longrightarrow> agree A s s''"
  by (simp add: agree_def)

lemma agree_mono: "agree A s s' \<Longrightarrow> A \<subseteq> B \<Longrightarrow> agree B s s'"
  by (auto simp: agree_def)

lemma agree_set: "a \<in> A \<Longrightarrow> agree A s (set_next a v s)" "a \<in> A \<Longrightarrow> agree A s (set_prev a v s)"
  by (auto simp: agree_def)

section \<open>Insertion and deletion in the ring\<close>

text \<open>
  Both happen between two neighbours of the ring \<open>h # xs @ [h]\<close>, split as
  \<open>as @ p # q # bs\<close>: no node but the head occurs twice, so the initial and the final part
  are distinct lists.
\<close>

definition ring :: "'n list \<Rightarrow> bool" where
  "ring L \<longleftrightarrow> distinct (butlast L) \<and> distinct (tl L)"

lemma ring_dlist: "distinct (h # xs) \<Longrightarrow> ring (h # xs @ [h])"
  by (simp add: ring_def butlast_append)

lemma ring_split:
  assumes "ring (as @ p # q # bs)"
  shows "p \<notin> set as" "q \<notin> set (tl (as @ [p]))" "p \<notin> set (butlast (q # bs))" "q \<notin> set bs"
  using assms unfolding ring_def by (cases as; auto simp: butlast_append split: if_splits)+

lemma ListAdd_between_chain:
  assumes "chain s (as @ p # q # bs)" "ring (as @ p # q # bs)" "n \<notin> set (as @ p # q # bs)"
  shows "chain (ListAdd_between n p q s) (as @ p # n # q # bs)"
proof -
  from assms(1) have ch: "chain s (as @ [p])" "chain s (q # bs)"
    by (subst (asm) chain_append, simp)+
  note r = ring_split [OF assms(2)]
  have n: "n \<notin> set (butlast (as @ [p]))" "n \<notin> set (tl (as @ [p]))" "n \<notin> set (butlast (q # bs))" "n \<noteq> p" "n \<noteq> q"
    using assms(3) by (auto simp: tl_append split: list.splits dest: in_set_butlastD)
  have "chain (ListAdd_between n p q s) (as @ [p])"
    unfolding ListAdd_between_def Let_def using ch n r assms(3)
    by (simp del: butlast.simps tl_append2)
  moreover have "chain (ListAdd_between n p q s) (q # bs)"
    unfolding ListAdd_between_def Let_def using ch n r assms(3)
    by (simp del: butlast.simps)
  ultimately show ?thesis
    using n by (subst chain_append) (simp add: ListAdd_between_def)
qed

lemma ListDel_between_chain:
  assumes "chain s (as @ p # n # q # bs)" "ring (as @ p # n # q # bs)"
  shows "chain (ListDel_between p q s) (as @ p # q # bs)"
proof -
  from assms(1) have ch: "chain s (as @ [p])" "chain s (q # bs)"
    by (subst (asm) chain_append, simp)+
  have r: "p \<notin> set as" "q \<notin> set (tl (as @ [p]))" "p \<notin> set (butlast (q # bs))" "q \<notin> set bs"
    using assms(2) unfolding ring_def by (cases as; auto simp: butlast_append split: if_splits)+
  have "chain (ListDel_between p q s) (as @ [p])" "chain (ListDel_between p q s) (q # bs)"
    unfolding ListDel_between_def using ch r by (simp_all del: butlast.simps tl_append2)
  then show ?thesis by (subst chain_append) (simp add: ListDel_between_def)
qed

lemma ListAdd_between_agree: "agree {n, p, q} s (ListAdd_between n p q s)"
  by (simp add: ListAdd_between_def agree_def)

lemma ListDel_between_agree: "agree {p, q} s (ListDel_between p q s)"
  by (simp add: ListDel_between_def agree_def)

section \<open>What each operation does to a list\<close>

lemma dlist_INIT [simp, intro]: "dlist (INIT_LIST_HEAD h s) h []"
  by (simp add: dlist_def INIT_LIST_HEAD_def)

lemma INIT_agree: "agree {h} s (INIT_LIST_HEAD h s)"
  by (simp add: INIT_LIST_HEAD_def agree_def)

lemma dlist_distinct: "dlist s h xs \<Longrightarrow> distinct xs" "dlist s h xs \<Longrightarrow> h \<notin> set xs"
  by (simp_all add: dlist_def)

lemma dlist_next_head: "dlist s h xs \<Longrightarrow> lnext s h = Some (hd (xs @ [h]))"
  by (cases xs) (simp_all add: dlist_def)

lemma dlist_prev_head: "dlist s h xs \<Longrightarrow> lprev s h = Some (last (h # xs))"
  by (cases xs rule: rev_cases) (simp_all add: dlist_def chain_append [of s "h # _" _ "[h]", simplified])

lemma dlist_links:
  assumes "dlist s h (ys @ n # zs)"
  shows "lnext s n = Some (hd (zs @ [h]))" "lprev s n = Some (last (h # ys))"
proof -
  from assms have c: "chain s ((h # ys) @ n # zs @ [h])" by (simp add: dlist_def)
  then have "chain s (n # zs @ [h])" by (subst (asm) chain_append) simp
  then show "lnext s n = Some (hd (zs @ [h]))" by (cases zs) simp_all
  from c have "chain s ((h # ys) @ [n])" by (subst (asm) chain_append) simp
  then show "lprev s n = Some (last (h # ys))"
    by (cases ys rule: rev_cases) (simp_all add: chain_append [of s "h # _" _ "[n]", simplified])
qed

lemma ListEmpty_dlist [simp]: "dlist s h xs \<Longrightarrow> ListEmpty h s \<longleftrightarrow> xs = []"
  by (cases xs) (auto simp: ListEmpty_def dlist_def)

lemma dlist_insert:
  assumes "dlist s h (ys @ zs)" "n \<notin> set (h # ys @ zs)"
  defines "p \<equiv> last (h # ys)" and "q \<equiv> hd (zs @ [h])"
  shows "dlist (ListAdd_between n p q s) h (ys @ n # zs)"
    "agree (set (h # n # ys @ zs)) s (ListAdd_between n p q s)"
proof -
  have eq: "h # (ys @ zs) @ [h] = butlast (h # ys) @ p # q # tl (zs @ [h])"
    using append_butlast_last_id [of "h # ys"] unfolding p_def q_def by (cases zs; simp split: if_splits)
  from assms have "chain s (butlast (h # ys) @ p # q # tl (zs @ [h]))"
      "ring (butlast (h # ys) @ p # q # tl (zs @ [h]))" "n \<notin> set (butlast (h # ys) @ p # q # tl (zs @ [h]))"
    unfolding eq [symmetric] using ring_dlist [of h "ys @ zs"] by (auto simp: dlist_def)
  from ListAdd_between_chain [OF this]
  have "chain (ListAdd_between n p q s) (butlast (h # ys) @ p # n # q # tl (zs @ [h]))" .
  also have "butlast (h # ys) @ p # n # q # tl (zs @ [h]) = h # (ys @ n # zs) @ [h]"
    using append_butlast_last_id [of "h # ys"] unfolding p_def q_def by (cases zs; simp split: if_splits)
  finally show "dlist (ListAdd_between n p q s) h (ys @ n # zs)"
    using assms by (auto simp: dlist_def)
  have "p \<in> set (h # ys)" "q \<in> set (zs @ [h])"
    unfolding p_def q_def by (auto intro: last_in_set) (cases zs; simp)
  then show "agree (set (h # n # ys @ zs)) s (ListAdd_between n p q s)"
    by (intro agree_mono [OF ListAdd_between_agree]) auto
qed

lemma dlist_delete:
  assumes "dlist s h (ys @ n # zs)"
  defines "p \<equiv> last (h # ys)" and "q \<equiv> hd (zs @ [h])"
  shows "dlist (ListDel_between p q s) h (ys @ zs)"
    "agree (set (h # ys @ zs)) s (ListDel_between p q s)"
    "ListDelNode n s = Some (ListDel_between p q s)"
proof -
  have eq: "h # (ys @ n # zs) @ [h] = butlast (h # ys) @ p # n # q # tl (zs @ [h])"
    "h # (ys @ zs) @ [h] = butlast (h # ys) @ p # q # tl (zs @ [h])"
    using append_butlast_last_id [of "h # ys"] unfolding p_def q_def
    by (cases zs; simp split: if_splits)+
  have "chain s (butlast (h # ys) @ p # n # q # tl (zs @ [h]))"
      "ring (butlast (h # ys) @ p # n # q # tl (zs @ [h]))"
    unfolding eq(1) [symmetric] using assms(1) ring_dlist [of h "ys @ n # zs"] by (auto simp: dlist_def)
  from ListDel_between_chain [OF this] show "dlist (ListDel_between p q s) h (ys @ zs)"
    using assms(1) unfolding eq(2) [symmetric] by (auto simp: dlist_def)
  have "p \<in> set (h # ys)" "q \<in> set (zs @ [h])"
    unfolding p_def q_def by (auto intro: last_in_set) (cases zs; simp)
  then show "agree (set (h # ys @ zs)) s (ListDel_between p q s)"
    by (intro agree_mono [OF ListDel_between_agree]) auto
  show "ListDelNode n s = Some (ListDel_between p q s)"
    using dlist_links [OF assms(1)] by (simp add: ListDelNode_def p_def q_def)
qed

lemma ListAdd_dlist:
  assumes "dlist s h xs" "n \<notin> set (h # xs)"
  shows "\<exists>s'. ListAdd n h s = Some s' \<and> dlist s' h (n # xs) \<and> agree (set (h # n # xs)) s s'"
  using dlist_insert [of s h "[]" xs n] assms
  by (simp add: ListAdd_def dlist_next_head [OF assms(1)])

lemma ListAddTail_dlist:
  assumes "dlist s h xs" "n \<notin> set (h # xs)"
  shows "\<exists>s'. ListAddTail n h s = Some s' \<and> dlist s' h (xs @ [n]) \<and> agree (set (h # n # xs)) s s'"
  using dlist_insert [of s h xs "[]" n] assms
  by (simp add: ListAddTail_def dlist_prev_head [OF assms(1)])

lemma ListAddBefore_eq:
  assumes "lprev s node = Some p" "n \<noteq> node" "n \<noteq> p"
  shows "ListAddBefore n node s = Some (ListAdd_between n p node s)"
  using assms
  by (auto simp: ListAddBefore_def ListAdd_between_def Let_def set_next_def set_prev_def fun_upd_twist)

lemma ListAddAfter_eq:
  assumes "lnext s node = Some q" "n \<noteq> node" "n \<noteq> q"
  shows "ListAddAfter n node s = Some (ListAdd_between n node q s)"
  using assms
  by (auto simp: ListAddAfter_def ListAdd_between_def Let_def set_next_def set_prev_def fun_upd_twist)

lemma ListAddBefore_dlist:
  assumes "dlist s h (ys @ a # zs)" "n \<notin> set (h # ys @ a # zs)"
  shows "\<exists>s'. ListAddBefore n a s = Some s' \<and> dlist s' h (ys @ n # a # zs)"
proof -
  have "last (h # ys) \<in> set (h # ys)" by (rule last_in_set) simp
  with assms(2) have "n \<noteq> a" "n \<noteq> last (h # ys)" by auto
  with dlist_insert(1) [of s h ys "a # zs" n] assms show ?thesis
    by (simp add: ListAddBefore_eq [OF dlist_links(2) [OF assms(1)]])
qed

lemma ListAddAfter_dlist:
  assumes "dlist s h (ys @ a # zs)" "n \<notin> set (h # ys @ a # zs)"
  shows "\<exists>s'. ListAddAfter n a s = Some s' \<and> dlist s' h (ys @ a # n # zs)"
proof -
  have "hd (zs @ [h]) \<in> set (zs @ [h])" by (rule hd_in_set) simp
  with assms(2) have "n \<noteq> a" "n \<noteq> hd (zs @ [h])" by auto
  with dlist_insert(1) [of s h "ys @ [a]" zs n] assms show ?thesis
    by (simp add: ListAddAfter_eq [OF dlist_links(1) [OF assms(1)]])
qed

lemma dlist_clear_node:
  "dlist s h xs \<Longrightarrow> n \<notin> set (h # xs) \<Longrightarrow> agree {n} s s' \<Longrightarrow> dlist s' h xs"
  by (rule dlist_agree) auto

lemma ListDel_dlist:
  assumes "dlist s h xs" "n \<in> set xs"
  shows "\<exists>s'. ListDel n s = Some s' \<and> dlist s' h (remove1 n xs) \<and> agree (set (h # xs)) s s' \<and>
    lnext s' n = None \<and> lprev s' n = None"
proof -
  obtain ys zs where xs: "xs = ys @ n # zs" "n \<notin> set ys" using split_list_first [OF assms(2)] by auto
  with assms(1) have d: "dlist s h (ys @ n # zs)" and n: "n \<noteq> h" "n \<notin> set zs" by (auto simp: dlist_def)
  let ?s1 = "ListDel_between (last (h # ys)) (hd (zs @ [h])) s"
  let ?s2 = "set_next n None (set_prev n None ?s1)"
  note del = dlist_delete [OF d]
  have a: "agree {n} ?s1 ?s2" by (simp add: agree_def)
  have "dlist ?s2 h (ys @ zs)" using del(1) a n xs by (intro dlist_clear_node [OF _ _ a]) auto
  moreover have "agree (set (h # xs)) s ?s2"
    by (rule agree_trans [OF agree_mono [OF del(2)] agree_mono [OF a]]) (auto simp: xs)
  moreover have "ListDel n s = Some ?s2" by (simp add: ListDel_def del(3) del: last.simps)
  ultimately show ?thesis using xs by (simp add: remove1_append)
qed

lemma ListDelInit_dlist:
  assumes "dlist s h xs" "n \<in> set xs"
  shows "\<exists>s'. ListDelInit n s = Some s' \<and> dlist s' h (remove1 n xs) \<and> agree (set (h # xs)) s s' \<and>
    dlist s' n []"
proof -
  obtain ys zs where xs: "xs = ys @ n # zs" "n \<notin> set ys" using split_list_first [OF assms(2)] by auto
  with assms(1) have d: "dlist s h (ys @ n # zs)" and n: "n \<noteq> h" "n \<notin> set zs" by (auto simp: dlist_def)
  let ?s1 = "ListDel_between (last (h # ys)) (hd (zs @ [h])) s"
  note del = dlist_delete [OF d]
  have "dlist (INIT_LIST_HEAD n ?s1) h (ys @ zs)"
    using del(1) n xs by (intro dlist_clear_node [OF _ _ INIT_agree]) auto
  moreover have "agree (set (h # xs)) s (INIT_LIST_HEAD n ?s1)"
    by (rule agree_trans [OF agree_mono [OF del(2)] agree_mono [OF INIT_agree]]) (auto simp: xs)
  moreover have "ListDelInit n s = Some (INIT_LIST_HEAD n ?s1)"
    by (simp add: ListDelInit_def del(3) del: last.simps)
  ultimately show ?thesis using xs by (simp add: remove1_append)
qed

lemma ListDelNode_dlist:
  assumes "dlist s h xs" "n \<in> set xs"
  shows "\<exists>s'. ListDelNode n s = Some s' \<and> dlist s' h (remove1 n xs) \<and> agree (set (h # remove1 n xs)) s s'"
proof -
  obtain ys zs where xs: "xs = ys @ n # zs" "n \<notin> set ys" using split_list_first [OF assms(2)] by auto
  with assms(1) have d: "dlist s h (ys @ n # zs)" by simp
  show ?thesis using dlist_delete [OF d] xs by (auto simp: remove1_append simp del: last.simps)
qed

lemma ListMove_dlist:
  assumes "dlist s h xs" "n \<in> set xs" "dlist s g ys" "set (h # xs) \<inter> set (g # ys) = {}"
  shows "\<exists>s'. ListMove n g s = Some s' \<and> dlist s' h (remove1 n xs) \<and> dlist s' g (n # ys)"
proof -
  obtain s1 where s1: "ListDelNode n s = Some s1" "dlist s1 h (remove1 n xs)"
      "agree (set (h # remove1 n xs)) s s1"
    using ListDelNode_dlist [OF assms(1,2)] by auto
  have sub: "set (remove1 n xs) \<subseteq> set xs" by (rule set_remove1_subset)
  then have "set (h # remove1 n xs) \<inter> set (g # ys) = {}" using assms(4) by auto
  then have "dlist s1 g ys" by (rule dlist_agree [OF s1(3) assms(3)])
  moreover have "n \<notin> set (g # ys)" using assms(2,4) by auto
  ultimately obtain s2 where s2: "ListAdd n g s1 = Some s2" "dlist s2 g (n # ys)" "agree (set (g # n # ys)) s1 s2"
    using ListAdd_dlist [of s1 g ys n] by auto
  have "n \<notin> set (remove1 n xs)" "n \<noteq> h" using assms(1,2) by (auto simp: dlist_def)
  then have "set (g # n # ys) \<inter> set (h # remove1 n xs) = {}" using sub assms(4) by auto
  then have "dlist s2 h (remove1 n xs)" by (rule dlist_agree [OF s2(3) s1(2)])
  with s1 s2 show ?thesis by (simp add: ListMove_def)
qed

lemma ListMoveTail_dlist:
  assumes "dlist s h xs" "n \<in> set xs" "dlist s g ys" "set (h # xs) \<inter> set (g # ys) = {}"
  shows "\<exists>s'. ListMoveTail n g s = Some s' \<and> dlist s' h (remove1 n xs) \<and> dlist s' g (ys @ [n])"
proof -
  obtain s1 where s1: "ListDelNode n s = Some s1" "dlist s1 h (remove1 n xs)"
      "agree (set (h # remove1 n xs)) s s1"
    using ListDelNode_dlist [OF assms(1,2)] by auto
  have sub: "set (remove1 n xs) \<subseteq> set xs" by (rule set_remove1_subset)
  then have "set (h # remove1 n xs) \<inter> set (g # ys) = {}" using assms(4) by auto
  then have "dlist s1 g ys" by (rule dlist_agree [OF s1(3) assms(3)])
  moreover have "n \<notin> set (g # ys)" using assms(2,4) by auto
  ultimately obtain s2 where s2: "ListAddTail n g s1 = Some s2" "dlist s2 g (ys @ [n])" "agree (set (g # n # ys)) s1 s2"
    using ListAddTail_dlist [of s1 g ys n] by auto
  have "n \<notin> set (remove1 n xs)" "n \<noteq> h" using assms(1,2) by (auto simp: dlist_def)
  then have "set (g # n # ys) \<inter> set (h # remove1 n xs) = {}" using sub assms(4) by auto
  then have "dlist s2 h (remove1 n xs)" by (rule dlist_agree [OF s2(3) s1(2)])
  with s1 s2 show ?thesis by (simp add: ListMoveTail_def)
qed

lemma ListMoveTail_same:
  assumes "dlist s h xs" "n \<in> set xs"
  shows "\<exists>s'. ListMoveTail n h s = Some s' \<and> dlist s' h (remove1 n xs @ [n])"
proof -
  obtain s1 where s1: "ListDelNode n s = Some s1" "dlist s1 h (remove1 n xs)"
    using ListDelNode_dlist [OF assms(1,2)] by auto
  moreover have "n \<notin> set (h # remove1 n xs)" using assms dlist_distinct [OF assms(1)] by auto
  ultimately show ?thesis using ListAddTail_dlist [of s1 h "remove1 n xs" n] by (auto simp: ListMoveTail_def)
qed

lemma ListReplace_dlist:
  assumes "dlist s h (ys @ a # zs)" "n \<notin> set (h # ys @ a # zs)"
  shows "\<exists>s'. ListReplace a n s = Some s' \<and> dlist s' h (ys @ n # zs)"
proof -
  let ?p = "last (h # ys)" and ?q = "hd (zs @ [h])"
  have pq: "?p \<in> set (h # ys)" "?q \<in> set (zs @ [h])"
    by (auto intro: last_in_set) (cases zs; simp)
  have ne: "n \<noteq> a" "n \<noteq> ?p" "n \<noteq> ?q" "a \<noteq> ?q"
    using pq assms by (auto simp: dlist_def simp del: last.simps)
  have "ListReplace a n s = Some (ListAdd_between n ?p ?q s)"
    using dlist_links [OF assms(1)] ne
    by (simp add: ListReplace_def ListAdd_between_def Let_def set_next_def set_prev_def fun_upd_twist del: last.simps)
  also have "ListAdd_between n ?p ?q s = ListAdd_between n ?p ?q (ListDel_between ?p ?q s)"
    using ne by (auto simp: ListAdd_between_def ListDel_between_def Let_def set_next_def set_prev_def
      fun_upd_twist simp del: last.simps)
  finally show ?thesis
    using dlist_insert(1) [OF dlist_delete(1) [OF assms(1)], of n] assms(2) by (simp del: last.simps)
qed

lemma ListIsFirst_dlist: "dlist s h xs \<Longrightarrow> n \<in> set xs \<Longrightarrow> ListIsFirst n h s \<longleftrightarrow> n = hd xs"
proof -
  assume d: "dlist s h xs" and n: "n \<in> set xs"
  obtain ys zs where xs: "xs = ys @ n # zs" using split_list [OF n] by auto
  have "lprev s n = Some (last (h # ys))" using d dlist_links xs by metis
  moreover have "last ys \<in> set ys" if "ys \<noteq> []" using that by simp
  moreover have "distinct (h # xs)" using d by (simp add: dlist_def)
  moreover have "hd ys \<in> set ys" if "ys \<noteq> []" using that by simp
  ultimately show ?thesis using xs by (cases "ys = []") (auto simp: ListIsFirst_def hd_append)
qed

lemma ListFind_loop_chain:
  "\<lbrakk>chain s (xs @ [h]); h \<notin> set xs\<rbrakk> \<Longrightarrow> ListFind_loop s n h (Some (hd (xs @ [h]))) = Some (n \<in> set xs)"
proof (induction xs)
  case (Cons x xs)
  have "lnext s x = Some (hd (xs @ [h]))" using Cons.prems by (cases xs) auto
  moreover have "chain s (xs @ [h])" using Cons.prems by (cases xs) auto
  ultimately show ?case
    using Cons by (subst ListFind_loop.simps) auto
qed (subst ListFind_loop.simps, simp)

lemma ListFind_dlist: "dlist s h xs \<Longrightarrow> ListFind n h s = Some (n \<in> set xs)"
proof -
  assume d: "dlist s h xs"
  then have "chain s (xs @ [h])" by (cases xs) (auto simp: dlist_def)
  with d show ?thesis
    by (simp add: ListFind_def dlist_next_head ListFind_loop_chain dlist_def)
qed

lemma ListLength_loop_chain:
  "\<lbrakk>chain s (xs @ [h]); h \<notin> set xs\<rbrakk> \<Longrightarrow> ListLength_loop s h (Some (hd (xs @ [h]))) k = Some (k + length xs)"
proof (induction xs arbitrary: k)
  case (Cons x xs)
  have "lnext s x = Some (hd (xs @ [h]))" using Cons.prems by (cases xs) auto
  moreover have "chain s (xs @ [h])" using Cons.prems by (cases xs) auto
  ultimately show ?case
    using Cons by (subst ListLength_loop.simps) auto
qed (subst ListLength_loop.simps, simp)

lemma ListLength_dlist: "dlist s h xs \<Longrightarrow> ListLength h s = Some (length xs)"
proof -
  assume d: "dlist s h xs"
  then have "chain s (xs @ [h])" by (cases xs) (auto simp: dlist_def)
  with d show ?thesis
    by (simp add: ListLength_def dlist_next_head ListLength_loop_chain dlist_def)
qed

section \<open>The queue contract\<close>

text \<open>Appending all nodes of a list, and taking \<open>k\<close> nodes from the front, with given operations.\<close>

fun enq_all :: "('n \<Rightarrow> 's \<Rightarrow> 's option) \<Rightarrow> 'n list \<Rightarrow> 's \<Rightarrow> 's option" where
  "enq_all app [] s = Some s"
| "enq_all app (n # ns) s = do { s \<leftarrow> app n s; enq_all app ns s }"

fun deq_n :: "('s \<Rightarrow> 'n option) \<Rightarrow> ('n \<Rightarrow> 's \<Rightarrow> 's option) \<Rightarrow> nat \<Rightarrow> 's \<Rightarrow> ('n list \<times> 's) option" where
  "deq_n first del 0 s = Some ([], s)"
| "deq_n first del (Suc k) s =
     do { n \<leftarrow> first s; s \<leftarrow> del n s; (ns, s) \<leftarrow> deq_n first del k s; Some (n # ns, s) }"

locale node_queue =
  fixes holds :: "'s \<Rightarrow> 'n list \<Rightarrow> bool" and ok :: "'n \<Rightarrow> bool"
    and push app del :: "'n \<Rightarrow> 's \<Rightarrow> 's option" and first :: "'s \<Rightarrow> 'n option"
  assumes push: "\<lbrakk>holds s xs; ok n; n \<notin> set xs\<rbrakk> \<Longrightarrow> \<exists>s'. push n s = Some s' \<and> holds s' (n # xs)"
    and app: "\<lbrakk>holds s xs; ok n; n \<notin> set xs\<rbrakk> \<Longrightarrow> \<exists>s'. app n s = Some s' \<and> holds s' (xs @ [n])"
    and del: "\<lbrakk>holds s xs; n \<in> set xs\<rbrakk> \<Longrightarrow> \<exists>s'. del n s = Some s' \<and> holds s' (remove1 n xs)"
    and first: "\<lbrakk>holds s xs; xs \<noteq> []\<rbrakk> \<Longrightarrow> first s = Some (hd xs)"
begin

lemma enq_all: "\<lbrakk>holds s xs; distinct (xs @ ys); \<forall>n\<in>set ys. ok n\<rbrakk> \<Longrightarrow>
    \<exists>s'. enq_all app ys s = Some s' \<and> holds s' (xs @ ys)"
proof (induction ys arbitrary: s xs)
  case (Cons y ys)
  then obtain s1 where s1: "app y s = Some s1" "holds s1 (xs @ [y])" using app [of s xs y] by auto
  from Cons.IH [OF s1(2)] Cons.prems s1(1) show ?case by auto
qed simp

lemma deq_n: "holds s xs \<Longrightarrow> k \<le> length xs \<Longrightarrow>
    \<exists>s'. deq_n first del k s = Some (take k xs, s') \<and> holds s' (drop k xs)"
proof (induction k arbitrary: s xs)
  case (Suc k)
  then obtain x ys where xs: "xs = x # ys" by (cases xs) auto
  with Suc.prems obtain s1 where s1: "del x s = Some s1" "holds s1 ys" using del [of s xs x] by auto
  from Suc.IH [OF s1(2)] Suc.prems s1(1) xs first [OF Suc.prems(1)] show ?case by auto
qed simp

lemma fifo: "\<lbrakk>holds s xs; distinct (xs @ ys); \<forall>n\<in>set ys. ok n\<rbrakk> \<Longrightarrow>
    \<exists>s1 s2. enq_all app ys s = Some s1 \<and>
      deq_n first del (length (xs @ ys)) s1 = Some (xs @ ys, s2) \<and> holds s2 []"
  using enq_all [of s xs ys] deq_n [of _ "xs @ ys" "length (xs @ ys)"] by fastforce

text \<open>One turn: the first node goes to the back.\<close>

lemma turn: "\<lbrakk>holds s (x # xs); ok x; distinct (x # xs)\<rbrakk> \<Longrightarrow>
    \<exists>s1 s2. first s = Some x \<and> del x s = Some s1 \<and> app x s1 = Some s2 \<and> holds s2 (xs @ [x])"
  using first [of s "x # xs"] del [of s "x # xs" x] app [of _ xs x] by fastforce

end

interpretation lq: node_queue "\<lambda>s. dlist s h" "\<lambda>n. n \<noteq> h" "\<lambda>n. ListAdd n h" "\<lambda>n. ListAddTail n h"
    "ListDel" "\<lambda>s. lnext s h" for h :: 'n
  by unfold_locales (use ListAdd_dlist ListAddTail_dlist ListDel_dlist dlist_next_head in fastforce)+

section \<open>Properties\<close>

text \<open>
  C32: nodes appended to a list with \<open>ListAddTail\<close> and taken from its front with
  \<open>ListFirstOwner\<close> and \<open>ListDel\<close> come out first in, first out, after the nodes the list held
  before, with no fault, and leave it empty.
\<close>

theorem list_fifo:
  assumes "dlist s h xs" "distinct (h # xs @ ys)"
  shows "\<exists>s1 s2. enq_all (\<lambda>n. ListAddTail n h) ys s = Some s1 \<and>
    deq_n (\<lambda>s. lnext s h) ListDel (length (xs @ ys)) s1 = Some (xs @ ys, s2) \<and> dlist s2 h []"
  by (rule lq.fifo) (use assms in auto)

theorem list_fifo_witness:
  "\<exists>s1 s2. enq_all (\<lambda>n. ListAddTail n (0::nat)) [1, 2, 3] (INIT_LIST_HEAD 0 \<lparr>lprev = \<lambda>_. None, lnext = \<lambda>_. None\<rparr>) = Some s1 \<and>
    deq_n (\<lambda>s. lnext s 0) ListDel (length ([] @ [1, 2, 3 :: nat])) s1 = Some ([] @ [1, 2, 3], s2) \<and> dlist s2 0 []"
  by (rule list_fifo [OF dlist_INIT]) simp

text \<open>
  \<open>ListMoveTail\<close> takes a node out of the list it is on and appends it to another one;
  both stay well-formed rings, and every other node keeps its place and its order.
\<close>

theorem list_move_tail:
  assumes "dlist s h (xs @ n # ys)" "dlist s g zs" "set (h # xs @ n # ys) \<inter> set (g # zs) = {}"
  shows "\<exists>s'. ListMoveTail n g s = Some s' \<and> dlist s' h (xs @ ys) \<and> dlist s' g (zs @ [n])"
proof -
  have "n \<notin> set xs" using assms(1) by (auto simp: dlist_def)
  then have "remove1 n (xs @ n # ys) = xs @ ys" by (simp add: remove1_append)
  then show ?thesis using ListMoveTail_dlist [OF assms(1) _ assms(2,3), of n] by auto
qed

end
