(* ===== verification/SigSet.thy ===== *)
theory SigSet
  imports Prelude
begin

text \<open>
  Signal numbers and signal sets (\<open>include/share/signal.h\<close>, \<open>share/signal.c\<close>). A \<open>sigset_t\<close> is
  a 32-bit word; bit \<open>i\<close> stands for signal \<open>i\<close>, \<open>1 \<le> i < 32\<close>, and bit 0 marks an
  initialised set. Every operation that can fail returns its result code and the new set.

  The locale \<open>signal_set\<close> is the contract the signal code relies on: a set with a member test
  whose updates touch one legal member. It is interpreted on the C operations.
\<close>

section \<open>Model\<close>

type_synonym sigset = u32

definition SIGHUP :: int where "SIGHUP = 1"
definition SIGINT :: int where "SIGINT = 2"
definition SIGQUIT :: int where "SIGQUIT = 3"
definition SIGILL :: int where "SIGILL = 4"
definition SIGTRAP :: int where "SIGTRAP = 5"
definition SIGABRT :: int where "SIGABRT = 6"
definition SIGBUS :: int where "SIGBUS = 7"
definition SIGFPE :: int where "SIGFPE = 8"
definition SIGKILL :: int where "SIGKILL = 9"
definition SIGUSR1 :: int where "SIGUSR1 = 10"
definition SIGSEGV :: int where "SIGSEGV = 11"
definition SIGUSR2 :: int where "SIGUSR2 = 12"
definition SIGALRM :: int where "SIGALRM = 14"
definition SIGCHLD :: int where "SIGCHLD = 17"
definition SIGCONT :: int where "SIGCONT = 18"
definition SIGSTOP :: int where "SIGSTOP = 19"
definition SIGTSTP :: int where "SIGTSTP = 20"
definition SIGTTIN :: int where "SIGTTIN = 21"
definition SIGTTOU :: int where "SIGTTOU = 22"
definition SIGURG :: int where "SIGURG = 23"
definition SIGXCPU :: int where "SIGXCPU = 24"
definition SIGXFSZ :: int where "SIGXFSZ = 25"
definition SIGWINCH :: int where "SIGWINCH = 28"
definition MAX_SIGNAL_NR :: int where "MAX_SIGNAL_NR = 32"

lemmas signal_numbers = SIGHUP_def SIGINT_def SIGQUIT_def SIGILL_def SIGTRAP_def SIGABRT_def
  SIGBUS_def SIGFPE_def SIGKILL_def SIGUSR1_def SIGSEGV_def SIGUSR2_def SIGALRM_def SIGCHLD_def
  SIGCONT_def SIGSTOP_def SIGTSTP_def SIGTTIN_def SIGTTOU_def SIGURG_def SIGXCPU_def SIGXFSZ_def
  SIGWINCH_def MAX_SIGNAL_NR_def

definition IS_BAD_SIGNAL :: "int \<Rightarrow> bool" where
  "IS_BAD_SIGNAL signo \<longleftrightarrow> signo < 1 \<or> signo \<ge> MAX_SIGNAL_NR"

definition sigbit :: "int \<Rightarrow> u32" where
  "sigbit signo = push_bit (nat signo) 1"

definition sigaddset :: "sigset \<Rightarrow> int \<Rightarrow> int \<times> sigset" where
  "sigaddset sigs signo =
     (if IS_BAD_SIGNAL signo then (-1, sigs) else (0, sigs OR sigbit signo))"

definition sigdelset :: "sigset \<Rightarrow> int \<Rightarrow> int \<times> sigset" where
  "sigdelset sigs signo =
     (if IS_BAD_SIGNAL signo then (-1, sigs) else (0, sigs AND NOT (sigbit signo)))"

definition sigemptyset :: "sigset \<Rightarrow> int \<times> sigset" where
  "sigemptyset sigs = (0, 1)"

definition sigfillset :: "sigset \<Rightarrow> int \<times> sigset" where
  "sigfillset sigs = (0, 0xffffffff)"

definition sigismember :: "sigset \<Rightarrow> int \<Rightarrow> u32" where
  "sigismember sigs signo =
     (if IS_BAD_SIGNAL signo then 0 else sigs AND sigbit signo)"

definition sigisempty :: "sigset \<Rightarrow> int" where
  "sigisempty sigs = (if sigs > 1 then 0 else 1)"

definition sigisfull :: "sigset \<Rightarrow> int" where
  "sigisfull sigs = (if sigs = 0xffffffff then 1 else 0)"

section \<open>The contract of a signal set\<close>

locale signal_set =
  fixes member :: "'s \<Rightarrow> int \<Rightarrow> bool" and add del :: "'s \<Rightarrow> int \<Rightarrow> 's" and empty :: 's
    and legal :: "int \<Rightarrow> bool"
  assumes member_legal: "member s i \<Longrightarrow> legal i"
    and add: "member (add s i) j \<longleftrightarrow> (j = i \<and> legal i) \<or> member s j"
    and del: "member (del s i) j \<longleftrightarrow> j \<noteq> i \<and> member s j"
    and empty: "\<not> member empty i"
begin

text \<open>The members after deleting or adding a list of signals.\<close>

lemma del_all: "member (fold (\<lambda>i s. del s i) is s) j \<longleftrightarrow> j \<notin> set is \<and> member s j"
  by (induction "is" arbitrary: s) (auto simp: del)

lemma add_all: "member (fold (\<lambda>i s. add s i) is s) j \<longleftrightarrow> (j \<in> set is \<and> legal j) \<or> member s j"
  by (induction "is" arbitrary: s) (auto simp: add)

lemma add_del: "\<not> member s i \<Longrightarrow> member (del (add s i) i) j \<longleftrightarrow> member s j"
  by (auto simp: add del)

end

lemma sigbit_and: "m AND sigbit i = 0 \<longleftrightarrow> \<not> bit m (nat i)"
  using and_exp_eq_0_iff_not_bit [of m "nat i"] by (simp add: sigbit_def push_bit_eq_mult)

definition has_sig :: "sigset \<Rightarrow> int \<Rightarrow> bool" where
  "has_sig m i \<longleftrightarrow> sigismember m i \<noteq> 0"

lemma has_sig_bit: "has_sig m i \<longleftrightarrow> \<not> IS_BAD_SIGNAL i \<and> bit m (nat i)"
  by (simp add: has_sig_def sigismember_def sigbit_and)

lemma bad_signal_nat: "\<not> IS_BAD_SIGNAL i \<Longrightarrow> nat i < 32 \<and> 0 < nat i"
  by (auto simp: IS_BAD_SIGNAL_def MAX_SIGNAL_NR_def)

lemma has_sig_add: "has_sig (snd (sigaddset m i)) j \<longleftrightarrow> (j = i \<and> \<not> IS_BAD_SIGNAL i) \<or> has_sig m j"
proof (cases "IS_BAD_SIGNAL i \<or> IS_BAD_SIGNAL j")
  case False
  then show ?thesis using bad_signal_nat [of i] bad_signal_nat [of j]
    by (auto simp: has_sig_bit sigaddset_def sigbit_def bit_simps)
qed (auto simp: has_sig_bit sigaddset_def)

lemma has_sig_del: "has_sig (snd (sigdelset m i)) j \<longleftrightarrow> j \<noteq> i \<and> has_sig m j"
proof (cases "IS_BAD_SIGNAL i \<or> IS_BAD_SIGNAL j")
  case False
  then show ?thesis using bad_signal_nat [of i] bad_signal_nat [of j]
    by (auto simp: has_sig_bit sigdelset_def sigbit_def bit_simps)
qed (auto simp: has_sig_bit sigdelset_def)

interpretation ss: signal_set has_sig "\<lambda>m i. snd (sigaddset m i)" "\<lambda>m i. snd (sigdelset m i)"
    "snd (sigemptyset m)" "\<lambda>i. \<not> IS_BAD_SIGNAL i" for m
proof
  show "\<not> has_sig (snd (sigemptyset m)) i" for i
    using bad_signal_nat [of i] by (auto simp: has_sig_bit sigemptyset_def bit_1_iff)
qed (simp_all add: has_sig_add has_sig_del, simp add: has_sig_bit)

lemma no_sig_iff: "(\<forall>i. \<not> has_sig m i) \<longleftrightarrow> m = 0 \<or> m = 1"
proof
  assume none: "\<forall>i. \<not> has_sig m i"
  have high: "\<not> bit m n" if "0 < n" "n < 32" for n
    using spec [OF none, of "int n"] that by (auto simp: has_sig_bit IS_BAD_SIGNAL_def MAX_SIGNAL_NR_def)
  show "m = 0 \<or> m = 1"
  proof (cases "bit m 0")
    case True
    have "m = 1" by (rule bit_word_eqI) (use high True in \<open>auto simp: bit_1_iff intro: gr0I\<close>)
    then show ?thesis ..
  next
    case False
    have "\<not> bit m n" if "n < 32" for n using that high [of n] False by (cases n) auto
    then have "m = 0" by (intro bit_word_eqI) auto
    then show ?thesis ..
  qed
qed (use ss.empty [of 1] in \<open>auto simp: sigemptyset_def has_sig_bit\<close>)

text \<open>
  \<open>sigisempty\<close> answers 1 exactly for the sets without a member, and adding a legal signal
  to a set that lacks it and deleting it again leaves the set with the members it had.
\<close>

theorem sigset_laws:
  "(sigisempty m = 1 \<longleftrightarrow> (\<forall>i. sigismember m i = 0)) \<and>
   {j. sigismember (snd (sigdelset (snd (sigaddset m i)) i)) j \<noteq> 0} = {j. sigismember m j \<noteq> 0} - {i}"
proof
  have "sigisempty m = 1 \<longleftrightarrow> \<not> m > 1" by (simp add: sigisempty_def)
  also have "\<dots> \<longleftrightarrow> m = 0 \<or> m = 1"
    by (auto simp: word_less_nat_alt word_unat_eq_iff)
  also have "\<dots> \<longleftrightarrow> (\<forall>i. \<not> has_sig m i)" by (simp add: no_sig_iff)
  finally show "sigisempty m = 1 \<longleftrightarrow> (\<forall>i. sigismember m i = 0)" by (simp add: has_sig_def)
  show "{j. sigismember (snd (sigdelset (snd (sigaddset m i)) i)) j \<noteq> 0} = {j. sigismember m j \<noteq> 0} - {i}"
    unfolding has_sig_def [symmetric] by (auto simp: ss.add ss.del)
qed

end
