(* ===== verification/Task.thy ===== *)
theory Task
  imports KList SigSet
begin

text \<open>
  Tasks and the scheduler: \<open>include/book/task.h\<close>, \<open>kernel/task.c\<close>, \<open>kernel/schedule.c\<close> and the
  wake-up half of \<open>kernel/sleep_wakeup.c\<close>.

  A task is named by the address of its page (\<open>tid\<close>). The kernel state holds the task
  structures, the links of all list nodes the modelled subsystems use, the running task
  (what \<open>CurrentTask\<close> computes from the stack pointer), the idle task, the next process id,
  and the timers. \<open>None\<close> is a kernel stop: a failed \<open>ASSERT\<close>, \<open>Panic\<close>, or a NULL
  dereference. A block the code runs with interrupts off is one step; \<open>Schedule\<close> ends with
  \<open>SwitchTo\<close>, so an operation that calls it is modelled up to the switch, and what it does
  after it is resumed is a definition of its own. Page tables and the TSS, which
  \<open>TaskActivate\<close> sets, are not part of the state.
\<close>

section \<open>State\<close>

type_synonym tid = nat

datatype TaskStatus = TASK_READY | TASK_RUNNING | TASK_BLOCKED | TASK_WAITING | TASK_STOPPED
  | TASK_ZOMBIE | TASK_DIED

text \<open>The list nodes: the global heads, the nodes embedded in tasks and timers, and the heads and
  nodes of wait queues (one waiter on the kernel stack of each waiting task).\<close>

datatype lnode = taskReadyList | taskGlobalList | timerList
  | TaskList tid | TaskGlobal tid | TimerNode nat | WaitHead nat | Waiter tid

text \<open>A handler is \<open>SIG_DFL = 0\<close>, \<open>SIG_IGN = 1\<close> or the address of a user function.\<close>

record SignalAction =
  handler :: u32
  sa_flags :: u32

definition SIG_DFL :: u32 where "SIG_DFL = 0"
definition SIG_IGN :: u32 where "SIG_IGN = 1"
definition SA_ONESHOT :: u32 where "SA_ONESHOT = 1"

record task =
  pid :: int
  parentPid :: int
  groupPid :: int
  status :: TaskStatus
  pgdir :: "nat option"
  priority :: u32
  ticks :: u32
  elapsedTicks :: u32
  exitStatus :: int
  name :: string
  cwd :: string
  fdTable :: "int list"
  mm :: "nat option"
  signalLeft :: bool
  signalCatched :: bool
  action :: "int \<Rightarrow> SignalAction"
  sender :: "int \<Rightarrow> int"
  sigcount :: int
  signalBlocked :: sigset
  signalPending :: sigset
  alarm :: bool
  alarmTicks :: u32
  alarmSeconds :: u32
  sleepTimer :: "nat option"
  stackMagic :: u32

definition TASK_STACK_MAGIC :: u32 where "TASK_STACK_MAGIC = 0x19980325"
definition TASK_DEFAULT_PRIO :: u32 where "TASK_DEFAULT_PRIO = 5"
definition MAX_OPEN_FILES_IN_PROC :: nat where "MAX_OPEN_FILES_IN_PROC = 32"

datatype timer_function = TaskTimeout | TimerTest

datatype timer_state = TIMER_IDLE | TIMER_RUNNING | TIMER_STOP | TIMER_INVALID

record timer =
  expires :: u64
  data :: tid
  tfunction :: timer_function
  tstate :: timer_state

record kstate =
  task :: "tid \<Rightarrow> task"
  lk :: "lnode links"
  current :: tid
  mainThread :: tid
  nextPid :: int
  timer :: "nat \<Rightarrow> timer"

definition ASSERT :: "bool \<Rightarrow> unit option" where
  "ASSERT b = (if b then Some () else None)"

definition upd_task :: "tid \<Rightarrow> (task \<Rightarrow> task) \<Rightarrow> kstate \<Rightarrow> kstate" where
  "upd_task t f s = s\<lparr>task := (task s)(t := f (task s t))\<rparr>"

definition SET_TASK_STATUS :: "tid \<Rightarrow> TaskStatus \<Rightarrow> kstate \<Rightarrow> kstate" where
  "SET_TASK_STATUS t st = upd_task t (\<lambda>k. k\<lparr>status := st\<rparr>)"

definition with_links :: "(lnode links \<Rightarrow> lnode links option) \<Rightarrow> kstate \<Rightarrow> kstate option" where
  "with_links f s = do { l \<leftarrow> f (lk s); Some (s\<lparr>lk := l\<rparr>) }"

text \<open>\<open>ListOwner\<close> of a task's list node; a node of another kind has no task around it.\<close>

fun list_owner :: "lnode \<Rightarrow> tid option" where
  "list_owner (TaskList t) = Some t"
| "list_owner _ = None"

fun global_owner :: "lnode \<Rightarrow> tid option" where
  "global_owner (TaskGlobal t) = Some t"
| "global_owner _ = None"

section \<open>Process ids and task set-up\<close>

definition AllocatePid :: "kstate \<Rightarrow> int \<times> kstate" where
  "AllocatePid s = (nextPid s, s\<lparr>nextPid := i32 (nextPid s + 1)\<rparr>)"

definition FreePid :: "kstate \<Rightarrow> kstate" where
  "FreePid s = s\<lparr>nextPid := i32 (nextPid s - 1)\<rparr>"

definition ForkPid :: "kstate \<Rightarrow> int \<times> kstate" where
  "ForkPid s = AllocatePid s"

definition InitSignalInTask :: "task \<Rightarrow> task" where
  "InitSignalInTask t = t\<lparr>signalLeft := False, signalCatched := False,
     action := (\<lambda>i. if 0 \<le> i \<and> i < MAX_SIGNAL_NR then \<lparr>handler = SIG_DFL, sa_flags = 0\<rparr> else action t i),
     sender := (\<lambda>i. if 0 \<le> i \<and> i < MAX_SIGNAL_NR then -1 else sender t i),
     sigcount := 0,
     signalBlocked := snd (sigemptyset (signalBlocked t)),
     signalPending := snd (sigemptyset (signalPending t))\<rparr>"

text \<open>\<open>memset(thread, 0, sizeof(struct Task))\<close>, the links included.\<close>

definition zero_task :: task where
  "zero_task = \<lparr>pid = 0, parentPid = 0, groupPid = 0, status = TASK_READY, pgdir = None, priority = 0,
     ticks = 0, elapsedTicks = 0, exitStatus = 0, name = '''', cwd = '''',
     fdTable = replicate MAX_OPEN_FILES_IN_PROC 0, mm = None, signalLeft = False, signalCatched = False,
     action = (\<lambda>_. \<lparr>handler = 0, sa_flags = 0\<rparr>), sender = (\<lambda>_. 0), sigcount = 0, signalBlocked = 0,
     signalPending = 0, alarm = False, alarmTicks = 0, alarmSeconds = 0, sleepTimer = None, stackMagic = 0\<rparr>"

definition clear_links :: "tid \<Rightarrow> lnode links \<Rightarrow> lnode links" where
  "clear_links t l = set_next (TaskList t) None (set_prev (TaskList t) None
     (set_next (TaskGlobal t) None (set_prev (TaskGlobal t) None l)))"

definition TaskInit :: "tid \<Rightarrow> string \<Rightarrow> u32 \<Rightarrow> kstate \<Rightarrow> kstate" where
  "TaskInit thread nm prio s =
     (let s = s\<lparr>lk := clear_links thread (lk s)\<rparr>;
          (p, s) = AllocatePid s;
          t = InitSignalInTask (zero_task\<lparr>name := nm,
                status := (if thread = mainThread s then TASK_RUNNING else TASK_READY),
                priority := prio, ticks := prio, elapsedTicks := 0, pgdir := None, pid := p,
                groupPid := 0, parentPid := -1, exitStatus := -1, cwd := ''root:/'',
                stackMagic := TASK_STACK_MAGIC, fdTable := replicate MAX_OPEN_FILES_IN_PROC (-1)\<rparr>)
      in upd_task thread (\<lambda>_. t\<lparr>alarm := False, alarmTicks := 0, alarmSeconds := 0, sleepTimer := None\<rparr>) s)"

text \<open>Putting a new task on the ready list and the global list (the common end of
  \<open>ThreadStart\<close>, \<open>InitFirstProcess\<close> and \<open>SysFork\<close>).\<close>

definition add_new_task :: "tid \<Rightarrow> kstate \<Rightarrow> kstate option" where
  "add_new_task thread s =
     do { f \<leftarrow> ListFind (TaskList thread) taskReadyList (lk s);
          ASSERT (\<not> f);
          s \<leftarrow> with_links (ListAddTail (TaskList thread) taskReadyList) s;
          f \<leftarrow> ListFind (TaskGlobal thread) taskGlobalList (lk s);
          ASSERT (\<not> f);
          with_links (ListAddTail (TaskGlobal thread) taskGlobalList) s }"

text \<open>\<open>page\<close> is what \<open>kmalloc\<close> returns; the stack that \<open>MakeTaskStack\<close> prepares lies in that page.\<close>

definition ThreadStart :: "tid option \<Rightarrow> string \<Rightarrow> u32 \<Rightarrow> kstate \<Rightarrow> (tid option \<times> kstate) option" where
  "ThreadStart page nm prio s =
     (case page of None \<Rightarrow> Some (None, s)
      | Some thread \<Rightarrow>
          do { s \<leftarrow> add_new_task thread (TaskInit thread nm prio s); Some (Some thread, s) })"

text \<open>\<open>mmp\<close> and \<open>pdir\<close> are the results of the allocations of \<open>AllocTaskMemory\<close>, which panics
  on failure, and \<open>CreatePageDir\<close>.\<close>

definition InitFirstProcess ::
    "tid option \<Rightarrow> nat option \<Rightarrow> nat option \<Rightarrow> string \<Rightarrow> kstate \<Rightarrow> (tid option \<times> kstate) option" where
  "InitFirstProcess page mmp pdir nm s =
     (case page of None \<Rightarrow> Some (None, s)
      | Some thread \<Rightarrow>
          do { let s = FreePid (TaskInit thread nm TASK_DEFAULT_PRIO s);
               let s = upd_task thread (\<lambda>t. t\<lparr>pid := 0\<rparr>) s;
               m \<leftarrow> mmp;
               let s = upd_task thread (\<lambda>t. t\<lparr>mm := Some m, pgdir := pdir\<rparr>) s;
               (if pdir = None then Some (None, s)
                else do { s \<leftarrow> add_new_task thread s; Some (Some thread, s) }) })"

definition ThreadExit :: "tid option \<Rightarrow> kstate \<Rightarrow> kstate option" where
  "ThreadExit th s =
     (case th of None \<Rightarrow> Some s
      | Some thread \<Rightarrow>
          do { f \<leftarrow> ListFind (TaskList thread) taskReadyList (lk s);
               s \<leftarrow> (if f then with_links (ListDelInit (TaskList thread)) s else Some s);
               f \<leftarrow> ListFind (TaskGlobal thread) taskGlobalList (lk s);
               ASSERT f;
               with_links (ListDelInit (TaskGlobal thread)) s })"

definition MakeMainThread :: "kstate \<Rightarrow> kstate option" where
  "MakeMainThread s =
     do { let s = s\<lparr>mainThread := current s\<rparr>;
          let s = TaskInit (mainThread s) ''main'' 1 s;
          f \<leftarrow> ListFind (TaskGlobal (mainThread s)) taskGlobalList (lk s);
          ASSERT (\<not> f);
          with_links (ListAddTail (TaskGlobal (mainThread s)) taskGlobalList) s }"

section \<open>Scheduling\<close>

definition TaskUnblock :: "tid \<Rightarrow> kstate \<Rightarrow> kstate option" where
  "TaskUnblock t s =
     do { ASSERT (status (task s t) = TASK_BLOCKED \<or> status (task s t) = TASK_WAITING \<or>
                  status (task s t) = TASK_STOPPED);
          if status (task s t) \<noteq> TASK_READY then
            do { f \<leftarrow> ListFind (TaskList t) taskReadyList (lk s);
                 ASSERT (\<not> f);
                 s \<leftarrow> with_links (ListAdd (TaskList t) taskReadyList) s;
                 Some (SET_TASK_STATUS t TASK_READY s) }
          else Some s }"

definition Schedule :: "kstate \<Rightarrow> kstate option" where
  "Schedule s =
     do { let cur = current s;
          s \<leftarrow> (if status (task s cur) = TASK_RUNNING then
                 do { s \<leftarrow> with_links (ListAddTail (TaskList cur) taskReadyList) s;
                      Some (upd_task cur (\<lambda>t. t\<lparr>ticks := priority t, status := TASK_READY\<rparr>) s) }
               else Some s);
          s \<leftarrow> (if ListEmpty taskReadyList (lk s) then TaskUnblock (mainThread s) s else Some s);
          ASSERT (\<not> ListEmpty taskReadyList (lk s));
          n \<leftarrow> lnext (lk s) taskReadyList;
          nxt \<leftarrow> list_owner n;
          s \<leftarrow> with_links (ListDel n) s;
          let s = SET_TASK_STATUS nxt TASK_RUNNING s;
          Some (s\<lparr>current := nxt\<rparr>) }"

definition TaskBlock :: "TaskStatus \<Rightarrow> kstate \<Rightarrow> kstate option" where
  "TaskBlock st s =
     do { ASSERT (st = TASK_BLOCKED \<or> st = TASK_WAITING \<or> st = TASK_STOPPED \<or> st = TASK_ZOMBIE);
          Schedule (SET_TASK_STATUS (current s) st s) }"

definition TaskYield :: "kstate \<Rightarrow> kstate option" where
  "TaskYield s =
     do { let cur = current s;
          f \<leftarrow> ListFind (TaskList cur) taskReadyList (lk s);
          ASSERT (\<not> f);
          s \<leftarrow> with_links (ListAddTail (TaskList cur) taskReadyList) s;
          Schedule (SET_TASK_STATUS cur TASK_READY s) }"

definition TaskWakeUp :: "tid \<Rightarrow> kstate \<Rightarrow> kstate option" where
  "TaskWakeUp t s =
     (if status (task s t) = TASK_BLOCKED \<or> status (task s t) = TASK_STOPPED
      then TaskUnblock t s else Some s)"

definition TaskSleepOn :: "tid \<Rightarrow> kstate \<Rightarrow> kstate option" where
  "TaskSleepOn t s =
     (let s = SET_TASK_STATUS t TASK_BLOCKED s
      in if t = current s then Schedule s else Some s)"

text \<open>The scheduler's part of the clock tick (\<open>SchedSoftirqHandler\<close> of \<open>drivers/clock.c\<close>).\<close>

definition SchedSoftirqHandler :: "kstate \<Rightarrow> kstate option" where
  "SchedSoftirqHandler s =
     do { let cur = current s;
          ASSERT (stackMagic (task s cur) = TASK_STACK_MAGIC);
          let s = upd_task cur (\<lambda>t. t\<lparr>elapsedTicks := elapsedTicks t + 1\<rparr>) s;
          if ticks (task s cur) \<le> 0 then Schedule s
          else Some (upd_task cur (\<lambda>t. t\<lparr>ticks := ticks t - 1\<rparr>) s) }"

section \<open>Lookup by process id\<close>

text \<open>\<open>ListForEachOwner(task, &taskGlobalList, globalList)\<close> from node \<open>pos\<close>.\<close>

partial_function (option) find_pid_loop :: "kstate \<Rightarrow> int \<Rightarrow> lnode option \<Rightarrow> tid option option" where
  "find_pid_loop s p pos =
     (if pos = Some taskGlobalList then Some None
      else do { n \<leftarrow> pos; t \<leftarrow> global_owner n;
                (if pid (task s t) = p then Some (Some t)
                 else find_pid_loop s p (lnext (lk s) n)) })"

definition FindTaskByPid :: "int \<Rightarrow> kstate \<Rightarrow> tid option option" where
  "FindTaskByPid p s = find_pid_loop s p (lnext (lk s) taskGlobalList)"

definition SysGetPid :: "kstate \<Rightarrow> int" where
  "SysGetPid s = pid (task s (current s))"

definition SysSetPgid :: "int \<Rightarrow> int \<Rightarrow> kstate \<Rightarrow> (int \<times> kstate) option" where
  "SysSetPgid p pgid s =
     do { r \<leftarrow> FindTaskByPid p s;
          Some (case r of None \<Rightarrow> (-1, s) | Some t \<Rightarrow> (0, upd_task t (\<lambda>k. k\<lparr>groupPid := pgid\<rparr>) s)) }"

definition SysGetPgid :: "int \<Rightarrow> kstate \<Rightarrow> int option" where
  "SysGetPgid p s =
     do { r \<leftarrow> FindTaskByPid p s;
          Some (case r of None \<Rightarrow> -1 | Some t \<Rightarrow> groupPid (task s t)) }"

end
