(* ===== verification/Sched.thy ===== *)
theory Sched
  imports Task
begin

text \<open>
  The scheduler's invariant and its proofs. \<open>sched_inv s rs gs ts\<close> says that the ready list
  holds exactly the tasks \<open>rs\<close>, which are the ready ones of the global list \<open>gs\<close>, that the
  running task is the only one with that status, and that the idle task is never dead. The
  lemmas give the exact effect of every operation on these lists. The scheduling calls of the
  kernel keep the invariant and never stop it.
\<close>

section \<open>The three kernel lists\<close>

definition lists_ok :: "lnode links \<Rightarrow> tid list \<Rightarrow> tid list \<Rightarrow> nat list \<Rightarrow> bool" where
  "lists_ok l rs gs ts \<longleftrightarrow> dlist l taskReadyList (map TaskList rs) \<and>
     dlist l taskGlobalList (map TaskGlobal gs) \<and> dlist l timerList (map TimerNode ts)"

lemma lists_ok_distinct: "lists_ok l rs gs ts \<Longrightarrow> distinct rs \<and> distinct gs \<and> distinct ts"
  by (auto simp: lists_ok_def dlist_def distinct_map)

lemma inj_nodes [simp]: "inj TaskList" "inj TaskGlobal" "inj TimerNode"
  by (auto intro: injI)

lemma ready_agree: "agree (set (taskReadyList # map TaskList xs)) l l' \<Longrightarrow> lists_ok l rs gs ts \<Longrightarrow>
    dlist l' taskReadyList (map TaskList rs') \<Longrightarrow> lists_ok l' rs' gs ts"
  unfolding lists_ok_def by (auto elim!: dlist_agree)

lemma global_agree: "agree (set (taskGlobalList # map TaskGlobal xs)) l l' \<Longrightarrow> lists_ok l rs gs ts \<Longrightarrow>
    dlist l' taskGlobalList (map TaskGlobal gs') \<Longrightarrow> lists_ok l' rs gs' ts"
  unfolding lists_ok_def by (auto elim!: dlist_agree)

lemma timer_agree: "agree (set (timerList # map TimerNode xs)) l l' \<Longrightarrow> lists_ok l rs gs ts \<Longrightarrow>
    dlist l' timerList (map TimerNode ts') \<Longrightarrow> lists_ok l' rs gs ts'"
  unfolding lists_ok_def by (auto elim!: dlist_agree)

lemma ready_push: "lists_ok l rs gs ts \<Longrightarrow> t \<notin> set rs \<Longrightarrow>
    \<exists>l'. ListAdd (TaskList t) taskReadyList l = Some l' \<and> lists_ok l' (t # rs) gs ts"
  using ListAdd_dlist [of l taskReadyList "map TaskList rs" "TaskList t"]
  by (fastforce simp: lists_ok_def [of l] intro: ready_agree [of "t # rs"])

lemma ready_append: "lists_ok l rs gs ts \<Longrightarrow> t \<notin> set rs \<Longrightarrow>
    \<exists>l'. ListAddTail (TaskList t) taskReadyList l = Some l' \<and> lists_ok l' (rs @ [t]) gs ts"
  using ListAddTail_dlist [of l taskReadyList "map TaskList rs" "TaskList t"]
  by (fastforce simp: lists_ok_def [of l] intro: ready_agree [of "t # rs"])

lemma global_append: "lists_ok l rs gs ts \<Longrightarrow> t \<notin> set gs \<Longrightarrow>
    \<exists>l'. ListAddTail (TaskGlobal t) taskGlobalList l = Some l' \<and> lists_ok l' rs (gs @ [t]) ts"
  using ListAddTail_dlist [of l taskGlobalList "map TaskGlobal gs" "TaskGlobal t"]
  by (fastforce simp: lists_ok_def [of l] intro: global_agree [of "t # gs"])

lemma timer_append: "lists_ok l rs gs ts \<Longrightarrow> t \<notin> set ts \<Longrightarrow>
    \<exists>l'. ListAddTail (TimerNode t) timerList l = Some l' \<and> lists_ok l' rs gs (ts @ [t])"
  using ListAddTail_dlist [of l timerList "map TimerNode ts" "TimerNode t"]
  by (fastforce simp: lists_ok_def [of l] intro: timer_agree [of "t # ts"])

lemma map_remove1_inj: "inj f \<Longrightarrow> remove1 (f x) (map f xs) = map f (remove1 x xs)"
  by (induction xs) (auto dest: injD)

lemma ready_del: "lists_ok l rs gs ts \<Longrightarrow> t \<in> set rs \<Longrightarrow>
    \<exists>l'. ListDel (TaskList t) l = Some l' \<and> lists_ok l' (remove1 t rs) gs ts"
  using ListDel_dlist [of l taskReadyList "map TaskList rs" "TaskList t"]
  by (fastforce simp: lists_ok_def [of l] map_remove1_inj intro: ready_agree [of rs])

lemma ready_del_init: "lists_ok l rs gs ts \<Longrightarrow> t \<in> set rs \<Longrightarrow>
    \<exists>l'. ListDelInit (TaskList t) l = Some l' \<and> lists_ok l' (remove1 t rs) gs ts"
  using ListDelInit_dlist [of l taskReadyList "map TaskList rs" "TaskList t"]
  by (fastforce simp: lists_ok_def [of l] map_remove1_inj intro: ready_agree [of rs])

lemma global_del: "lists_ok l rs gs ts \<Longrightarrow> t \<in> set gs \<Longrightarrow>
    \<exists>l'. ListDel (TaskGlobal t) l = Some l' \<and> lists_ok l' rs (remove1 t gs) ts"
  using ListDel_dlist [of l taskGlobalList "map TaskGlobal gs" "TaskGlobal t"]
  by (fastforce simp: lists_ok_def [of l] map_remove1_inj intro: global_agree [of gs])

lemma global_del_init: "lists_ok l rs gs ts \<Longrightarrow> t \<in> set gs \<Longrightarrow>
    \<exists>l'. ListDelInit (TaskGlobal t) l = Some l' \<and> lists_ok l' rs (remove1 t gs) ts"
  using ListDelInit_dlist [of l taskGlobalList "map TaskGlobal gs" "TaskGlobal t"]
  by (fastforce simp: lists_ok_def [of l] map_remove1_inj intro: global_agree [of gs])

lemma timer_del_init: "lists_ok l rs gs ts \<Longrightarrow> t \<in> set ts \<Longrightarrow>
    \<exists>l'. ListDelInit (TimerNode t) l = Some l' \<and> lists_ok l' rs gs (remove1 t ts)"
  using ListDelInit_dlist [of l timerList "map TimerNode ts" "TimerNode t"]
  by (fastforce simp: lists_ok_def [of l] map_remove1_inj intro: timer_agree [of ts])

lemma find_nodes [simp]:
  "lists_ok l rs gs ts \<Longrightarrow> ListFind (TaskList t) taskReadyList l = Some (t \<in> set rs)"
  "lists_ok l rs gs ts \<Longrightarrow> ListFind (TaskGlobal t) taskGlobalList l = Some (t \<in> set gs)"
  "lists_ok l rs gs ts \<Longrightarrow> ListFind (TimerNode i) timerList l = Some (i \<in> set ts)"
  by (auto simp: lists_ok_def ListFind_dlist)

lemma ready_empty [simp]: "lists_ok l rs gs ts \<Longrightarrow> ListEmpty taskReadyList l \<longleftrightarrow> rs = []"
  by (auto simp: lists_ok_def)

lemma ready_first: "lists_ok l (t # rs) gs ts \<Longrightarrow> lnext l taskReadyList = Some (TaskList t)"
  by (auto simp: lists_ok_def dest!: dlist_next_head)

lemma clear_links_ok: "lists_ok l rs gs ts \<Longrightarrow> t \<notin> set rs \<Longrightarrow> t \<notin> set gs \<Longrightarrow> lists_ok (clear_links t l) rs gs ts"
proof -
  assume a: "lists_ok l rs gs ts" "t \<notin> set rs" "t \<notin> set gs"
  have "agree {TaskList t, TaskGlobal t} l (clear_links t l)" by (simp add: clear_links_def agree_def)
  note d = dlist_agree [OF this]
  from a show ?thesis unfolding lists_ok_def by (intro conjI d) auto
qed

section \<open>The invariant\<close>

definition waiting_status :: "TaskStatus \<Rightarrow> bool" where
  "waiting_status st \<longleftrightarrow> st = TASK_BLOCKED \<or> st = TASK_WAITING \<or> st = TASK_STOPPED"

text \<open>\<open>presched\<close> is the invariant at the entry of \<open>Schedule\<close>, where the running task may
  already have given up that status; \<open>sched_inv\<close> holds between two calls.\<close>

definition presched :: "kstate \<Rightarrow> tid list \<Rightarrow> tid list \<Rightarrow> nat list \<Rightarrow> bool" where
  "presched s rs gs ts \<longleftrightarrow> lists_ok (lk s) rs gs ts \<and>
     (\<forall>t. t \<in> set rs \<longleftrightarrow> t \<in> set gs \<and> status (task s t) = TASK_READY) \<and>
     (\<forall>t \<in> set gs. status (task s t) = TASK_RUNNING \<longrightarrow> t = current s) \<and>
     (\<forall>t \<in> set gs. stackMagic (task s t) = TASK_STACK_MAGIC) \<and>
     current s \<in> set gs \<and> mainThread s \<in> set gs \<and>
     status (task s (mainThread s)) \<notin> {TASK_ZOMBIE, TASK_DIED}"

definition sched_inv :: "kstate \<Rightarrow> tid list \<Rightarrow> tid list \<Rightarrow> nat list \<Rightarrow> bool" where
  "sched_inv s rs gs ts \<longleftrightarrow> presched s rs gs ts \<and> status (task s (current s)) = TASK_RUNNING"

lemma upd_task_sel [simp]:
  "task (upd_task t f s) = (task s)(t := f (task s t))" "lk (upd_task t f s) = lk s"
  "current (upd_task t f s) = current s" "mainThread (upd_task t f s) = mainThread s"
  "nextPid (upd_task t f s) = nextPid s" "timer (upd_task t f s) = timer s"
  by (simp_all add: upd_task_def)

lemma set_status_sel [simp]:
  "task (SET_TASK_STATUS t st s) = (task s)(t := (task s t)\<lparr>status := st\<rparr>)"
  "lk (SET_TASK_STATUS t st s) = lk s"
  "current (SET_TASK_STATUS t st s) = current s" "mainThread (SET_TASK_STATUS t st s) = mainThread s"
  "nextPid (SET_TASK_STATUS t st s) = nextPid s" "timer (SET_TASK_STATUS t st s) = timer s"
  by (simp_all add: SET_TASK_STATUS_def)

lemma ASSERT_simps [simp]: "ASSERT True = Some ()" "ASSERT False = None" "(ASSERT b = Some u) = b"
  by (auto simp: ASSERT_def)

lemma TaskUnblock_ok:
  assumes "lists_ok (lk s) rs gs ts" "t \<notin> set rs" "waiting_status (status (task s t))"
  shows "\<exists>l. TaskUnblock t s = Some (SET_TASK_STATUS t TASK_READY (s\<lparr>lk := l\<rparr>)) \<and>
    lists_ok l (t # rs) gs ts"
  using assms ready_push [OF assms(1,2)]
  by (auto simp: TaskUnblock_def with_links_def waiting_status_def)

text \<open>The queue \<open>Schedule\<close> chooses from: the ready tasks, then the task that still runs; the idle
  task if there is none.\<close>

definition next_queue :: "kstate \<Rightarrow> tid list \<Rightarrow> tid list" where
  "next_queue s rs =
     (let q = rs @ (if status (task s (current s)) = TASK_RUNNING then [current s] else [])
      in if q = [] then [mainThread s] else q)"

definition requeue_task :: "kstate \<Rightarrow> kstate" where
  "requeue_task s =
     (if status (task s (current s)) = TASK_RUNNING
      then upd_task (current s) (\<lambda>t. t\<lparr>ticks := priority t, status := TASK_READY\<rparr>) s else s)"

definition switched :: "kstate \<Rightarrow> tid list \<Rightarrow> lnode links \<Rightarrow> kstate" where
  "switched s rs l =
     (let n = hd (next_queue s rs)
      in (SET_TASK_STATUS n TASK_RUNNING (requeue_task s))\<lparr>lk := l, current := n\<rparr>)"

lemma Schedule_tail:
  assumes "lists_ok (lk s) (n # rs) gs ts"
  shows "\<exists>l. do { ASSERT (\<not> ListEmpty taskReadyList (lk s));
          n \<leftarrow> lnext (lk s) taskReadyList;
          nxt \<leftarrow> list_owner n;
          s \<leftarrow> with_links (ListDel n) s;
          let s = SET_TASK_STATUS nxt TASK_RUNNING s;
          Some (s\<lparr>current := nxt\<rparr>) } = Some ((SET_TASK_STATUS n TASK_RUNNING s)\<lparr>lk := l, current := n\<rparr>) \<and>
      lists_ok l rs gs ts"
proof -
  obtain l where "ListDel (TaskList n) (lk s) = Some l" "lists_ok l rs gs ts"
    using ready_del [OF assms, of n] by auto
  with assms ready_first [OF assms] show ?thesis
    by (auto simp: with_links_def Let_def intro!: exI [of _ l] kstate.equality)
qed

lemma Schedule_exact:
  assumes "presched s rs gs ts"
  shows "\<exists>l. Schedule s = Some (switched s rs l) \<and> lists_ok l (tl (next_queue s rs)) gs ts"
proof -
  have lo: "lists_ok (lk s) rs gs ts" using assms by (simp add: presched_def)
  let ?run = "status (task s (current s)) = TASK_RUNNING"
  show ?thesis
  proof (cases "?run")
    case True
    then have "current s \<notin> set rs" using assms by (auto simp: presched_def)
    from ready_append [OF lo this] obtain l where
      l: "ListAddTail (TaskList (current s)) taskReadyList (lk s) = Some l"
         "lists_ok l (rs @ [current s]) gs ts" by auto
    obtain n q where q: "rs @ [current s] = n # q" by (cases rs) auto
    let ?s = "upd_task (current s) (\<lambda>t. t\<lparr>ticks := priority t, status := TASK_READY\<rparr>) (s\<lparr>lk := l\<rparr>)"
    have ne: "\<not> ListEmpty taskReadyList (lk ?s)" using l(2) by simp
    from Schedule_tail [of ?s n q gs ts] l(2) q obtain l' where
      "Schedule s = Some ((SET_TASK_STATUS n TASK_RUNNING ?s)\<lparr>lk := l', current := n\<rparr>)"
      "lists_ok l' q gs ts"
      using l(1) True ne by (auto simp: Schedule_def with_links_def Let_def)
    moreover have "next_queue s rs = n # q" using True q by (simp add: next_queue_def)
    ultimately show ?thesis using True
      by (auto simp: switched_def requeue_task_def SET_TASK_STATUS_def upd_task_def)
  next
    case nr: False
    show ?thesis
    proof (cases rs)
      case Nil
      have w: "waiting_status (status (task s (mainThread s)))"
        using assms Nil nr unfolding presched_def waiting_status_def
        by (cases "status (task s (mainThread s))") auto
      from TaskUnblock_ok [OF lo _ w] Nil obtain l where
        l: "TaskUnblock (mainThread s) s = Some (SET_TASK_STATUS (mainThread s) TASK_READY (s\<lparr>lk := l\<rparr>))"
          "lists_ok l [mainThread s] gs ts" by auto
      let ?s = "SET_TASK_STATUS (mainThread s) TASK_READY (s\<lparr>lk := l\<rparr>)"
      have ne: "\<not> ListEmpty taskReadyList (lk ?s)" "ListEmpty taskReadyList (lk s)" using l(2) lo Nil by simp_all
      from Schedule_tail [of ?s "mainThread s" "[]" gs ts] l(2) obtain l' where
        "Schedule s = Some ((SET_TASK_STATUS (mainThread s) TASK_RUNNING ?s)\<lparr>lk := l', current := mainThread s\<rparr>)"
        "lists_ok l' [] gs ts"
        using l(1) nr ne by (auto simp: Schedule_def Let_def)
      then show ?thesis using nr Nil
        by (auto simp: switched_def requeue_task_def next_queue_def Let_def
            intro!: exI [of _ l'] kstate.equality)
    next
      case (Cons n q)
      have ne: "\<not> ListEmpty taskReadyList (lk s)" using lo Cons by simp
      from Schedule_tail [of s n q gs ts] lo Cons obtain l' where
        "Schedule s = Some ((SET_TASK_STATUS n TASK_RUNNING s)\<lparr>lk := l', current := n\<rparr>)"
        "lists_ok l' q gs ts"
        using nr ne by (auto simp: Schedule_def Let_def)
      then show ?thesis using nr Cons
        by (auto simp: switched_def requeue_task_def next_queue_def SET_TASK_STATUS_def upd_task_def)
    qed
  qed
qed

lemma requeue_sel [simp]:
  "lk (requeue_task s) = lk s" "current (requeue_task s) = current s"
  "mainThread (requeue_task s) = mainThread s" "nextPid (requeue_task s) = nextPid s"
  "timer (requeue_task s) = timer s"
  by (simp_all add: requeue_task_def)

lemma requeue_task_task: "task (requeue_task s) = (if status (task s (current s)) = TASK_RUNNING
    then (task s)(current s := (task s (current s))\<lparr>ticks := priority (task s (current s)), status := TASK_READY\<rparr>)
    else task s)"
  by (simp add: requeue_task_def)

lemma switched_sel [simp]:
  "lk (switched s rs l) = l" "current (switched s rs l) = hd (next_queue s rs)"
  "mainThread (switched s rs l) = mainThread s" "nextPid (switched s rs l) = nextPid s"
  "timer (switched s rs l) = timer s"
  by (simp_all add: switched_def Let_def)

lemma switched_task: "task (switched s rs l) = (let n = hd (next_queue s rs) in
    (task (requeue_task s))(n := (task (requeue_task s) n)\<lparr>status := TASK_RUNNING\<rparr>))"
  by (simp add: switched_def Let_def)

lemma preschedD:
  assumes "presched s rs gs ts"
  shows "lists_ok (lk s) rs gs ts" "t \<in> set rs \<longleftrightarrow> t \<in> set gs \<and> status (task s t) = TASK_READY"
    "t \<in> set gs \<Longrightarrow> status (task s t) = TASK_RUNNING \<Longrightarrow> t = current s"
    "t \<in> set gs \<Longrightarrow> stackMagic (task s t) = TASK_STACK_MAGIC"
    "current s \<in> set gs" "mainThread s \<in> set gs"
    "status (task s (mainThread s)) \<noteq> TASK_ZOMBIE" "status (task s (mainThread s)) \<noteq> TASK_DIED"
  using assms unfolding presched_def by blast+

lemma preschedI:
  assumes "lists_ok (lk s) rs gs ts" "\<And>t. t \<in> set rs \<longleftrightarrow> t \<in> set gs \<and> status (task s t) = TASK_READY"
    "\<And>t. t \<in> set gs \<Longrightarrow> status (task s t) = TASK_RUNNING \<Longrightarrow> t = current s"
    "\<And>t. t \<in> set gs \<Longrightarrow> stackMagic (task s t) = TASK_STACK_MAGIC"
    "current s \<in> set gs" "mainThread s \<in> set gs"
    "status (task s (mainThread s)) \<noteq> TASK_ZOMBIE" "status (task s (mainThread s)) \<noteq> TASK_DIED"
  shows "presched s rs gs ts"
  using assms unfolding presched_def by simp

lemma sched_invD:
  "sched_inv s rs gs ts \<Longrightarrow> presched s rs gs ts"
  "sched_inv s rs gs ts \<Longrightarrow> status (task s (current s)) = TASK_RUNNING"
  "sched_inv s rs gs ts \<Longrightarrow> current s \<notin> set rs"
  by (simp_all add: sched_inv_def preschedD(2) [of s rs gs ts])

lemma next_queue_facts:
  assumes "presched s rs gs ts"
  shows "next_queue s rs \<noteq> []" "hd (next_queue s rs) \<in> set gs"
    "t \<in> set (tl (next_queue s rs)) \<longleftrightarrow>
       t \<in> set gs \<and> status (task (requeue_task s) t) = TASK_READY \<and> t \<noteq> hd (next_queue s rs)"
proof -
  note p = preschedD [OF assms]
  let ?run = "status (task s (current s)) = TASK_RUNNING"
  have d: "distinct rs" using lists_ok_distinct [OF p(1)] by simp
  show ne: "next_queue s rs \<noteq> []" by (simp add: next_queue_def Let_def)
  have dn: "distinct (next_queue s rs)"
    using d p(2) [of "current s"] by (simp add: next_queue_def Let_def)
  have tl: "t \<in> set (tl (next_queue s rs)) \<longleftrightarrow> t \<in> set (next_queue s rs) \<and> t \<noteq> hd (next_queue s rs)"
    using dn ne by (cases "next_queue s rs") auto
  have sub: "u \<in> set (next_queue s rs) \<Longrightarrow> u \<in> set gs" for u
    using p(2) [of u] p(5,6) by (auto simp: next_queue_def Let_def split: if_splits)
  show "hd (next_queue s rs) \<in> set gs" by (rule sub) (rule hd_in_set [OF ne])
  show "t \<in> set (tl (next_queue s rs)) \<longleftrightarrow>
       t \<in> set gs \<and> status (task (requeue_task s) t) = TASK_READY \<and> t \<noteq> hd (next_queue s rs)"
  proof (cases ?run)
    case True
    then have "t \<in> set (next_queue s rs) \<longleftrightarrow> t \<in> set gs \<and> status (task (requeue_task s) t) = TASK_READY"
      using p(2) [of t] p(5) by (auto simp: next_queue_def requeue_task_task)
    with tl show ?thesis by blast
  next
    case nr: False
    show ?thesis
    proof (cases "rs = []")
      case True
      with nr p(2) [of t] show ?thesis by (auto simp: next_queue_def requeue_task_task)
    next
      case False
      with nr tl p(2) [of t] show ?thesis by (auto simp: next_queue_def requeue_task_task)
    qed
  qed
qed

lemma switched_inv:
  assumes pre: "presched s rs gs ts" and l: "lists_ok l (tl (next_queue s rs)) gs ts"
  shows "sched_inv (switched s rs l) (tl (next_queue s rs)) gs ts"
proof -
  note f = next_queue_facts [OF pre] and p = preschedD [OF pre]
  have st: "status (task (switched s rs l) t) = (if t = hd (next_queue s rs) then TASK_RUNNING
      else status (task (requeue_task s) t))"
    "stackMagic (task (switched s rs l) t) = stackMagic (task s t)" for t
    by (simp_all add: switched_task Let_def requeue_task_task)
  have rq: "status (task (requeue_task s) t) = (if t = current s \<and> status (task s t) = TASK_RUNNING
      then TASK_READY else status (task s t))" for t
    by (auto simp: requeue_task_task)
  have "presched (switched s rs l) (tl (next_queue s rs)) gs ts"
  proof (rule preschedI)
    fix t
    show "t \<in> set (tl (next_queue s rs)) \<longleftrightarrow> t \<in> set gs \<and> status (task (switched s rs l) t) = TASK_READY"
      unfolding f(3) st by simp
    show "t \<in> set gs \<Longrightarrow> status (task (switched s rs l) t) = TASK_RUNNING \<Longrightarrow> t = current (switched s rs l)"
      using p(3) [of t] by (simp add: st rq split: if_splits)
  qed (simp_all add: l f p st rq)
  then show ?thesis by (simp add: sched_inv_def st)
qed

lemma Schedule_ok:
  assumes "presched s rs gs ts"
  shows "\<exists>l. Schedule s = Some (switched s rs l) \<and>
    sched_inv (switched s rs l) (tl (next_queue s rs)) gs ts"
  using Schedule_exact [OF assms] switched_inv [OF assms] by auto

section \<open>The operations keep the invariant\<close>

lemma presched_stop:
  assumes "sched_inv s rs gs ts" "st \<noteq> TASK_READY" "st \<noteq> TASK_RUNNING"
    "current s = mainThread s \<Longrightarrow> st \<noteq> TASK_ZOMBIE \<and> st \<noteq> TASK_DIED"
  shows "presched (SET_TASK_STATUS (current s) st s) rs gs ts"
proof (rule preschedI)
  note p = preschedD [OF sched_invD(1) [OF assms(1)]]
  fix t
  show "t \<in> set rs \<longleftrightarrow> t \<in> set gs \<and> status (task (SET_TASK_STATUS (current s) st s) t) = TASK_READY"
    using p(2) [of t] assms(2) sched_invD(2) [OF assms(1)] by auto
  show "t \<in> set gs \<Longrightarrow> status (task (SET_TASK_STATUS (current s) st s) t) = TASK_RUNNING \<Longrightarrow>
      t = current (SET_TASK_STATUS (current s) st s)"
    using p(3) [of t] assms(3) by (simp split: if_splits)
qed (use preschedD(1,4-8) [OF sched_invD(1) [OF assms(1)]] assms(4) in simp_all)

lemma TaskBlock_ok:
  assumes "sched_inv s rs gs ts" "waiting_status st \<or> (st = TASK_ZOMBIE \<and> current s \<noteq> mainThread s)"
  shows "\<exists>s'. TaskBlock st s = Some s' \<and>
    sched_inv s' (tl (if rs = [] then [mainThread s] else rs)) gs ts \<and>
    current s' = hd (if rs = [] then [mainThread s] else rs)"
proof -
  let ?s = "SET_TASK_STATUS (current s) st s"
  have pre: "presched ?s rs gs ts"
    by (rule presched_stop) (use assms in \<open>auto simp: waiting_status_def\<close>)
  have nq: "next_queue ?s rs = (if rs = [] then [mainThread s] else rs)"
    using assms(2) by (auto simp: next_queue_def Let_def waiting_status_def)
  have "TaskBlock st s = Schedule ?s"
    using assms(2) by (auto simp: TaskBlock_def waiting_status_def)
  with Schedule_ok [OF pre] show ?thesis unfolding nq by (metis nq switched_sel(2))
qed

lemma TaskYield_ok:
  assumes "sched_inv s rs gs ts"
  shows "\<exists>s'. TaskYield s = Some s' \<and> sched_inv s' (tl (rs @ [current s])) gs ts \<and>
    current s' = hd (rs @ [current s])"
proof -
  note p = preschedD [OF sched_invD(1) [OF assms]] and nin = sched_invD(3) [OF assms]
  from ready_append [OF p(1) nin] obtain l where
    l: "ListAddTail (TaskList (current s)) taskReadyList (lk s) = Some l" "lists_ok l (rs @ [current s]) gs ts"
    by auto
  let ?s = "SET_TASK_STATUS (current s) TASK_READY (s\<lparr>lk := l\<rparr>)"
  have pre: "presched ?s (rs @ [current s]) gs ts"
  proof (rule preschedI)
    fix t
    show "t \<in> set (rs @ [current s]) \<longleftrightarrow> t \<in> set gs \<and> status (task ?s t) = TASK_READY"
      using p(2) [of t] p(5) by auto
    show "t \<in> set gs \<Longrightarrow> status (task ?s t) = TASK_RUNNING \<Longrightarrow> t = current ?s"
      using p(3) [of t] by (simp split: if_splits)
  qed (simp_all add: l(2) p(4-8))
  have nq: "next_queue ?s (rs @ [current s]) = rs @ [current s]" by (simp add: next_queue_def Let_def)
  have "TaskYield s = Schedule ?s"
    using p(1) nin l(1) by (simp add: TaskYield_def with_links_def Let_def)
  with Schedule_ok [OF pre] show ?thesis unfolding nq by (metis nq switched_sel(2))
qed

lemma TaskUnblock_inv:
  assumes "sched_inv s rs gs ts" "t \<in> set gs" "waiting_status (status (task s t))"
  shows "\<exists>s'. TaskUnblock t s = Some s' \<and> sched_inv s' (t # rs) gs ts \<and> current s' = current s"
proof -
  note p = preschedD [OF sched_invD(1) [OF assms(1)]]
  have nin: "t \<notin> set rs" and nc: "t \<noteq> current s"
    using assms(3) p(2) [of t] sched_invD(2) [OF assms(1)] by (auto simp: waiting_status_def)
  from TaskUnblock_ok [OF p(1) nin assms(3)] obtain l where
    l: "TaskUnblock t s = Some (SET_TASK_STATUS t TASK_READY (s\<lparr>lk := l\<rparr>))" "lists_ok l (t # rs) gs ts" by auto
  let ?s = "SET_TASK_STATUS t TASK_READY (s\<lparr>lk := l\<rparr>)"
  have "presched ?s (t # rs) gs ts"
  proof (rule preschedI)
    fix u
    show "u \<in> set (t # rs) \<longleftrightarrow> u \<in> set gs \<and> status (task ?s u) = TASK_READY"
      using p(2) [of u] assms(2) by auto
    show "u \<in> set gs \<Longrightarrow> status (task ?s u) = TASK_RUNNING \<Longrightarrow> u = current ?s"
      using p(3) [of u] by (simp split: if_splits)
  qed (auto simp: l(2) p(4-8))
  with l nc sched_invD(2) [OF assms(1)] show ?thesis by (simp add: sched_inv_def)
qed

lemma TaskWakeUp_inv:
  assumes "sched_inv s rs gs ts" "t \<in> set gs"
  shows "\<exists>s'. TaskWakeUp t s = Some s' \<and> current s' = current s \<and>
    sched_inv s' (if status (task s t) \<in> {TASK_BLOCKED, TASK_STOPPED} then t # rs else rs) gs ts"
proof (cases "status (task s t) \<in> {TASK_BLOCKED, TASK_STOPPED}")
  case True
  then have w: "waiting_status (status (task s t))" by (auto simp: waiting_status_def)
  have "TaskWakeUp t s = TaskUnblock t s" using True by (auto simp: TaskWakeUp_def)
  with TaskUnblock_inv [OF assms w] True show ?thesis by auto
qed (use assms(1) in \<open>simp add: TaskWakeUp_def\<close>)

text \<open>The invariant depends on the lists, the running task, and the status and magic number of
  the tasks only.\<close>

definition same_sched :: "kstate \<Rightarrow> kstate \<Rightarrow> bool" where
  "same_sched s s' \<longleftrightarrow> lk s' = lk s \<and> current s' = current s \<and> mainThread s' = mainThread s \<and>
     (\<forall>t. status (task s' t) = status (task s t) \<and> stackMagic (task s' t) = stackMagic (task s t))"

lemma same_sched_inv: "same_sched s s' \<Longrightarrow> sched_inv s' rs gs ts = sched_inv s rs gs ts"
  "same_sched s s' \<Longrightarrow> presched s' rs gs ts = presched s rs gs ts"
  by (auto simp: same_sched_def sched_inv_def presched_def)

lemma same_sched_upd: "(\<And>k. status (f k) = status k) \<Longrightarrow> (\<And>k. stackMagic (f k) = stackMagic k) \<Longrightarrow>
    same_sched s (upd_task t f s)"
  by (simp add: same_sched_def)

lemma same_sched_trans: "same_sched s s' \<Longrightarrow> same_sched s' s'' \<Longrightarrow> same_sched s s''"
  by (simp add: same_sched_def)

lemma same_sched_refl [simp]: "same_sched s s"
  by (simp add: same_sched_def)

lemma Schedule_running:
  assumes "sched_inv s rs gs ts"
  shows "\<exists>s'. Schedule s = Some s' \<and> sched_inv s' (tl (rs @ [current s])) gs ts \<and>
    current s' = hd (rs @ [current s])"
proof -
  have "next_queue s rs = rs @ [current s]"
    using sched_invD(2) [OF assms] by (simp add: next_queue_def)
  with Schedule_ok [OF sched_invD(1) [OF assms]] show ?thesis by (metis switched_sel(2))
qed

lemma SchedSoftirq_ok:
  assumes "sched_inv s rs gs ts"
  shows "\<exists>s' rs'. SchedSoftirqHandler s = Some s' \<and> sched_inv s' rs' gs ts \<and>
    (if ticks (task s (current s)) = 0 then current s' = hd (rs @ [current s]) \<and> rs' = tl (rs @ [current s])
     else current s' = current s \<and> rs' = rs \<and>
       ticks (task s' (current s)) = ticks (task s (current s)) - 1)"
proof -
  let ?s = "upd_task (current s) (\<lambda>t. t\<lparr>elapsedTicks := elapsedTicks t + 1\<rparr>) s"
  have inv: "sched_inv ?s rs gs ts"
    using assms same_sched_inv(1) [OF same_sched_upd, of "\<lambda>t. t\<lparr>elapsedTicks := elapsedTicks t + 1\<rparr>"] by simp
  have m: "stackMagic (task s (current s)) = TASK_STACK_MAGIC"
    using preschedD(4,5) [OF sched_invD(1) [OF assms]] by simp
  show ?thesis
  proof (cases "ticks (task s (current s)) = 0")
    case True
    then have "SchedSoftirqHandler s = Schedule ?s" using m by (simp add: SchedSoftirqHandler_def)
    with Schedule_running [OF inv] True show ?thesis by auto
  next
    case False
    let ?s' = "upd_task (current s) (\<lambda>t. t\<lparr>ticks := ticks t - 1\<rparr>) ?s"
    have "SchedSoftirqHandler s = Some ?s'" using m False by (simp add: SchedSoftirqHandler_def Let_def)
    moreover have "sched_inv ?s' rs gs ts"
      using inv same_sched_inv(1) [OF same_sched_upd, of "\<lambda>t. t\<lparr>ticks := ticks t - 1\<rparr>"] by simp
    ultimately show ?thesis using False by (intro exI [of _ ?s'] exI [of _ rs]) simp
  qed
qed

lemma TaskSleepOn_current:
  assumes "sched_inv s rs gs ts"
  shows "\<exists>s'. TaskSleepOn (current s) s = Some s' \<and>
    sched_inv s' (tl (if rs = [] then [mainThread s] else rs)) gs ts \<and>
    current s' = hd (if rs = [] then [mainThread s] else rs)"
proof -
  have "TaskSleepOn (current s) s = TaskBlock TASK_BLOCKED s" by (simp add: TaskSleepOn_def TaskBlock_def)
  with TaskBlock_ok [OF assms, of TASK_BLOCKED] show ?thesis by (simp add: waiting_status_def)
qed

section \<open>Creation and removal of tasks\<close>

lemma InitSignalInTask_sel [simp]:
  "status (InitSignalInTask t) = status t" "stackMagic (InitSignalInTask t) = stackMagic t"
  "pid (InitSignalInTask t) = pid t" "ticks (InitSignalInTask t) = ticks t"
  "priority (InitSignalInTask t) = priority t"
  by (simp_all add: InitSignalInTask_def)

lemma TaskInit_sel [simp]:
  "lk (TaskInit t nm prio s) = clear_links t (lk s)" "current (TaskInit t nm prio s) = current s"
  "mainThread (TaskInit t nm prio s) = mainThread s"
  "u \<noteq> t \<Longrightarrow> task (TaskInit t nm prio s) u = task s u"
  "status (task (TaskInit t nm prio s) t) = (if t = mainThread s then TASK_RUNNING else TASK_READY)"
  "stackMagic (task (TaskInit t nm prio s) t) = TASK_STACK_MAGIC"
  "pid (task (TaskInit t nm prio s) t) = nextPid s"
  "nextPid (TaskInit t nm prio s) = i32 (nextPid s + 1)"
  by (simp_all add: TaskInit_def AllocatePid_def Let_def)

lemma add_new_task_ok:
  assumes "lists_ok (lk s) rs gs ts" "t \<notin> set rs" "t \<notin> set gs"
  shows "\<exists>l. add_new_task t s = Some (s\<lparr>lk := l\<rparr>) \<and> lists_ok l (rs @ [t]) (gs @ [t]) ts"
proof -
  obtain l1 where l1: "ListAddTail (TaskList t) taskReadyList (lk s) = Some l1" "lists_ok l1 (rs @ [t]) gs ts"
    using ready_append [OF assms(1,2)] by auto
  obtain l2 where l2: "ListAddTail (TaskGlobal t) taskGlobalList l1 = Some l2"
      "lists_ok l2 (rs @ [t]) (gs @ [t]) ts"
    using global_append [OF l1(2) assms(3)] by auto
  have "add_new_task t s = Some (s\<lparr>lk := l2\<rparr>)"
    using assms l1 l2 by (simp add: add_new_task_def with_links_def)
  with l2(2) show ?thesis by blast
qed

lemma sched_inv_new:
  assumes inv: "sched_inv s rs gs ts" and t: "t \<notin> set gs"
    and s': "lists_ok (lk s') (rs @ [t]) (gs @ [t]) ts" "current s' = current s" "mainThread s' = mainThread s"
      "\<And>u. u \<noteq> t \<Longrightarrow> task s' u = task s u" "status (task s' t) = TASK_READY"
      "stackMagic (task s' t) = TASK_STACK_MAGIC"
  shows "sched_inv s' (rs @ [t]) (gs @ [t]) ts"
proof -
  note p = preschedD [OF sched_invD(1) [OF inv]]
  have ne: "current s \<noteq> t" "mainThread s \<noteq> t" using t p(5,6) by auto
  have "presched s' (rs @ [t]) (gs @ [t]) ts"
  proof (rule preschedI)
    fix u
    show "u \<in> set (rs @ [t]) \<longleftrightarrow> u \<in> set (gs @ [t]) \<and> status (task s' u) = TASK_READY"
      using p(2) [of u] s'(4) [of u] s'(5) t by (cases "u = t") auto
    show "u \<in> set (gs @ [t]) \<Longrightarrow> status (task s' u) = TASK_RUNNING \<Longrightarrow> u = current s'"
      using p(3) [of u] s'(2,5) s'(4) [of u] by (cases "u = t") auto
    show "u \<in> set (gs @ [t]) \<Longrightarrow> stackMagic (task s' u) = TASK_STACK_MAGIC"
      using p(4) [of u] s'(6) s'(4) [of u] by (cases "u = t") auto
  qed (use s' p(5-8) ne in simp_all)
  with sched_invD(2) [OF inv] s'(2) s'(4) [OF ne(1)] show ?thesis by (simp add: sched_inv_def)
qed

lemma ThreadStart_ok:
  assumes "sched_inv s rs gs ts" "t \<notin> set gs"
  shows "\<exists>s'. ThreadStart (Some t) nm prio s = Some (Some t, s') \<and> sched_inv s' (rs @ [t]) (gs @ [t]) ts \<and>
    current s' = current s \<and> pid (task s' t) = nextPid s"
proof -
  note p = preschedD [OF sched_invD(1) [OF assms(1)]]
  have nr: "t \<notin> set rs" using assms(2) p(2) [of t] by simp
  have ne: "t \<noteq> mainThread s" using assms(2) p(6) by auto
  let ?s = "TaskInit t nm prio s"
  have "lists_ok (lk ?s) rs gs ts" using clear_links_ok [OF p(1) nr assms(2)] by simp
  from add_new_task_ok [OF this nr assms(2)] obtain l where
    l: "add_new_task t ?s = Some (?s\<lparr>lk := l\<rparr>)" "lists_ok l (rs @ [t]) (gs @ [t]) ts" by auto
  have "sched_inv (?s\<lparr>lk := l\<rparr>) (rs @ [t]) (gs @ [t]) ts"
    by (rule sched_inv_new [OF assms]) (use l(2) ne in simp_all)
  with l show ?thesis by (simp add: ThreadStart_def)
qed

lemma ThreadExit_ok:
  assumes "sched_inv s rs gs ts" "t \<in> set gs" "t \<noteq> current s" "t \<noteq> mainThread s"
  shows "\<exists>s'. ThreadExit (Some t) s = Some s' \<and> sched_inv s' (remove1 t rs) (remove1 t gs) ts \<and>
    current s' = current s"
proof -
  note p = preschedD [OF sched_invD(1) [OF assms(1)]]
  have d: "distinct rs" "distinct gs" using lists_ok_distinct [OF p(1)] by auto
  obtain l where l: "(if t \<in> set rs then with_links (ListDelInit (TaskList t)) s else Some s) = Some (s\<lparr>lk := l\<rparr>)"
      "lists_ok l (remove1 t rs) gs ts"
  proof (cases "t \<in> set rs")
    case True
    from ready_del_init [OF p(1) True] obtain l1 where
      "ListDelInit (TaskList t) (lk s) = Some l1" "lists_ok l1 (remove1 t rs) gs ts" by auto
    with that [of l1] True show ?thesis by (simp add: with_links_def)
  next
    case False
    with that [of "lk s"] p(1) show ?thesis by (simp add: remove1_idem)
  qed
  from global_del_init [OF l(2) assms(2)] obtain l' where
    l': "ListDelInit (TaskGlobal t) l = Some l'" "lists_ok l' (remove1 t rs) (remove1 t gs) ts" by auto
  have "ThreadExit (Some t) s = Some (s\<lparr>lk := l'\<rparr>)"
    using p(1) l l' assms(2) by (simp add: ThreadExit_def) (simp add: with_links_def)
  moreover have "presched (s\<lparr>lk := l'\<rparr>) (remove1 t rs) (remove1 t gs) ts"
  proof (rule preschedI)
    fix u
    show "u \<in> set (remove1 t rs) \<longleftrightarrow> u \<in> set (remove1 t gs) \<and> status (task (s\<lparr>lk := l'\<rparr>) u) = TASK_READY"
      using p(2) [of u] d by (auto simp: set_remove1_eq)
    show "u \<in> set (remove1 t gs) \<Longrightarrow> status (task (s\<lparr>lk := l'\<rparr>) u) = TASK_RUNNING \<Longrightarrow> u = current (s\<lparr>lk := l'\<rparr>)"
      using p(3) [of u] d by (simp add: set_remove1_eq)
    show "u \<in> set (remove1 t gs) \<Longrightarrow> stackMagic (task (s\<lparr>lk := l'\<rparr>) u) = TASK_STACK_MAGIC"
      using p(4) [of u] d by (simp add: set_remove1_eq)
  qed (use l'(2) p(5-8) d assms(3,4) in \<open>simp_all add: set_remove1_eq\<close>)
  ultimately show ?thesis using sched_invD(2) [OF assms(1)] by (simp add: sched_inv_def)
qed

section \<open>Lookup\<close>

lemma find_pid_chain:
  "\<lbrakk>chain (lk s) (map TaskGlobal gs @ [taskGlobalList])\<rbrakk> \<Longrightarrow>
    find_pid_loop s p (Some (hd (map TaskGlobal gs @ [taskGlobalList]))) =
      Some (List.find (\<lambda>t. pid (task s t) = p) gs)"
proof (induction gs)
  case (Cons t gs)
  have "lnext (lk s) (TaskGlobal t) = Some (hd (map TaskGlobal gs @ [taskGlobalList]))"
    "chain (lk s) (map TaskGlobal gs @ [taskGlobalList])"
    using Cons.prems by (cases gs; simp)+
  with Cons.IH show ?case by (subst find_pid_loop.simps) simp
qed (subst find_pid_loop.simps, simp)

lemma FindTaskByPid_lists:
  assumes "lists_ok (lk s) rs gs ts"
  shows "FindTaskByPid p s = Some (List.find (\<lambda>t. pid (task s t) = p) gs)"
proof -
  have d: "dlist (lk s) taskGlobalList (map TaskGlobal gs)" using assms by (simp add: lists_ok_def)
  then have "chain (lk s) (map TaskGlobal gs @ [taskGlobalList])" by (cases gs) (auto simp: dlist_def)
  with d show ?thesis by (simp add: FindTaskByPid_def dlist_next_head find_pid_chain)
qed

lemma FindTaskByPid_ok: "sched_inv s rs gs ts \<Longrightarrow>
    FindTaskByPid p s = Some (List.find (\<lambda>t. pid (task s t) = p) gs)"
  using FindTaskByPid_lists preschedD(1) sched_invD(1) by metis

lemma find_SomeD: "List.find P xs = Some x \<Longrightarrow> x \<in> set xs \<and> P x"
  by (auto simp: find_Some_iff)

section \<open>Runs of scheduling calls\<close>

text \<open>The calls kernel code makes. Blocking, yielding and the tick act on the running task;
  \<open>Resume\<close> is \<open>TaskUnblock\<close>.\<close>

datatype kcall = Yield | Block TaskStatus | WakeUp tid | Resume tid | Tick | SleepOnSelf
  | Start tid string u32 | Exit tid | SetPgid int int

fun exec :: "kcall \<Rightarrow> kstate \<Rightarrow> kstate option" where
  "exec Yield s = TaskYield s"
| "exec (Block st) s = TaskBlock st s"
| "exec (WakeUp t) s = TaskWakeUp t s"
| "exec (Resume t) s = TaskUnblock t s"
| "exec Tick s = SchedSoftirqHandler s"
| "exec SleepOnSelf s = TaskSleepOn (current s) s"
| "exec (Start t nm prio) s = map_option snd (ThreadStart (Some t) nm prio s)"
| "exec (Exit t) s = ThreadExit (Some t) s"
| "exec (SetPgid p g) s = map_option snd (SysSetPgid p g s)"

definition is_task :: "tid \<Rightarrow> kstate \<Rightarrow> bool" where
  "is_task t s \<longleftrightarrow> ListFind (TaskGlobal t) taskGlobalList (lk s) = Some True"

text \<open>When a call is legal: a task is woken, resumed or removed only while it exists, a removed task
  is neither running nor the idle task, a new task gets a page that no task has, only a waiting
  task is resumed, and the idle task does not become a zombie.\<close>

fun legal :: "kcall \<Rightarrow> kstate \<Rightarrow> bool" where
  "legal (Block st) s \<longleftrightarrow> waiting_status st \<or> (st = TASK_ZOMBIE \<and> current s \<noteq> mainThread s)"
| "legal (WakeUp t) s \<longleftrightarrow> is_task t s"
| "legal (Resume t) s \<longleftrightarrow> is_task t s \<and> waiting_status (status (task s t))"
| "legal (Start t nm prio) s \<longleftrightarrow> \<not> is_task t s"
| "legal (Exit t) s \<longleftrightarrow> is_task t s \<and> t \<noteq> current s \<and> t \<noteq> mainThread s"
| "legal _ s \<longleftrightarrow> True"

lemma is_task_inv: "sched_inv s rs gs ts \<Longrightarrow> is_task t s \<longleftrightarrow> t \<in> set gs"
  using find_nodes(2) [OF preschedD(1) [OF sched_invD(1)], of s rs gs ts t] by (simp add: is_task_def)

lemma exec_ok:
  assumes "sched_inv s rs gs ts" "legal c s"
  shows "\<exists>s' rs' gs'. exec c s = Some s' \<and> sched_inv s' rs' gs' ts"
proof (cases c)
  case (SetPgid p g)
  have "sched_inv (upd_task t (\<lambda>k. k\<lparr>groupPid := g\<rparr>) s) rs gs ts" for t
    using assms(1) same_sched_inv(1) [OF same_sched_upd, of "\<lambda>k. k\<lparr>groupPid := g\<rparr>"] by simp
  with SetPgid assms(1) FindTaskByPid_ok [OF assms(1), of p] show ?thesis
    by (auto simp: SysSetPgid_def split: option.splits)
next
  case (Start t nm prio)
  with assms is_task_inv [OF assms(1)] ThreadStart_ok [OF assms(1), of t nm prio] show ?thesis by fastforce
next
  case (Exit t)
  with assms is_task_inv [OF assms(1)] ThreadExit_ok [OF assms(1), of t] show ?thesis by fastforce
next
  case (WakeUp t)
  with assms is_task_inv [OF assms(1)] TaskWakeUp_inv [OF assms(1), of t] show ?thesis by fastforce
next
  case (Resume t)
  with assms is_task_inv [OF assms(1)] TaskUnblock_inv [OF assms(1), of t] show ?thesis by fastforce
next
  case Yield
  with TaskYield_ok [OF assms(1)] show ?thesis by auto
next
  case (Block st)
  with assms TaskBlock_ok [OF assms(1), of st] show ?thesis by fastforce
next
  case Tick
  with SchedSoftirq_ok [OF assms(1)] show ?thesis by fastforce
next
  case SleepOnSelf
  with TaskSleepOn_current [OF assms(1)] show ?thesis by fastforce
qed

text \<open>A run: \<open>None\<close> if the kernel stops, \<open>Some None\<close> if a call was not legal.\<close>

fun run :: "kcall list \<Rightarrow> kstate \<Rightarrow> kstate option option" where
  "run [] s = Some (Some s)"
| "run (c # cs) s =
     (if \<not> legal c s then Some None else do { s \<leftarrow> exec c s; run cs s })"

text \<open>The state at the start of \<open>InitTasks\<close>: empty lists, and the boot stack's page as the running task.\<close>

definition boot :: "tid \<Rightarrow> kstate \<Rightarrow> kstate option" where
  "boot c s = MakeMainThread (s\<lparr>nextPid := 1, current := c,
     lk := INIT_LIST_HEAD taskReadyList (INIT_LIST_HEAD taskGlobalList (INIT_LIST_HEAD timerList (lk s)))\<rparr>)"

lemma lists_ok_empty:
  "lists_ok (INIT_LIST_HEAD taskReadyList (INIT_LIST_HEAD taskGlobalList (INIT_LIST_HEAD timerList l))) [] [] []"
  by (simp add: lists_ok_def dlist_def INIT_LIST_HEAD_def)

lemma boot_ok: "\<exists>s'. boot c s = Some s' \<and> sched_inv s' [] [c] [] \<and> current s' = c \<and> mainThread s' = c"
proof -
  let ?l = "INIT_LIST_HEAD taskReadyList (INIT_LIST_HEAD taskGlobalList (INIT_LIST_HEAD timerList (lk s)))"
  let ?s = "TaskInit c ''main'' 1 (s\<lparr>nextPid := 1, current := c, lk := ?l, mainThread := c\<rparr>)"
  have lo: "lists_ok (clear_links c ?l) [] [] []" by (rule clear_links_ok [OF lists_ok_empty]) simp_all
  from global_append [OF this, of c] obtain l where
    l: "ListAddTail (TaskGlobal c) taskGlobalList (clear_links c ?l) = Some l" "lists_ok l [] [c] []" by auto
  have eq: "s\<lparr>nextPid := 1, current := c, lk := ?l\<rparr>\<lparr>mainThread := c\<rparr> = s\<lparr>nextPid := 1, current := c, lk := ?l, mainThread := c\<rparr>"
    by simp
  have "boot c s = Some (?s\<lparr>lk := l\<rparr>)"
    using lo l(1) by (simp add: boot_def MakeMainThread_def with_links_def Let_def)
  moreover have "sched_inv (?s\<lparr>lk := l\<rparr>) [] [c] []"
    using l(2) by (simp add: sched_inv_def presched_def)
  ultimately show ?thesis by simp
qed

lemma run_inv: "sched_inv s rs gs ts \<Longrightarrow>
    \<exists>r. run cs s = Some r \<and> (case r of None \<Rightarrow> True | Some s' \<Rightarrow> \<exists>rs' gs'. sched_inv s' rs' gs' ts)"
proof (induction cs arbitrary: s rs gs)
  case (Cons c cs)
  show ?case
  proof (cases "legal c s")
    case True
    with exec_ok [OF Cons.prems True] obtain s1 rs1 gs1 where "exec c s = Some s1" "sched_inv s1 rs1 gs1 ts" by auto
    with Cons.IH True show ?thesis by fastforce
  qed simp
qed auto

fun yields :: "nat \<Rightarrow> kstate \<Rightarrow> kstate option" where
  "yields 0 s = Some s"
| "yields (Suc n) s = do { s \<leftarrow> TaskYield s; yields n s }"

lemma yields_ok: "sched_inv s rs gs ts \<Longrightarrow>
    \<exists>s' rs'. yields n s = Some s' \<and> sched_inv s' rs' gs ts \<and> current s' # rs' = rotate n (current s # rs)"
proof (induction n arbitrary: s rs)
  case (Suc n)
  from TaskYield_ok [OF Suc.prems] obtain s1 where
    s1: "TaskYield s = Some s1" "sched_inv s1 (tl (rs @ [current s])) gs ts" "current s1 = hd (rs @ [current s])"
    by auto
  have "current s1 # tl (rs @ [current s]) = rotate1 (current s # rs)" using s1(3) by (cases rs) simp_all
  with Suc.IH [OF s1(2)] s1(1) show ?case by (auto simp: rotate1_rotate_swap)
qed auto

fun ticks_n :: "nat \<Rightarrow> kstate \<Rightarrow> kstate option" where
  "ticks_n 0 s = Some s"
| "ticks_n (Suc n) s = do { s \<leftarrow> SchedSoftirqHandler s; ticks_n n s }"

lemma ticks_n_slice:
  assumes "sched_inv s rs gs ts" "unat (ticks (task s (current s))) = n"
  shows "\<exists>s'. ticks_n (Suc n) s = Some s' \<and> sched_inv s' (tl (rs @ [current s])) gs ts \<and>
    current s' = hd (rs @ [current s])"
  using assms
proof (induction n arbitrary: s)
  case 0
  then have "ticks (task s (current s)) = 0" by (simp add: unat_eq_zero)
  with SchedSoftirq_ok [OF 0(1)] show ?case by auto
next
  case (Suc n)
  let ?t = "ticks (task s (current s))"
  have ne: "?t \<noteq> 0" using Suc.prems(2) by auto
  from SchedSoftirq_ok [OF Suc.prems(1)] ne obtain s1 where
    s1: "SchedSoftirqHandler s = Some s1" "sched_inv s1 rs gs ts" "current s1 = current s"
      "ticks (task s1 (current s)) = ?t - 1" by auto
  have "unat (?t - 1) = n" using Suc.prems(2) ne by (simp add: unat_minus_one)
  with Suc.IH [OF s1(2)] s1 show ?case by auto
qed

definition blank_kernel :: kstate where
  "blank_kernel = \<lparr>task = (\<lambda>_. zero_task), lk = \<lparr>lprev = (\<lambda>_. None), lnext = (\<lambda>_. None)\<rparr>, current = 0,
     mainThread = 0, nextPid = 0, timer = (\<lambda>_. \<lparr>expires = 0, data = 0, tfunction = TimerTest, tstate = TIMER_IDLE\<rparr>)\<rparr>"

text \<open>A booted kernel with three more threads, for the instances below.\<close>

lemma demo_kernel: "\<exists>s. sched_inv s [1, 2, 3] [0, 1, 2, 3] [] \<and> current s = 0 \<and> mainThread s = 0"
proof -
  obtain s0 where s0: "sched_inv s0 [] [0] []" "current s0 = 0" "mainThread s0 = 0"
    using boot_ok [of 0 blank_kernel] by auto
  have keep: "mainThread s' = mainThread s" if "ThreadStart (Some t) nm p s = Some (x, s')" for t nm p s x s'
    using that by (auto simp: ThreadStart_def add_new_task_def with_links_def split: bind_splits)
  obtain s1 where s1: "sched_inv s1 [1] [0, 1] []" "current s1 = 0" "mainThread s1 = 0"
    using ThreadStart_ok [OF s0(1), of 1 "''a''" 1] s0 keep by fastforce
  obtain s2 where s2: "sched_inv s2 [1, 2] [0, 1, 2] []" "current s2 = 0" "mainThread s2 = 0"
    using ThreadStart_ok [OF s1(1), of 2 "''b''" 1] s1 keep by fastforce
  obtain s3 where "sched_inv s3 [1, 2, 3] [0, 1, 2, 3] []" "current s3 = 0" "mainThread s3 = 0"
    using ThreadStart_ok [OF s2(1), of 3 "''c''" 1] s2 keep by fastforce
  then show ?thesis by blast
qed

lemma demo_kernel2: "\<exists>s. sched_inv s [2, 3] [0, 1, 2, 3] [] \<and> current s = 1 \<and> mainThread s = 0 \<and>
    status (task s 0) = TASK_BLOCKED"
proof -
  obtain s where s: "sched_inv s [1, 2, 3] [0, 1, 2, 3] []" "current s = 0" "mainThread s = 0"
    using demo_kernel by blast
  let ?s = "SET_TASK_STATUS (current s) TASK_BLOCKED s"
  from Schedule_ok [OF presched_stop [OF s(1), of TASK_BLOCKED]] obtain l where
    "sched_inv (switched ?s [1, 2, 3] l) (tl (next_queue ?s [1, 2, 3])) [0, 1, 2, 3] []" by auto
  moreover have "next_queue ?s [1, 2, 3] = [1, 2, 3]" by (simp add: next_queue_def)
  ultimately show ?thesis using s(2,3)
    by (intro exI [of _ "switched ?s [1, 2, 3] l"]) (simp add: switched_task requeue_task_task)
qed

section \<open>Properties\<close>

text \<open>
  C1: from the boot of the task system, no run of legal scheduling calls (yields, blocks, wake-ups,
  clock ticks, thread starts and exits, in any order) ever stops the kernel by a failed assertion
  or a NULL link; after it exactly one task is running, the ready list holds exactly the ready
  tasks of the global list, once each, and the idle task can still be scheduled.
\<close>

theorem scheduler_safe:
  "\<exists>s r. boot c s0 = Some s \<and> run cs s = Some r \<and>
     (case r of None \<Rightarrow> True | Some s' \<Rightarrow> \<exists>rs gs.
        dlist (lk s') taskReadyList (map TaskList rs) \<and> dlist (lk s') taskGlobalList (map TaskGlobal gs) \<and>
        set rs = {t \<in> set gs. status (task s' t) = TASK_READY} \<and>
        {t \<in> set gs. status (task s' t) = TASK_RUNNING} = {current s'} \<and>
        status (task s' (mainThread s')) \<notin> {TASK_ZOMBIE, TASK_DIED})"
proof -
  obtain s where s: "boot c s0 = Some s" "sched_inv s [] [c] []" using boot_ok by blast
  obtain r where r: "run cs s = Some r"
      "case r of None \<Rightarrow> True | Some s' \<Rightarrow> \<exists>rs' gs'. sched_inv s' rs' gs' []"
    using run_inv [OF s(2)] by auto
  show ?thesis
  proof (cases r)
    case (Some s')
    then obtain rs gs where inv: "sched_inv s' rs gs []" using r(2) by auto
    note p = preschedD [OF sched_invD(1) [OF inv]] and c = sched_invD(2) [OF inv]
    have "set rs = {t \<in> set gs. status (task s' t) = TASK_READY}" using p(2) by blast
    moreover have "{t \<in> set gs. status (task s' t) = TASK_RUNNING} = {current s'}" using p(3,5) c by blast
    ultimately show ?thesis using s(1) r(1) Some p(1,7,8) by (auto simp: lists_ok_def)
  qed (use s r in auto)
qed

text \<open>
  C24: round robin. If the running tasks only yield, the processor goes round the ready list in its
  order: after \<open>n\<close> yields the running task and the ready list are the old ones rotated by \<open>n\<close>,
  so a task with \<open>k\<close> tasks before it runs after \<open>k + 1\<close> yields.
\<close>

theorem yield_round_robin:
  assumes "sched_inv s rs gs ts"
  shows "\<exists>s' rs'. yields n s = Some s' \<and> sched_inv s' rs' gs ts \<and>
    current s' # rs' = rotate n (current s # rs)"
  by (rule yields_ok [OF assms])

theorem yield_round_robin_witness:
  "\<exists>s s'. yields 2 s = Some s' \<and> current s = 0 \<and> current s' = 2"
proof -
  obtain s where s: "sched_inv s [1, 2, 3] [0, 1, 2, 3] []" "current s = 0" using demo_kernel by blast
  have "rotate 2 [0 :: nat, 1, 2, 3] = [2, 3, 0, 1]" by (simp add: rotate_drop_take)
  with yield_round_robin [OF s(1), of 2] s(2) show ?thesis by auto
qed

text \<open>
  C15: time slices. A task that keeps the processor is preempted after exactly one more clock tick
  than its remaining slice; the first ready task then runs, and it goes to the end of the list.
\<close>

theorem tick_preempts:
  assumes "sched_inv s rs gs ts"
  shows "\<exists>s'. ticks_n (unat (ticks (task s (current s))) + 1) s = Some s' \<and>
    sched_inv s' (tl (rs @ [current s])) gs ts \<and> current s' = hd (rs @ [current s])"
  using ticks_n_slice [OF assms refl] by simp

theorem tick_preempts_witness:
  "\<exists>s s'. ticks_n (unat (ticks (task s (current s))) + 1) s = Some s' \<and> current s = 0 \<and> current s' = 1"
proof -
  obtain s where s: "sched_inv s [1, 2, 3] [0, 1, 2, 3] []" "current s = 0" using demo_kernel by blast
  show ?thesis using tick_preempts [OF s(1)] s(2) by fastforce
qed

text \<open>
  a blocked or stopped task that is woken goes to the front of the ready list, before every task
  that was waiting for the processor: it is the next to run.
\<close>

theorem wakeup_runs_next:
  assumes "sched_inv s rs gs ts" "t \<in> set gs" "status (task s t) \<in> {TASK_BLOCKED, TASK_STOPPED}"
  shows "\<exists>s1 s2. TaskWakeUp t s = Some s1 \<and> TaskYield s1 = Some s2 \<and> current s2 = t \<and>
    sched_inv s2 (rs @ [current s]) gs ts"
proof -
  obtain s1 where s1: "TaskWakeUp t s = Some s1" "current s1 = current s" "sched_inv s1 (t # rs) gs ts"
    using TaskWakeUp_inv [OF assms(1,2)] assms(3) by auto
  with TaskYield_ok [OF s1(3)] show ?thesis by auto
qed

end
