(* ===== verification/Timer.thy ===== *)
theory Timer
  imports Sched
begin

text \<open>
  Timers (\<open>drivers/timer.c\<close>) and sleeping (\<open>kernel/sleep_wakeup.c\<close>). A timer is named by a
  number; the timer of \<open>TaskSleep\<close> is a local variable on the kernel stack of the sleeping
  task and is named by that task. Timers that are running count down once per clock tick; one
  that reaches 0 leaves the list and its function is called. \<open>TaskSleep\<close> is split at the
  switch to another task: \<open>TaskSleep\<close> up to it, \<open>TaskSleep_resume\<close> after it.

  The timer list is walked with \<open>ListForEachOwnerSafe\<close>. The lemmas show that this visits every
  timer once although expired timers leave the list, and say when a sleeper is woken.
\<close>

section \<open>Model\<close>

fun timer_owner :: "lnode \<Rightarrow> nat option" where
  "timer_owner (TimerNode i) = Some i"
| "timer_owner _ = None"

definition upd_timer :: "nat \<Rightarrow> (timer \<Rightarrow> timer) \<Rightarrow> kstate \<Rightarrow> kstate" where
  "upd_timer i f s = s\<lparr>timer := (timer s)(i := f (timer s i))\<rparr>"

definition TimerInit :: "nat \<Rightarrow> u64 \<Rightarrow> tid \<Rightarrow> timer_function \<Rightarrow> kstate \<Rightarrow> kstate" where
  "TimerInit i exps dat fn s =
     upd_timer i (\<lambda>_. \<lparr>expires = exps, data = dat, tfunction = fn, tstate = TIMER_IDLE\<rparr>)
       (s\<lparr>lk := INIT_LIST_HEAD (TimerNode i) (lk s)\<rparr>)"

definition AddTimer :: "nat \<Rightarrow> kstate \<Rightarrow> kstate option" where
  "AddTimer i s =
     do { f \<leftarrow> ListFind (TimerNode i) timerList (lk s);
          ASSERT (\<not> f);
          with_links (ListAddTail (TimerNode i) timerList) (upd_timer i (\<lambda>t. t\<lparr>tstate := TIMER_RUNNING\<rparr>) s) }"

definition RemoveTimer :: "nat \<Rightarrow> kstate \<Rightarrow> kstate option" where
  "RemoveTimer i s =
     do { f \<leftarrow> ListFind (TimerNode i) timerList (lk s);
          ASSERT f;
          with_links (ListDelInit (TimerNode i)) s }"

definition StopTimer :: "nat \<Rightarrow> kstate \<Rightarrow> kstate" where
  "StopTimer i s = upd_timer i (\<lambda>t. t\<lparr>tstate := TIMER_STOP\<rparr>) s"

definition ResumeTimer :: "nat \<Rightarrow> kstate \<Rightarrow> kstate" where
  "ResumeTimer i s = upd_timer i (\<lambda>t. t\<lparr>tstate := TIMER_RUNNING\<rparr>) s"

definition CancelTimer :: "nat \<Rightarrow> kstate \<Rightarrow> kstate option" where
  "CancelTimer i s = RemoveTimer i s"

text \<open>\<open>TaskTimeout\<close> wakes the task in its argument; \<open>TimerTest\<close> only prints.\<close>

fun call_function :: "timer_function \<Rightarrow> tid \<Rightarrow> kstate \<Rightarrow> kstate option" where
  "call_function TaskTimeout d s = TaskWakeUp d s"
| "call_function TimerTest d s = Some s"

definition DoTimerHandler :: "nat \<Rightarrow> kstate \<Rightarrow> kstate option" where
  "DoTimerHandler i s =
     do { s \<leftarrow> RemoveTimer i s; call_function (tfunction (timer s i)) (data (timer s i)) s }"

definition TimerUpdate :: "nat \<Rightarrow> kstate \<Rightarrow> (bool \<times> kstate) option" where
  "TimerUpdate i s =
     (if tstate (timer s i) = TIMER_RUNNING then
        let s = upd_timer i (\<lambda>t. t\<lparr>expires := expires t - 1\<rparr>) s
        in if expires (timer s i) = 0 then do { s \<leftarrow> DoTimerHandler i s; Some (True, s) }
           else Some (False, s)
      else Some (False, s))"

partial_function (option) update_timers_loop :: "kstate \<Rightarrow> lnode \<Rightarrow> lnode option \<Rightarrow> kstate option" where
  "update_timers_loop s pos nxt =
     (if pos = timerList then Some s
      else do { i \<leftarrow> timer_owner pos;
                (_, s) \<leftarrow> TimerUpdate i s;
                p \<leftarrow> nxt;
                update_timers_loop s p (lnext (lk s) p) })"

definition UpdateTimerSystem :: "kstate \<Rightarrow> kstate option" where
  "UpdateTimerSystem s =
     do { p \<leftarrow> lnext (lk s) timerList; update_timers_loop s p (lnext (lk s) p) }"

definition InitTimer :: "kstate \<Rightarrow> kstate" where
  "InitTimer s = s\<lparr>lk := INIT_LIST_HEAD timerList (lk s)\<rparr>"

definition HZ :: u32 where "HZ = 500"

definition TaskSleep :: "u32 \<Rightarrow> kstate \<Rightarrow> kstate option" where
  "TaskSleep tks s =
     do { let cur = current s;
          let s = TimerInit cur (ucast tks) cur TaskTimeout s;
          let s = upd_task cur (\<lambda>t. t\<lparr>sleepTimer := Some cur\<rparr>) s;
          s \<leftarrow> AddTimer cur s;
          Schedule (SET_TASK_STATUS cur TASK_BLOCKED s) }"

definition TaskSleep_resume :: "tid \<Rightarrow> kstate \<Rightarrow> u32 \<times> kstate" where
  "TaskSleep_resume t s =
     (ucast (expires (timer s t)), upd_task t (\<lambda>k. k\<lparr>sleepTimer := None\<rparr>) s)"

definition SysSleep :: "u32 \<Rightarrow> kstate \<Rightarrow> kstate option" where
  "SysSleep second s = TaskSleep (second * HZ) s"

definition SysSleep_resume :: "tid \<Rightarrow> kstate \<Rightarrow> u32 \<times> kstate" where
  "SysSleep_resume t s = (let (r, s) = TaskSleep_resume t s in (r div HZ, s))"

section \<open>Lemmas\<close>

lemma upd_timer_sel [simp]:
  "timer (upd_timer i f s) = (timer s)(i := f (timer s i))" "lk (upd_timer i f s) = lk s"
  "task (upd_timer i f s) = task s" "current (upd_timer i f s) = current s"
  "mainThread (upd_timer i f s) = mainThread s"
  by (simp_all add: upd_timer_def)

lemma same_sched_timer [simp]: "same_sched s (upd_timer i f s)"
  by (simp add: same_sched_def)

lemma presched_timers:
  "presched s rs gs ts \<Longrightarrow> lists_ok l rs gs ts' \<Longrightarrow> presched (s\<lparr>lk := l\<rparr>) rs gs ts'"
  by (simp add: presched_def)

lemma sched_inv_timers:
  "sched_inv s rs gs ts \<Longrightarrow> lists_ok l rs gs ts' \<Longrightarrow> sched_inv (s\<lparr>lk := l\<rparr>) rs gs ts'"
  by (simp add: sched_inv_def presched_def)

lemma RemoveTimer_ok:
  assumes "sched_inv s rs gs ts" "i \<in> set ts"
  shows "\<exists>l. RemoveTimer i s = Some (s\<lparr>lk := l\<rparr>) \<and> sched_inv (s\<lparr>lk := l\<rparr>) rs gs (remove1 i ts)"
proof -
  note lo = preschedD(1) [OF sched_invD(1) [OF assms(1)]]
  from timer_del_init [OF lo assms(2)] obtain l where
    l: "ListDelInit (TimerNode i) (lk s) = Some l" "lists_ok l rs gs (remove1 i ts)" by auto
  with lo assms sched_inv_timers [OF assms(1) l(2)] show ?thesis
    by (intro exI [of _ l]) (simp add: RemoveTimer_def with_links_def)
qed

text \<open>One timer: what its update does to it, its task and the lists.\<close>

definition fires :: "kstate \<Rightarrow> nat \<Rightarrow> bool" where
  "fires s i \<longleftrightarrow> tstate (timer s i) = TIMER_RUNNING \<and> expires (timer s i) = 1"

definition wakes :: "kstate \<Rightarrow> nat \<Rightarrow> tid \<Rightarrow> bool" where
  "wakes s i t \<longleftrightarrow> fires s i \<and> tfunction (timer s i) = TaskTimeout \<and> data (timer s i) = t"

lemma TaskWakeUp_timer: "TaskWakeUp t s = Some s' \<Longrightarrow> timer s' = timer s"
  by (auto simp: TaskWakeUp_def TaskUnblock_def with_links_def split: if_splits bind_splits)

lemma TaskWakeUp_task: "TaskWakeUp t s = Some s' \<Longrightarrow>
    task s' = (if status (task s t) \<in> {TASK_BLOCKED, TASK_STOPPED}
      then (task s)(t := (task s t)\<lparr>status := TASK_READY\<rparr>) else task s)"
  by (auto simp: TaskWakeUp_def TaskUnblock_def with_links_def split: if_splits bind_splits)

lemma TimerUpdate_ok:
  assumes "sched_inv s rs gs ts" "i \<in> set ts" "data (timer s i) \<in> set gs"
  shows "\<exists>b s' rs'. TimerUpdate i s = Some (b, s') \<and> current s' = current s \<and>
    sched_inv s' rs' gs (if fires s i then remove1 i ts else ts) \<and>
    timer s' = (if tstate (timer s i) = TIMER_RUNNING
      then (timer s)(i := (timer s i)\<lparr>expires := expires (timer s i) - 1\<rparr>) else timer s) \<and>
    task s' = (\<lambda>t. if wakes s i t \<and> status (task s t) \<in> {TASK_BLOCKED, TASK_STOPPED}
      then (task s t)\<lparr>status := TASK_READY\<rparr> else task s t)"
proof (cases "tstate (timer s i) = TIMER_RUNNING")
  case run: True
  let ?s = "upd_timer i (\<lambda>t. t\<lparr>expires := expires t - 1\<rparr>) s"
  have inv: "sched_inv ?s rs gs ts" using assms(1) same_sched_inv(1) [OF same_sched_timer] by simp
  show ?thesis
  proof (cases "expires (timer s i) = 1")
    case False
    then have "expires (timer ?s i) \<noteq> 0" by (simp add: right_minus_eq)
    with run False inv show ?thesis
      by (intro exI [of _ False] exI [of _ ?s] exI [of _ rs]) (auto simp: TimerUpdate_def Let_def fires_def wakes_def)
  next
    case one: True
    from RemoveTimer_ok [OF inv assms(2)] obtain l where
      l: "RemoveTimer i ?s = Some (?s\<lparr>lk := l\<rparr>)" "sched_inv (?s\<lparr>lk := l\<rparr>) rs gs (remove1 i ts)" by auto
    show ?thesis
    proof (cases "tfunction (timer s i)")
      case TaskTimeout
      from TaskWakeUp_inv [OF l(2) assms(3)] obtain s' rs' where
        s': "TaskWakeUp (data (timer s i)) (?s\<lparr>lk := l\<rparr>) = Some s'" "current s' = current s"
          "sched_inv s' rs' gs (remove1 i ts)" by (auto split: if_splits)
      have "TimerUpdate i s = Some (True, s')"
        using run one l(1) s'(1) TaskTimeout by (simp add: TimerUpdate_def Let_def DoTimerHandler_def)
      with TaskWakeUp_timer [OF s'(1)] TaskWakeUp_task [OF s'(1)] s' run one TaskTimeout show ?thesis
        by (intro exI [of _ True] exI [of _ s'] exI [of _ rs']) (auto simp: fires_def wakes_def fun_eq_iff)
    next
      case TimerTest
      have "TimerUpdate i s = Some (True, ?s\<lparr>lk := l\<rparr>)"
        using run one l(1) TimerTest by (simp add: TimerUpdate_def Let_def DoTimerHandler_def)
      with l(2) run one TimerTest show ?thesis
        by (intro exI [of _ True] exI [of _ "?s\<lparr>lk := l\<rparr>"] exI [of _ rs]) (auto simp: fires_def wakes_def)
    qed
  qed
next
  case False
  with assms(1) show ?thesis
    by (intro exI [of _ False] exI [of _ s] exI [of _ rs]) (auto simp: TimerUpdate_def fires_def wakes_def)
qed

definition counted :: "kstate \<Rightarrow> nat set \<Rightarrow> nat \<Rightarrow> timer" where
  "counted s A = (\<lambda>j. if j \<in> A \<and> tstate (timer s j) = TIMER_RUNNING
     then (timer s j)\<lparr>expires := expires (timer s j) - 1\<rparr> else timer s j)"

definition woken :: "kstate \<Rightarrow> nat set \<Rightarrow> tid \<Rightarrow> task" where
  "woken s A = (\<lambda>t. if (\<exists>i\<in>A. wakes s i t) \<and> status (task s t) \<in> {TASK_BLOCKED, TASK_STOPPED}
     then (task s t)\<lparr>status := TASK_READY\<rparr> else task s t)"

lemma timer_next:
  assumes "sched_inv s rs gs (ds @ i # r)"
  shows "lnext (lk s) (TimerNode i) = Some (hd (map TimerNode r @ [timerList]))"
  using dlist_links(1) [of "lk s" timerList "map TimerNode ds" "TimerNode i" "map TimerNode r"]
    preschedD(1) [OF sched_invD(1) [OF assms]]
  by (simp add: lists_ok_def)

lemma update_timers_loop_ok:
  assumes "sched_inv s rs gs (ds @ r)" "\<forall>i\<in>set r. data (timer s i) \<in> set gs"
  shows "\<exists>s' rs'. update_timers_loop s (hd (map TimerNode r @ [timerList]))
        (lnext (lk s) (hd (map TimerNode r @ [timerList]))) = Some s' \<and>
      current s' = current s \<and> sched_inv s' rs' gs (ds @ filter (\<lambda>i. \<not> fires s i) r) \<and>
      timer s' = counted s (set r) \<and> task s' = woken s (set r)"
  using assms
proof (induction r arbitrary: s rs ds)
  case Nil
  then show ?case
    by (subst update_timers_loop.simps) (auto simp: counted_def woken_def)
next
  case (Cons i r)
  have d: "distinct (ds @ i # r)"
    using lists_ok_distinct [OF preschedD(1) [OF sched_invD(1) [OF Cons.prems(1)]]] by simp
  from TimerUpdate_ok [OF Cons.prems(1), of i] Cons.prems(2) obtain b s1 rs1 where
    u: "TimerUpdate i s = Some (b, s1)" "current s1 = current s"
      "sched_inv s1 rs1 gs (if fires s i then remove1 i (ds @ i # r) else ds @ i # r)"
    and tm: "timer s1 = (if tstate (timer s i) = TIMER_RUNNING
      then (timer s)(i := (timer s i)\<lparr>expires := expires (timer s i) - 1\<rparr>) else timer s)"
    and tk: "task s1 = (\<lambda>t. if wakes s i t \<and> status (task s t) \<in> {TASK_BLOCKED, TASK_STOPPED}
      then (task s t)\<lparr>status := TASK_READY\<rparr> else task s t)" by auto
  let ?ds = "if fires s i then ds else ds @ [i]"
  have inv1: "sched_inv s1 rs1 gs (?ds @ r)"
    using u(3) d by (simp add: remove1_append split: if_splits)
  have other: "timer s1 j = timer s j" if "j \<in> set r" for j using that d tm by auto
  then have same: "fires s1 j = fires s j" "wakes s1 j t = wakes s j t" if "j \<in> set r" for j t
    using that by (simp_all add: fires_def wakes_def)
  have "\<forall>j\<in>set r. data (timer s1 j) \<in> set gs" using Cons.prems(2) other by simp
  from Cons.IH [OF inv1 this] obtain s' rs' where
    s': "update_timers_loop s1 (hd (map TimerNode r @ [timerList]))
        (lnext (lk s1) (hd (map TimerNode r @ [timerList]))) = Some s'" "current s' = current s1"
      "sched_inv s' rs' gs (?ds @ filter (\<lambda>i. \<not> fires s1 i) r)"
      "timer s' = counted s1 (set r)" "task s' = woken s1 (set r)" by auto
  have "update_timers_loop s (TimerNode i) (lnext (lk s) (TimerNode i)) = Some s'"
    using s'(1) u(1) timer_next [OF Cons.prems(1)] by (subst update_timers_loop.simps) simp
  moreover have "filter (\<lambda>i. \<not> fires s1 i) r = filter (\<lambda>i. \<not> fires s i) r"
    using same(1) by (intro filter_cong) auto
  moreover have "timer s' = counted s (set (i # r))"
    using s'(4) other tm d by (auto simp: counted_def fun_eq_iff)
  moreover have "task s' = woken s (set (i # r))"
    unfolding s'(5) using same(2) by (auto simp: woken_def tk fun_eq_iff)
  ultimately show ?case using s'(2,3) u(2) by (intro exI [of _ s'] exI [of _ rs']) auto
qed

lemma UpdateTimerSystem_ok:
  assumes "sched_inv s rs gs ts" "\<forall>i\<in>set ts. data (timer s i) \<in> set gs"
  shows "\<exists>s' rs'. UpdateTimerSystem s = Some s' \<and> current s' = current s \<and>
      sched_inv s' rs' gs (filter (\<lambda>i. \<not> fires s i) ts) \<and>
      timer s' = counted s (set ts) \<and> task s' = woken s (set ts)"
proof -
  have "dlist (lk s) timerList (map TimerNode ts)"
    using preschedD(1) [OF sched_invD(1) [OF assms(1)]] by (simp add: lists_ok_def)
  then have "lnext (lk s) timerList = Some (hd (map TimerNode ts @ [timerList]))" by (rule dlist_next_head)
  with update_timers_loop_ok [of s rs gs "[]" ts] assms show ?thesis by (simp add: UpdateTimerSystem_def)
qed

fun update_n :: "nat \<Rightarrow> kstate \<Rightarrow> kstate option" where
  "update_n 0 s = Some s"
| "update_n (Suc n) s = do { s \<leftarrow> UpdateTimerSystem s; update_n n s }"

text \<open>A task that sleeps on timer \<open>i\<close>, the only timer that can wake it.\<close>

definition sleeper :: "kstate \<Rightarrow> nat list \<Rightarrow> nat \<Rightarrow> tid \<Rightarrow> bool" where
  "sleeper s ts i t \<longleftrightarrow> i \<in> set ts \<and> tstate (timer s i) = TIMER_RUNNING \<and>
     tfunction (timer s i) = TaskTimeout \<and> data (timer s i) = t \<and> status (task s t) = TASK_BLOCKED \<and>
     (\<forall>j\<in>set ts. data (timer s j) = t \<longrightarrow> j = i)"

lemma counted_sel [simp]: "data (counted s A j) = data (timer s j)" "tstate (counted s A j) = tstate (timer s j)"
  "tfunction (counted s A j) = tfunction (timer s j)"
  by (simp_all add: counted_def)

lemma sleeper_update:
  assumes "sched_inv s rs gs ts" "\<forall>i\<in>set ts. data (timer s i) \<in> set gs" "sleeper s ts i t"
  shows "\<exists>s' rs' ts'. UpdateTimerSystem s = Some s' \<and> sched_inv s' rs' gs ts' \<and> current s' = current s \<and>
    (\<forall>i\<in>set ts'. data (timer s' i) \<in> set gs) \<and>
    (if expires (timer s i) = 1 then status (task s' t) = TASK_READY
     else sleeper s' ts' i t \<and> expires (timer s' i) = expires (timer s i) - 1)"
proof -
  from UpdateTimerSystem_ok [OF assms(1,2)] obtain s' rs' where
    s': "UpdateTimerSystem s = Some s'" "current s' = current s"
      "sched_inv s' rs' gs (filter (\<lambda>i. \<not> fires s i) ts)"
      "timer s' = counted s (set ts)" "task s' = woken s (set ts)" by auto
  let ?ts' = "filter (\<lambda>i. \<not> fires s i) ts"
  have "(\<exists>j\<in>set ts. wakes s j t) \<longleftrightarrow> wakes s i t"
    using assms(3) unfolding sleeper_def wakes_def by blast
  also have "\<dots> \<longleftrightarrow> expires (timer s i) = 1"
    using assms(3) by (simp add: sleeper_def wakes_def fires_def)
  finally have "(\<exists>j\<in>set ts. wakes s j t) \<longleftrightarrow> expires (timer s i) = 1" .
  note ex = this
  have e: "expires (timer s' i) = expires (timer s i) - 1" using assms(3) by (simp add: s'(4) counted_def sleeper_def)
  have st: "status (task s' t) = (if expires (timer s i) = 1 then TASK_READY else TASK_BLOCKED)"
    unfolding s'(5) woken_def ex using assms(3) by (simp add: sleeper_def)
  have "sleeper s' ?ts' i t" if "expires (timer s i) \<noteq> 1"
    using assms(3) that st unfolding sleeper_def s'(4) by (simp add: fires_def)
  with e st have "if expires (timer s i) = 1 then status (task s' t) = TASK_READY
     else sleeper s' ?ts' i t \<and> expires (timer s' i) = expires (timer s i) - 1"
    by simp
  with s' assms(2) show ?thesis by (intro exI [of _ s'] exI [of _ rs'] exI [of _ ?ts']) simp
qed

lemma unat_dec: "(w :: u64) \<noteq> 0 \<Longrightarrow> unat w = unat (w - 1) + 1"
  using unat_minus_one [of w] unat_gt_0 [of w] by linarith

lemma sleeper_n:
  assumes "sched_inv s rs gs ts" "\<forall>i\<in>set ts. data (timer s i) \<in> set gs" "sleeper s ts i t"
    "n \<le> unat (expires (timer s i) - 1) + 1"
  shows "\<exists>s'. update_n n s = Some s' \<and>
    status (task s' t) = (if n = unat (expires (timer s i) - 1) + 1 then TASK_READY else TASK_BLOCKED)"
  using assms
proof (induction n arbitrary: s rs ts)
  case 0
  then show ?case by (auto simp: sleeper_def)
next
  case (Suc n)
  let ?e = "expires (timer s i)"
  from sleeper_update [OF Suc.prems(1-3)] obtain s' rs' ts' where
    s': "UpdateTimerSystem s = Some s'" "sched_inv s' rs' gs ts'" "\<forall>i\<in>set ts'. data (timer s' i) \<in> set gs"
      "if ?e = 1 then status (task s' t) = TASK_READY
       else sleeper s' ts' i t \<and> expires (timer s' i) = ?e - 1" by auto
  show ?case
  proof (cases "?e = 1")
    case True
    then have "n = 0" using Suc.prems(4) by simp
    with s' True show ?thesis by simp
  next
    case False
    then have e: "unat (?e - 1) = unat (?e - 1 - 1) + 1" by (intro unat_dec) (simp add: right_minus_eq)
    have "n \<le> unat (expires (timer s' i) - 1) + 1" using Suc.prems(4) s'(4) False e by simp
    from Suc.IH [OF s'(2,3) _ this] s'(1,4) False e show ?thesis by auto
  qed
qed

section \<open>Going to sleep\<close>

lemma TimerInit_sel [simp]:
  "task (TimerInit i e d f s) = task s" "current (TimerInit i e d f s) = current s"
  "mainThread (TimerInit i e d f s) = mainThread s"
  "lk (TimerInit i e d f s) = INIT_LIST_HEAD (TimerNode i) (lk s)"
  "timer (TimerInit i e d f s) = (timer s)(i := \<lparr>expires = e, data = d, tfunction = f, tstate = TIMER_IDLE\<rparr>)"
  by (simp_all add: TimerInit_def)

lemma lists_ok_init_timer: "lists_ok l rs gs ts \<Longrightarrow> i \<notin> set ts \<Longrightarrow> lists_ok (INIT_LIST_HEAD (TimerNode i) l) rs gs ts"
proof -
  assume a: "lists_ok l rs gs ts" "i \<notin> set ts"
  note d = dlist_agree [OF INIT_agree]
  from a show ?thesis unfolding lists_ok_def by (intro conjI d) auto
qed

lemma TaskSleep_ok:
  assumes inv: "sched_inv s rs gs ts" and good: "\<forall>i\<in>set ts. data (timer s i) \<in> set gs"
    and free: "current s \<notin> set ts" "\<forall>i\<in>set ts. data (timer s i) \<noteq> current s"
    and nm: "current s \<noteq> mainThread s"
  shows "\<exists>s' rs'. TaskSleep tks s = Some s' \<and> sched_inv s' rs' gs (ts @ [current s]) \<and>
    (\<forall>i\<in>set (ts @ [current s]). data (timer s' i) \<in> set gs) \<and>
    sleeper s' (ts @ [current s]) (current s) (current s) \<and> expires (timer s' (current s)) = ucast tks \<and>
    sleepTimer (task s' (current s)) = Some (current s)"
proof -
  note p = preschedD [OF sched_invD(1) [OF inv]]
  let ?c = "current s"
  let ?s1 = "upd_task ?c (\<lambda>t. t\<lparr>sleepTimer := Some ?c\<rparr>) (TimerInit ?c (ucast tks) ?c TaskTimeout s)"
  let ?s2 = "upd_timer ?c (\<lambda>t. t\<lparr>tstate := TIMER_RUNNING\<rparr>) ?s1"
  have lo: "lists_ok (lk ?s1) rs gs ts" using lists_ok_init_timer [OF p(1) free(1)] by simp
  from timer_append [OF lo free(1)] obtain l where
    l: "ListAddTail (TimerNode ?c) timerList (lk ?s1) = Some l" "lists_ok l rs gs (ts @ [?c])" by auto
  let ?s3 = "?s2\<lparr>lk := l\<rparr>" and ?s4 = "SET_TASK_STATUS ?c TASK_BLOCKED (?s2\<lparr>lk := l\<rparr>)"
  have add: "AddTimer ?c ?s1 = Some ?s3" using lo free(1) l(1) by (simp add: AddTimer_def with_links_def)
  have "same_sched (s\<lparr>lk := l\<rparr>) ?s3" by (simp add: same_sched_def)
  then have inv3: "sched_inv ?s3 rs gs (ts @ [?c])"
    using sched_inv_timers [OF inv l(2)] by (simp add: same_sched_inv(1))
  have pre: "presched ?s4 rs gs (ts @ [?c])"
    using presched_stop [OF inv3, of TASK_BLOCKED] by simp
  from Schedule_ok [OF pre] obtain l' where
    l': "Schedule ?s4 = Some (switched ?s4 rs l')" "sched_inv (switched ?s4 rs l') (tl (next_queue ?s4 rs)) gs (ts @ [?c])"
    by auto
  have nq: "hd (next_queue ?s4 rs) \<noteq> ?c"
    using nm sched_invD(3) [OF inv] hd_in_set [of rs] by (cases rs) (auto simp: next_queue_def)
  have "TaskSleep tks s = Some (switched ?s4 rs l')"
    using add l'(1) by (simp add: TaskSleep_def Let_def)
  moreover have "sleeper (switched ?s4 rs l') (ts @ [?c]) ?c ?c"
    using nq free(2) by (auto simp: sleeper_def switched_task Let_def requeue_task_task)
  moreover have "\<forall>i\<in>set (ts @ [?c]). data (timer (switched ?s4 rs l') i) \<in> set gs"
    using good p(5) free(1) by auto
  moreover have "sleepTimer (task (switched ?s4 rs l') ?c) = Some ?c"
    using nq by (simp add: switched_task Let_def requeue_task_task)
  ultimately show ?thesis using l'(2) by fastforce
qed

definition sleep_ticks :: "u32 \<Rightarrow> nat" where
  "sleep_ticks tks = (if tks = 0 then 2 ^ 64 else unat tks)"

lemma unat_widen: "unat (ucast (w :: u32) :: u64) = unat w"
proof -
  have "unat w < 2 ^ 32" using unsigned_less [of w] by simp
  then have "unat w < 2 ^ 64" by simp
  then show ?thesis by (simp add: unsigned_ucast_eq take_bit_nat_eq_self)
qed

lemma sleep_ticks_eq: "Suc (unat (ucast tks - 1 :: u64)) = sleep_ticks tks"
proof (cases "tks = 0")
  case True
  then show ?thesis by (simp add: sleep_ticks_def unsigned_minus_1_eq_mask mask_eq_exp_minus_1)
next
  case False
  then have "(ucast tks :: u64) \<noteq> 0" using unat_widen [of tks] unat_eq_zero by force
  from unat_dec [OF this] False show ?thesis by (simp add: sleep_ticks_def unat_widen)
qed

section \<open>Properties\<close>

text \<open>
  C19: a task that calls \<open>TaskSleep(n)\<close> and is not woken by anything else stays blocked through
  the first \<open>n - 1\<close> timer updates and is ready after the \<open>n\<close>-th, whatever the other timers do.
  For \<open>n = 0\<close> the counter wraps and the task stays blocked for \<open>2 ^ 64\<close> updates.
\<close>

theorem sleep_on_time:
  assumes "sched_inv s rs gs ts" "\<forall>i\<in>set ts. data (timer s i) \<in> set gs"
    and "current s \<notin> set ts" "\<forall>i\<in>set ts. data (timer s i) \<noteq> current s" "current s \<noteq> mainThread s"
    and "n \<le> sleep_ticks tks"
  shows "\<exists>s1 s2. TaskSleep tks s = Some s1 \<and> update_n n s1 = Some s2 \<and>
    status (task s2 (current s)) = (if n = sleep_ticks tks then TASK_READY else TASK_BLOCKED)"
proof -
  from TaskSleep_ok [OF assms(1-5)] obtain s' rs' where
    s': "TaskSleep tks s = Some s'" "sched_inv s' rs' gs (ts @ [current s])"
      "\<forall>i\<in>set (ts @ [current s]). data (timer s' i) \<in> set gs"
      "sleeper s' (ts @ [current s]) (current s) (current s)" "expires (timer s' (current s)) = ucast tks"
    by blast
  from sleeper_n [OF s'(2-4), of n] assms(6) s'(1,5) show ?thesis by (simp add: sleep_ticks_eq)
qed

theorem sleep_on_time_witness:
  "\<exists>s s1 s2. TaskSleep 3 s = Some s1 \<and> update_n 2 s1 = Some s2 \<and> status (task s2 (current s)) = TASK_BLOCKED"
proof -
  obtain s where s: "sched_inv s [2, 3] [0, 1, 2, 3] []" "current s = 1" "mainThread s = 0"
    using demo_kernel2 by blast
  have "\<exists>s1 s2. TaskSleep 3 s = Some s1 \<and> update_n 2 s1 = Some s2 \<and>
      status (task s2 (current s)) = (if (2::nat) = sleep_ticks 3 then TASK_READY else TASK_BLOCKED)"
    by (rule sleep_on_time [OF s(1)]) (use s in \<open>simp_all add: sleep_ticks_def\<close>)
  then show ?thesis by (auto simp: sleep_ticks_def)
qed

end
