(* ===== verification/ExitWait.thy ===== *)
theory ExitWait
  imports Timer
begin

text \<open>
  Process exit and waiting (\<open>kernel/exit_wait.c\<close>). System calls enter through an interrupt gate,
  so a call runs with interrupts off up to its next switch and is one step. \<open>SysExit\<close> ends in
  the switch that leaves the zombie; the release of its address space and of its files, which
  it calls before that, acts on state of other components. \<open>SysWait\<close> is modelled as one pass
  from the label \<open>ToRepeat\<close>: it reaps a child, finds that there is none, or blocks, and the
  next pass begins when the task runs again, with the variable \<open>found\<close> as the last pass left it.
\<close>

section \<open>Model\<close>

text \<open>The loop of \<open>NotifyParent\<close>.\<close>

partial_function (option) notify_loop :: "kstate \<Rightarrow> int \<Rightarrow> lnode option \<Rightarrow> (int \<times> kstate) option" where
  "notify_loop s pp pos =
     (if pos = Some taskGlobalList then Some (-1, s)
      else do { n \<leftarrow> pos; t \<leftarrow> global_owner n;
                (if pid (task s t) = pp \<and> status (task s t) = TASK_WAITING
                 then do { s \<leftarrow> TaskUnblock t s; Some (0, s) }
                 else notify_loop s pp (lnext (lk s) n)) })"

definition NotifyParent :: "int \<Rightarrow> kstate \<Rightarrow> (int \<times> kstate) option" where
  "NotifyParent pp s = notify_loop s pp (lnext (lk s) taskGlobalList)"

text \<open>The function returns before its loop over the children.\<close>

definition AdopeChildren :: "tid \<Rightarrow> kstate \<Rightarrow> kstate option" where
  "AdopeChildren cur s =
     do { let s = upd_task cur (\<lambda>t. t\<lparr>parentPid := 0\<rparr>) s;
          (_, s) \<leftarrow> NotifyParent (parentPid (task s cur)) s;
          Some s }"

definition ReleaseZombie :: "tid \<Rightarrow> kstate \<Rightarrow> kstate option" where
  "ReleaseZombie t s = with_links (ListDel (TaskGlobal t)) s"

definition CancelEverything :: "tid \<Rightarrow> kstate \<Rightarrow> kstate option" where
  "CancelEverything t s =
     (case sleepTimer (task s t) of None \<Rightarrow> Some s | Some i \<Rightarrow> RemoveTimer i s)"

definition SysExit :: "int \<Rightarrow> kstate \<Rightarrow> kstate option" where
  "SysExit st s =
     do { let cur = current s;
          let s = upd_task cur (\<lambda>t. t\<lparr>exitStatus := st\<rparr>) s;
          (ret, s) \<leftarrow> NotifyParent (parentPid (task s cur)) s;
          s \<leftarrow> (if ret \<noteq> 0 then AdopeChildren cur s else Some s);
          s \<leftarrow> CancelEverything cur s;
          TaskBlock TASK_ZOMBIE s }"

text \<open>The scan of one pass of \<open>SysWait\<close>: the zombie child found first and whether any child was seen.\<close>

partial_function (option) wait_loop :: "kstate \<Rightarrow> bool \<Rightarrow> lnode option \<Rightarrow> (tid option \<times> bool) option" where
  "wait_loop s found pos =
     (if pos = Some taskGlobalList then Some (None, found)
      else do { n \<leftarrow> pos; t \<leftarrow> global_owner n;
                (if parentPid (task s t) \<noteq> pid (task s (current s)) then wait_loop s found (lnext (lk s) n)
                 else if status (task s t) \<noteq> TASK_ZOMBIE then wait_loop s True (lnext (lk s) n)
                 else Some (Some t, True)) })"

datatype wait_result = Reaped int int | NoChild | Waits bool

definition SysWait_pass :: "bool \<Rightarrow> kstate \<Rightarrow> (wait_result \<times> kstate) option" where
  "SysWait_pass found s =
     do { (r, found) \<leftarrow> wait_loop s found (lnext (lk s) taskGlobalList);
          (case r of
             Some child \<Rightarrow>
               do { s' \<leftarrow> ReleaseZombie child s;
                    Some (Reaped (pid (task s child)) (exitStatus (task s child)), s') }
           | None \<Rightarrow>
               if found then do { s \<leftarrow> TaskBlock TASK_WAITING s; Some (Waits found, s) }
               else Some (NoChild, s)) }"

section \<open>Lemmas\<close>

lemma global_chain:
  assumes "lists_ok (lk s) rs gs ts"
  shows "chain (lk s) (map TaskGlobal gs @ [taskGlobalList])"
    "lnext (lk s) taskGlobalList = Some (hd (map TaskGlobal gs @ [taskGlobalList]))"
  using assms dlist_next_head [of "lk s" taskGlobalList "map TaskGlobal gs"]
  by (cases gs; auto simp: lists_ok_def dlist_def)+

lemma chain_step: "chain l (map TaskGlobal (t # gs) @ [taskGlobalList]) \<Longrightarrow>
    lnext l (TaskGlobal t) = Some (hd (map TaskGlobal gs @ [taskGlobalList])) \<and>
    chain l (map TaskGlobal gs @ [taskGlobalList])"
  by (cases gs) simp_all

lemma notify_chain:
  assumes "chain (lk s) (map TaskGlobal gs @ [taskGlobalList])"
  shows "notify_loop s pp (Some (hd (map TaskGlobal gs @ [taskGlobalList]))) =
    (case List.find (\<lambda>t. pid (task s t) = pp \<and> status (task s t) = TASK_WAITING) gs of
       None \<Rightarrow> Some (-1, s) | Some t \<Rightarrow> map_option (Pair 0) (TaskUnblock t s))"
  using assms
proof (induction gs)
  case (Cons t gs)
  from chain_step [OF Cons.prems] Cons.IH show ?case
    by (subst notify_loop.simps) (auto simp: map_option_case split: option.splits bind_splits)
qed (subst notify_loop.simps, simp)

lemma NotifyParent_eq:
  assumes "sched_inv s rs gs ts"
  shows "NotifyParent pp s =
    (case List.find (\<lambda>t. pid (task s t) = pp \<and> status (task s t) = TASK_WAITING) gs of
       None \<Rightarrow> Some (-1, s) | Some t \<Rightarrow> map_option (Pair 0) (TaskUnblock t s))"
  using global_chain [OF preschedD(1) [OF sched_invD(1) [OF assms]]] notify_chain
  by (simp add: NotifyParent_def)

lemma TaskUnblock_exact:
  assumes "sched_inv s rs gs ts" "t \<in> set gs" "waiting_status (status (task s t))"
  shows "\<exists>l. TaskUnblock t s = Some (SET_TASK_STATUS t TASK_READY (s\<lparr>lk := l\<rparr>)) \<and>
    sched_inv (SET_TASK_STATUS t TASK_READY (s\<lparr>lk := l\<rparr>)) (t # rs) gs ts"
proof -
  have "t \<notin> set rs" using preschedD(2) [OF sched_invD(1) [OF assms(1)], of t] assms(3)
    by (auto simp: waiting_status_def)
  from TaskUnblock_ok [OF preschedD(1) [OF sched_invD(1) [OF assms(1)]] this assms(3)] obtain l where
    l: "TaskUnblock t s = Some (SET_TASK_STATUS t TASK_READY (s\<lparr>lk := l\<rparr>))" by auto
  with TaskUnblock_inv [OF assms] show ?thesis by auto
qed

text \<open>What \<open>NotifyParent\<close> does: nothing, or it readies the first waiting task with that pid.\<close>

lemma NotifyParent_ok:
  assumes "sched_inv s rs gs ts"
  shows "\<exists>r s' rs'. NotifyParent pp s = Some (r, s') \<and> sched_inv s' rs' gs ts \<and> current s' = current s \<and>
    mainThread s' = mainThread s \<and>
    (\<forall>t. task s' t = task s t \<or> (status (task s t) = TASK_WAITING \<and> task s' t = (task s t)\<lparr>status := TASK_READY\<rparr>)) \<and>
    (r \<noteq> 0 \<longleftrightarrow> (\<forall>t\<in>set gs. \<not> (pid (task s t) = pp \<and> status (task s t) = TASK_WAITING))) \<and>
    (r \<noteq> 0 \<longrightarrow> s' = s) \<and>
    (r = 0 \<longrightarrow> (\<exists>t\<in>set gs. pid (task s t) = pp \<and> status (task s t) = TASK_WAITING \<and> rs' = t # rs))"
proof (cases "List.find (\<lambda>t. pid (task s t) = pp \<and> status (task s t) = TASK_WAITING) gs")
  case None
  then have "\<forall>t\<in>set gs. \<not> (pid (task s t) = pp \<and> status (task s t) = TASK_WAITING)"
    by (simp add: find_None_iff)
  moreover have "NotifyParent pp s = Some (-1, s)" using None NotifyParent_eq [OF assms] by simp
  ultimately show ?thesis using assms by (intro exI [of _ "-1"] exI [of _ s] exI [of _ rs]) simp
next
  case (Some t)
  note t = find_SomeD [OF Some]
  then have "t \<in> set gs" "waiting_status (status (task s t))" by (auto simp: waiting_status_def)
  from TaskUnblock_exact [OF assms this] obtain l where
    l: "TaskUnblock t s = Some (SET_TASK_STATUS t TASK_READY (s\<lparr>lk := l\<rparr>))"
      "sched_inv (SET_TASK_STATUS t TASK_READY (s\<lparr>lk := l\<rparr>)) (t # rs) gs ts" by auto
  have "NotifyParent pp s = Some (0, SET_TASK_STATUS t TASK_READY (s\<lparr>lk := l\<rparr>))"
    using Some l(1) NotifyParent_eq [OF assms] by simp
  with l(2) t show ?thesis
    by (intro exI [of _ "0::int"] exI [of _ "SET_TASK_STATUS t TASK_READY (s\<lparr>lk := l\<rparr>)"] exI [of _ "t # rs"]) auto
qed

lemma wait_chain:
  assumes "chain (lk s) (map TaskGlobal gs @ [taskGlobalList])"
  shows "wait_loop s found (Some (hd (map TaskGlobal gs @ [taskGlobalList]))) =
    Some (case List.find (\<lambda>t. parentPid (task s t) = pid (task s (current s)) \<and> status (task s t) = TASK_ZOMBIE) gs of
       None \<Rightarrow> (None, found \<or> (\<exists>t\<in>set gs. parentPid (task s t) = pid (task s (current s))))
     | Some t \<Rightarrow> (Some t, True))"
  using assms
proof (induction gs arbitrary: found)
  case (Cons t gs)
  from chain_step [OF Cons.prems] Cons.IH show ?case
    by (subst wait_loop.simps) (auto split: option.splits)
qed (subst wait_loop.simps, simp)

lemma SysWait_pass_eq:
  assumes "sched_inv s rs gs ts"
  shows "SysWait_pass found s =
    (case List.find (\<lambda>t. parentPid (task s t) = pid (task s (current s)) \<and> status (task s t) = TASK_ZOMBIE) gs of
       Some t \<Rightarrow> map_option (Pair (Reaped (pid (task s t)) (exitStatus (task s t)))) (ReleaseZombie t s)
     | None \<Rightarrow> if found \<or> (\<exists>t\<in>set gs. parentPid (task s t) = pid (task s (current s)))
         then map_option (Pair (Waits True)) (TaskBlock TASK_WAITING s) else Some (NoChild, s))"
proof -
  note g = global_chain [OF preschedD(1) [OF sched_invD(1) [OF assms]]]
  have "wait_loop s found (lnext (lk s) taskGlobalList) =
    Some (case List.find (\<lambda>t. parentPid (task s t) = pid (task s (current s)) \<and> status (task s t) = TASK_ZOMBIE) gs of
       None \<Rightarrow> (None, found \<or> (\<exists>t\<in>set gs. parentPid (task s t) = pid (task s (current s))))
     | Some t \<Rightarrow> (Some t, True))"
    unfolding g(2) by (rule wait_chain [OF g(1)])
  then show ?thesis
    by (auto simp: SysWait_pass_def map_option_case split: option.splits bind_splits)
qed

lemma find_unique: "x \<in> set xs \<Longrightarrow> P x \<Longrightarrow> (\<And>y. y \<in> set xs \<Longrightarrow> P y \<Longrightarrow> y = x) \<Longrightarrow> List.find P xs = Some x"
proof (induction xs)
  case (Cons y ys)
  show ?case
  proof (cases "P y")
    case True
    then show ?thesis using Cons.prems(3) [of y] by simp
  next
    case False
    then have "x \<in> set ys" using Cons.prems(1,2) by auto
    with Cons.IH [OF this Cons.prems(2)] Cons.prems(3) False show ?thesis by simp
  qed
qed simp

lemma switched_fields [simp]:
  "pid (task (switched s rs l) t) = pid (task s t)"
  "parentPid (task (switched s rs l) t) = parentPid (task s t)"
  "exitStatus (task (switched s rs l) t) = exitStatus (task s t)"
  by (simp_all add: switched_task requeue_task_task Let_def)

lemma TaskBlock_exact:
  assumes "sched_inv s rs gs ts" "waiting_status st \<or> (st = TASK_ZOMBIE \<and> current s \<noteq> mainThread s)"
  shows "\<exists>l. TaskBlock st s = Some (switched (SET_TASK_STATUS (current s) st s) rs l) \<and>
    sched_inv (switched (SET_TASK_STATUS (current s) st s) rs l) (tl (if rs = [] then [mainThread s] else rs)) gs ts \<and>
    current (switched (SET_TASK_STATUS (current s) st s) rs l) = hd (if rs = [] then [mainThread s] else rs)"
proof -
  let ?s = "SET_TASK_STATUS (current s) st s"
  have pre: "presched ?s rs gs ts"
    by (rule presched_stop) (use assms in \<open>auto simp: waiting_status_def\<close>)
  have nq: "next_queue ?s rs = (if rs = [] then [mainThread s] else rs)"
    using assms(2) by (auto simp: next_queue_def Let_def waiting_status_def)
  have "TaskBlock st s = Schedule ?s"
    using assms(2) by (auto simp: TaskBlock_def waiting_status_def)
  with Schedule_ok [OF pre] nq show ?thesis by auto
qed

lemma block_status:
  assumes "c = current s" "st \<noteq> TASK_RUNNING" "rs \<noteq> []"
  shows "status (task (switched (SET_TASK_STATUS c st s) rs l) t) =
    (if t = hd rs then TASK_RUNNING else if t = c then st else status (task s t))"
proof -
  have "next_queue (SET_TASK_STATUS c st s) rs = rs" using assms by (simp add: next_queue_def)
  moreover have "requeue_task (SET_TASK_STATUS c st s) = SET_TASK_STATUS c st s"
    using assms by (simp add: requeue_task_def)
  ultimately show ?thesis by (simp add: switched_task Let_def)
qed

lemma ReleaseZombie_ok:
  assumes "sched_inv s rs gs ts" "t \<in> set gs" "status (task s t) = TASK_ZOMBIE"
  shows "\<exists>l. ReleaseZombie t s = Some (s\<lparr>lk := l\<rparr>) \<and> sched_inv (s\<lparr>lk := l\<rparr>) rs (remove1 t gs) ts"
proof -
  note p = preschedD [OF sched_invD(1) [OF assms(1)]]
  have d: "distinct gs" using lists_ok_distinct [OF p(1)] by simp
  from global_del [OF p(1) assms(2)] obtain l where
    l: "ListDel (TaskGlobal t) (lk s) = Some l" "lists_ok l rs (remove1 t gs) ts" by auto
  have ne: "t \<noteq> current s" "t \<noteq> mainThread s" using assms(3) sched_invD(2) [OF assms(1)] p(7) by auto
  have "presched (s\<lparr>lk := l\<rparr>) rs (remove1 t gs) ts"
  proof (rule preschedI)
    fix u
    show "u \<in> set rs \<longleftrightarrow> u \<in> set (remove1 t gs) \<and> status (task (s\<lparr>lk := l\<rparr>) u) = TASK_READY"
      using p(2) [of u] d assms(3) by (auto simp: set_remove1_eq)
    show "u \<in> set (remove1 t gs) \<Longrightarrow> status (task (s\<lparr>lk := l\<rparr>) u) = TASK_RUNNING \<Longrightarrow> u = current (s\<lparr>lk := l\<rparr>)"
      using p(3) [of u] d by (simp add: set_remove1_eq)
    show "u \<in> set (remove1 t gs) \<Longrightarrow> stackMagic (task (s\<lparr>lk := l\<rparr>) u) = TASK_STACK_MAGIC"
      using p(4) [of u] d by (simp add: set_remove1_eq)
  qed (use l(2) p(5-8) d ne in \<open>simp_all add: set_remove1_eq\<close>)
  with l sched_invD(2) [OF assms(1)] show ?thesis
    by (intro exI [of _ l]) (simp add: ReleaseZombie_def with_links_def sched_inv_def)
qed

lemma sched_inv_exitStatus: "sched_inv s rs gs ts \<Longrightarrow> sched_inv (upd_task t (\<lambda>k. k\<lparr>exitStatus := st\<rparr>) s) rs gs ts"
  by (subst same_sched_inv(1) [OF same_sched_upd]) simp_all

lemma sched_inv_parentPid: "sched_inv s rs gs ts \<Longrightarrow> sched_inv (upd_task t (\<lambda>k. k\<lparr>parentPid := st\<rparr>) s) rs gs ts"
  by (subst same_sched_inv(1) [OF same_sched_upd]) simp_all

lemma exit_to_waiting_parent:
  assumes inv: "sched_inv s rs gs ts" and pids: "inj_on (\<lambda>t. pid (task s t)) (set gs)"
    and c: "current s \<noteq> mainThread s" "sleepTimer (task s (current s)) = None"
    and p: "p \<in> set gs" "status (task s p) = TASK_WAITING" "pid (task s p) = parentPid (task s (current s))"
  shows "\<exists>s'. SysExit st s = Some s' \<and> sched_inv s' rs gs ts \<and> current s' = p \<and>
    (\<forall>t. pid (task s' t) = pid (task s t) \<and> parentPid (task s' t) = parentPid (task s t) \<and>
      exitStatus (task s' t) = (if t = current s then st else exitStatus (task s t)) \<and>
      status (task s' t) = (if t = p then TASK_RUNNING else if t = current s then TASK_ZOMBIE else status (task s t)))"
proof -
  let ?c = "current s"
  let ?s0 = "upd_task ?c (\<lambda>t. t\<lparr>exitStatus := st\<rparr>) s"
  have pc: "p \<noteq> ?c" using p(2) sched_invD(2) [OF inv] by auto
  have inv0: "sched_inv ?s0 rs gs ts" by (rule sched_inv_exitStatus [OF inv])
  have "List.find (\<lambda>t. pid (task ?s0 t) = parentPid (task s ?c) \<and> status (task ?s0 t) = TASK_WAITING) gs = Some p"
    by (rule find_unique) (use p inj_onD [OF pids] in \<open>auto split: if_splits\<close>)
  moreover from TaskUnblock_exact [OF inv0 p(1)] p(2) pc obtain l where
    l: "TaskUnblock p ?s0 = Some (SET_TASK_STATUS p TASK_READY (?s0\<lparr>lk := l\<rparr>))"
      "sched_inv (SET_TASK_STATUS p TASK_READY (?s0\<lparr>lk := l\<rparr>)) (p # rs) gs ts"
    by (auto simp: waiting_status_def)
  ultimately have n: "NotifyParent (parentPid (task s ?c)) ?s0 = Some (0, SET_TASK_STATUS p TASK_READY (?s0\<lparr>lk := l\<rparr>))"
    using NotifyParent_eq [OF inv0] by simp
  let ?s1 = "SET_TASK_STATUS p TASK_READY (?s0\<lparr>lk := l\<rparr>)"
  from TaskBlock_exact [OF l(2), of TASK_ZOMBIE] c(1) obtain l' where
    b: "TaskBlock TASK_ZOMBIE ?s1 = Some (switched (SET_TASK_STATUS (current ?s1) TASK_ZOMBIE ?s1) (p # rs) l')"
      "sched_inv (switched (SET_TASK_STATUS (current ?s1) TASK_ZOMBIE ?s1) (p # rs) l') rs gs ts"
      "current (switched (SET_TASK_STATUS (current ?s1) TASK_ZOMBIE ?s1) (p # rs) l') = p"
    by auto
  have "SysExit st s = Some (switched (SET_TASK_STATUS (current ?s1) TASK_ZOMBIE ?s1) (p # rs) l')"
    using n b(1) c(2) pc by (simp add: SysExit_def Let_def CancelEverything_def)
  with b(2,3) pc show ?thesis
    by (intro exI conjI allI) (assumption | simp add: block_status)+
qed

lemma SysExit_ok:
  assumes inv: "sched_inv s rs gs ts" and c: "current s \<noteq> mainThread s" "sleepTimer (task s (current s)) = None"
  shows "\<exists>s' rs'. SysExit st s = Some s' \<and> sched_inv s' rs' gs ts \<and>
    status (task s' (current s)) = TASK_ZOMBIE \<and> exitStatus (task s' (current s)) = st"
proof -
  let ?c = "current s"
  define s0 where "s0 = upd_task ?c (\<lambda>t. t\<lparr>exitStatus := st\<rparr>) s"
  have s0: "current s0 = ?c" "mainThread s0 = mainThread s" "exitStatus (task s0 ?c) = st" "sleepTimer (task s0 ?c) = None"
    "parentPid (task s0 ?c) = parentPid (task s ?c)" "status (task s0 ?c) = TASK_RUNNING"
    using c(2) sched_invD(2) [OF inv] by (simp_all add: s0_def)
  have inv0: "sched_inv s0 rs gs ts" unfolding s0_def by (rule sched_inv_exitStatus [OF inv])
  from NotifyParent_ok [OF inv0, of "parentPid (task s0 ?c)"] obtain r s1 rs1 where
    s1: "NotifyParent (parentPid (task s0 ?c)) s0 = Some (r, s1)" "sched_inv s1 rs1 gs ts"
      "current s1 = current s0" "mainThread s1 = mainThread s0"
      "\<forall>t. task s1 t = task s0 t \<or> (status (task s0 t) = TASK_WAITING \<and> task s1 t = (task s0 t)\<lparr>status := TASK_READY\<rparr>)"
    by blast
  have t1: "task s1 ?c = task s0 ?c" using spec [OF s1(5), of ?c] s0(6) by auto
  have "\<exists>s2 rs2. (if r \<noteq> 0 then AdopeChildren ?c s1 else Some s1) = Some s2 \<and> sched_inv s2 rs2 gs ts \<and>
      current s2 = ?c \<and> mainThread s2 = mainThread s \<and> exitStatus (task s2 ?c) = st \<and> sleepTimer (task s2 ?c) = None"
  proof (cases "r = 0")
    case True
    then show ?thesis using s1 s0 t1 by (intro exI [of _ s1] exI [of _ rs1]) simp
  next
    case False
    define a where "a = upd_task ?c (\<lambda>t. t\<lparr>parentPid := 0\<rparr>) s1"
    have a: "current a = ?c" "mainThread a = mainThread s" "task a ?c = (task s0 ?c)\<lparr>parentPid := 0\<rparr>"
      using s1(3,4) s0(1,2) t1 by (simp_all add: a_def)
    have inva: "sched_inv a rs1 gs ts" unfolding a_def by (rule sched_inv_parentPid [OF s1(2)])
    from NotifyParent_ok [OF inva, of 0] obtain r2 s2 rs2 where
      s2: "NotifyParent 0 a = Some (r2, s2)" "sched_inv s2 rs2 gs ts" "current s2 = current a" "mainThread s2 = mainThread a"
        "\<forall>t. task s2 t = task a t \<or> (status (task a t) = TASK_WAITING \<and> task s2 t = (task a t)\<lparr>status := TASK_READY\<rparr>)"
      by blast
    have "task s2 ?c = task a ?c" using spec [OF s2(5), of ?c] a(3) s0(6) by auto
    moreover have "AdopeChildren ?c s1 = Some s2" using s2(1) a(3) by (simp add: AdopeChildren_def a_def [symmetric])
    ultimately show ?thesis using False s2 a s0(3,4) by (intro exI [of _ s2] exI [of _ rs2]) simp
  qed
  then obtain s2 rs2 where
    s2: "(if r \<noteq> 0 then AdopeChildren ?c s1 else Some s1) = Some s2" "sched_inv s2 rs2 gs ts"
      "current s2 = ?c" "mainThread s2 = mainThread s" "exitStatus (task s2 ?c) = st" "sleepTimer (task s2 ?c) = None"
    by blast
  have "waiting_status TASK_ZOMBIE \<or> (TASK_ZOMBIE = TASK_ZOMBIE \<and> current s2 \<noteq> mainThread s2)"
    using s2(3,4) c(1) by simp
  from TaskBlock_exact [OF s2(2) this, unfolded s2(3,4)] obtain l where
    b: "TaskBlock TASK_ZOMBIE s2 = Some (switched (SET_TASK_STATUS ?c TASK_ZOMBIE s2) rs2 l)"
      "sched_inv (switched (SET_TASK_STATUS ?c TASK_ZOMBIE s2) rs2 l) (tl (if rs2 = [] then [mainThread s] else rs2)) gs ts"
      "current (switched (SET_TASK_STATUS ?c TASK_ZOMBIE s2) rs2 l) = hd (if rs2 = [] then [mainThread s] else rs2)"
    by blast
  have "CancelEverything ?c s2 = Some s2" using s2(6) by (simp add: CancelEverything_def)
  then have "SysExit st s = TaskBlock TASK_ZOMBIE s2"
    unfolding SysExit_def Let_def s0_def [symmetric] using s1(1) s2(1) by (simp del: switched_fields)
  moreover have "hd (if rs2 = [] then [mainThread s] else rs2) \<noteq> ?c"
    using sched_invD(3) [OF s2(2)] s2(3) c(1) by (cases rs2) auto
  then have "status (task (switched (SET_TASK_STATUS ?c TASK_ZOMBIE s2) rs2 l) ?c) = TASK_ZOMBIE"
    using b(3) s2(3) by (simp add: switched_task requeue_task_task Let_def)
  ultimately show ?thesis using b(1,2) s2(5) by auto
qed

text \<open>A kernel for the instances below: task 1 runs, tasks 2 and 3 are ready, task 0 waits with
  status \<open>w\<close>, the pid of task \<open>t\<close> is \<open>t + 1\<close>, and only task 1 has a parent, with pid \<open>q\<close>.\<close>

lemma demo_kernel3:
  assumes "waiting_status w"
  shows "\<exists>s. sched_inv s [2, 3] [0, 1, 2, 3] [] \<and> current s = 1 \<and> mainThread s = 0 \<and>
    status (task s 0) = w \<and> status (task s 1) = TASK_RUNNING \<and> status (task s 2) = TASK_READY \<and>
    status (task s 3) = TASK_READY \<and> (\<forall>t. pid (task s t) = int t + 1 \<and>
      parentPid (task s t) = (if t = 1 then q else -1) \<and> sleepTimer (task s t) = None)"
proof -
  obtain s where s: "sched_inv s [2, 3] [0, 1, 2, 3] []" "current s = 1" "mainThread s = 0"
      "status (task s 0) = TASK_BLOCKED" using demo_kernel2 by blast
  note p = preschedD [OF sched_invD(1) [OF s(1)]]
  have st: "status (task s 1) = TASK_RUNNING" "status (task s 2) = TASK_READY" "status (task s 3) = TASK_READY"
    using sched_invD(2) [OF s(1)] s(2) p(2) [of 2] p(2) [of 3] by simp_all
  let ?s = "s\<lparr>task := \<lambda>t. (task s t)\<lparr>pid := int t + 1, parentPid := if t = 1 then q else -1, sleepTimer := None,
    status := if t = 0 then w else status (task s t)\<rparr>\<rparr>"
  have w: "w \<noteq> TASK_READY" "w \<noteq> TASK_RUNNING" "w \<noteq> TASK_ZOMBIE" "w \<noteq> TASK_DIED"
    using assms by (auto simp: waiting_status_def)
  have "presched ?s [2, 3] [0, 1, 2, 3] []"
  proof (rule preschedI)
    fix t
    show "t \<in> set [2, 3] \<longleftrightarrow> t \<in> set [0, 1, 2, 3] \<and> status (task ?s t) = TASK_READY"
      using st w(1) by auto
    show "t \<in> set [0, 1, 2, 3] \<Longrightarrow> status (task ?s t) = TASK_RUNNING \<Longrightarrow> t = current ?s"
      using p(3) [of t] w(2) by (simp split: if_splits)
    show "t \<in> set [0, 1, 2, 3] \<Longrightarrow> stackMagic (task ?s t) = TASK_STACK_MAGIC"
      using p(4) [of t] by simp
  qed (use p(1) s(2,3) w in simp_all)
  with s st w show ?thesis by (intro exI [of _ ?s]) (simp add: sched_inv_def)
qed

section \<open>Properties\<close>

text \<open>
  C14: a process that exits while its parent waits hands over to it: the parent runs next and the
  pass of \<open>SysWait\<close> it continues with returns the child's pid and exit status and takes the
  child off the global list.
\<close>

theorem exit_wakes_waiting_parent:
  assumes "sched_inv s rs gs ts" "inj_on (\<lambda>t. pid (task s t)) (set gs)"
    and "current s \<noteq> mainThread s" "sleepTimer (task s (current s)) = None"
    and "p \<in> set gs" "status (task s p) = TASK_WAITING" "pid (task s p) = parentPid (task s (current s))"
    and "\<forall>t\<in>set gs. status (task s t) = TASK_ZOMBIE \<longrightarrow> parentPid (task s t) \<noteq> pid (task s p)"
  shows "\<exists>s1 s2. SysExit st s = Some s1 \<and> current s1 = p \<and>
    SysWait_pass found s1 = Some (Reaped (pid (task s (current s))) st, s2) \<and>
    sched_inv s2 rs (remove1 (current s) gs) ts"
proof -
  let ?c = "current s"
  from exit_to_waiting_parent [OF assms(1-7), of st] obtain s' where
    s': "SysExit st s = Some s'" "sched_inv s' rs gs ts" "current s' = p"
    and f: "\<forall>t. pid (task s' t) = pid (task s t) \<and> parentPid (task s' t) = parentPid (task s t) \<and>
      exitStatus (task s' t) = (if t = ?c then st else exitStatus (task s t)) \<and>
      status (task s' t) = (if t = p then TASK_RUNNING else if t = ?c then TASK_ZOMBIE else status (task s t))"
    by auto
  have pc: "p \<noteq> ?c" using assms(6) sched_invD(2) [OF assms(1)] by auto
  have c: "?c \<in> set gs" using preschedD(5) [OF sched_invD(1) [OF assms(1)]] .
  have "List.find (\<lambda>t. parentPid (task s' t) = pid (task s' (current s')) \<and> status (task s' t) = TASK_ZOMBIE) gs = Some ?c"
  proof (rule find_unique [OF c])
    show "parentPid (task s' ?c) = pid (task s' (current s')) \<and> status (task s' ?c) = TASK_ZOMBIE"
      using f s'(3) assms(7) pc by simp
  next
    fix y assume "y \<in> set gs" "parentPid (task s' y) = pid (task s' (current s')) \<and> status (task s' y) = TASK_ZOMBIE"
    then show "y = ?c" using f s'(3) assms(8) by (auto split: if_splits)
  qed
  moreover from ReleaseZombie_ok [OF s'(2) c] f pc obtain l where
    "ReleaseZombie ?c s' = Some (s'\<lparr>lk := l\<rparr>)" "sched_inv (s'\<lparr>lk := l\<rparr>) rs (remove1 ?c gs) ts" by auto
  ultimately show ?thesis using s' f SysWait_pass_eq [OF s'(2), of found] by simp
qed

theorem exit_wakes_waiting_parent_witness:
  "\<exists>s s1 s2. SysExit 7 s = Some s1 \<and> current s1 = 0 \<and> SysWait_pass True s1 = Some (Reaped 2 7, s2)"
proof -
  obtain s where s: "sched_inv s [2, 3] [0, 1, 2, 3] []" "current s = 1" "mainThread s = 0"
      "status (task s 0) = TASK_WAITING" "status (task s 1) = TASK_RUNNING" "status (task s 2) = TASK_READY"
      "status (task s 3) = TASK_READY"
      "\<forall>t. pid (task s t) = int t + 1 \<and> parentPid (task s t) = (if t = 1 then 1 else -1) \<and> sleepTimer (task s t) = None"
    using demo_kernel3 [of TASK_WAITING 1] by (auto simp: waiting_status_def)
  have "inj_on (\<lambda>t. pid (task s t)) (set [0, 1, 2, 3])" using s(8) by (auto intro: inj_onI)
  from exit_wakes_waiting_parent [OF s(1) this, of 0 7 True] s show ?thesis by auto
qed

text \<open>
  a process that exits before its parent waits is given to process 0, and the parent, when it
  runs, is told it has no child: \<open>SysWait\<close> returns -1 and the exit status is lost to it.
\<close>

theorem exit_before_wait_is_lost:
  assumes "sched_inv s (p # rs) gs ts" "current s \<noteq> mainThread s" "sleepTimer (task s (current s)) = None"
    and "pid (task s p) \<noteq> 0" "parentPid (task s (current s)) = pid (task s p)"
    and "\<forall>t\<in>set gs. status (task s t) = TASK_WAITING \<longrightarrow> pid (task s t) \<noteq> pid (task s p) \<and> pid (task s t) \<noteq> 0"
    and "\<forall>t\<in>set gs. parentPid (task s t) = pid (task s p) \<longrightarrow> t = current s"
  shows "\<exists>s1. SysExit st s = Some s1 \<and> current s1 = p \<and> parentPid (task s1 (current s)) = 0 \<and>
    SysWait_pass False s1 = Some (NoChild, s1)"
proof -
  let ?c = "current s"
  let ?s0 = "upd_task ?c (\<lambda>t. t\<lparr>exitStatus := st\<rparr>) s"
  let ?s1 = "upd_task ?c (\<lambda>t. t\<lparr>parentPid := 0\<rparr>) ?s0"
  have inv0: "sched_inv ?s0 (p # rs) gs ts" by (rule sched_inv_exitStatus [OF assms(1)])
  have inv1: "sched_inv ?s1 (p # rs) gs ts" by (rule sched_inv_parentPid [OF inv0])
  have run: "status (task s ?c) = TASK_RUNNING" by (rule sched_invD(2) [OF assms(1)])
  have "List.find (\<lambda>t. pid (task ?s0 t) = pid (task s p) \<and> status (task ?s0 t) = TASK_WAITING) gs = None"
    using assms(6) run by (auto simp: find_None_iff)
  then have n0: "NotifyParent (pid (task s p)) ?s0 = Some (-1, ?s0)" using NotifyParent_eq [OF inv0] by simp
  have "List.find (\<lambda>t. pid (task ?s1 t) = 0 \<and> status (task ?s1 t) = TASK_WAITING) gs = None"
    using assms(6) run by (auto simp: find_None_iff)
  then have n1: "NotifyParent 0 ?s1 = Some (-1, ?s1)" using NotifyParent_eq [OF inv1] by simp
  from TaskBlock_exact [OF inv1, of TASK_ZOMBIE] assms(2) obtain l where
    b: "TaskBlock TASK_ZOMBIE ?s1 = Some (switched (SET_TASK_STATUS (current ?s1) TASK_ZOMBIE ?s1) (p # rs) l)"
      "sched_inv (switched (SET_TASK_STATUS (current ?s1) TASK_ZOMBIE ?s1) (p # rs) l) rs gs ts"
      "current (switched (SET_TASK_STATUS (current ?s1) TASK_ZOMBIE ?s1) (p # rs) l) = p" by auto
  let ?s2 = "switched (SET_TASK_STATUS (current ?s1) TASK_ZOMBIE ?s1) (p # rs) l"
  have pp: "parentPid (task ?s0 ?c) = pid (task s p)" "parentPid (task ?s1 ?c) = 0" "sleepTimer (task ?s1 ?c) = None"
    using assms(3,5) by simp_all
  have ad: "AdopeChildren ?c ?s0 = Some ?s1"
    unfolding AdopeChildren_def Let_def pp(2) n1 by simp
  have ca: "CancelEverything ?c ?s1 = Some ?s1" unfolding CancelEverything_def pp(3) by simp
  have ex: "SysExit st s = Some ?s2"
    by (simp only: SysExit_def Let_def pp(1) n0 ad ca b(1) Option.bind.bind_lunit prod.case
        if_True neg_equal_zero one_neq_zero not_False_eq_True neg_equal_0_iff_equal)
  have f: "pid (task ?s2 t) = pid (task s t)" "parentPid (task ?s2 t) = (if t = ?c then 0 else parentPid (task s t))" for t
    by simp_all
  have none: "\<not> (parentPid (task ?s2 t) = pid (task ?s2 (current ?s2)))" if "t \<in> set gs" for t
    unfolding b(3) f using that assms(4,7) by auto
  then have "List.find (\<lambda>t. parentPid (task ?s2 t) = pid (task ?s2 (current ?s2)) \<and> status (task ?s2 t) = TASK_ZOMBIE) gs = None"
    unfolding find_None_iff by blast
  then have "SysWait_pass False ?s2 = Some (NoChild, ?s2)"
    using SysWait_pass_eq [OF b(2), of False] none by auto
  with ex b(3) f(2) [of ?c] show ?thesis by auto
qed

end
