(* ===== verification/Signal.thy ===== *)
theory Signal
  imports ExitWait
begin

text \<open>
  Signals (\<open>kernel/signal.c\<close>): sending, delivery on the return to user mode, the signal frame on
  the user stack, dispositions and masks.

  The spin locks only turn interrupts off on the one processor the kernel runs on; a call is one
  step. User memory is a map from addresses to the signal frames stored there. \<open>DoSignal\<close> may
  switch away in the middle of its loop (a stop signal) or not return at all (the default action
  terminates the process): its result says which, and a stopped process continues the loop with
  \<open>DoSignal_loop\<close> at the next signal number. Uninitialised memory the code uses (the flags in
  \<open>SysSignal\<close>) is an argument. The table of actions has an entry for every number, so the access past its end that
  \<open>ForceSignal\<close> would make for a number out of range has no counterpart; the callers pass constants.
\<close>

section \<open>Dispositions and sets\<close>

definition SetSignalAction :: "int \<Rightarrow> SignalAction \<Rightarrow> task \<Rightarrow> task" where
  "SetSignalAction signo sa t =
     t\<lparr>action := (action t)(signo - 1 := \<lparr>handler = handler sa, sa_flags = sa_flags sa\<rparr>)\<rparr>"

definition GetSignalAction :: "int \<Rightarrow> task \<Rightarrow> SignalAction" where
  "GetSignalAction signo t =
     \<lparr>handler = handler (action t (signo - 1)), sa_flags = sa_flags (action t (signo - 1))\<rparr>"

definition CalcSignalLeft :: "task \<Rightarrow> task" where
  "CalcSignalLeft t =
     (if signalPending t = 1 \<or> signalPending t = 0 then t\<lparr>signalLeft := False\<rparr> else t\<lparr>signalLeft := True\<rparr>)"

definition DelSignalFromTask :: "int \<Rightarrow> sigset \<Rightarrow> int \<times> sigset" where
  "DelSignalFromTask signo st =
     (if sigismember st signo = 0 then (0, st) else (1, snd (sigdelset st signo)))"

definition unblock :: "int \<Rightarrow> task \<Rightarrow> task" where
  "unblock signo t = t\<lparr>signalBlocked := snd (DelSignalFromTask signo (signalBlocked t))\<rparr>"

section \<open>Sending\<close>

definition HandleStopSignal :: "int \<Rightarrow> tid \<Rightarrow> kstate \<Rightarrow> kstate option" where
  "HandleStopSignal signo t s =
     (if signo = SIGKILL \<or> signo = SIGCONT then
        do { s \<leftarrow> (if status (task s t) = TASK_STOPPED then TaskWakeUp t s else Some s);
             Some (upd_task t (\<lambda>k. unblock SIGTTIN (unblock SIGTTOU (unblock SIGTSTP (unblock SIGSTOP
               (k\<lparr>exitStatus := 0\<rparr>))))) s) }
      else if signo = SIGSTOP \<or> signo = SIGTSTP \<or> signo = SIGTTOU \<or> signo = SIGTTIN then
        Some (upd_task t (unblock SIGCONT) s)
      else Some s)"

definition IgnoreSignal :: "int \<Rightarrow> task \<Rightarrow> bool" where
  "IgnoreSignal signo t =
     (if sigismember (signalBlocked t) signo \<noteq> 0 then False
      else let h = handler (action t (signo - 1)) in
        if h > 1 then False
        else if h = 1 then signo \<noteq> SIGCHLD
        else signo = SIGCONT \<or> signo = SIGWINCH \<or> signo = SIGCHLD \<or> signo = SIGURG)"

definition DeliverSignal :: "int \<Rightarrow> int \<Rightarrow> tid \<Rightarrow> kstate \<Rightarrow> (int \<times> kstate) option" where
  "DeliverSignal signo sndr t s =
     (if sndr < 0 then Some (-1, s)
      else
        do { let s = upd_task t (\<lambda>k. k\<lparr>sender := (sender k)(signo - 1 := sndr),
               signalPending := snd (sigaddset (signalPending k) signo)\<rparr>) s;
             (if sigismember (signalBlocked (task s t)) signo = 0 then
                do { let s = upd_task t (\<lambda>k. k\<lparr>signalLeft := True\<rparr>) s;
                     (if status (task s t) = TASK_BLOCKED then
                        do { s \<leftarrow> (case sleepTimer (task s t) of
                                None \<Rightarrow> Some s
                              | Some i \<Rightarrow> do { s \<leftarrow> CancelTimer i s;
                                               Some (upd_task t (\<lambda>k. k\<lparr>sleepTimer := None\<rparr>) s) });
                             s \<leftarrow> TaskWakeUp t s;
                             Some (0, s) }
                      else Some (0, s)) }
              else Some (0, s)) })"

text \<open>What follows the label \<open>ToOut\<close>.\<close>

definition after_send :: "int \<Rightarrow> tid \<Rightarrow> kstate \<Rightarrow> kstate option" where
  "after_send signal t s =
     (if status (task s t) = TASK_BLOCKED \<and> signalPending (task s t) \<noteq> 1 then
        do { s \<leftarrow> (if sigismember (signalBlocked (task s t)) signal = 0 then TaskWakeUp t s else Some s);
             Some (upd_task t CalcSignalLeft s) }
      else Some s)"

definition DoSendSignal :: "int \<Rightarrow> int \<Rightarrow> int \<Rightarrow> kstate \<Rightarrow> (int \<times> kstate) option" where
  "DoSendSignal p signal sndr s =
     (if IS_BAD_SIGNAL signal then Some (-1, s)
      else do { r \<leftarrow> FindTaskByPid p s;
        (case r of None \<Rightarrow> Some (-1, s)
         | Some t \<Rightarrow>
             do { s \<leftarrow> HandleStopSignal signal t s;
                  (ret, s) \<leftarrow> (if IgnoreSignal signal (task s t) then Some (0, s)
                     else if sigismember (signalPending (task s t)) signal \<noteq> 0 then Some (0, s)
                     else DeliverSignal signal sndr t s);
                  s \<leftarrow> after_send signal t s;
                  Some (ret, s) }) })"

partial_function (option) send_group_loop :: "int \<Rightarrow> int \<Rightarrow> kstate \<Rightarrow> lnode option \<Rightarrow> int \<Rightarrow> (int \<times> kstate) option" where
  "send_group_loop gpid signal s pos retval =
     (if pos = Some taskGlobalList then Some (retval, s)
      else do { n \<leftarrow> pos; t \<leftarrow> global_owner n;
                (err, s) \<leftarrow> (if groupPid (task s t) = gpid
                   then DoSendSignal (pid (task s t)) signal (pid (task s (current s))) s else Some (0, s));
                send_group_loop gpid signal s (lnext (lk s) n) (if err = -1 then err else retval) })"

definition DoSendSignalGroup :: "int \<Rightarrow> int \<Rightarrow> int \<Rightarrow> kstate \<Rightarrow> (int \<times> kstate) option" where
  "DoSendSignalGroup gpid signal sndr s =
     (if gpid > 0 then send_group_loop gpid signal s (lnext (lk s) taskGlobalList) 0 else Some (0, s))"

definition ForceSignal :: "int \<Rightarrow> int \<Rightarrow> kstate \<Rightarrow> (int \<times> kstate) option" where
  "ForceSignal signo p s =
     do { r \<leftarrow> FindTaskByPid p s;
          (case r of None \<Rightarrow> Some (-1, s)
           | Some t \<Rightarrow>
               let s = upd_task t (\<lambda>k.
                     let k = (if handler (action k (signo - 1)) = SIG_IGN
                          then k\<lparr>action := (action k)(signo - 1 := (action k (signo - 1))\<lparr>handler := SIG_DFL\<rparr>)\<rparr>
                          else k);
                         k = k\<lparr>signalBlocked := snd (sigdelset (signalBlocked k) signo)\<rparr>
                     in CalcSignalLeft k) s
               in DoSendSignal (pid (task s t)) signo (pid (task s (current s))) s) }"

partial_function (option) send_all_loop :: "int \<Rightarrow> kstate \<Rightarrow> lnode option \<Rightarrow> int \<Rightarrow> (int \<times> kstate) option" where
  "send_all_loop signal s pos retval =
     (if pos = Some taskGlobalList then Some (retval, s)
      else do { n \<leftarrow> pos; t \<leftarrow> global_owner n;
                (err, s) \<leftarrow> (if pid (task s t) > 0 \<and> t \<noteq> current s
                   then DoSendSignal (pid (task s t)) signal (pid (task s (current s))) s else Some (0, s));
                send_all_loop signal s (lnext (lk s) n) (if err = -1 then err else retval) })"

definition SendBranch :: "int \<Rightarrow> int \<Rightarrow> int \<Rightarrow> kstate \<Rightarrow> (int \<times> kstate) option" where
  "SendBranch p signal sndr s =
     (if p > 0 then DoSendSignal p signal (pid (task s (current s))) s
      else if p = 0 then DoSendSignalGroup (groupPid (task s (current s))) signal (pid (task s (current s))) s
      else if p = -1 then send_all_loop signal s (lnext (lk s) taskGlobalList) 0
      else DoSendSignalGroup (i32 (- p)) signal (pid (task s (current s))) s)"

definition SysKill :: "int \<Rightarrow> int \<Rightarrow> kstate \<Rightarrow> (int \<times> kstate) option" where
  "SysKill p signal s = SendBranch p signal (pid (task s (current s))) s"

section \<open>Delivery\<close>

record TrapFrame =
  vec_no :: u32
  edi :: u32
  esi :: u32
  ebp :: u32
  espDummy :: u32
  ebx :: u32
  edx :: u32
  ecx :: u32
  eax :: u32
  gs_reg :: u32
  fs_reg :: u32
  es_reg :: u32
  ds_reg :: u32
  errorCode :: u32
  eip :: u32
  cs_reg :: u32
  eflags :: u32
  esp :: u32
  ss_reg :: u32

record SignalFrame =
  retAddr :: u32
  signo :: u32
  trapFrame :: TrapFrame
  retCode :: "u8 list"

type_synonym umem = "u32 \<Rightarrow> SignalFrame"

definition USER_CODE_SEL :: u32 where "USER_CODE_SEL = 35"
definition USER_DATA_SEL :: u32 where "USER_DATA_SEL = 43"
definition USER_STACK_SEL :: u32 where "USER_STACK_SEL = USER_DATA_SEL"

text \<open>\<open>sizeof(SignalFrame_t)\<close>: two words, the 19 words of the trap frame, eight bytes of code.\<close>

definition SIGNAL_FRAME_SIZE :: u32 where "SIGNAL_FRAME_SIZE = 92"
definition RETCODE_OFFSET :: u32 where "RETCODE_OFFSET = 84"

definition BuildSignalFrame :: "int \<Rightarrow> SignalAction \<Rightarrow> TrapFrame \<Rightarrow> umem \<Rightarrow> TrapFrame \<times> umem" where
  "BuildSignalFrame sg sa frame um =
     (let a = (esp frame - SIGNAL_FRAME_SIZE) AND NOT 7;
          sf = (um a)\<lparr>signo := word_of_int sg, trapFrame := frame, retAddr := a + RETCODE_OFFSET,
                 retCode := [0xb8, 36, 0, 0, 0, 0xcd, 0x80] @ drop 7 (retCode (um a))\<rparr>
      in (frame\<lparr>eip := handler sa, esp := a, ds_reg := USER_DATA_SEL, es_reg := USER_DATA_SEL,
            fs_reg := USER_DATA_SEL, gs_reg := USER_DATA_SEL, ss_reg := USER_STACK_SEL, cs_reg := USER_CODE_SEL\<rparr>,
          um(a := sf)))"

definition HandleSignal :: "int \<Rightarrow> TrapFrame \<Rightarrow> umem \<Rightarrow> kstate \<Rightarrow> TrapFrame \<times> umem \<times> kstate" where
  "HandleSignal sg frame um s =
     (let cur = current s; sa = action (task s cur) (sg - 1);
          (frame, um) = BuildSignalFrame sg sa frame um
      in (frame, um,
          if sa_flags sa AND SA_ONESHOT \<noteq> 0
          then upd_task cur (\<lambda>k. k\<lparr>action := (action k)(sg - 1 := sa\<lparr>handler := SIG_DFL\<rparr>)\<rparr>) s else s))"

definition SysSignalReturn :: "TrapFrame \<Rightarrow> umem \<Rightarrow> kstate \<Rightarrow> int \<times> TrapFrame \<times> kstate" where
  "SysSignalReturn frame um s =
     (let frame = trapFrame (um (esp frame - 4))
      in (sint (eax frame), frame, upd_task (current s) (\<lambda>k. k\<lparr>signalCatched := True\<rparr>) s))"

text \<open>\<open>Finished\<close>: \<open>DoSignal\<close> returned; \<open>Stopped sg\<close>: it switched away at signal \<open>sg\<close> and its
  loop continues with \<open>sg + 1\<close> when the task runs again; \<open>Exited\<close>: \<open>SysExit\<close> was called.\<close>

datatype sig_result = Finished int TrapFrame umem | Stopped int TrapFrame umem | Exited

definition take_signal :: "int \<Rightarrow> task \<Rightarrow> task" where
  "take_signal sg k = CalcSignalLeft (k\<lparr>signalPending := snd (sigdelset (signalPending k) sg),
     sender := (sender k)(sg - 1 := -1)\<rparr>)"

definition default_ignored :: "int \<Rightarrow> bool" where
  "default_ignored sg \<longleftrightarrow> sg \<in> {SIGCONT, SIGCHLD, SIGWINCH, SIGURG, SIGUSR1, SIGUSR2}"

definition default_stops :: "int \<Rightarrow> bool" where
  "default_stops sg \<longleftrightarrow> sg \<in> {SIGTSTP, SIGTTIN, SIGTTOU, SIGSTOP}"

text \<open>The loop, with \<open>k\<close> signal numbers left: the next one is \<open>32 - k\<close>.\<close>

fun DoSignal_loop :: "nat \<Rightarrow> TrapFrame \<Rightarrow> umem \<Rightarrow> kstate \<Rightarrow> (sig_result \<times> kstate) option" where
  "DoSignal_loop 0 frame um s = Some (Finished 0 frame um, s)"
| "DoSignal_loop (Suc k) frame um s =
     (let sg = 31 - int k; cur = current s in
      if \<not> signalLeft (task s cur) then Some (Finished 0 frame um, s)
      else if signalPending (task s cur) AND sigbit sg \<noteq> 0 \<and> signalBlocked (task s cur) AND sigbit sg = 0 then
        let s = upd_task cur (take_signal sg) s; h = handler (action (task s cur) (sg - 1)) in
        if h = SIG_IGN then DoSignal_loop k frame um s
        else if h = SIG_DFL then
          (if pid (task s cur) = 0 then DoSignal_loop k frame um s
           else if default_ignored sg then DoSignal_loop k frame um s
           else if default_stops sg then
             do { s \<leftarrow> Schedule (upd_task cur (\<lambda>t. t\<lparr>status := TASK_STOPPED, exitStatus := sg\<rparr>) s);
                  Some (Stopped sg frame um, s) }
           else
             do { s \<leftarrow> SysExit sg (upd_task cur (\<lambda>t. CalcSignalLeft
                    (t\<lparr>signalPending := snd (sigaddset (signalPending t) sg)\<rparr>)) s);
                  Some (Exited, s) })
        else (let (frame, um, s) = HandleSignal sg frame um s in DoSignal_loop k frame um s)
      else DoSignal_loop k frame um s)"

definition DoSignal :: "TrapFrame \<Rightarrow> umem \<Rightarrow> kstate \<Rightarrow> (sig_result \<times> kstate) option" where
  "DoSignal frame um s =
     (if \<not> signalLeft (task s (current s)) then Some (Finished (-1) frame um, s)
      else if cs_reg frame \<noteq> USER_CODE_SEL then Some (Finished (-1) frame um, s)
      else DoSignal_loop 31 frame um s)"

section \<open>System calls on dispositions and masks\<close>

text \<open>Setting a disposition discards a pending signal that it now ignores.\<close>

definition discard_ignored :: "int \<Rightarrow> u32 \<Rightarrow> task \<Rightarrow> task" where
  "discard_ignored signal h t =
     (if h = SIG_IGN \<or> (h = SIG_DFL \<and> (signal = SIGCONT \<or> signal = SIGCHLD \<or> signal = SIGWINCH)) then
        (case DelSignalFromTask signal (signalPending t) of (r, p) \<Rightarrow>
           if r \<noteq> 0 then CalcSignalLeft (t\<lparr>signalPending := p\<rparr>) else t\<lparr>signalPending := p\<rparr>)
      else t)"

definition SysSignal :: "int \<Rightarrow> u32 \<Rightarrow> u32 \<Rightarrow> kstate \<Rightarrow> int \<times> kstate" where
  "SysSignal signal h junk s =
     (if signal < 1 \<or> signal \<ge> MAX_SIGNAL_NR \<or> (h \<noteq> 0 \<and> (signal = SIGKILL \<or> signal = SIGSTOP)) then (-1, s)
      else if h \<noteq> 0 then
        (0, upd_task (current s) (\<lambda>t. discard_ignored signal h
              (SetSignalAction signal \<lparr>handler = h, sa_flags = junk OR SA_ONESHOT\<rparr> t)) s)
      else (0, s))"

text \<open>The new and old actions are optional arguments; the old one is returned.\<close>

definition SysSignalAction :: "int \<Rightarrow> SignalAction option \<Rightarrow> kstate \<Rightarrow> int \<times> SignalAction option \<times> kstate" where
  "SysSignalAction signal act s =
     (if signal < 1 \<or> signal \<ge> MAX_SIGNAL_NR \<or> (act \<noteq> None \<and> (signal = SIGKILL \<or> signal = SIGSTOP)) then (-1, None, s)
      else let old = GetSignalAction signal (task s (current s)) in
        (case act of None \<Rightarrow> (0, Some old, s)
         | Some a \<Rightarrow> (0, Some old, upd_task (current s) (\<lambda>t. discard_ignored signal (handler a)
              (SetSignalAction signal a t)) s)))"

definition SIG_BLOCK :: int where "SIG_BLOCK = 1"
definition SIG_UNBLOCK :: int where "SIG_UNBLOCK = 2"
definition SIG_SETMASK :: int where "SIG_SETMASK = 3"

definition SysSignalProcessMask :: "int \<Rightarrow> sigset option \<Rightarrow> kstate \<Rightarrow> int \<times> sigset \<times> kstate" where
  "SysSignalProcessMask how st s =
     (let cur = current s; old = signalBlocked (task s cur);
          protect = (\<lambda>m. snd (sigdelset (snd (sigdelset m SIGKILL)) SIGSTOP));
          set_to = (\<lambda>m. upd_task cur (\<lambda>t. t\<lparr>signalBlocked := m\<rparr>) s) in
      if how = SIG_BLOCK then (0, old, case st of None \<Rightarrow> s | Some m \<Rightarrow> set_to (protect (old OR m)))
      else if how = SIG_UNBLOCK then (0, old, case st of None \<Rightarrow> s | Some m \<Rightarrow> set_to (old AND NOT m))
      else if how = SIG_SETMASK then (0, old, case st of None \<Rightarrow> s | Some m \<Rightarrow> set_to (protect m))
      else (-1, old, s))"

definition SysSignalPending :: "kstate \<Rightarrow> int \<times> sigset" where
  "SysSignalPending s = (0, signalPending (task s (current s)))"

text \<open>\<open>Inl\<close> the result when the call returns at once, \<open>Inr\<close> the state after the switch; a task that
  comes back from the switch returns \<open>signalCatched\<close>.\<close>

definition SysSignalPause :: "kstate \<Rightarrow> (int + kstate) option" where
  "SysSignalPause s =
     (if signalCatched (task s (current s)) then Some (Inl 1)
      else map_option Inr (TaskBlock TASK_BLOCKED (upd_task (current s) (\<lambda>t. t\<lparr>signalCatched := False\<rparr>) s)))"

definition SysSignalSuspend :: "sigset option \<Rightarrow> bool \<Rightarrow> kstate \<Rightarrow> (sigset option \<times> kstate \<times> (int + kstate)) option" where
  "SysSignalSuspend st has_old s =
     (case (if st \<noteq> None \<and> has_old
            then (let (r, old, s) = SysSignalProcessMask SIG_SETMASK st s in (Some old, s)) else (None, s)) of
       (old, s) \<Rightarrow> map_option (\<lambda>r. (old, s, r)) (SysSignalPause s))"

end
