(* ===== verification/SigProofs.thy ===== *)
theory SigProofs
  imports Signal
begin

text \<open>
  What the signal code guarantees: sending never stops the kernel and keeps the scheduler's
  invariant, \<open>SIGKILL\<close> and \<open>SIGSTOP\<close> are never blocked, a kill reaches and ends its target, and a
  user handler runs on a frame from which the interrupted context comes back exactly.
\<close>

section \<open>Frame conditions\<close>

text \<open>\<open>sig_frame s s'\<close>: the running task, the idle task, process and group ids and alarms are
  unchanged, no signal is blocked in a task that was not blocked there before, and every pending
  signal stays pending.\<close>

definition sig_frame :: "kstate \<Rightarrow> kstate \<Rightarrow> bool" where
  "sig_frame s s' \<longleftrightarrow> current s' = current s \<and> mainThread s' = mainThread s \<and>
     (\<forall>u. pid (task s' u) = pid (task s u) \<and> groupPid (task s' u) = groupPid (task s u) \<and>
       alarm (task s' u) = alarm (task s u) \<and> alarmTicks (task s' u) = alarmTicks (task s u) \<and>
       alarmSeconds (task s' u) = alarmSeconds (task s u) \<and>
       (\<forall>j. has_sig (signalPending (task s u)) j \<longrightarrow> has_sig (signalPending (task s' u)) j) \<and>
       (\<forall>j. has_sig (signalBlocked (task s' u)) j \<longrightarrow> has_sig (signalBlocked (task s u)) j))"

lemma sig_frame_refl [simp]: "sig_frame s s"
  by (simp add: sig_frame_def)

lemma sig_frame_trans: "sig_frame s s' \<Longrightarrow> sig_frame s' s'' \<Longrightarrow> sig_frame s s''"
  by (simp add: sig_frame_def)

lemma sig_frame_upd: "(\<And>k. pid (f k) = pid k) \<Longrightarrow> (\<And>k. groupPid (f k) = groupPid k) \<Longrightarrow>
    (\<And>k. alarm (f k) = alarm k) \<Longrightarrow> (\<And>k. alarmTicks (f k) = alarmTicks k) \<Longrightarrow>
    (\<And>k. alarmSeconds (f k) = alarmSeconds k) \<Longrightarrow>
    (\<And>k j. has_sig (signalPending k) j \<Longrightarrow> has_sig (signalPending (f k)) j) \<Longrightarrow>
    (\<And>k j. has_sig (signalBlocked (f k)) j \<Longrightarrow> has_sig (signalBlocked k) j) \<Longrightarrow> sig_frame s (upd_task t f s)"
  by (simp add: sig_frame_def)

lemma sigmem_0: "sigismember m i = 0 \<longleftrightarrow> \<not> has_sig m i"
  by (simp add: has_sig_def)

lemma DelSignal_has [simp]: "has_sig (snd (DelSignalFromTask i m)) j \<longleftrightarrow> j \<noteq> i \<and> has_sig m j"
  by (auto simp: DelSignalFromTask_def sigmem_0 ss.del)

lemma unblock_sel [simp]: "alarm (unblock i k) = alarm k" "alarmTicks (unblock i k) = alarmTicks k" "alarmSeconds (unblock i k) = alarmSeconds k"
  "pid (unblock i k) = pid k" "groupPid (unblock i k) = groupPid k"
  "status (unblock i k) = status k" "stackMagic (unblock i k) = stackMagic k" "sleepTimer (unblock i k) = sleepTimer k"
  "action (unblock i k) = action k" "signalPending (unblock i k) = signalPending k" "signalLeft (unblock i k) = signalLeft k"
  "has_sig (signalBlocked (unblock i k)) j \<longleftrightarrow> j \<noteq> i \<and> has_sig (signalBlocked k) j"
  by (simp_all add: unblock_def)

lemma CalcSignalLeft_sel [simp]: "alarm (CalcSignalLeft k) = alarm k" "alarmTicks (CalcSignalLeft k) = alarmTicks k" "alarmSeconds (CalcSignalLeft k) = alarmSeconds k"
  "pid (CalcSignalLeft k) = pid k" "groupPid (CalcSignalLeft k) = groupPid k"
  "status (CalcSignalLeft k) = status k" "stackMagic (CalcSignalLeft k) = stackMagic k"
  "sleepTimer (CalcSignalLeft k) = sleepTimer k" "action (CalcSignalLeft k) = action k"
  "signalBlocked (CalcSignalLeft k) = signalBlocked k" "signalPending (CalcSignalLeft k) = signalPending k"
  "signalLeft (CalcSignalLeft k) \<longleftrightarrow> signalPending k \<noteq> 1 \<and> signalPending k \<noteq> 0"
  by (simp_all add: CalcSignalLeft_def)

text \<open>A blocked task's sleep timer, if it has one, is its own and is running on the timer list.\<close>

definition sleep_ok :: "kstate \<Rightarrow> tid list \<Rightarrow> nat list \<Rightarrow> bool" where
  "sleep_ok s gs ts \<longleftrightarrow> (\<forall>t\<in>set gs. \<forall>i. status (task s t) = TASK_BLOCKED \<and> sleepTimer (task s t) = Some i \<longrightarrow>
     i = t \<and> i \<in> set ts)"

definition sig_inv :: "kstate \<Rightarrow> tid list \<Rightarrow> tid list \<Rightarrow> nat list \<Rightarrow> bool" where
  "sig_inv s rs gs ts \<longleftrightarrow> sched_inv s rs gs ts \<and> sleep_ok s gs ts"

lemma sig_inv_upd:
  assumes "sig_inv s rs gs ts" "\<And>k. status (f k) = status k" "\<And>k. stackMagic (f k) = stackMagic k"
    "\<And>k. sleepTimer (f k) = sleepTimer k"
  shows "sig_inv (upd_task t f s) rs gs ts"
proof -
  have "sched_inv (upd_task t f s) rs gs ts"
    using assms(1-3) same_sched_inv(1) [OF same_sched_upd] by (simp add: sig_inv_def)
  moreover have "sleep_ok (upd_task t f s) gs ts"
    using assms(1,2,4) unfolding sig_inv_def sleep_ok_def by simp
  ultimately show ?thesis by (simp add: sig_inv_def)
qed

lemma TaskWakeUp_sig:
  assumes "sig_inv s rs gs ts" "t \<in> set gs"
  shows "\<exists>s' rs'. TaskWakeUp t s = Some s' \<and> sig_inv s' rs' gs ts \<and> sig_frame s s' \<and>
    task s' = (if status (task s t) \<in> {TASK_BLOCKED, TASK_STOPPED}
      then (task s)(t := (task s t)\<lparr>status := TASK_READY\<rparr>) else task s)"
proof -
  from assms(1) have inv: "sched_inv s rs gs ts" "sleep_ok s gs ts" by (simp_all add: sig_inv_def)
  from TaskWakeUp_inv [OF inv(1) assms(2)] obtain s' rs' where
    s': "TaskWakeUp t s = Some s'" "current s' = current s" "sched_inv s' rs' gs ts" by auto
  note tk = TaskWakeUp_task [OF s'(1)]
  have m: "mainThread s' = mainThread s"
    using s'(1) by (auto simp: TaskWakeUp_def TaskUnblock_def with_links_def split: if_splits bind_splits)
  have "sleep_ok s' gs ts" using inv(2) unfolding sleep_ok_def tk by simp
  moreover have "sig_frame s s'" using s'(2) m by (simp add: sig_frame_def tk)
  ultimately show ?thesis using s' tk by (auto simp: sig_inv_def)
qed

lemma HandleStop_sig:
  assumes "sig_inv s rs gs ts" "t \<in> set gs"
  shows "\<exists>s' rs'. HandleStopSignal sg t s = Some s' \<and> sig_inv s' rs' gs ts \<and> sig_frame s s' \<and>
    signalPending (task s' t) = signalPending (task s t) \<and> action (task s' t) = action (task s t) \<and>
    status (task s' t) = (if (sg = SIGKILL \<or> sg = SIGCONT) \<and> status (task s t) = TASK_STOPPED
      then TASK_READY else status (task s t))"
proof (cases "sg = SIGKILL \<or> sg = SIGCONT")
  case True
  have "\<exists>s1 rs1. (if status (task s t) = TASK_STOPPED then TaskWakeUp t s else Some s) = Some s1 \<and>
      sig_inv s1 rs1 gs ts \<and> sig_frame s s1 \<and>
      task s1 t = (if status (task s t) = TASK_STOPPED then (task s t)\<lparr>status := TASK_READY\<rparr> else task s t)"
    using TaskWakeUp_sig [OF assms] assms(1) by auto
  then obtain s1 rs1 where
    s1: "(if status (task s t) = TASK_STOPPED then TaskWakeUp t s else Some s) = Some s1"
      "sig_inv s1 rs1 gs ts" "sig_frame s s1"
      "task s1 t = (if status (task s t) = TASK_STOPPED then (task s t)\<lparr>status := TASK_READY\<rparr> else task s t)"
    by blast
  let ?f = "\<lambda>k. unblock SIGTTIN (unblock SIGTTOU (unblock SIGTSTP (unblock SIGSTOP (k\<lparr>exitStatus := 0\<rparr>))))"
  have "sig_inv (upd_task t ?f s1) rs1 gs ts" by (rule sig_inv_upd [OF s1(2)]) simp_all
  moreover have "sig_frame s (upd_task t ?f s1)"
    by (rule sig_frame_trans [OF s1(3) sig_frame_upd]) simp_all
  moreover have "HandleStopSignal sg t s = Some (upd_task t ?f s1)"
    using True s1(1) by (simp add: HandleStopSignal_def)
  ultimately show ?thesis using True s1(4) by (intro exI [of _ "upd_task t ?f s1"] exI [of _ rs1]) simp
next
  case False
  show ?thesis
  proof (cases "sg = SIGSTOP \<or> sg = SIGTSTP \<or> sg = SIGTTOU \<or> sg = SIGTTIN")
    case True
    have "sig_inv (upd_task t (unblock SIGCONT) s) rs gs ts" by (rule sig_inv_upd [OF assms(1)]) simp_all
    moreover have "sig_frame s (upd_task t (unblock SIGCONT) s)" by (rule sig_frame_upd) simp_all
    moreover have "HandleStopSignal sg t s = Some (upd_task t (unblock SIGCONT) s)"
      using True False by (simp add: HandleStopSignal_def)
    ultimately show ?thesis using False by (intro exI [of _ "upd_task t (unblock SIGCONT) s"] exI [of _ rs]) simp
  next
    case no: False
    then have "HandleStopSignal sg t s = Some s" using False by (simp add: HandleStopSignal_def)
    with assms(1) False show ?thesis by auto
  qed
qed

lemma CancelTimer_sig:
  assumes "sig_inv s rs gs ts" "t \<in> set gs" "status (task s t) = TASK_BLOCKED" "sleepTimer (task s t) = Some i"
  shows "\<exists>l. CancelTimer i s = Some (s\<lparr>lk := l\<rparr>) \<and>
    sig_inv (upd_task t (\<lambda>k. k\<lparr>sleepTimer := None\<rparr>) (s\<lparr>lk := l\<rparr>)) rs gs (remove1 i ts)"
proof -
  have inv: "sched_inv s rs gs ts" "sleep_ok s gs ts" using assms(1) by (simp_all add: sig_inv_def)
  have i: "i = t" "i \<in> set ts" using inv(2) assms(2-4) by (auto simp: sleep_ok_def)
  from RemoveTimer_ok [OF inv(1) i(2)] obtain l where
    l: "RemoveTimer i s = Some (s\<lparr>lk := l\<rparr>)" "sched_inv (s\<lparr>lk := l\<rparr>) rs gs (remove1 i ts)" by auto
  let ?s = "upd_task t (\<lambda>k. k\<lparr>sleepTimer := None\<rparr>) (s\<lparr>lk := l\<rparr>)"
  have "sched_inv ?s rs gs (remove1 i ts)" using l(2) same_sched_inv(1) [OF same_sched_upd] by simp
  moreover have "sleep_ok ?s gs (remove1 i ts)"
    using inv(2) i(1) unfolding sleep_ok_def by (auto simp: in_set_remove1)
  ultimately show ?thesis using l(1) by (auto simp: CancelTimer_def sig_inv_def)
qed

lemma DeliverSignal_sig:
  assumes "sig_inv s rs gs ts" "t \<in> set gs"
  shows "\<exists>r s' rs' ts'. DeliverSignal sg n t s = Some (r, s') \<and> sig_inv s' rs' gs ts' \<and> sig_frame s s' \<and>
    (0 \<le> n \<longrightarrow> r = 0 \<and> signalPending (task s' t) = snd (sigaddset (signalPending (task s t)) sg) \<and>
      (\<not> has_sig (signalBlocked (task s t)) sg \<longrightarrow> signalLeft (task s' t) \<and>
        status (task s' t) = (if status (task s t) = TASK_BLOCKED then TASK_READY else status (task s t))))"
proof (cases "n < 0")
  case True
  with assms(1) show ?thesis by (auto simp: DeliverSignal_def)
next
  case n: False
  let ?f = "\<lambda>k. k\<lparr>sender := (sender k)(sg - 1 := n), signalPending := snd (sigaddset (signalPending k) sg)\<rparr>"
  define s1 where "s1 = upd_task t ?f s"
  have s1: "sig_inv s1 rs gs ts" "sig_frame s s1"
    unfolding s1_def by (rule sig_inv_upd [OF assms(1)]; simp) (rule sig_frame_upd; simp add: ss.add)
  have t1: "signalPending (task s1 t) = snd (sigaddset (signalPending (task s t)) sg)"
    "signalBlocked (task s1 t) = signalBlocked (task s t)" "status (task s1 t) = status (task s t)"
    by (simp_all add: s1_def)
  show ?thesis
  proof (cases "has_sig (signalBlocked (task s t)) sg")
    case True
    then have "DeliverSignal sg n t s = Some (0, s1)"
      using n t1(2) unfolding DeliverSignal_def Let_def s1_def [symmetric] by (simp add: has_sig_def)
    with s1 t1 True show ?thesis by (intro exI [of _ "0::int"] exI [of _ s1] exI [of _ rs] exI [of _ ts]) simp
  next
    case nb: False
    define s2 where "s2 = upd_task t (\<lambda>k. k\<lparr>signalLeft := True\<rparr>) s1"
    have s2: "sig_inv s2 rs gs ts" "sig_frame s s2"
      unfolding s2_def
      by (rule sig_inv_upd [OF s1(1)]; simp) (rule sig_frame_trans [OF s1(2) sig_frame_upd]; simp)
    have t2: "signalPending (task s2 t) = signalPending (task s1 t)" "signalLeft (task s2 t)"
      "status (task s2 t) = status (task s t)" "sleepTimer (task s2 t) = sleepTimer (task s t)"
      by (simp_all add: s2_def s1_def)
    have del: "DeliverSignal sg n t s = (if status (task s2 t) = TASK_BLOCKED then
        do { s \<leftarrow> (case sleepTimer (task s2 t) of None \<Rightarrow> Some s2
                | Some i \<Rightarrow> do { s \<leftarrow> CancelTimer i s2; Some (upd_task t (\<lambda>k. k\<lparr>sleepTimer := None\<rparr>) s) });
             s \<leftarrow> TaskWakeUp t s; Some (0, s) } else Some (0, s2))"
      using n nb t1(2) unfolding DeliverSignal_def Let_def s1_def [symmetric] s2_def
      by (simp add: has_sig_def)
    show ?thesis
    proof (cases "status (task s t) = TASK_BLOCKED")
      case False
      with del t2 s2 t1 n show ?thesis
        by (intro exI [of _ "0::int"] exI [of _ s2] exI [of _ rs] exI [of _ ts]) simp
    next
      case bl: True
      have "\<exists>s3 ts3. (case sleepTimer (task s2 t) of None \<Rightarrow> Some s2
                | Some i \<Rightarrow> do { s \<leftarrow> CancelTimer i s2; Some (upd_task t (\<lambda>k. k\<lparr>sleepTimer := None\<rparr>) s) }) = Some s3 \<and>
          sig_inv s3 rs gs ts3 \<and> sig_frame s2 s3 \<and> signalPending (task s3 t) = signalPending (task s2 t) \<and>
          signalLeft (task s3 t) = signalLeft (task s2 t) \<and> status (task s3 t) = status (task s2 t)"
      proof (cases "sleepTimer (task s2 t)")
        case None
        with s2(1) show ?thesis by auto
      next
        case (Some i)
        from CancelTimer_sig [OF s2(1) assms(2) _ Some] bl t2(3) obtain l where
          "CancelTimer i s2 = Some (s2\<lparr>lk := l\<rparr>)"
          "sig_inv (upd_task t (\<lambda>k. k\<lparr>sleepTimer := None\<rparr>) (s2\<lparr>lk := l\<rparr>)) rs gs (remove1 i ts)" by auto
        with Some show ?thesis
          by (intro exI [of _ "upd_task t (\<lambda>k. k\<lparr>sleepTimer := None\<rparr>) (s2\<lparr>lk := l\<rparr>)"] exI [of _ "remove1 i ts"])
            (simp add: sig_frame_def)
      qed
      then obtain s3 ts3 where
        s3: "(case sleepTimer (task s2 t) of None \<Rightarrow> Some s2
                | Some i \<Rightarrow> do { s \<leftarrow> CancelTimer i s2; Some (upd_task t (\<lambda>k. k\<lparr>sleepTimer := None\<rparr>) s) }) = Some s3"
          "sig_inv s3 rs gs ts3" "sig_frame s2 s3" "signalPending (task s3 t) = signalPending (task s2 t)"
          "signalLeft (task s3 t) = signalLeft (task s2 t)" "status (task s3 t) = status (task s2 t)" by blast
      from TaskWakeUp_sig [OF s3(2) assms(2)] obtain s4 rs4 where
        s4: "TaskWakeUp t s3 = Some s4" "sig_inv s4 rs4 gs ts3" "sig_frame s3 s4"
          "task s4 = (if status (task s3 t) \<in> {TASK_BLOCKED, TASK_STOPPED}
            then (task s3)(t := (task s3 t)\<lparr>status := TASK_READY\<rparr>) else task s3)" by auto
      have "DeliverSignal sg n t s = Some (0, s4)" using del bl t2(3) s3(1) s4(1) by simp
      moreover have "sig_frame s s4" using s2(2) s3(3) s4(3) by (blast intro: sig_frame_trans)
      ultimately show ?thesis using s4(2,4) s3(4-6) t2 t1(1) bl
        by (intro exI [of _ "0::int"] exI [of _ s4] exI [of _ rs4] exI [of _ ts3]) simp
    qed
  qed
qed

lemma after_send_sig:
  assumes "sig_inv s rs gs ts" "t \<in> set gs"
  shows "\<exists>s' rs'. after_send sg t s = Some s' \<and> sig_inv s' rs' gs ts \<and> sig_frame s s' \<and>
    signalPending (task s' t) = signalPending (task s t) \<and> action (task s' t) = action (task s t) \<and>
    (status (task s t) \<noteq> TASK_BLOCKED \<longrightarrow> s' = s) \<and>
    (status (task s t) = TASK_BLOCKED \<and> \<not> has_sig (signalBlocked (task s t)) sg \<and>
       signalPending (task s t) \<noteq> 0 \<and> signalPending (task s t) \<noteq> 1 \<longrightarrow>
       status (task s' t) = TASK_READY \<and> signalLeft (task s' t))"
proof (cases "status (task s t) = TASK_BLOCKED \<and> signalPending (task s t) \<noteq> 1")
  case False
  then have "after_send sg t s = Some s" by (auto simp: after_send_def)
  with assms(1) False show ?thesis by auto
next
  case True
  have "\<exists>s1 rs1. (if sigismember (signalBlocked (task s t)) sg = 0 then TaskWakeUp t s else Some s) = Some s1 \<and>
      sig_inv s1 rs1 gs ts \<and> sig_frame s s1 \<and>
      task s1 t = (if has_sig (signalBlocked (task s t)) sg then task s t else (task s t)\<lparr>status := TASK_READY\<rparr>)"
    using TaskWakeUp_sig [OF assms] assms(1) True by (auto simp: sigmem_0)
  then obtain s1 rs1 where
    s1: "(if sigismember (signalBlocked (task s t)) sg = 0 then TaskWakeUp t s else Some s) = Some s1"
      "sig_inv s1 rs1 gs ts" "sig_frame s s1"
      "task s1 t = (if has_sig (signalBlocked (task s t)) sg then task s t else (task s t)\<lparr>status := TASK_READY\<rparr>)"
    by blast
  have "sig_inv (upd_task t CalcSignalLeft s1) rs1 gs ts" by (rule sig_inv_upd [OF s1(2)]) simp_all
  moreover have "sig_frame s (upd_task t CalcSignalLeft s1)"
    by (rule sig_frame_trans [OF s1(3) sig_frame_upd]) simp_all
  moreover have "after_send sg t s = Some (upd_task t CalcSignalLeft s1)"
    using True s1(1) by (simp add: after_send_def)
  ultimately show ?thesis using s1(4) True
    by (intro exI [of _ "upd_task t CalcSignalLeft s1"] exI [of _ rs1]) simp
qed

text \<open>Sending succeeds, keeps the invariant, and fails (-1) only for a bad number or a missing process
  if the sender's pid is not negative.\<close>

lemma DoSendSignal_sig:
  assumes "sig_inv s rs gs ts"
  shows "\<exists>r s' rs' ts'. DoSendSignal p sg n s = Some (r, s') \<and> sig_inv s' rs' gs ts' \<and> sig_frame s s'"
proof (cases "IS_BAD_SIGNAL sg")
  case True
  with assms show ?thesis by (auto simp: DoSendSignal_def)
next
  case good: False
  have inv: "sched_inv s rs gs ts" using assms by (simp add: sig_inv_def)
  show ?thesis
  proof (cases "List.find (\<lambda>t. pid (task s t) = p) gs")
    case None
    with good assms FindTaskByPid_ok [OF inv, of p] show ?thesis by (auto simp: DoSendSignal_def)
  next
    case (Some t)
    then have t: "t \<in> set gs" by (rule find_SomeD [THEN conjunct1])
    from HandleStop_sig [OF assms t] obtain s1 rs1 where
      s1: "HandleStopSignal sg t s = Some s1" "sig_inv s1 rs1 gs ts" "sig_frame s s1" by blast
    have "\<exists>r s2 rs2 ts2. (if IgnoreSignal sg (task s1 t) then Some (0, s1)
           else if sigismember (signalPending (task s1 t)) sg \<noteq> 0 then Some (0, s1)
           else DeliverSignal sg n t s1) = Some (r, s2) \<and> sig_inv s2 rs2 gs ts2 \<and> sig_frame s s2"
    proof (cases "IgnoreSignal sg (task s1 t) \<or> sigismember (signalPending (task s1 t)) sg \<noteq> 0")
      case True
      with s1 show ?thesis by auto
    next
      case False
      with DeliverSignal_sig [OF s1(2) t, of sg n] sig_frame_trans [OF s1(3)] show ?thesis by fastforce
    qed
    then obtain r s2 rs2 ts2 where
      s2: "(if IgnoreSignal sg (task s1 t) then Some (0, s1)
           else if sigismember (signalPending (task s1 t)) sg \<noteq> 0 then Some (0, s1)
           else DeliverSignal sg n t s1) = Some (r, s2)" "sig_inv s2 rs2 gs ts2" "sig_frame s s2" by blast
    from after_send_sig [OF s2(2) t, of sg] obtain s3 rs3 where
      s3: "after_send sg t s2 = Some s3" "sig_inv s3 rs3 gs ts2" "sig_frame s2 s3" by blast
    have "DoSendSignal p sg n s = Some (r, s3)"
      using good Some FindTaskByPid_ok [OF inv, of p] s1(1) s2(1) s3(1) by (simp add: DoSendSignal_def)
    with s3(2) sig_frame_trans [OF s2(3) s3(3)] show ?thesis by blast
  qed
qed

lemma global_step:
  assumes "sched_inv s rs (ds @ t # r) ts"
  shows "lnext (lk s) (TaskGlobal t) = Some (hd (map TaskGlobal r @ [taskGlobalList]))"
  using dlist_links(1) [of "lk s" taskGlobalList "map TaskGlobal ds" "TaskGlobal t" "map TaskGlobal r"]
    preschedD(1) [OF sched_invD(1) [OF assms]]
  by (simp add: lists_ok_def)

lemma send_group_sig:
  assumes "sig_inv s rs (ds @ r) ts"
  shows "\<exists>v s' rs' ts'. send_group_loop g sg s (Some (hd (map TaskGlobal r @ [taskGlobalList]))) v0 = Some (v, s') \<and>
    sig_inv s' rs' (ds @ r) ts' \<and> sig_frame s s'"
  using assms
proof (induction r arbitrary: s rs ts ds v0)
  case Nil
  then show ?case by (subst send_group_loop.simps) auto
next
  case (Cons t r)
  have "\<exists>e s1 rs1 ts1. (if groupPid (task s t) = g
      then DoSendSignal (pid (task s t)) sg (pid (task s (current s))) s else Some (0, s)) = Some (e, s1) \<and>
      sig_inv s1 rs1 (ds @ t # r) ts1 \<and> sig_frame s s1"
    using DoSendSignal_sig [OF Cons.prems] Cons.prems by auto
  then obtain e s1 rs1 ts1 where
    s1: "(if groupPid (task s t) = g
      then DoSendSignal (pid (task s t)) sg (pid (task s (current s))) s else Some (0, s)) = Some (e, s1)"
      "sig_inv s1 rs1 (ds @ t # r) ts1" "sig_frame s s1" by blast
  have nx: "lnext (lk s1) (TaskGlobal t) = Some (hd (map TaskGlobal r @ [taskGlobalList]))"
    using s1(2) global_step [of s1 rs1 ds t r ts1] by (simp add: sig_inv_def)
  from Cons.IH [of s1 rs1 "ds @ [t]" ts1 "if e = -1 then e else v0"] s1(2) obtain v s' rs' ts' where
    s': "send_group_loop g sg s1 (Some (hd (map TaskGlobal r @ [taskGlobalList]))) (if e = -1 then e else v0) = Some (v, s')"
      "sig_inv s' rs' (ds @ t # r) ts'" "sig_frame s1 s'" by auto
  have "send_group_loop g sg s (Some (hd (map TaskGlobal (t # r) @ [taskGlobalList]))) v0 = Some (v, s')"
    using s1(1) s'(1) nx by (subst send_group_loop.simps) simp
  with s'(2) sig_frame_trans [OF s1(3) s'(3)] show ?case by blast
qed

lemma send_all_sig:
  assumes "sig_inv s rs (ds @ r) ts"
  shows "\<exists>v s' rs' ts'. send_all_loop sg s (Some (hd (map TaskGlobal r @ [taskGlobalList]))) v0 = Some (v, s') \<and>
    sig_inv s' rs' (ds @ r) ts' \<and> sig_frame s s'"
  using assms
proof (induction r arbitrary: s rs ts ds v0)
  case Nil
  then show ?case by (subst send_all_loop.simps) auto
next
  case (Cons t r)
  have "\<exists>e s1 rs1 ts1. (if pid (task s t) > 0 \<and> t \<noteq> current s
      then DoSendSignal (pid (task s t)) sg (pid (task s (current s))) s else Some (0, s)) = Some (e, s1) \<and>
      sig_inv s1 rs1 (ds @ t # r) ts1 \<and> sig_frame s s1"
    using DoSendSignal_sig [OF Cons.prems] Cons.prems by auto
  then obtain e s1 rs1 ts1 where
    s1: "(if pid (task s t) > 0 \<and> t \<noteq> current s
      then DoSendSignal (pid (task s t)) sg (pid (task s (current s))) s else Some (0, s)) = Some (e, s1)"
      "sig_inv s1 rs1 (ds @ t # r) ts1" "sig_frame s s1" by blast
  have nx: "lnext (lk s1) (TaskGlobal t) = Some (hd (map TaskGlobal r @ [taskGlobalList]))"
    using s1(2) global_step [of s1 rs1 ds t r ts1] by (simp add: sig_inv_def)
  from Cons.IH [of s1 rs1 "ds @ [t]" ts1 "if e = -1 then e else v0"] s1(2) obtain v s' rs' ts' where
    s': "send_all_loop sg s1 (Some (hd (map TaskGlobal r @ [taskGlobalList]))) (if e = -1 then e else v0) = Some (v, s')"
      "sig_inv s' rs' (ds @ t # r) ts'" "sig_frame s1 s'" by auto
  have "send_all_loop sg s (Some (hd (map TaskGlobal (t # r) @ [taskGlobalList]))) v0 = Some (v, s')"
    using s1(1) s'(1) nx by (subst send_all_loop.simps) simp
  with s'(2) sig_frame_trans [OF s1(3) s'(3)] show ?case by blast
qed

lemma DoSendSignalGroup_sig:
  assumes "sig_inv s rs gs ts"
  shows "\<exists>r s' rs' ts'. DoSendSignalGroup g sg n s = Some (r, s') \<and> sig_inv s' rs' gs ts' \<and> sig_frame s s'"
proof -
  have "lists_ok (lk s) rs gs ts" using assms preschedD(1) sched_invD(1) unfolding sig_inv_def by blast
  note nx = global_chain(2) [OF this]
  show ?thesis
    using send_group_sig [of s rs "[]" gs ts g sg 0] assms by (auto simp: DoSendSignalGroup_def nx)
qed

lemma SysKill_sig:
  assumes "sig_inv s rs gs ts"
  shows "\<exists>r s' rs' ts'. SysKill p sg s = Some (r, s') \<and> sig_inv s' rs' gs ts' \<and> sig_frame s s'"
proof -
  have "lists_ok (lk s) rs gs ts" using assms preschedD(1) sched_invD(1) unfolding sig_inv_def by blast
  note nx = global_chain(2) [OF this]
  show ?thesis
    unfolding SysKill_def SendBranch_def nx
    using DoSendSignal_sig [OF assms, of p sg] DoSendSignalGroup_sig [OF assms, of _ sg]
      send_all_sig [of s rs "[]" gs ts sg 0] assms by simp
qed

lemma ForceSignal_sig:
  assumes "sig_inv s rs gs ts"
  shows "\<exists>r s' rs' ts'. ForceSignal sg p s = Some (r, s') \<and> sig_inv s' rs' gs ts' \<and> sig_frame s s'"
proof (cases "List.find (\<lambda>t. pid (task s t) = p) gs")
  case None
  with assms FindTaskByPid_ok [of s rs gs ts p] show ?thesis by (auto simp: ForceSignal_def sig_inv_def)
next
  case (Some t)
  let ?f = "\<lambda>k. let k = (if handler (action k (sg - 1)) = SIG_IGN
                then k\<lparr>action := (action k)(sg - 1 := (action k (sg - 1))\<lparr>handler := SIG_DFL\<rparr>)\<rparr> else k);
              k = k\<lparr>signalBlocked := snd (sigdelset (signalBlocked k) sg)\<rparr> in CalcSignalLeft k"
  have f: "status (?f k) = status k" "stackMagic (?f k) = stackMagic k" "sleepTimer (?f k) = sleepTimer k"
    "pid (?f k) = pid k" "groupPid (?f k) = groupPid k" "alarm (?f k) = alarm k" "alarmTicks (?f k) = alarmTicks k"
    "alarmSeconds (?f k) = alarmSeconds k" "has_sig (signalPending k) j \<Longrightarrow> has_sig (signalPending (?f k)) j" "has_sig (signalBlocked (?f k)) j \<Longrightarrow> has_sig (signalBlocked k) j" for k j
    by (auto simp: Let_def ss.del split: if_splits)
  have "sig_inv (upd_task t ?f s) rs gs ts" by (rule sig_inv_upd [OF assms f(1-3)])
  moreover have "sig_frame s (upd_task t ?f s)" by (rule sig_frame_upd [OF f(4-10)])
  ultimately show ?thesis
    using DoSendSignal_sig [of "upd_task t ?f s" rs gs ts] sig_frame_trans Some assms FindTaskByPid_ok [of s rs gs ts p]
    by (fastforce simp: ForceSignal_def sig_inv_def Let_def)
qed

section \<open>Runs of signal calls\<close>

definition protected :: "kstate \<Rightarrow> bool" where
  "protected s \<longleftrightarrow> (\<forall>u. \<not> has_sig (signalBlocked (task s u)) SIGKILL \<and> \<not> has_sig (signalBlocked (task s u)) SIGSTOP)"

datatype sigcall = Kill int int | Force int int | SetHandler int u32 u32 | SetAction int "SignalAction option"
  | SetMask int "sigset option"

fun sig_exec :: "sigcall \<Rightarrow> kstate \<Rightarrow> kstate option" where
  "sig_exec (Kill p sg) s = map_option snd (SysKill p sg s)"
| "sig_exec (Force sg p) s = map_option snd (ForceSignal sg p s)"
| "sig_exec (SetHandler sg h junk) s = Some (snd (SysSignal sg h junk s))"
| "sig_exec (SetAction sg a) s = Some (snd (snd (SysSignalAction sg a s)))"
| "sig_exec (SetMask how st) s = Some (snd (snd (SysSignalProcessMask how st s)))"

fun sig_run :: "sigcall list \<Rightarrow> kstate \<Rightarrow> kstate option" where
  "sig_run [] s = Some s"
| "sig_run (c # cs) s = do { s \<leftarrow> sig_exec c s; sig_run cs s }"

lemma protected_frame: "sig_frame s s' \<Longrightarrow> protected s \<Longrightarrow> protected s'"
  by (auto simp: sig_frame_def protected_def)

lemma action_eta [simp]: "\<lparr>handler = handler a, sa_flags = sa_flags a\<rparr> = (a :: SignalAction)"
  by simp

lemma SetSignalAction_sel [simp]: "status (SetSignalAction i a k) = status k" "stackMagic (SetSignalAction i a k) = stackMagic k"
  "sleepTimer (SetSignalAction i a k) = sleepTimer k" "pid (SetSignalAction i a k) = pid k"
  "groupPid (SetSignalAction i a k) = groupPid k" "signalBlocked (SetSignalAction i a k) = signalBlocked k"
  "action (SetSignalAction i a k) = (action k)(i - 1 := a)"
  by (simp_all add: SetSignalAction_def)

lemma discard_sel [simp]: "status (discard_ignored i h k) = status k" "stackMagic (discard_ignored i h k) = stackMagic k"
  "sleepTimer (discard_ignored i h k) = sleepTimer k" "pid (discard_ignored i h k) = pid k"
  "groupPid (discard_ignored i h k) = groupPid k" "signalBlocked (discard_ignored i h k) = signalBlocked k"
  "action (discard_ignored i h k) = action k"
  by (simp_all add: discard_ignored_def split: prod.split)

lemma mask_or_has: "has_sig (a OR b) j \<longleftrightarrow> has_sig a j \<or> has_sig b j"
  using bad_signal_nat [of j] by (auto simp: has_sig_bit bit_or_iff)

lemma mask_andnot_has: "has_sig (a AND NOT b) j \<longleftrightarrow> has_sig a j \<and> \<not> has_sig b j"
  using bad_signal_nat [of j] by (auto simp: has_sig_bit bit_and_iff bit_not_iff)

lemma sig_exec_ok:
  assumes "sig_inv s rs gs ts" "protected s"
  shows "\<exists>s' rs' ts'. sig_exec c s = Some s' \<and> sig_inv s' rs' gs ts' \<and> protected s'"
proof (cases c)
  case (Kill p sg)
  with SysKill_sig [OF assms(1), of p sg] protected_frame [OF _ assms(2)] show ?thesis by fastforce
next
  case (Force sg p)
  with ForceSignal_sig [OF assms(1), of sg p] protected_frame [OF _ assms(2)] show ?thesis by fastforce
next
  case (SetHandler sg h junk)
  let ?f = "\<lambda>t. discard_ignored sg h (SetSignalAction sg \<lparr>handler = h, sa_flags = junk OR SA_ONESHOT\<rparr> t)"
  have "sig_inv (upd_task (current s) ?f s) rs gs ts" by (rule sig_inv_upd [OF assms(1)]) simp_all
  moreover have "protected (upd_task (current s) ?f s)" using assms(2) by (simp add: protected_def)
  ultimately show ?thesis using SetHandler assms by (auto simp: SysSignal_def)
next
  case (SetAction sg a)
  let ?f = "\<lambda>a t. discard_ignored sg (handler a) (SetSignalAction sg a t)"
  have "sig_inv (upd_task (current s) (?f b) s) rs gs ts" for b by (rule sig_inv_upd [OF assms(1)]) simp_all
  moreover have "protected (upd_task (current s) (?f b) s)" for b using assms(2) by (simp add: protected_def)
  ultimately show ?thesis using SetAction assms by (auto simp: SysSignalAction_def Let_def split: option.split)
next
  case (SetMask how st)
  let ?f = "\<lambda>m t. t\<lparr>signalBlocked := m\<rparr>"
  have i: "sig_inv (upd_task (current s) (?f m) s) rs gs ts" for m by (rule sig_inv_upd [OF assms(1)]) simp_all
  have p: "protected (upd_task (current s) (?f m) s)" if "\<not> has_sig m SIGKILL" "\<not> has_sig m SIGSTOP" for m
    using assms(2) that by (simp add: protected_def)
  have m: "\<not> has_sig (snd (sigdelset (snd (sigdelset m SIGKILL)) SIGSTOP)) SIGKILL"
    "\<not> has_sig (snd (sigdelset (snd (sigdelset m SIGKILL)) SIGSTOP)) SIGSTOP" for m
    by (simp_all add: ss.del)
  have u: "\<not> has_sig (signalBlocked (task s (current s)) AND NOT m) SIGKILL"
    "\<not> has_sig (signalBlocked (task s (current s)) AND NOT m) SIGSTOP" for m
    using assms(2) by (simp_all add: mask_andnot_has protected_def)
  show ?thesis
  proof (cases st)
    case None
    then show ?thesis using SetMask assms by (auto simp: SysSignalProcessMask_def Let_def)
  next
    case (Some m)
    then show ?thesis
      using SetMask assms i p [OF m] p [OF u] by (auto simp: SysSignalProcessMask_def Let_def)
  qed
qed

lemma sig_run_ok:
  assumes "sig_inv s rs gs ts" "protected s"
  shows "\<exists>s' rs' ts'. sig_run cs s = Some s' \<and> sig_inv s' rs' gs ts' \<and> protected s'"
  using assms
proof (induction cs arbitrary: s rs ts)
  case (Cons c cs)
  from sig_exec_ok [OF Cons.prems, of c] obtain s1 rs1 ts1 where
    "sig_exec c s = Some s1" "sig_inv s1 rs1 gs ts1" "protected s1" by blast
  with Cons.IH [of s1 rs1 ts1] show ?case by simp
qed auto

text \<open>A kernel for the instances: as \<open>demo_kernel3\<close>, with fresh signal state in every task.\<close>

lemma demo_signals:
  assumes "waiting_status w"
  shows "\<exists>s. sig_inv s [2, 3] [0, 1, 2, 3] [] \<and> protected s \<and> current s = 1 \<and> mainThread s = 0 \<and>
    status (task s 0) = w \<and> (\<forall>t. pid (task s t) = int t + 1 \<and> sleepTimer (task s t) = None \<and>
      signalPending (task s t) = p \<and> signalBlocked (task s t) = 1 \<and> signalLeft (task s t) \<and>
      (\<forall>i. handler (action (task s t) i) = SIG_DFL))"
proof -
  obtain s where s: "sched_inv s [2, 3] [0, 1, 2, 3] []" "current s = 1" "mainThread s = 0" "status (task s 0) = w"
      "\<forall>t. pid (task s t) = int t + 1 \<and> sleepTimer (task s t) = None"
    using demo_kernel3 [OF assms, of 0] by blast
  let ?s = "s\<lparr>task := \<lambda>t. (task s t)\<lparr>signalPending := p, signalBlocked := 1, signalLeft := True,
    action := \<lambda>_. \<lparr>handler = SIG_DFL, sa_flags = 0\<rparr>\<rparr>\<rparr>"
  have "same_sched s ?s" by (simp add: same_sched_def)
  then have "sched_inv ?s [2, 3] [0, 1, 2, 3] []" using s(1) by (simp add: same_sched_inv)
  moreover have "sleep_ok ?s [0, 1, 2, 3] []" using s(5) by (simp add: sleep_ok_def)
  moreover have "protected ?s" using ss.empty [of 1] by (simp add: protected_def sigemptyset_def)
  ultimately show ?thesis using s by (intro exI [of _ ?s]) (simp add: sig_inv_def)
qed

section \<open>Properties\<close>

text \<open>
  C10: no sequence of signal calls (kill to a process, a group or all, forced signals, handlers,
  actions, masks with any arguments) stops the kernel, and after it no process blocks
  \<open>SIGKILL\<close> or \<open>SIGSTOP\<close> and the scheduler's invariant holds.
\<close>

theorem signal_calls_safe:
  assumes "sig_inv s rs gs ts" "protected s"
  shows "\<exists>s' rs' ts'. sig_run cs s = Some s' \<and> sched_inv s' rs' gs ts' \<and>
    (\<forall>u. sigismember (signalBlocked (task s' u)) SIGKILL = 0 \<and> sigismember (signalBlocked (task s' u)) SIGSTOP = 0)"
proof -
  from sig_run_ok [OF assms, of cs] obtain s' rs' ts' where
    "sig_run cs s = Some s'" "sig_inv s' rs' gs ts'" "protected s'" by blast
  then show ?thesis unfolding sig_inv_def protected_def sigmem_0 by blast
qed

theorem signal_calls_safe_witness:
  "\<exists>s s'. sig_run [SetMask SIG_SETMASK (Some 0xffffffff), Kill (-1) SIGSTOP] s = Some s' \<and>
    sigismember (signalBlocked (task s' (current s))) SIGKILL = 0"
proof -
  obtain s where "sig_inv s [2, 3] [0, 1, 2, 3] []" "protected s"
    using demo_signals [of TASK_BLOCKED 1] by (auto simp: waiting_status_def)
  from signal_calls_safe [OF this, of "[SetMask SIG_SETMASK (Some 0xffffffff), Kill (-1) SIGSTOP]"]
  show ?thesis by blast
qed

lemma pending_not_trivial: "has_sig m i \<Longrightarrow> m \<noteq> 0 \<and> m \<noteq> 1"
  using no_sig_iff [of m] by blast

text \<open>
  C16: a process that sends \<open>SIGKILL\<close> to an existing process that does not already have one pending
  makes it pending and flags it for delivery, and the target does not stay asleep or stopped:
  blocked and stopped targets become ready. A target in \<open>SysWait\<close> keeps waiting.
\<close>

theorem kill_reaches_target:
  assumes "sig_inv s rs gs ts" "protected s" "0 < p" "List.find (\<lambda>t. pid (task s t) = p) gs = Some t"
    and "0 \<le> pid (task s (current s))" "handler (action (task s t) 8) = SIG_DFL"
    and "sigismember (signalPending (task s t)) SIGKILL = 0"
  shows "\<exists>s'. SysKill p SIGKILL s = Some (0, s') \<and> sigismember (signalPending (task s' t)) SIGKILL \<noteq> 0 \<and>
    signalLeft (task s' t) \<and>
    status (task s' t) = (if status (task s t) \<in> {TASK_BLOCKED, TASK_STOPPED} then TASK_READY else status (task s t))"
proof -
  have inv: "sched_inv s rs gs ts" using assms(1) by (simp add: sig_inv_def)
  have t: "t \<in> set gs" using find_SomeD [OF assms(4)] by simp
  have good: "\<not> IS_BAD_SIGNAL SIGKILL" by (simp add: IS_BAD_SIGNAL_def SIGKILL_def MAX_SIGNAL_NR_def)
  from HandleStop_sig [OF assms(1) t, of SIGKILL] obtain s1 rs1 where
    s1: "HandleStopSignal SIGKILL t s = Some s1" "sig_inv s1 rs1 gs ts" "sig_frame s s1"
      "signalPending (task s1 t) = signalPending (task s t)" "action (task s1 t) = action (task s t)"
      "status (task s1 t) = (if status (task s t) = TASK_STOPPED then TASK_READY else status (task s t))" by auto
  have nb: "\<not> has_sig (signalBlocked (task s1 t)) SIGKILL"
    using protected_frame [OF s1(3) assms(2)] by (simp add: protected_def)
  have ign: "\<not> IgnoreSignal SIGKILL (task s1 t)"
    using s1(5) assms(6) by (simp add: IgnoreSignal_def Let_def SIG_DFL_def signal_numbers)
  from DeliverSignal_sig [OF s1(2) t, of SIGKILL "pid (task s (current s))"] assms(5) nb obtain s2 rs2 ts2 where
    s2: "DeliverSignal SIGKILL (pid (task s (current s))) t s1 = Some (0, s2)" "sig_inv s2 rs2 gs ts2"
      "signalPending (task s2 t) = snd (sigaddset (signalPending (task s1 t)) SIGKILL)" "signalLeft (task s2 t)"
      "status (task s2 t) = (if status (task s1 t) = TASK_BLOCKED then TASK_READY else status (task s1 t))" by auto
  have "status (task s2 t) \<noteq> TASK_BLOCKED" using s2(5) by simp
  then have after: "after_send SIGKILL t s2 = Some s2" by (simp add: after_send_def)
  have "SysKill p SIGKILL s = Some (0, s2)"
    using good assms(3,4,7) FindTaskByPid_ok [OF inv, of p] s1(1,4) ign s2(1) after
    by (simp add: SysKill_def SendBranch_def DoSendSignal_def)
  moreover have "has_sig (signalPending (task s2 t)) SIGKILL" using s2(3) good by (simp add: ss.add)
  ultimately show ?thesis using s2(4,5) s1(6) by (auto simp: has_sig_def)
qed

theorem kill_reaches_target_witness:
  "\<exists>s s'. status (task s 0) = TASK_STOPPED \<and> SysKill 1 SIGKILL s = Some (0, s') \<and> status (task s' 0) = TASK_READY"
proof -
  obtain s where s: "sig_inv s [2, 3] [0, 1, 2, 3] []" "protected s" "current s = 1" "status (task s 0) = TASK_STOPPED"
    "\<forall>t. pid (task s t) = int t + 1 \<and> sleepTimer (task s t) = None \<and>
      signalPending (task s t) = 1 \<and> signalBlocked (task s t) = 1 \<and> signalLeft (task s t) \<and>
      handler (action (task s t) 8) = SIG_DFL"
    using demo_signals [of TASK_STOPPED 1] by (auto simp: waiting_status_def)
  have "sigismember (signalPending (task s 0)) SIGKILL = 0"
    using s(5) ss.empty [of 1 SIGKILL] by (simp add: sigmem_0 sigemptyset_def)
  from kill_reaches_target [OF s(1,2) _ _ _ _ this, of 1] s(3,4,5) show ?thesis by auto
qed

lemma take_signal_sel [simp]: "pid (take_signal i k) = pid k" "status (take_signal i k) = status k"
  "stackMagic (take_signal i k) = stackMagic k" "sleepTimer (take_signal i k) = sleepTimer k"
  "action (take_signal i k) = action k" "signalBlocked (take_signal i k) = signalBlocked k"
  "signalPending (take_signal i k) = snd (sigdelset (signalPending k) i)"
  by (simp_all add: take_signal_def)

lemma take_signal_left: "j \<noteq> i \<Longrightarrow> has_sig (signalPending k) j \<Longrightarrow> signalLeft (take_signal i k)"
  using pending_not_trivial [of "snd (sigdelset (signalPending k) i)" j] by (simp add: take_signal_def ss.del)

text \<open>The state in which a kill ends the running process, kept by the delivery of lower signals.\<close>

definition doomed :: "kstate \<Rightarrow> tid \<Rightarrow> bool" where
  "doomed s c \<longleftrightarrow> current s = c \<and> c \<noteq> mainThread s \<and> pid (task s c) \<noteq> 0 \<and> sleepTimer (task s c) = None \<and>
     has_sig (signalPending (task s c)) SIGKILL \<and> \<not> has_sig (signalBlocked (task s c)) SIGKILL \<and>
     handler (action (task s c) 8) = SIG_DFL \<and> signalLeft (task s c)"

lemma doomed_exit:
  assumes "sched_inv s rs gs ts" "doomed s c"
  shows "\<exists>s'. SysExit sg (upd_task c (\<lambda>t. CalcSignalLeft (t\<lparr>signalPending := snd (sigaddset (signalPending t) sg)\<rparr>))
      (upd_task c (take_signal sg) s)) = Some s' \<and> status (task s' c) = TASK_ZOMBIE \<and> exitStatus (task s' c) = sg"
proof -
  let ?s1 = "upd_task c (take_signal sg) s"
  let ?s2 = "upd_task c (\<lambda>t. CalcSignalLeft (t\<lparr>signalPending := snd (sigaddset (signalPending t) sg)\<rparr>)) ?s1"
  have "same_sched s ?s2" by (simp add: same_sched_def)
  then have "sched_inv ?s2 rs gs ts" using assms(1) by (simp add: same_sched_inv)
  moreover have "current ?s2 = c" "mainThread ?s2 = mainThread s" "sleepTimer (task ?s2 c) = None"
    using assms(2) by (simp_all add: doomed_def)
  ultimately show ?thesis using SysExit_ok [of ?s2 rs gs ts sg] assms(2) by (fastforce simp: doomed_def)
qed

lemma sigbit_pending: "\<not> IS_BAD_SIGNAL i \<Longrightarrow> m AND sigbit i \<noteq> 0 \<longleftrightarrow> has_sig m i"
  by (simp add: has_sig_bit sigbit_and)

lemma DoSignal_loop_kill:
  assumes "sched_inv s rs gs ts" "doomed s c" "k \<le> 8"
  shows "\<exists>s' sg. DoSignal_loop (k + 23) frame um s = Some (Exited, s') \<and>
    status (task s' c) = TASK_ZOMBIE \<and> exitStatus (task s' c) = sg \<and> 1 \<le> sg \<and> sg \<le> SIGKILL"
  using assms
proof (induction k arbitrary: s frame um)
  case 0
  have sg: "31 - int 22 = SIGKILL" by (simp add: SIGKILL_def)
  have good: "\<not> IS_BAD_SIGNAL SIGKILL" by (simp add: IS_BAD_SIGNAL_def SIGKILL_def MAX_SIGNAL_NR_def)
  note d = 0(2) [unfolded doomed_def]
  have h: "handler (action (task s c) (SIGKILL - 1)) = SIG_DFL" using d by (simp add: SIGKILL_def)
  have nd: "\<not> default_ignored SIGKILL" "\<not> default_stops SIGKILL"
    by (simp_all add: default_ignored_def default_stops_def signal_numbers)
  from doomed_exit [OF 0(1,2), of SIGKILL] obtain s' where
    s': "SysExit SIGKILL (upd_task c (\<lambda>t. CalcSignalLeft (t\<lparr>signalPending := snd (sigaddset (signalPending t) SIGKILL)\<rparr>))
      (upd_task c (take_signal SIGKILL) s)) = Some s'" "status (task s' c) = TASK_ZOMBIE" "exitStatus (task s' c) = SIGKILL" by blast
  have "DoSignal_loop (Suc 22) frame um s = Some (Exited, s')"
    unfolding DoSignal_loop.simps Let_def sg
    using d h nd s'(1) sigbit_pending [OF good] by (simp add: SIG_DFL_def SIG_IGN_def)
  then show ?case using s'(2,3) by (auto simp: SIGKILL_def)
next
  case (Suc k)
  define sg where "sg = 31 - int (k + 23)"
  have sg: "1 \<le> sg" "sg < SIGKILL" using Suc.prems(3) by (simp_all add: sg_def SIGKILL_def)
  then have good: "\<not> IS_BAD_SIGNAL sg" and ne: "sg \<noteq> SIGKILL" "sg - 1 \<noteq> 8"
    by (simp_all add: IS_BAD_SIGNAL_def SIGKILL_def MAX_SIGNAL_NR_def)
  have nd: "\<not> default_ignored sg" "\<not> default_stops sg"
    using sg by (simp_all add: default_ignored_def default_stops_def signal_numbers)
  note d = Suc.prems(2) [unfolded doomed_def]
  let ?s1 = "upd_task c (take_signal sg) s"
  have d1: "doomed ?s1 c" using d ne take_signal_left [of SIGKILL sg "task s c"] by (simp add: doomed_def ss.del)
  have i1: "sched_inv ?s1 rs gs ts" using Suc.prems(1) same_sched_inv(1) [OF same_sched_upd] by simp
  have k: "k \<le> 8" using Suc.prems(3) by simp
  have unfold: "DoSignal_loop (Suc k + 23) frame um s =
     (if signalPending (task s c) AND sigbit sg \<noteq> 0 \<and> signalBlocked (task s c) AND sigbit sg = 0 then
        let h = handler (action (task s c) (sg - 1)) in
        if h = SIG_IGN then DoSignal_loop (k + 23) frame um ?s1
        else if h = SIG_DFL then
             do { s \<leftarrow> SysExit sg (upd_task c (\<lambda>t. CalcSignalLeft
                    (t\<lparr>signalPending := snd (sigaddset (signalPending t) sg)\<rparr>)) ?s1);
                  Some (Exited, s) }
        else (let (frame, um, s) = HandleSignal sg frame um ?s1 in DoSignal_loop (k + 23) frame um s)
      else DoSignal_loop (k + 23) frame um s)"
    unfolding add_Suc DoSignal_loop.simps Let_def sg_def [symmetric] using d nd by simp
  show ?case
  proof (cases "signalPending (task s c) AND sigbit sg \<noteq> 0 \<and> signalBlocked (task s c) AND sigbit sg = 0")
    case False
    with unfold Suc.IH [OF Suc.prems(1,2) k] show ?thesis by simp
  next
    case pend: True
    let ?h = "handler (action (task s c) (sg - 1))"
    consider "?h = SIG_IGN" | "?h = SIG_DFL" | "?h \<noteq> SIG_IGN" "?h \<noteq> SIG_DFL" by blast
    then show ?thesis
    proof cases
      case 1
      with unfold pend Suc.IH [OF i1 d1 k] show ?thesis by simp
    next
      case 2
      from doomed_exit [OF Suc.prems(1,2), of sg] obtain s' where
        "SysExit sg (upd_task c (\<lambda>t. CalcSignalLeft (t\<lparr>signalPending := snd (sigaddset (signalPending t) sg)\<rparr>)) ?s1) = Some s'"
        "status (task s' c) = TASK_ZOMBIE" "exitStatus (task s' c) = sg" by blast
      with unfold pend 2 sg show ?thesis by (auto simp: SIG_DFL_def SIG_IGN_def)
    next
      case 3
      obtain f' um' s2 where h: "HandleSignal sg frame um ?s1 = (f', um', s2)" by (metis prod_cases3)
      then have s2: "s2 = ?s1 \<or> s2 = upd_task c (\<lambda>k. k\<lparr>action := (action k)(sg - 1 := (action (task ?s1 c) (sg - 1))\<lparr>handler := SIG_DFL\<rparr>)\<rparr>) ?s1"
        using d by (auto simp: HandleSignal_def Let_def split: prod.splits if_splits)
      then have "same_sched ?s1 s2" by (auto simp: same_sched_def)
      then have i2: "sched_inv s2 rs gs ts" using i1 by (simp add: same_sched_inv)
      have "doomed s2 c" using s2 d1 ne(2) by (auto simp: doomed_def)
      with unfold pend 3 h Suc.IH [OF i2 _ k] show ?thesis by simp
    qed
  qed
qed

text \<open>
  C13: a process with an undelivered \<open>SIGKILL\<close> does not get back to user mode: \<open>DoSignal\<close> ends it,
  whatever handlers it has for other signals, with that signal or a lower one as exit status.
\<close>

theorem sigkill_terminates:
  assumes "sched_inv s rs gs ts" "current s \<noteq> mainThread s" "pid (task s (current s)) \<noteq> 0"
    and "sleepTimer (task s (current s)) = None" "cs_reg frame = USER_CODE_SEL"
    and "sigismember (signalPending (task s (current s))) SIGKILL \<noteq> 0" "signalLeft (task s (current s))"
    and "sigismember (signalBlocked (task s (current s))) SIGKILL = 0" "handler (action (task s (current s)) 8) = SIG_DFL"
  shows "\<exists>s' sg. DoSignal frame um s = Some (Exited, s') \<and> status (task s' (current s)) = TASK_ZOMBIE \<and>
    exitStatus (task s' (current s)) = sg \<and> 1 \<le> sg \<and> sg \<le> SIGKILL"
proof -
  have "doomed s (current s)" using assms by (simp add: doomed_def has_sig_def)
  from DoSignal_loop_kill [OF assms(1) this, of 8 frame um] assms(5,7) show ?thesis by (simp add: DoSignal_def)
qed

definition sample_frame :: TrapFrame where
  "sample_frame = \<lparr>vec_no = 0x80, edi = 1, esi = 2, ebp = 3, espDummy = 0, ebx = 4, edx = 5, ecx = 6, eax = 7,
     gs_reg = 43, fs_reg = 43, es_reg = 43, ds_reg = 43, errorCode = 0, eip = 0x1000, cs_reg = 35, eflags = 0x202,
     esp = 0x7fffff00, ss_reg = 43\<rparr>"

theorem sigkill_terminates_witness:
  "\<exists>s s'. DoSignal sample_frame (\<lambda>_. undefined) s = Some (Exited, s') \<and> status (task s' (current s)) = TASK_ZOMBIE"
proof -
  let ?p = "snd (sigaddset 1 SIGKILL)"
  obtain s where s: "sig_inv s [2, 3] [0, 1, 2, 3] []" "protected s" "current s = 1" "mainThread s = 0"
    "\<forall>t. pid (task s t) = int t + 1 \<and> sleepTimer (task s t) = None \<and>
      signalPending (task s t) = ?p \<and> signalBlocked (task s t) = 1 \<and> signalLeft (task s t) \<and>
      handler (action (task s t) 8) = SIG_DFL"
    using demo_signals [of TASK_BLOCKED ?p] by (auto simp: waiting_status_def)
  have inv: "sched_inv s [2, 3] [0, 1, 2, 3] []" using s(1) by (simp add: sig_inv_def)
  moreover have "has_sig ?p SIGKILL" by (simp add: ss.add IS_BAD_SIGNAL_def SIGKILL_def MAX_SIGNAL_NR_def)
  moreover have "\<not> has_sig 1 SIGKILL" using ss.empty [of 1 SIGKILL] by (simp add: sigemptyset_def)
  ultimately obtain s' where "DoSignal sample_frame (\<lambda>_. undefined) s = Some (Exited, s')"
      "status (task s' (current s)) = TASK_ZOMBIE"
    using sigkill_terminates [OF inv, of sample_frame "\<lambda>_. undefined"] s
    by (auto simp: has_sig_def USER_CODE_SEL_def sample_frame_def)
  then show ?thesis by blast
qed



text \<open>
  a handler set with \<open>SysSignal\<close> is used once and cannot be taken back. Asking for the default
  action afterwards reports success but changes nothing, and the delivery of the signal runs the
  handler and only then resets it.
\<close>

theorem signal_default_not_restored:
  assumes "\<not> IS_BAD_SIGNAL sg" "sg \<noteq> SIGKILL" "sg \<noteq> SIGSTOP" "h \<noteq> SIG_DFL"
  shows "case SysSignal sg h junk s of (r1, s1) \<Rightarrow> case SysSignal sg SIG_DFL junk' s1 of (r2, s2) \<Rightarrow>
      r1 = 0 \<and> r2 = 0 \<and> handler (GetSignalAction sg (task s2 (current s))) = h \<and>
      (case HandleSignal sg f um s2 of (f', um', s3) \<Rightarrow>
         eip f' = h \<and> handler (GetSignalAction sg (task s3 (current s))) = SIG_DFL)"
proof -
  have "(junk OR SA_ONESHOT) AND SA_ONESHOT \<noteq> 0"
    by (simp add: SA_ONESHOT_def and_one_eq mod_2_eq_odd even_or_iff)
  with assms show ?thesis
    by (simp add: SysSignal_def IS_BAD_SIGNAL_def SIG_DFL_def GetSignalAction_def HandleSignal_def
        BuildSignalFrame_def Let_def not_less)
qed

text \<open>
  an ignored signal ends a sleep early and leaves the timer behind. If a sleeping process has
  another, blocked, signal pending, a signal it ignores makes it ready while its timer stays on the
  timer list, and when the process resumes it forgets that timer without removing it.
\<close>

theorem ignored_signal_ends_sleep:
  assumes "sig_inv s rs gs ts" "List.find (\<lambda>t. pid (task s t) = p) gs = Some t"
    and "\<not> IS_BAD_SIGNAL sg" "sg \<notin> {SIGKILL, SIGCONT, SIGSTOP, SIGTSTP, SIGTTOU, SIGTTIN}"
    and "IgnoreSignal sg (task s t)" "status (task s t) = TASK_BLOCKED" "sleepTimer (task s t) = Some t"
    and "sigismember (signalPending (task s t)) other \<noteq> 0"
  shows "\<exists>s' rs'. DoSendSignal p sg n s = Some (0, s') \<and> sched_inv s' rs' gs ts \<and> t \<in> set ts \<and>
    status (task s' t) = TASK_READY \<and> sleepTimer (task s' t) = Some t \<and>
    sleepTimer (task (snd (TaskSleep_resume t s')) t) = None \<and> lk (snd (TaskSleep_resume t s')) = lk s'"
proof -
  have inv: "sched_inv s rs gs ts" and so: "sleep_ok s gs ts" using assms(1) by (simp_all add: sig_inv_def)
  have t: "t \<in> set gs" using find_SomeD [OF assms(2)] by simp
  have tt: "t \<in> set ts" using so t assms(6,7) by (auto simp: sleep_ok_def)
  have "has_sig (signalPending (task s t)) other" using assms(8) by (simp add: has_sig_def)
  then have p1: "signalPending (task s t) \<noteq> 1" using pending_not_trivial by blast
  have nb: "sigismember (signalBlocked (task s t)) sg = 0" using assms(5) by (auto simp: IgnoreSignal_def split: if_splits)
  from TaskWakeUp_sig [OF assms(1) t] obtain s1 rs1 where
    s1: "TaskWakeUp t s = Some s1" "sig_inv s1 rs1 gs ts"
      "task s1 = (if status (task s t) \<in> {TASK_BLOCKED, TASK_STOPPED}
        then (task s)(t := (task s t)\<lparr>status := TASK_READY\<rparr>) else task s)" by auto
  let ?s2 = "upd_task t CalcSignalLeft s1"
  have "DoSendSignal p sg n s = Some (0, ?s2)"
    using assms(2-6) FindTaskByPid_ok [OF inv, of p] p1 nb s1(1)
    by (simp add: DoSendSignal_def HandleStopSignal_def after_send_def)
  moreover have "sig_inv ?s2 rs1 gs ts" by (rule sig_inv_upd [OF s1(2)]) simp_all
  ultimately show ?thesis using tt s1(3) assms(6,7)
    by (intro exI [of _ ?s2] exI [of _ rs1]) (simp add: sig_inv_def TaskSleep_resume_def)
qed

end
