(* ===== verification/Alarm.thy ===== *)
theory Alarm
  imports SigProofs CType
begin

text \<open>
  Alarms (\<open>kernel/alarm.c\<close>) and the clock driver (\<open>drivers/clock.c\<close>): the tick counter and the
  calendar, the timer softirq that advances alarms and timers, and sleeping by polling.

  The clock adds two variables to the kernel state. The tick counter is a C \<open>int\<close>; it is kept as
  a word because \<open>SleepByTicks\<close> subtracts it as an unsigned number.
\<close>

section \<open>Alarms\<close>

definition alarm_visit :: "tid \<Rightarrow> kstate \<Rightarrow> kstate option" where
  "alarm_visit t s =
     (if alarm (task s t) then
        do { let s = upd_task t (\<lambda>k. k\<lparr>alarmTicks := alarmTicks k - 1\<rparr>) s;
             (if alarmTicks (task s t) = 0 then
                do { let s = upd_task t (\<lambda>k. k\<lparr>alarmSeconds := alarmSeconds k - 1, alarmTicks := HZ\<rparr>) s;
                     (if alarmSeconds (task s t) = 0 then
                        do { (_, s) \<leftarrow> ForceSignal SIGALRM (pid (task s t)) s;
                             Some (upd_task t (\<lambda>k. k\<lparr>alarm := False\<rparr>) s) }
                      else Some s) }
              else Some s) }
      else Some s)"

partial_function (option) update_alarm_loop :: "kstate \<Rightarrow> lnode option \<Rightarrow> kstate option" where
  "update_alarm_loop s pos =
     (if pos = Some taskGlobalList then Some s
      else do { n \<leftarrow> pos; t \<leftarrow> global_owner n;
                s \<leftarrow> alarm_visit t s;
                update_alarm_loop s (lnext (lk s) n) })"

definition UpdateAlarmSystem :: "kstate \<Rightarrow> kstate option" where
  "UpdateAlarmSystem s = update_alarm_loop s (lnext (lk s) taskGlobalList)"

definition SysAlarm :: "u32 \<Rightarrow> kstate \<Rightarrow> u32 \<times> kstate" where
  "SysAlarm seconds s =
     (alarmSeconds (task s (current s)),
      upd_task (current s) (\<lambda>k. if seconds = 0 then k\<lparr>alarm := False\<rparr>
        else k\<lparr>alarm := True, alarmSeconds := seconds, alarmTicks := HZ\<rparr>) s)"

section \<open>Calendar and ticks\<close>

record SystemDate =
  second :: int
  minute :: int
  hour :: int
  day :: int
  month :: int
  year :: int
  weekDay :: int

record clock =
  systemDate :: SystemDate
  clock_ticks :: u32
  kernel :: kstate

datatype Softirq = TIMER_SOFTIRQ | SCHED_SOFTIRQ

definition ClockHnadler :: "clock \<Rightarrow> Softirq set \<times> clock" where
  "ClockHnadler c = ({TIMER_SOFTIRQ, SCHED_SOFTIRQ}, c\<lparr>clock_ticks := clock_ticks c + 1\<rparr>)"

definition ClockChangeSystemDate :: "SystemDate \<Rightarrow> SystemDate" where
  "ClockChangeSystemDate d =
     (let d = d\<lparr>second := second d + 1\<rparr> in
      if second d \<ge> 60 then
        let d = d\<lparr>minute := minute d + 1, second := 0\<rparr> in
        if minute d \<ge> 60 then
          let d = d\<lparr>hour := hour d + 1, minute := 0\<rparr> in
          if hour d \<ge> 24 then
            let d = d\<lparr>day := day d + 1, hour := 0\<rparr> in
            if day d > 30 then
              let d = d\<lparr>month := month d + 1, day := 1\<rparr> in
              if month d > 12 then d\<lparr>year := year d + 1, month := 1\<rparr> else d
            else d
          else d
        else d
      else d)"

definition GetLocalTime :: "clock \<Rightarrow> SystemDate" where
  "GetLocalTime c = systemDate c"

text \<open>\<open>ticks % HZ\<close> on a C \<open>int\<close>: the sign does not matter for the test with 0.\<close>

definition TimerSoftirqHandler :: "clock \<Rightarrow> clock option" where
  "TimerSoftirqHandler c =
     do { let c = (if sint (clock_ticks c) smod 500 = 0
            then c\<lparr>systemDate := ClockChangeSystemDate (systemDate c)\<rparr> else c);
          s \<leftarrow> UpdateAlarmSystem (kernel c);
          s \<leftarrow> UpdateTimerSystem s;
          Some (c\<lparr>kernel := s\<rparr>) }"

definition MILLISECOND_PER_TICKS :: u32 where "MILLISECOND_PER_TICKS = 1000 div HZ"

text \<open>One test of the loop of \<open>SleepByTicks\<close>: \<open>True\<close> is the return, \<open>False\<close> a yield, after which
  the loop tests again.\<close>

definition SleepByTicks_pass :: "u32 \<Rightarrow> u32 \<Rightarrow> clock \<Rightarrow> (bool \<times> clock) option" where
  "SleepByTicks_pass startTicks sleepTicks c =
     (if clock_ticks c - startTicks < sleepTicks
      then do { s \<leftarrow> TaskYield (kernel c); Some (False, c\<lparr>kernel := s\<rparr>) }
      else Some (True, c))"

text \<open>\<open>SysMSleep\<close> up to its first test: the number of ticks to sleep from now.\<close>

definition SysMSleep :: "u32 \<Rightarrow> clock \<Rightarrow> (u32 \<times> u32) option" where
  "SysMSleep msecond c =
     do { let sleepTicks = DIV_ROUND_UP msecond MILLISECOND_PER_TICKS;
          ASSERT (sleepTicks > 0);
          Some (clock_ticks c, sleepTicks) }"

section \<open>A forced signal arrives\<close>

lemma ForceSignal_pending:
  assumes "sig_inv s rs gs ts" "List.find (\<lambda>t. pid (task s t) = p) gs = Some t"
    and "0 \<le> pid (task s (current s))" "ForceSignal SIGALRM p s = Some (r, s')"
  shows "has_sig (signalPending (task s' t)) SIGALRM"
proof -
  let ?f = "\<lambda>k. let k = (if handler (action k (SIGALRM - 1)) = SIG_IGN
                then k\<lparr>action := (action k)(SIGALRM - 1 := (action k (SIGALRM - 1))\<lparr>handler := SIG_DFL\<rparr>)\<rparr> else k);
              k = k\<lparr>signalBlocked := snd (sigdelset (signalBlocked k) SIGALRM)\<rparr> in CalcSignalLeft k"
  define s1 where "s1 = upd_task t ?f s"
  have f: "status (?f k) = status k" "stackMagic (?f k) = stackMagic k" "sleepTimer (?f k) = sleepTimer k"
    "pid (?f k) = pid k" "handler (action (?f k) (SIGALRM - 1)) \<noteq> SIG_IGN" for k
    by (auto simp: Let_def SIG_IGN_def SIG_DFL_def split: if_splits)
  have inv1: "sig_inv s1 rs gs ts" unfolding s1_def by (rule sig_inv_upd [OF assms(1) f(1-3)])
  have pids: "pid (task s1 u) = pid (task s u)" for u by (simp add: s1_def Let_def)
  have find1: "List.find (\<lambda>t. pid (task s1 t) = p) gs = Some t" using assms(2) by (simp add: pids)
  have tp: "pid (task s1 t) = p" using find_SomeD [OF assms(2)] by (simp add: pids)
  have t: "t \<in> set gs" using find_SomeD [OF assms(2)] by simp
  have good: "\<not> IS_BAD_SIGNAL SIGALRM" by (simp add: IS_BAD_SIGNAL_def SIGALRM_def MAX_SIGNAL_NR_def)
  have hs: "HandleStopSignal SIGALRM t s1 = Some s1"
    by (simp add: HandleStopSignal_def signal_numbers)
  have h: "handler (action (task s1 t) (SIGALRM - 1)) \<noteq> SIG_IGN" using f(5) by (simp add: s1_def)
  then have "handler (action (task s1 t) (SIGALRM - 1)) \<noteq> 1" by (simp add: SIG_IGN_def)
  then have ign: "\<not> IgnoreSignal SIGALRM (task s1 t)"
    by (simp add: IgnoreSignal_def Let_def signal_numbers)
  have inv: "sched_inv s rs gs ts" "sched_inv s1 rs gs ts" using assms(1) inv1 by (simp_all add: sig_inv_def)
  have cur: "current s1 = current s" by (simp add: s1_def)
  have force: "ForceSignal SIGALRM p s = DoSendSignal p SIGALRM (pid (task s (current s))) s1"
    using FindTaskByPid_ok [OF inv(1), of p] assms(2) tp pids cur unfolding ForceSignal_def s1_def
    by (simp add: Let_def)
  have send: "DoSendSignal p SIGALRM n s1 = do { (ret, s) \<leftarrow>
      (if sigismember (signalPending (task s1 t)) SIGALRM \<noteq> 0 then Some (0, s1) else DeliverSignal SIGALRM n t s1);
      s \<leftarrow> after_send SIGALRM t s; Some (ret, s) }" for n
    using FindTaskByPid_ok [OF inv(2), of p] find1 good hs ign by (simp add: DoSendSignal_def)
  have "\<exists>r2 s2 rs2 ts2. (if sigismember (signalPending (task s1 t)) SIGALRM \<noteq> 0 then Some (0, s1)
      else DeliverSignal SIGALRM (pid (task s (current s))) t s1) = Some (r2, s2) \<and> sig_inv s2 rs2 gs ts2 \<and>
      has_sig (signalPending (task s2 t)) SIGALRM"
  proof (cases "sigismember (signalPending (task s1 t)) SIGALRM \<noteq> 0")
    case True
    with inv1 show ?thesis by (auto simp: has_sig_def)
  next
    case False
    from DeliverSignal_sig [OF inv1 t, of SIGALRM "pid (task s (current s))"] assms(3) obtain s2 rs2 ts2 where
      "DeliverSignal SIGALRM (pid (task s (current s))) t s1 = Some (0, s2)" "sig_inv s2 rs2 gs ts2"
      "signalPending (task s2 t) = snd (sigaddset (signalPending (task s1 t)) SIGALRM)" by auto
    with False good show ?thesis by (intro exI [of _ "0::int"] exI [of _ s2] exI [of _ rs2] exI [of _ ts2]) (simp add: ss.add)
  qed
  then obtain r2 s2 rs2 ts2 where
    s2: "(if sigismember (signalPending (task s1 t)) SIGALRM \<noteq> 0 then Some (0, s1)
      else DeliverSignal SIGALRM (pid (task s (current s))) t s1) = Some (r2, s2)" "sig_inv s2 rs2 gs ts2"
      "has_sig (signalPending (task s2 t)) SIGALRM" by blast
  from after_send_sig [OF s2(2) t, of SIGALRM] obtain s3 where
    s3: "after_send SIGALRM t s2 = Some s3" "signalPending (task s3 t) = signalPending (task s2 t)" by auto
  have "ForceSignal SIGALRM p s = Some (r2, s3)"
    unfolding force send using s2(1) s3(1) by simp
  with assms(4) s3(2) s2(3) show ?thesis by simp
qed

text \<open>Sending a signal touches the task it is sent to and no other.\<close>

lemma CancelTimer_task: "CancelTimer i s = Some s' \<Longrightarrow> task s' = task s"
  by (auto simp: CancelTimer_def RemoveTimer_def with_links_def split: if_splits bind_splits)

lemma TaskWakeUp_others: "TaskWakeUp t s = Some s' \<Longrightarrow> u \<noteq> t \<Longrightarrow> task s' u = task s u"
  by (simp add: TaskWakeUp_task)

lemma DoSendSignal_others:
  assumes "DoSendSignal p sg n s = Some (r, s')" "FindTaskByPid p s = Some (Some t)" "u \<noteq> t"
  shows "task s' u = task s u"
proof -
  have stop: "task q' u = task q u" if "HandleStopSignal sg t q = Some q'" for q q'
    using that assms(3) by (auto simp: HandleStopSignal_def dest: TaskWakeUp_others split: if_splits bind_splits)
  have deliver: "task q' u = task q u" if "DeliverSignal sg n t q = Some (v, q')" for q q' v
    using that assms(3)
    by (auto simp: DeliverSignal_def Let_def dest!: CancelTimer_task dest: TaskWakeUp_others split: if_splits bind_splits option.splits)
  have after: "task q' u = task q u" if "after_send sg t q = Some q'" for q q'
    using that assms(3) by (auto simp: after_send_def dest: TaskWakeUp_others split: if_splits bind_splits)
  show ?thesis
    using assms(1,2) by (auto simp: DoSendSignal_def dest!: stop deliver after split: if_splits bind_splits)
qed

lemma ForceSignal_others:
  assumes "sig_inv s rs gs ts" "List.find (\<lambda>t. pid (task s t) = p) gs = Some t" "ForceSignal sg p s = Some (r, s')" "u \<noteq> t"
  shows "task s' u = task s u"
proof -
  let ?f = "\<lambda>k. let k = (if handler (action k (sg - 1)) = SIG_IGN
                then k\<lparr>action := (action k)(sg - 1 := (action k (sg - 1))\<lparr>handler := SIG_DFL\<rparr>)\<rparr> else k);
              k = k\<lparr>signalBlocked := snd (sigdelset (signalBlocked k) sg)\<rparr> in CalcSignalLeft k"
  define s1 where "s1 = upd_task t ?f s"
  have "sig_inv s1 rs gs ts" unfolding s1_def by (rule sig_inv_upd [OF assms(1)]) (auto simp: Let_def)
  then have inv: "sched_inv s rs gs ts" "sched_inv s1 rs gs ts" using assms(1) by (simp_all add: sig_inv_def)
  have pids: "pid (task s1 v) = pid (task s v)" for v by (simp add: s1_def Let_def)
  have tp: "pid (task s1 t) = p" using find_SomeD [OF assms(2)] by (simp add: pids)
  have cur: "current s1 = current s" by (simp add: s1_def)
  have "ForceSignal sg p s = DoSendSignal p sg (pid (task s (current s))) s1"
    using FindTaskByPid_ok [OF inv(1), of p] assms(2) tp pids cur unfolding ForceSignal_def s1_def by (simp add: Let_def)
  then have "DoSendSignal p sg (pid (task s (current s))) s1 = Some (r, s')" using assms(3) by simp
  moreover have "FindTaskByPid p s1 = Some (Some t)" using FindTaskByPid_ok [OF inv(2), of p] assms(2) by (simp add: pids)
  ultimately have "task s' u = task s1 u" using assms(4) by (rule DoSendSignal_others)
  then show ?thesis using assms(4) by (simp add: s1_def)
qed

section \<open>One update of all alarms\<close>

definition alarms :: "task \<Rightarrow> bool \<times> u32 \<times> u32" where
  "alarms k = (alarm k, alarmTicks k, alarmSeconds k)"

definition alarm_next :: "task \<Rightarrow> bool \<times> u32 \<times> u32" where
  "alarm_next k = (if \<not> alarm k then alarms k
     else if alarmTicks k \<noteq> 1 then (True, alarmTicks k - 1, alarmSeconds k)
     else if alarmSeconds k \<noteq> 1 then (True, HZ, alarmSeconds k - 1) else (False, HZ, 0))"

definition pid_ok :: "kstate \<Rightarrow> tid list \<Rightarrow> bool" where
  "pid_ok s gs \<longleftrightarrow> inj_on (\<lambda>t. pid (task s t)) (set gs) \<and> 0 \<le> pid (task s (current s))"

text \<open>What a visit of the alarms of the tasks in \<open>A\<close> does.\<close>

definition alarm_frame :: "tid set \<Rightarrow> kstate \<Rightarrow> kstate \<Rightarrow> bool" where
  "alarm_frame A s s' \<longleftrightarrow> current s' = current s \<and> (\<forall>u. pid (task s' u) = pid (task s u) \<and>
     alarms (task s' u) = (if u \<in> A then alarm_next (task s u) else alarms (task s u)) \<and>
     (\<forall>j. has_sig (signalPending (task s u)) j \<longrightarrow> has_sig (signalPending (task s' u)) j) \<and>
     (if u \<in> A \<and> alarm (task s u) \<and> \<not> alarm (task s' u) then has_sig (signalPending (task s' u)) SIGALRM
      else signalPending (task s' u) = signalPending (task s u)))"

lemma alarms_alarm: "alarms k = alarms k' \<Longrightarrow> alarm k = alarm k' \<and> alarm_next k = alarm_next k'"
  by (simp add: alarms_def alarm_next_def)

lemma alarms_alarm_iff: "alarms k = alarms k' \<Longrightarrow> alarm k = alarm k'"
  by (simp add: alarms_def)

lemma alarm_frame_trans:
  assumes "alarm_frame A s s'" "alarm_frame B s' s''" "A \<inter> B = {}"
  shows "alarm_frame (A \<union> B) s s''"
proof -
  have c: "current s'' = current s" "\<And>u. pid (task s'' u) = pid (task s u)"
    using assms(1,2) by (simp_all add: alarm_frame_def)
  have m: "has_sig (signalPending (task s u)) j \<Longrightarrow> has_sig (signalPending (task s'' u)) j"
    "has_sig (signalPending (task s' u)) j \<Longrightarrow> has_sig (signalPending (task s'' u)) j" for u j
    using assms(1,2) by (simp_all add: alarm_frame_def)
  have a1: "alarms (task s' u) = (if u \<in> A then alarm_next (task s u) else alarms (task s u))" for u
    using assms(1) by (simp add: alarm_frame_def)
  have a2: "alarms (task s'' u) = (if u \<in> B then alarm_next (task s' u) else alarms (task s' u))" for u
    using assms(2) by (simp add: alarm_frame_def)
  have a: "alarms (task s'' u) = (if u \<in> A \<union> B then alarm_next (task s u) else alarms (task s u))" for u
    using a1 [of u] a2 [of u] assms(3) alarms_alarm [of "task s' u" "task s u"] by (cases "u \<in> A") auto
  have p: "if u \<in> A \<union> B \<and> alarm (task s u) \<and> \<not> alarm (task s'' u) then has_sig (signalPending (task s'' u)) SIGALRM
      else signalPending (task s'' u) = signalPending (task s u)" for u
  proof (cases "u \<in> A")
    case True
    then have nB: "u \<notin> B" using assms(3) by blast
    then have "alarms (task s'' u) = alarms (task s' u)" using a2 [of u] by simp
    from alarms_alarm_iff [OF this] have "alarm (task s'' u) = alarm (task s' u)" .
    moreover have "signalPending (task s'' u) = signalPending (task s' u)" using assms(2) nB by (simp add: alarm_frame_def)
    ultimately show ?thesis using True assms(1) by (simp add: alarm_frame_def)
  next
    case False
    then have "alarms (task s' u) = alarms (task s u)" using a1 [of u] by simp
    from alarms_alarm_iff [OF this] have "alarm (task s' u) = alarm (task s u)" .
    moreover have "signalPending (task s' u) = signalPending (task s u)" using assms(1) False by (simp add: alarm_frame_def)
    ultimately show ?thesis using False assms(2) by (simp add: alarm_frame_def)
  qed
  show ?thesis unfolding alarm_frame_def
    by (intro conjI allI impI c a p) (erule m(1))
qed

lemma pid_ok_frame: "alarm_frame A s s' \<Longrightarrow> pid_ok s gs \<Longrightarrow> pid_ok s' gs"
  by (simp add: alarm_frame_def pid_ok_def)

lemma sig_inv_alarm:
  "sig_inv s rs gs ts \<Longrightarrow> (\<And>k. status (f k) = status k \<and> stackMagic (f k) = stackMagic k \<and> sleepTimer (f k) = sleepTimer k) \<Longrightarrow>
     sig_inv (upd_task t f s) rs gs ts"
  by (rule sig_inv_upd) simp_all

lemma alarm_visit_ok:
  assumes "sig_inv s rs gs ts" "pid_ok s gs" "t \<in> set gs"
  shows "\<exists>s' rs' ts'. alarm_visit t s = Some s' \<and> sig_inv s' rs' gs ts' \<and> alarm_frame {t} s s'"
proof -
  define s1 where "s1 = upd_task t (\<lambda>k. k\<lparr>alarmTicks := alarmTicks k - 1\<rparr>) s"
  define s2 where "s2 = upd_task t (\<lambda>k. k\<lparr>alarmSeconds := alarmSeconds k - 1, alarmTicks := HZ\<rparr>) s1"
  have i1: "sig_inv s1 rs gs ts" unfolding s1_def by (rule sig_inv_alarm [OF assms(1)]) simp
  have i2: "sig_inv s2 rs gs ts" unfolding s2_def by (rule sig_inv_alarm [OF i1]) simp
  have v: "alarm_visit t s = (if alarm (task s t) then
      (if alarmTicks (task s t) = 1 then
         (if alarmSeconds (task s t) = 1 then
            do { (_, s) \<leftarrow> ForceSignal SIGALRM (pid (task s2 t)) s2; Some (upd_task t (\<lambda>k. k\<lparr>alarm := False\<rparr>) s) }
          else Some s2) else Some s1) else Some s)"
    unfolding alarm_visit_def Let_def s1_def [symmetric] s2_def [symmetric]
    by (simp add: s1_def s2_def)
  consider (off) "\<not> alarm (task s t)" | (tick) "alarm (task s t)" "alarmTicks (task s t) \<noteq> 1"
    | (sec) "alarm (task s t)" "alarmTicks (task s t) = 1" "alarmSeconds (task s t) \<noteq> 1"
    | (fire) "alarm (task s t)" "alarmTicks (task s t) = 1" "alarmSeconds (task s t) = 1" by blast
  then show ?thesis
  proof cases
    case off
    with v assms(1) show ?thesis by (intro exI [of _ s] exI [of _ rs] exI [of _ ts]) (simp add: alarm_frame_def alarm_next_def)
  next
    case tick
    then have "alarm_frame {t} s s1" by (simp add: alarm_frame_def alarm_next_def alarms_def s1_def)
    with v tick i1 show ?thesis by (intro exI [of _ s1] exI [of _ rs] exI [of _ ts]) simp
  next
    case sec
    then have "alarm_frame {t} s s2" by (simp add: alarm_frame_def alarm_next_def alarms_def s1_def s2_def)
    with v sec i2 show ?thesis by (intro exI [of _ s2] exI [of _ rs] exI [of _ ts]) simp
  next
    case fire
    have p2: "pid (task s2 u) = pid (task s u)" "current s2 = current s" for u by (simp_all add: s2_def s1_def)
    have find: "List.find (\<lambda>u. pid (task s2 u) = pid (task s2 t)) gs = Some t"
      using assms(2,3) by (intro find_unique) (auto simp: p2 pid_ok_def inj_on_def)
    have cur: "0 \<le> pid (task s2 (current s2))" using assms(2) by (simp add: p2 pid_ok_def)
    from ForceSignal_sig [OF i2, of SIGALRM "pid (task s2 t)"] obtain r s3 rs3 ts3 where
      s3: "ForceSignal SIGALRM (pid (task s2 t)) s2 = Some (r, s3)" "sig_inv s3 rs3 gs ts3" "sig_frame s2 s3" by blast
    have pend: "has_sig (signalPending (task s3 t)) SIGALRM" by (rule ForceSignal_pending [OF i2 find cur s3(1)])
    have others: "signalPending (task s3 u) = signalPending (task s u)" if "u \<noteq> t" for u
      using ForceSignal_others [OF i2 find s3(1) that] that by (simp add: s2_def s1_def)
    have "alarm_frame {t} s (upd_task t (\<lambda>k. k\<lparr>alarm := False\<rparr>) s3)"
      using s3(3) pend fire others unfolding sig_frame_def alarm_frame_def alarms_def alarm_next_def
      by (simp add: s2_def s1_def)
    moreover have "sig_inv (upd_task t (\<lambda>k. k\<lparr>alarm := False\<rparr>) s3) rs3 gs ts3" by (rule sig_inv_alarm [OF s3(2)]) simp
    moreover have "alarm_visit t s = Some (upd_task t (\<lambda>k. k\<lparr>alarm := False\<rparr>) s3)" using v fire s3(1) by simp
    ultimately show ?thesis by blast
  qed
qed

lemma update_alarm_loop_ok:
  assumes "sig_inv s rs (ds @ r) ts" "pid_ok s (ds @ r)"
  shows "\<exists>s' rs' ts'. update_alarm_loop s (Some (hd (map TaskGlobal r @ [taskGlobalList]))) = Some s' \<and>
    sig_inv s' rs' (ds @ r) ts' \<and> alarm_frame (set r) s s'"
  using assms
proof (induction r arbitrary: s rs ts ds)
  case Nil
  then show ?case
    by (subst update_alarm_loop.simps) (auto simp: alarm_frame_def)
next
  case (Cons t r)
  from alarm_visit_ok [OF Cons.prems, of t] obtain s1 rs1 ts1 where
    s1: "alarm_visit t s = Some s1" "sig_inv s1 rs1 (ds @ t # r) ts1" "alarm_frame {t} s s1" by auto
  have nx: "lnext (lk s1) (TaskGlobal t) = Some (hd (map TaskGlobal r @ [taskGlobalList]))"
    using s1(2) global_step [of s1 rs1 ds t r ts1] by (simp add: sig_inv_def)
  from Cons.IH [of s1 rs1 "ds @ [t]" ts1] s1(2) pid_ok_frame [OF s1(3) Cons.prems(2)] obtain s' rs' ts' where
    s': "update_alarm_loop s1 (Some (hd (map TaskGlobal r @ [taskGlobalList]))) = Some s'"
      "sig_inv s' rs' (ds @ t # r) ts'" "alarm_frame (set r) s1 s'" by auto
  have "distinct (ds @ t # r)" using lists_ok_distinct [OF preschedD(1) [OF sched_invD(1)]] Cons.prems(1)
    unfolding sig_inv_def by blast
  then have "alarm_frame (set (t # r)) s s'" using alarm_frame_trans [OF s1(3) s'(3)] by simp
  moreover have "update_alarm_loop s (Some (hd (map TaskGlobal (t # r) @ [taskGlobalList]))) = Some s'"
    using s1(1) s'(1) nx by (subst update_alarm_loop.simps) simp
  ultimately show ?case using s'(2) by blast
qed

lemma UpdateAlarmSystem_ok:
  assumes "sig_inv s rs gs ts" "pid_ok s gs"
  shows "\<exists>s' rs' ts'. UpdateAlarmSystem s = Some s' \<and> sig_inv s' rs' gs ts' \<and> alarm_frame (set gs) s s'"
proof -
  have "lists_ok (lk s) rs gs ts" using assms preschedD(1) sched_invD(1) unfolding sig_inv_def by blast
  note nx = global_chain(2) [OF this]
  show ?thesis using update_alarm_loop_ok [of s rs "[]" gs ts] assms by (simp add: UpdateAlarmSystem_def nx)
qed

section \<open>The countdown\<close>

fun alarm_n :: "nat \<Rightarrow> kstate \<Rightarrow> kstate option" where
  "alarm_n 0 s = Some s"
| "alarm_n (Suc n) s = do { s \<leftarrow> UpdateAlarmSystem s; alarm_n n s }"

text \<open>The updates left before the alarm fires.\<close>

definition alarm_left :: "task \<Rightarrow> nat" where
  "alarm_left k = (unat (alarmSeconds k) - 1) * 500 + unat (alarmTicks k)"

definition counting :: "task \<Rightarrow> bool" where
  "counting k \<longleftrightarrow> alarm k \<and> alarmSeconds k \<noteq> 0 \<and> alarmTicks k \<noteq> 0"

lemma unat_dec32: "(w :: u32) \<noteq> 0 \<Longrightarrow> unat w = Suc (unat (w - 1))"
  using unat_minus_one [of w] unat_gt_0 [of w] by linarith

lemma counting_next:
  assumes "counting k" "alarms k' = alarm_next k"
  shows "if alarm_left k = 1 then \<not> alarm k' else counting k' \<and> alarm_left k = Suc (alarm_left k')"
proof -
  have tk: "unat (alarmTicks k) = Suc (unat (alarmTicks k - 1))"
    and sc: "unat (alarmSeconds k) = Suc (unat (alarmSeconds k - 1))"
    using assms(1) by (auto simp: counting_def intro: unat_dec32)
  have t1: "alarmTicks k = 1 \<longleftrightarrow> unat (alarmTicks k - 1) = 0"
    by (simp add: unat_eq_zero right_minus_eq)
  have s1: "alarmSeconds k = 1 \<longleftrightarrow> unat (alarmSeconds k - 1) = 0"
    by (simp add: unat_eq_zero right_minus_eq)
  consider (tick) "alarmTicks k \<noteq> 1" | (sec) "alarmTicks k = 1" "alarmSeconds k \<noteq> 1"
    | (fire) "alarmTicks k = 1" "alarmSeconds k = 1" by blast
  then show ?thesis
  proof cases
    case tick
    then have "alarm k'" "alarmTicks k' = alarmTicks k - 1" "alarmSeconds k' = alarmSeconds k"
      using assms by (simp_all add: alarms_def alarm_next_def counting_def)
    then show ?thesis using tick tk t1 assms(1) by (auto simp: alarm_left_def counting_def right_minus_eq)
  next
    case sec
    then have "alarm k'" "alarmTicks k' = 500" "alarmSeconds k' = alarmSeconds k - 1"
      using assms by (simp_all add: alarms_def alarm_next_def counting_def HZ_def)
    moreover have "unat (alarmSeconds k - 1) = Suc (unat (alarmSeconds k - 1 - 1))"
      using sec by (intro unat_dec32) (simp add: right_minus_eq)
    ultimately show ?thesis using sec sc by (simp add: alarm_left_def counting_def right_minus_eq)
  next
    case fire
    then show ?thesis using assms by (simp add: alarms_def alarm_next_def counting_def alarm_left_def)
  qed
qed

lemma countdown:
  assumes "sig_inv s rs gs ts" "pid_ok s gs" "t \<in> set gs" "counting (task s t)" "n \<le> alarm_left (task s t)"
  shows "\<exists>s'. alarm_n n s = Some s' \<and> (if n < alarm_left (task s t)
    then alarm (task s' t) \<and> signalPending (task s' t) = signalPending (task s t)
    else \<not> alarm (task s' t) \<and> has_sig (signalPending (task s' t)) SIGALRM)"
  using assms
proof (induction n arbitrary: s rs ts)
  case 0
  then have "0 < alarm_left (task s t)" using unat_gt_0 [of "alarmTicks (task s t)"]
    by (simp add: alarm_left_def counting_def)
  with 0 show ?case by (simp add: counting_def)
next
  case (Suc n)
  from UpdateAlarmSystem_ok [OF Suc.prems(1,2)] obtain s1 rs1 ts1 where
    s1: "UpdateAlarmSystem s = Some s1" "sig_inv s1 rs1 gs ts1" "alarm_frame (set gs) s s1" by blast
  have al: "alarms (task s1 t) = alarm_next (task s t)" using s1(3) Suc.prems(3) by (simp add: alarm_frame_def)
  note nx = counting_next [OF Suc.prems(4) al]
  show ?case
  proof (cases "alarm_left (task s t) = 1")
    case True
    with nx have "\<not> alarm (task s1 t)" by simp
    moreover from this have "has_sig (signalPending (task s1 t)) SIGALRM"
      using s1(3) Suc.prems(3,4) by (simp add: alarm_frame_def counting_def)
    ultimately show ?thesis using True Suc.prems(5) s1(1) by simp
  next
    case False
    with nx have c: "counting (task s1 t)" "alarm_left (task s t) = Suc (alarm_left (task s1 t))" by simp_all
    then have "signalPending (task s1 t) = signalPending (task s t)"
      using s1(3) by (simp add: alarm_frame_def counting_def)
    with Suc.IH [OF s1(2) pid_ok_frame [OF s1(3) Suc.prems(2)] Suc.prems(3) c(1)] Suc.prems(5) s1(1) c(2)
    show ?thesis by (cases "n < alarm_left (task s1 t)") auto
  qed
qed

section \<open>Properties\<close>

text \<open>
  C20: after \<open>SysAlarm(n)\<close>, \<open>n > 0\<close>, and fewer than \<open>500 * n\<close> timer updates the alarm is still set and the signals pending in
  the caller are those of before; at the \<open>500 * n\<close>-th update the alarm is cleared and \<open>SIGALRM\<close> is pending in the caller,
  even if the caller ignored or blocked it, and whatever other alarms fire meanwhile.
\<close>

theorem alarm_on_time:
  assumes "sig_inv s rs gs ts" "pid_ok s gs" "n \<noteq> 0" "k \<le> 500 * unat n"
  shows "\<exists>s'. alarm_n k (snd (SysAlarm n s)) = Some s' \<and>
    (if k < 500 * unat n then alarm (task s' (current s)) \<and> signalPending (task s' (current s)) = signalPending (task s (current s))
     else \<not> alarm (task s' (current s)) \<and> sigismember (signalPending (task s' (current s))) SIGALRM \<noteq> 0)"
proof -
  let ?s = "snd (SysAlarm n s)"
  have inv: "sig_inv ?s rs gs ts" unfolding SysAlarm_def snd_conv by (rule sig_inv_alarm [OF assms(1)]) simp
  have "pid (task ?s u) = pid (task s u)" "current ?s = current s" for u by (simp_all add: SysAlarm_def)
  then have p: "pid_ok ?s gs" using assms(2) by (simp add: pid_ok_def)
  have g: "current s \<in> set gs" using assms(1) preschedD(5) [OF sched_invD(1)] unfolding sig_inv_def by blast
  have c: "counting (task ?s (current s))" using assms(3) by (simp add: SysAlarm_def counting_def HZ_def)
  have h: "unat HZ = 500" unfolding HZ_def by simp
  have "unat n \<noteq> 0" using assms(3) by (simp add: unat_eq_zero)
  then have l: "alarm_left (task ?s (current s)) = 500 * unat n"
    using assms(3) h by (simp add: SysAlarm_def alarm_left_def diff_mult_distrib)
  have pend: "signalPending (task ?s (current s)) = signalPending (task s (current s))" by (simp add: SysAlarm_def)
  from countdown [OF inv p g c, of k, unfolded l pend, OF assms(4)] show "\<exists>s'. alarm_n k ?s = Some s' \<and>
    (if k < 500 * unat n then alarm (task s' (current s)) \<and> signalPending (task s' (current s)) = signalPending (task s (current s))
     else \<not> alarm (task s' (current s)) \<and> sigismember (signalPending (task s' (current s))) SIGALRM \<noteq> 0)"
    unfolding has_sig_def by blast
qed

theorem alarm_on_time_witness:
  "\<exists>s. signalPending (task s (current s)) = 0 \<and>
     (\<exists>s'. alarm_n 999 (snd (SysAlarm 2 s)) = Some s' \<and> signalPending (task s' (current s)) = 0) \<and>
     (\<exists>s'. alarm_n 1000 (snd (SysAlarm 2 s)) = Some s' \<and> sigismember (signalPending (task s' (current s))) SIGALRM \<noteq> 0)"
proof -
  obtain s where s: "sig_inv s [2, 3] [0, 1, 2, 3] []" "current s = 1" "\<forall>t. pid (task s t) = int t + 1"
    "\<forall>t. signalPending (task s t) = 0"
    using demo_signals [of TASK_BLOCKED 0] by (auto simp: waiting_status_def)
  have "pid_ok s [0, 1, 2, 3]" using s by (simp add: pid_ok_def inj_on_def)
  note on_time = alarm_on_time [OF s(1) this, of 2]
  show ?thesis using on_time [of 999] on_time [of 1000] s(4) by auto
qed

text \<open>
  cancelling an alarm does not reset the seconds left, so a process that sets an alarm of
  \<open>n\<close> seconds, cancels it with \<open>SysAlarm(0)\<close> and asks again is told that \<open>n\<close> seconds are
  left, though no alarm is set.
\<close>

theorem cancelled_alarm_is_reported:
  assumes "n \<noteq> 0"
  shows "let s' = snd (SysAlarm 0 (snd (SysAlarm n s)))
    in \<not> alarm (task s' (current s')) \<and> fst (SysAlarm m s') = n"
  using assms by (simp add: SysAlarm_def)

text \<open>The calendar the clock keeps: twelve months of thirty days.\<close>

definition date_ok :: "SystemDate \<Rightarrow> bool" where
  "date_ok d \<longleftrightarrow> 0 \<le> second d \<and> second d < 60 \<and> 0 \<le> minute d \<and> minute d < 60 \<and> 0 \<le> hour d \<and> hour d < 24 \<and>
     1 \<le> day d \<and> day d \<le> 30 \<and> 1 \<le> month d \<and> month d \<le> 12"

definition date_seconds :: "SystemDate \<Rightarrow> int" where
  "date_seconds d =
     ((((year d * 12 + month d - 1) * 30 + day d - 1) * 24 + hour d) * 60 + minute d) * 60 + second d"

lemma calendar_step:
  assumes "date_ok d"
  shows "date_ok (ClockChangeSystemDate d) \<and> date_seconds (ClockChangeSystemDate d) = date_seconds d + 1"
proof -
  note r = assms [unfolded date_ok_def]
  consider (second) "second d < 59" | (minute) "second d = 59" "minute d < 59"
    | (hour) "second d = 59" "minute d = 59" "hour d < 23"
    | (day) "second d = 59" "minute d = 59" "hour d = 23" "day d < 30"
    | (month) "second d = 59" "minute d = 59" "hour d = 23" "day d = 30" "month d < 12"
    | (year) "second d = 59" "minute d = 59" "hour d = 23" "day d = 30" "month d = 12"
    using r by linarith
  then show ?thesis
    by cases (use r in \<open>simp_all add: ClockChangeSystemDate_def date_ok_def date_seconds_def\<close>)
qed

text \<open>
  on a date with at most 30 days in the month the clock keeps a proper date and counts
  seconds exactly in a calendar of twelve months of thirty days: \<open>n\<close> updates advance it by \<open>n\<close>
  seconds, through every carry.
\<close>

theorem calendar_counts:
  assumes "date_ok d"
  shows "date_ok ((ClockChangeSystemDate ^^ n) d) \<and> date_seconds ((ClockChangeSystemDate ^^ n) d) = date_seconds d + int n"
proof (induction n)
  case 0
  with assms show ?case by simp
next
  case (Suc n)
  define e where "e = (ClockChangeSystemDate ^^ n) d"
  have "date_ok (ClockChangeSystemDate e) \<and> date_seconds (ClockChangeSystemDate e) = date_seconds e + 1"
    using Suc by (intro calendar_step) (simp add: e_def)
  with Suc show ?case by (simp add: e_def)
qed

text \<open>
  \<open>SysMSleep(ms)\<close> sleeps \<open>ms / 2\<close> ticks rounded up, from any value of the tick counter: after
  fewer clock interrupts its loop yields, after that many it returns, also when the counter wraps
  in between. \<open>SysMSleep(0)\<close> fails its assertion and stops the kernel.
\<close>

theorem msleep_wakes:
  fixes ms :: u32
  assumes "0 < ms" "ms < 2 ^ 32 - 1" "k < 2 ^ 32"
  shows "SysMSleep 0 c = None \<and> (\<exists>start n. SysMSleep ms c = Some (start, n) \<and> unat n = (unat ms + 1) div 2 \<and>
    (SleepByTicks_pass start n (((\<lambda>c. snd (ClockHnadler c)) ^^ k) c) = Some (True, ((\<lambda>c. snd (ClockHnadler c)) ^^ k) c)
      \<longleftrightarrow> (unat ms + 1) div 2 \<le> k))"
proof -
  have tick: "clock_ticks (((\<lambda>c. snd (ClockHnadler c)) ^^ k) c) = clock_ticks c + of_nat k" for k
    by (induction k) (simp_all add: ClockHnadler_def)
  have two: "MILLISECOND_PER_TICKS = 2" by (simp add: MILLISECOND_PER_TICKS_def HZ_def)
  have "unat (ms + 1) = unat ms + 1"
    using assms(2) by (simp add: unat_word_ariths word_less_nat_alt)
  moreover have two_word: "unat (2 :: u32) = 2" by simp
  moreover have "ms + 2 - 1 = ms + 1" by simp
  ultimately have n: "unat (DIV_ROUND_UP ms 2) = (unat ms + 1) div 2"
    by (simp only: DIV_ROUND_UP_def unat_div_distrib)
  have "0 < unat ms" using assms(1) by (simp add: word_less_nat_alt)
  then have pos: "DIV_ROUND_UP ms 2 > 0" using n by (simp add: word_less_nat_alt)
  have k: "unat (of_nat k :: u32) = k" using assms(3) by (simp add: unsigned_of_nat take_bit_nat_eq_self)
  have "SysMSleep 0 c = None" by (simp add: SysMSleep_def two DIV_ROUND_UP_def ASSERT_def)
  moreover have "SysMSleep ms c = Some (clock_ticks c, DIV_ROUND_UP ms 2)"
    using pos by (simp add: SysMSleep_def two ASSERT_def)
  moreover have "SleepByTicks_pass (clock_ticks c) (DIV_ROUND_UP ms 2) (((\<lambda>c. snd (ClockHnadler c)) ^^ k) c) =
      Some (True, ((\<lambda>c. snd (ClockHnadler c)) ^^ k) c) \<longleftrightarrow> (unat ms + 1) div 2 \<le> k"
    unfolding SleepByTicks_pass_def tick by (auto simp: word_less_nat_alt k n split: bind_splits)
  ultimately show ?thesis using n by blast
qed

end
