(* ===== verification/Softirq.thy ===== *)
theory Softirq
  imports Prelude
begin

text \<open>
  Softirqs and task assists (\<open>kernel/softirq.c\<close>, \<open>book/interrupt.h\<close>, \<open>book/bitops.h\<close>): the bottom
  halves of the interrupt handlers.

  Function pointers are numbers; what the functions behind them do is the argument \<open>run\<close>
  (softirq actions) and \<open>call\<close> (assist functions) of the definitions: a step on the whole state,
  \<open>None\<close> when it does not return. Interrupts that arrive while actions run with interrupts on
  reach this state only through \<open>ActiveSoftirq\<close> and the schedule functions, so they are part of
  such a step. The field \<open>env\<close> stands for everything the callbacks work on.
\<close>

section \<open>Bit operations\<close>

definition SetBit :: "nat \<Rightarrow> u32 \<Rightarrow> u32 \<times> u32" where
  "SetBit nr w = (if push_bit (nr mod 32) 1 AND w \<noteq> 0 then 1 else 0, w OR push_bit (nr mod 32) 1)"

definition ClearBit :: "nat \<Rightarrow> u32 \<Rightarrow> u32 \<times> u32" where
  "ClearBit nr w = (if push_bit (nr mod 32) 1 AND w \<noteq> 0 then 1 else 0, w AND NOT (push_bit (nr mod 32) 1))"

definition TestBit :: "nat \<Rightarrow> u32 \<Rightarrow> u32" where
  "TestBit nr w = (if push_bit (nr mod 32) 1 AND w \<noteq> 0 then 1 else 0)"

definition TestAndSetBit :: "nat \<Rightarrow> u32 \<Rightarrow> u32 \<times> u32" where
  "TestAndSetBit nr w = (TestBit nr w, snd (SetBit nr w))"

section \<open>State\<close>

definition NR_SOFTIRQS :: nat where "NR_SOFTIRQS = 7"
definition MAX_REDO_IRQ :: nat where "MAX_REDO_IRQ = 10"
definition HIGHTASKASSIST_SOFTIRQ :: nat where "HIGHTASKASSIST_SOFTIRQ = 0"
definition TASKASSIST_SOFTIRQ :: nat where "TASKASSIST_SOFTIRQ = 4"
definition TASKASSIST_SCHED :: nat where "TASKASSIST_SCHED = 0"

record TaskAssist =
  anext :: "nat option"
  astatus :: u32
  acount :: int
  afunc :: nat
  adata :: u32

text \<open>The two built-in actions, or another function.\<close>

datatype saction = HighTaskAssist | NormalTaskAssist | SAction nat

record 'w softirq =
  assist :: "nat \<Rightarrow> TaskAssist"
  highTaskAssistHead :: "nat option"
  taskAssistHead :: "nat option"
  softirqTable :: "nat \<Rightarrow> saction option"
  softirqEvens :: u32
  env :: 'w

type_synonym 'w step = "'w softirq \<Rightarrow> 'w softirq option"

definition upd_assist :: "nat \<Rightarrow> (TaskAssist \<Rightarrow> TaskAssist) \<Rightarrow> 'w softirq \<Rightarrow> 'w softirq" where
  "upd_assist a f s = s\<lparr>assist := (assist s)(a := f (assist s a))\<rparr>"

section \<open>Operations\<close>

definition BuildSoftirq :: "nat \<Rightarrow> saction option \<Rightarrow> 'w softirq \<Rightarrow> 'w softirq" where
  "BuildSoftirq n act s =
     (if n < NR_SOFTIRQS then s\<lparr>softirqTable := (softirqTable s)(n := act)\<rparr> else s)"

definition ActiveSoftirq :: "nat \<Rightarrow> 'w softirq \<Rightarrow> 'w softirq" where
  "ActiveSoftirq n s =
     (if n < NR_SOFTIRQS \<and> softirqTable s n \<noteq> None
      then s\<lparr>softirqEvens := softirqEvens s OR push_bit n 1\<rparr> else s)"

definition TaskAssistInit :: "nat \<Rightarrow> nat \<Rightarrow> u32 \<Rightarrow> 'w softirq \<Rightarrow> 'w softirq" where
  "TaskAssistInit a f d = upd_assist a (\<lambda>_. \<lparr>anext = None, astatus = 0, acount = 0, afunc = f, adata = d\<rparr>)"

definition DECLEAR_TASKASSIST_DISABLED :: "nat \<Rightarrow> u32 \<Rightarrow> TaskAssist" where
  "DECLEAR_TASKASSIST_DISABLED f d = \<lparr>anext = None, astatus = 0, acount = 1, afunc = f, adata = d\<rparr>"

definition TaskAssistDisable :: "nat \<Rightarrow> 'w softirq \<Rightarrow> 'w softirq" where
  "TaskAssistDisable a = upd_assist a (\<lambda>k. k\<lparr>acount := i32 (acount k - 1)\<rparr>)"

definition TaskAssistEnable :: "nat \<Rightarrow> 'w softirq \<Rightarrow> 'w softirq" where
  "TaskAssistEnable a = upd_assist a (\<lambda>k. k\<lparr>acount := i32 (acount k + 1)\<rparr>)"

definition HighTaskAssistSchedule :: "nat \<Rightarrow> 'w softirq \<Rightarrow> 'w softirq" where
  "HighTaskAssistSchedule a s =
     (let (old, w) = TestAndSetBit TASKASSIST_SCHED (astatus (assist s a));
          s = upd_assist a (\<lambda>k. k\<lparr>astatus := w\<rparr>) s
      in if old = 0 then
           let s = upd_assist a (\<lambda>k. k\<lparr>anext := highTaskAssistHead s\<rparr>) s;
               s = s\<lparr>highTaskAssistHead := Some a\<rparr>
           in ActiveSoftirq HIGHTASKASSIST_SOFTIRQ s
         else s)"

definition TaskAssistSchedule :: "nat \<Rightarrow> 'w softirq \<Rightarrow> 'w softirq" where
  "TaskAssistSchedule a s =
     (let (old, w) = TestAndSetBit TASKASSIST_SCHED (astatus (assist s a));
          s = upd_assist a (\<lambda>k. k\<lparr>astatus := w\<rparr>) s
      in if old = 0 then
           let s = upd_assist a (\<lambda>k. k\<lparr>anext := taskAssistHead s\<rparr>) s;
               s = s\<lparr>taskAssistHead := Some a\<rparr>
           in ActiveSoftirq TASKASSIST_SOFTIRQ s
         else s)"

partial_function (option) high_assist_loop :: "(nat \<Rightarrow> u32 \<Rightarrow> 'w step) \<Rightarrow> nat option \<Rightarrow> 'w step" where
  "high_assist_loop call p s =
     (case p of None \<Rightarrow> Some s
      | Some a \<Rightarrow>
          let list = anext (assist s a) in
          if acount (assist s a) = 0 then
            do { let s = upd_assist a (\<lambda>k. k\<lparr>astatus := snd (ClearBit TASKASSIST_SCHED (astatus k))\<rparr>) s;
                 s \<leftarrow> call (afunc (assist s a)) (adata (assist s a)) s;
                 high_assist_loop call list s }
          else
            let s = upd_assist a (\<lambda>k. k\<lparr>anext := highTaskAssistHead s\<rparr>) s;
                s = s\<lparr>highTaskAssistHead := Some a\<rparr>;
                s = ActiveSoftirq HIGHTASKASSIST_SOFTIRQ s
            in high_assist_loop call list s)"

definition HighTaskAssistAction :: "(nat \<Rightarrow> u32 \<Rightarrow> 'w step) \<Rightarrow> 'w step" where
  "HighTaskAssistAction call s = high_assist_loop call (highTaskAssistHead s) (s\<lparr>highTaskAssistHead := None\<rparr>)"

partial_function (option) assist_loop :: "(nat \<Rightarrow> u32 \<Rightarrow> 'w step) \<Rightarrow> nat option \<Rightarrow> 'w step" where
  "assist_loop call p s =
     (case p of None \<Rightarrow> Some s
      | Some a \<Rightarrow>
          let list = anext (assist s a) in
          if acount (assist s a) = 0 then
            do { let s = upd_assist a (\<lambda>k. k\<lparr>astatus := snd (ClearBit TASKASSIST_SCHED (astatus k))\<rparr>) s;
                 s \<leftarrow> call (afunc (assist s a)) (adata (assist s a)) s;
                 assist_loop call list s }
          else
            let s = upd_assist a (\<lambda>k. k\<lparr>anext := taskAssistHead s\<rparr>) s;
                s = s\<lparr>taskAssistHead := Some a\<rparr>;
                s = ActiveSoftirq TASKASSIST_SOFTIRQ s
            in assist_loop call list s)"

definition TaskAssistAction :: "(nat \<Rightarrow> u32 \<Rightarrow> 'w step) \<Rightarrow> 'w step" where
  "TaskAssistAction call s = assist_loop call (taskAssistHead s) (s\<lparr>taskAssistHead := None\<rparr>)"

definition call_action :: "(nat \<Rightarrow> 'w step) \<Rightarrow> (nat \<Rightarrow> u32 \<Rightarrow> 'w step) \<Rightarrow> saction option \<Rightarrow> 'w step" where
  "call_action run call a s =
     (case a of None \<Rightarrow> None
      | Some HighTaskAssist \<Rightarrow> HighTaskAssistAction call s
      | Some NormalTaskAssist \<Rightarrow> TaskAssistAction call s
      | Some (SAction n) \<Rightarrow> run n s)"

text \<open>The \<open>do\<close> loop, at action number \<open>k\<close> with the events left.\<close>

partial_function (option) events_loop :: "(nat \<Rightarrow> 'w step) \<Rightarrow> (nat \<Rightarrow> u32 \<Rightarrow> 'w step) \<Rightarrow> nat \<Rightarrow> u32 \<Rightarrow> 'w step" where
  "events_loop run call k evens s =
     do { s \<leftarrow> (if evens AND 1 \<noteq> 0 then call_action run call (softirqTable s k) s else Some s);
          let evens = drop_bit 1 evens;
          (if evens \<noteq> 0 then events_loop run call (Suc k) evens s else Some s) }"

text \<open>From the label \<open>ToRedo\<close>, with \<open>redoIrq\<close> rounds left.\<close>

fun redo_loop :: "(nat \<Rightarrow> 'w step) \<Rightarrow> (nat \<Rightarrow> u32 \<Rightarrow> 'w step) \<Rightarrow> nat \<Rightarrow> u32 \<Rightarrow> 'w step" where
  "redo_loop run call 0 evens s = Some s"
| "redo_loop run call (Suc redoIrq) evens s =
     (if evens \<noteq> 0 then
        do { s \<leftarrow> events_loop run call 0 evens (s\<lparr>softirqEvens := 0\<rparr>);
             let evens = softirqEvens s;
             (if evens \<noteq> 0 \<and> redoIrq \<noteq> 0 then redo_loop run call redoIrq evens s else Some s) }
      else Some s)"

definition HandleSoftirq :: "(nat \<Rightarrow> 'w step) \<Rightarrow> (nat \<Rightarrow> u32 \<Rightarrow> 'w step) \<Rightarrow> 'w step" where
  "HandleSoftirq run call s = redo_loop run call MAX_REDO_IRQ (softirqEvens s) s"

definition DoSoftirq :: "(nat \<Rightarrow> 'w step) \<Rightarrow> (nat \<Rightarrow> u32 \<Rightarrow> 'w step) \<Rightarrow> 'w step" where
  "DoSoftirq run call s = (if softirqEvens s \<noteq> 0 then HandleSoftirq run call s else Some s)"

definition InitSoftirq :: "'w softirq \<Rightarrow> 'w softirq" where
  "InitSoftirq s =
     BuildSoftirq TASKASSIST_SOFTIRQ (Some NormalTaskAssist)
      (BuildSoftirq HIGHTASKASSIST_SOFTIRQ (Some HighTaskAssist)
        (s\<lparr>softirqEvens := 0, highTaskAssistHead := None, taskAssistHead := None\<rparr>))"

section \<open>One round of events\<close>

fun foldO :: "('a \<Rightarrow> 's \<Rightarrow> 's option) \<Rightarrow> 'a list \<Rightarrow> 's \<Rightarrow> 's option" where
  "foldO f [] s = Some s"
| "foldO f (x # xs) s = do { s \<leftarrow> f x s; foldO f xs s }"

lemma foldO_single [simp]: "foldO f [x] s = f x s"
  by (cases "f x s") simp_all

lemma bit0_and: "(w :: u32) AND 1 \<noteq> 0 \<longleftrightarrow> bit w 0"
  by (simp add: and_one_eq odd_iff_mod_2_eq_one bit_0)

lemma no_bits: "(w :: u32) = 0 \<longleftrightarrow> (\<forall>j. \<not> bit w j)"
  by (auto intro: bit_eqI)

lemma events_loop_spec:
  assumes "\<forall>j\<ge>n. \<not> bit evens j"
  shows "events_loop run call k evens s =
    foldO (\<lambda>j s. call_action run call (softirqTable s j) s) (filter (\<lambda>j. bit evens (j - k)) [k..<k + n]) s"
  using assms
proof (induction n arbitrary: k evens s)
  case 0
  then have "evens = 0" by (simp add: no_bits)
  then show ?case by (subst events_loop.simps) simp
next
  case (Suc n)
  define d where "d = drop_bit 1 evens"
  have db: "bit d j = bit evens (Suc j)" for j unfolding d_def by (simp add: bit_drop_bit_eq)
  define R where "R = filter (\<lambda>j. bit evens (j - k)) [Suc k..<Suc k + n]"
  have R: "R = filter (\<lambda>j. bit d (j - Suc k)) [Suc k..<Suc k + n]"
    unfolding R_def db by (rule filter_cong) (auto simp: Suc_diff_Suc)
  have all: "filter (\<lambda>j. bit evens (j - k)) [k..<k + Suc n] = (if bit evens 0 then k # R else R)"
    by (simp add: R_def upt_conv_Cons del: upt_Suc)
  have IH: "events_loop run call (Suc k) d s = foldO (\<lambda>j s. call_action run call (softirqTable s j) s) R s" for s
    unfolding R using Suc.prems by (intro Suc.IH) (simp add: db)
  have e: "d = 0 \<Longrightarrow> R = []" unfolding R by simp
  show ?case
    unfolding all by (subst events_loop.simps) (simp add: bit0_and d_def [symmetric] IH e del: One_nat_def split: bind_split)
qed

lemma foldO_quiet:
  "(\<And>x s. x \<in> set xs \<Longrightarrow> P s \<Longrightarrow> f x s = Some (g x s) \<and> P (g x s)) \<Longrightarrow> P s \<Longrightarrow> foldO f xs s = Some (fold g xs s)"
  by (induction xs arbitrary: s) auto

section \<open>A queue of task assists\<close>

fun achain :: "(nat \<Rightarrow> TaskAssist) \<Rightarrow> nat option \<Rightarrow> nat list \<Rightarrow> bool" where
  "achain A p [] \<longleftrightarrow> p = None"
| "achain A p (x # xs) \<longleftrightarrow> p = Some x \<and> achain A (anext (A x)) xs"

definition scheduled :: "TaskAssist \<Rightarrow> bool" where
  "scheduled k \<longleftrightarrow> bit (astatus k) TASKASSIST_SCHED"

lemma achain_upd [simp]: "a \<notin> set xs \<Longrightarrow> achain (A(a := k)) p xs = achain A p xs"
  by (induction xs arbitrary: p) auto

lemma achain_cong: "(\<And>a. a \<in> set xs \<Longrightarrow> anext (A a) = anext (B a)) \<Longrightarrow> achain A p xs = achain B p xs"
  by (induction xs arbitrary: p) auto

lemma upd_assist_sel [simp]:
  "assist (upd_assist a f s) = (assist s)(a := f (assist s a))" "softirqTable (upd_assist a f s) = softirqTable s"
  "softirqEvens (upd_assist a f s) = softirqEvens s" "env (upd_assist a f s) = env s"
  "taskAssistHead (upd_assist a f s) = taskAssistHead s" "highTaskAssistHead (upd_assist a f s) = highTaskAssistHead s"
  by (simp_all add: upd_assist_def)

lemma Active_sel [simp]:
  "assist (ActiveSoftirq n s) = assist s" "softirqTable (ActiveSoftirq n s) = softirqTable s" "env (ActiveSoftirq n s) = env s"
  "taskAssistHead (ActiveSoftirq n s) = taskAssistHead s" "highTaskAssistHead (ActiveSoftirq n s) = highTaskAssistHead s"
  by (simp_all add: ActiveSoftirq_def)

lemma status_bits:
  "TestAndSetBit TASKASSIST_SCHED w = (if bit w 0 then 1 else 0, w OR 1)"
  "snd (ClearBit TASKASSIST_SCHED w) = w AND NOT 1"
  by (simp_all add: TestAndSetBit_def TestBit_def SetBit_def ClearBit_def TASKASSIST_SCHED_def one_and_eq
      odd_iff_mod_2_eq_one bit_0)

lemma scheduled_simps [simp]: "scheduled (k\<lparr>astatus := w OR 1\<rparr>)" "\<not> scheduled (k\<lparr>astatus := w AND NOT 1\<rparr>)"
  "scheduled (k\<lparr>anext := p\<rparr>) = scheduled k"
  by (simp_all add: scheduled_def TASKASSIST_SCHED_def bit_or_iff bit_and_iff bit_not_iff bit_1_iff)

lemma scheduled_clear [simp]: "\<not> scheduled (k\<lparr>astatus := w AND - 2\<rparr>)"
proof -
  have "\<not> scheduled (k\<lparr>astatus := w AND NOT 1\<rparr>)" by (rule scheduled_simps)
  then show ?thesis by simp
qed

lemma scheduled0: "scheduled k \<longleftrightarrow> bit (astatus k) 0"
  by (simp add: scheduled_def TASKASSIST_SCHED_def)

lemma or_1_set: "bit w 0 \<Longrightarrow> w OR 1 = (w :: u32)"
  by (auto intro!: bit_eqI simp: bit_or_iff bit_1_iff)

lemma upd_same [simp]: "upd_assist a (\<lambda>k. k\<lparr>astatus := astatus (assist s a)\<rparr>) s = s"
  by (simp add: upd_assist_def)

lemma upd_twice: "upd_assist a f (upd_assist a g s) = upd_assist a (\<lambda>k. f (g k)) s"
  by (simp add: upd_assist_def)

text \<open>
  The interface of the two queues: a head in the state, a softirq number, and the two operations
  written as the code writes them over that head.
\<close>

locale assist_queue =
  fixes get :: "'w softirq \<Rightarrow> nat option"
    and set_head :: "nat option \<Rightarrow> 'w softirq \<Rightarrow> 'w softirq"
    and irq :: nat
    and schedule :: "nat \<Rightarrow> 'w softirq \<Rightarrow> 'w softirq"
    and loop :: "(nat \<Rightarrow> u32 \<Rightarrow> 'w step) \<Rightarrow> nat option \<Rightarrow> 'w step"
  assumes get_set [simp]: "get (set_head p s) = p"
    and get_upd [simp]: "get (upd_assist a f s) = get s" and get_active [simp]: "get (ActiveSoftirq n s) = get s"
    and get_env [simp]: "get (s\<lparr>env := e\<rparr>) = get s"
    and set_sel [simp]: "assist (set_head p s) = assist s" "softirqTable (set_head p s) = softirqTable s"
      "env (set_head p s) = env s" "softirqEvens (set_head p s) = softirqEvens s"
    and irq_less: "irq < NR_SOFTIRQS"
    and schedule_eq: "schedule a s =
      (if scheduled (assist s a) then s
       else ActiveSoftirq irq (set_head (Some a) (upd_assist a (\<lambda>k. k\<lparr>astatus := astatus k OR 1, anext := get s\<rparr>) s)))"
    and loop_None: "loop call None s = Some s"
    and loop_run: "acount (assist s a) = 0 \<Longrightarrow> loop call (Some a) s =
      do { s' \<leftarrow> call (afunc (assist s a)) (adata (assist s a)) (upd_assist a (\<lambda>k. k\<lparr>astatus := astatus k AND NOT 1\<rparr>) s);
           loop call (anext (assist s a)) s' }"
    and loop_skip: "acount (assist s a) \<noteq> 0 \<Longrightarrow> loop call (Some a) s =
      loop call (anext (assist s a)) (ActiveSoftirq irq (set_head (Some a) (upd_assist a (\<lambda>k. k\<lparr>anext := get s\<rparr>) s)))"
begin

definition queue :: "'w softirq \<Rightarrow> nat list \<Rightarrow> bool" where
  "queue s xs \<longleftrightarrow> achain (assist s) (get s) xs \<and> distinct xs \<and> (\<forall>a\<in>set xs. scheduled (assist s a))"

text \<open>Scheduling puts an unscheduled assist first and raises the softirq; a scheduled one stays.\<close>

lemma schedule_queued: "scheduled (assist s a) \<Longrightarrow> schedule a s = s"
  by (simp add: schedule_eq)

lemma schedule_new:
  assumes "queue s xs" "\<not> scheduled (assist s a)"
  shows "queue (schedule a s) (a # xs)"
proof -
  have "a \<notin> set xs" using assms by (auto simp: queue_def)
  then show ?thesis using assms by (auto simp: queue_def schedule_eq scheduled_def bit_or_iff TASKASSIST_SCHED_def)
qed

lemma schedule_frame: "afunc (assist (schedule a s) b) = afunc (assist s b)" "adata (assist (schedule a s) b) = adata (assist s b)"
  "acount (assist (schedule a s) b) = acount (assist s b)" "env (schedule a s) = env s"
  "softirqTable (schedule a s) = softirqTable s" "scheduled (assist (schedule a s) b) \<longleftrightarrow> b = a \<or> scheduled (assist s b)"
  by (auto simp: schedule_eq scheduled_def bit_or_iff TASKASSIST_SCHED_def)

lemma schedule_evens:
  assumes "softirqTable s irq \<noteq> None" "\<not> scheduled (assist s a)"
  shows "softirqEvens (schedule a s) = softirqEvens s OR push_bit irq 1"
  using assms irq_less by (simp add: schedule_eq ActiveSoftirq_def)

definition kept :: "'w softirq \<Rightarrow> 'w softirq \<Rightarrow> bool" where
  "kept s s' \<longleftrightarrow> softirqTable s' = softirqTable s \<and> (\<forall>b. afunc (assist s' b) = afunc (assist s b) \<and>
     adata (assist s' b) = adata (assist s b) \<and> acount (assist s' b) = acount (assist s b))"

lemma schedule_all:
  assumes "queue s []" "\<forall>a\<in>set as. \<not> scheduled (assist s a)"
  shows "queue (fold schedule as s) (remdups (rev as)) \<and> kept s (fold schedule as s) \<and> env (fold schedule as s) = env s \<and>
    (\<forall>b. scheduled (assist (fold schedule as s) b) \<longleftrightarrow> b \<in> set as \<or> scheduled (assist s b)) \<and>
    (softirqTable s irq \<noteq> None \<longrightarrow> softirqEvens (fold schedule as s) =
       (if as = [] then softirqEvens s else softirqEvens s OR push_bit irq 1))"
  using assms(2)
proof (induction as rule: rev_induct)
  case Nil
  then show ?case using assms(1) by (simp add: kept_def)
next
  case (snoc a as)
  let ?s = "fold schedule as s"
  from snoc have IH: "queue ?s (remdups (rev as))" "kept s ?s" "env ?s = env s"
    "\<forall>b. scheduled (assist ?s b) \<longleftrightarrow> b \<in> set as \<or> scheduled (assist s b)"
    "softirqTable s irq \<noteq> None \<longrightarrow> softirqEvens ?s = (if as = [] then softirqEvens s else softirqEvens s OR push_bit irq 1)"
    by auto
  show ?case
  proof (cases "a \<in> set as")
    case True
    then have "schedule a ?s = ?s" using IH(4) by (intro schedule_queued) simp
    with IH True show ?thesis by auto
  next
    case False
    then have new: "\<not> scheduled (assist ?s a)" using IH(4) snoc.prems by simp
    from IH(2) have "kept s (schedule a ?s)" by (simp add: kept_def schedule_frame)
    then show ?thesis
      using schedule_new [OF IH(1) new] schedule_evens [OF _ new] IH False
      by (auto simp: schedule_frame kept_def or.assoc)
  qed
qed

text \<open>
  Running a queue with callbacks that touch only their own data runs the enabled assists once
  each, from the head, and puts the disabled ones back, which raises the softirq again.
\<close>

lemma loop_ok:
  assumes "\<And>f d s. call f d s = Some (s\<lparr>env := g f d (env s)\<rparr>)"
    and "achain (assist s) p xs" "achain (assist s) (get s) ys" "distinct (xs @ ys)" "softirqTable s irq \<noteq> None"
  shows "\<exists>s'. loop call p s = Some s' \<and> kept s s' \<and>
    env s' = fold (\<lambda>a. g (afunc (assist s a)) (adata (assist s a))) (filter (\<lambda>a. acount (assist s a) = 0) xs) (env s) \<and>
    achain (assist s') (get s') (rev (filter (\<lambda>a. acount (assist s a) \<noteq> 0) xs) @ ys) \<and>
    (\<forall>b. scheduled (assist s' b) \<longleftrightarrow> scheduled (assist s b) \<and> \<not> (b \<in> set xs \<and> acount (assist s b) = 0)) \<and>
    softirqEvens s' = (if \<exists>a\<in>set xs. acount (assist s a) \<noteq> 0 then softirqEvens s OR push_bit irq 1 else softirqEvens s)"
  using assms(2-)
proof (induction xs arbitrary: p s ys)
  case Nil
  then show ?case by (simp add: loop_None kept_def)
next
  case (Cons a xs)
  have p: "p = Some a" and rest: "achain (assist s) (anext (assist s a)) xs" and a: "a \<notin> set xs" "a \<notin> set ys"
    using Cons.prems by auto
  show ?case
  proof (cases "acount (assist s a) = 0")
    case True
    define s1 where "s1 = (upd_assist a (\<lambda>k. k\<lparr>astatus := astatus k AND NOT 1\<rparr>) s)
      \<lparr>env := g (afunc (assist s a)) (adata (assist s a)) (env s)\<rparr>"
    have s1: "assist s1 = (assist s)(a := (assist s a)\<lparr>astatus := astatus (assist s a) AND NOT 1\<rparr>)"
      "get s1 = get s" "softirqTable s1 = softirqTable s" "softirqEvens s1 = softirqEvens s"
      "env s1 = g (afunc (assist s a)) (adata (assist s a)) (env s)" by (simp_all add: s1_def)
    have pt: "acount (assist s1 b) = acount (assist s b)" "afunc (assist s1 b) = afunc (assist s b)"
      "adata (assist s1 b) = adata (assist s b)" for b by (simp_all add: s1(1))
    have "achain (assist s1) (anext (assist s a)) xs" "achain (assist s1) (get s1) ys"
      using rest a Cons.prems(2) by (simp_all add: s1)
    from Cons.IH [OF this] Cons.prems(3,4) obtain s' where
      s': "loop call (anext (assist s a)) s1 = Some s'" "kept s1 s'"
        "env s' = fold (\<lambda>b. g (afunc (assist s b)) (adata (assist s b))) (filter (\<lambda>b. acount (assist s b) = 0) xs) (env s1)"
        "achain (assist s') (get s') (rev (filter (\<lambda>b. acount (assist s b) \<noteq> 0) xs) @ ys)"
        "\<forall>b. scheduled (assist s' b) \<longleftrightarrow> scheduled (assist s1 b) \<and> \<not> (b \<in> set xs \<and> acount (assist s b) = 0)"
        "softirqEvens s' = (if \<exists>b\<in>set xs. acount (assist s b) \<noteq> 0 then softirqEvens s OR push_bit irq 1 else softirqEvens s)"
      unfolding pt s1(3,4) by auto
    have "loop call p s = Some s'"
      using loop_run [where call = call, OF True] s'(1) assms(1) unfolding p s1_def by simp
    moreover have "kept s s'" using s'(2) unfolding kept_def s1 by auto
    moreover have "scheduled (assist s' b) \<longleftrightarrow> scheduled (assist s b) \<and> \<not> (b \<in> set (a # xs) \<and> acount (assist s b) = 0)" for b
      using s'(5) True by (cases "b = a") (simp_all add: s1(1))
    ultimately show ?thesis using s'(3,4,6) True s1(5) by (intro exI [of _ s']) simp
  next
    case False
    define s1 where "s1 = ActiveSoftirq irq (set_head (Some a) (upd_assist a (\<lambda>k. k\<lparr>anext := get s\<rparr>) s))"
    have gs1: "get s1 = Some a" by (simp add: s1_def)
    have s1: "assist s1 = (assist s)(a := (assist s a)\<lparr>anext := get s\<rparr>)"
      "softirqTable s1 = softirqTable s" "softirqEvens s1 = softirqEvens s OR push_bit irq 1"
      "env s1 = env s" using irq_less Cons.prems(4) by (auto simp: s1_def ActiveSoftirq_def)
    have pt: "acount (assist s1 b) = acount (assist s b)" "afunc (assist s1 b) = afunc (assist s b)"
      "adata (assist s1 b) = adata (assist s b)" for b by (simp_all add: s1(1))
    have "achain (assist s1) (anext (assist s a)) xs" "achain (assist s1) (get s1) (a # ys)"
      using rest a Cons.prems(2) by (simp_all add: s1 gs1)
    from Cons.IH [OF this] Cons.prems(3,4) obtain s' where
      s': "loop call (anext (assist s a)) s1 = Some s'" "kept s1 s'"
        "env s' = fold (\<lambda>b. g (afunc (assist s b)) (adata (assist s b))) (filter (\<lambda>b. acount (assist s b) = 0) xs) (env s)"
        "achain (assist s') (get s') (rev (filter (\<lambda>b. acount (assist s b) \<noteq> 0) xs) @ a # ys)"
        "\<forall>b. scheduled (assist s' b) \<longleftrightarrow> scheduled (assist s1 b) \<and> \<not> (b \<in> set xs \<and> acount (assist s b) = 0)"
        "softirqEvens s' = (if \<exists>b\<in>set xs. acount (assist s b) \<noteq> 0
          then (softirqEvens s OR push_bit irq 1) OR push_bit irq 1 else softirqEvens s OR push_bit irq 1)"
      unfolding pt s1(2-4) by auto
    have "loop call p s = Some s'"
      using loop_skip [where call = call, OF False] s'(1) unfolding p s1_def by simp
    moreover have "kept s s'" using s'(2) unfolding kept_def s1 by auto
    moreover have "scheduled (assist s' b) \<longleftrightarrow> scheduled (assist s b) \<and> \<not> (b \<in> set (a # xs) \<and> acount (assist s b) = 0)" for b
      using s'(5) False by (cases "b = a") (simp_all add: s1(1))
    moreover have "softirqEvens s' = softirqEvens s OR push_bit irq 1" using s'(6) by (simp add: s1(3) or.assoc)
    ultimately show ?thesis using s'(3,4) False by (intro exI [of _ s']) simp
  qed
qed

end


interpretation nq: assist_queue taskAssistHead "\<lambda>p s. s\<lparr>taskAssistHead := p\<rparr>" TASKASSIST_SOFTIRQ TaskAssistSchedule assist_loop
proof (unfold_locales, goal_cases)
  case (10 a s)
  then show ?case
    by (cases "bit (astatus (assist s a)) 0")
      (simp_all add: TaskAssistSchedule_def status_bits Let_def scheduled0 or_1_set upd_twice, simp add: upd_assist_def)
next
  case 11
  then show ?case by (subst assist_loop.simps) simp
next
  case 12
  then show ?case by (subst assist_loop.simps) (simp add: status_bits Let_def)
next
  case 13
  then show ?case by (subst assist_loop.simps) (simp add: Let_def)
qed (simp_all add: TASKASSIST_SOFTIRQ_def NR_SOFTIRQS_def)

interpretation hq: assist_queue highTaskAssistHead "\<lambda>p s. s\<lparr>highTaskAssistHead := p\<rparr>" HIGHTASKASSIST_SOFTIRQ
  HighTaskAssistSchedule high_assist_loop
proof (unfold_locales, goal_cases)
  case (10 a s)
  then show ?case
    by (cases "bit (astatus (assist s a)) 0")
      (simp_all add: HighTaskAssistSchedule_def status_bits Let_def scheduled0 or_1_set upd_twice, simp add: upd_assist_def)
next
  case 11
  then show ?case by (subst high_assist_loop.simps) simp
next
  case 12
  then show ?case by (subst high_assist_loop.simps) (simp add: status_bits Let_def)
next
  case 13
  then show ?case by (subst high_assist_loop.simps) (simp add: Let_def)
qed (simp_all add: HIGHTASKASSIST_SOFTIRQ_def NR_SOFTIRQS_def)

section \<open>Rounds\<close>

lemma fold_env: "fold (\<lambda>j s. s\<lparr>env := h j (env s)\<rparr>) l s = s\<lparr>env := fold h l (env s)\<rparr>"
  by (induction l arbitrary: s) simp_all

lemma Active_bits:
  "\<exists>E. fold ActiveSoftirq ks s = s\<lparr>softirqEvens := E\<rparr> \<and>
     (\<forall>j. bit E j \<longleftrightarrow> bit (softirqEvens s) j \<or> (j \<in> set ks \<and> j < NR_SOFTIRQS \<and> softirqTable s j \<noteq> None))"
proof (induction ks arbitrary: s)
  case Nil
  then show ?case by (intro exI [of _ "softirqEvens s"]) simp
next
  case (Cons k ks)
  from Cons.IH [of "ActiveSoftirq k s"] obtain E where
    E: "fold ActiveSoftirq ks (ActiveSoftirq k s) = (ActiveSoftirq k s)\<lparr>softirqEvens := E\<rparr>"
      "\<forall>j. bit E j \<longleftrightarrow> bit (softirqEvens (ActiveSoftirq k s)) j \<or> (j \<in> set ks \<and> j < NR_SOFTIRQS \<and> softirqTable s j \<noteq> None)"
    by auto
  have "(ActiveSoftirq k s)\<lparr>softirqEvens := E\<rparr> = s\<lparr>softirqEvens := E\<rparr>" by (simp add: ActiveSoftirq_def)
  moreover have "bit (softirqEvens (ActiveSoftirq k s)) j \<longleftrightarrow>
      bit (softirqEvens s) j \<or> (j = k \<and> j < NR_SOFTIRQS \<and> softirqTable s j \<noteq> None)" for j
    by (auto simp: ActiveSoftirq_def bit_or_iff bit_exp_iff NR_SOFTIRQS_def)
  ultimately show ?case using E by (intro exI [of _ E]) auto
qed

lemma round_run:
  assumes "\<forall>j\<ge>NR_SOFTIRQS. \<not> bit evens j"
  shows "events_loop run call 0 evens s =
    foldO (\<lambda>j s. call_action run call (softirqTable s j) s) (filter (bit evens) [0..<NR_SOFTIRQS]) s"
  using events_loop_spec [OF assms, of run call 0 s] by simp

lemma bit_single: "bit (push_bit n 1 :: u32) j \<longleftrightarrow> j = n \<and> n < 32"
  unfolding bit_push_bit_iff by (auto simp: bit_1_iff)

lemma only_assist: "filter (bit (push_bit TASKASSIST_SOFTIRQ 1 :: u32)) [0..<NR_SOFTIRQS] = [TASKASSIST_SOFTIRQ]"
  by (simp only: bit_single TASKASSIST_SOFTIRQ_def NR_SOFTIRQS_def) (simp add: upt_rec)

lemma assist_round:
  assumes "softirqEvens s = push_bit TASKASSIST_SOFTIRQ 1" "softirqTable s TASKASSIST_SOFTIRQ = Some NormalTaskAssist"
  shows "events_loop run call 0 (softirqEvens s) (s\<lparr>softirqEvens := 0\<rparr>) = TaskAssistAction call (s\<lparr>softirqEvens := 0\<rparr>)"
proof -
  have "\<forall>j\<ge>NR_SOFTIRQS. \<not> bit (push_bit TASKASSIST_SOFTIRQ 1 :: u32) j"
    unfolding bit_single by (simp add: TASKASSIST_SOFTIRQ_def NR_SOFTIRQS_def)
  from round_run [OF this, of run call] show ?thesis
    unfolding assms(1) only_assist foldO_single using assms(2) by (simp add: call_action_def)
qed

section \<open>Properties\<close>

text \<open>
  C23: after any activations, \<open>DoSoftirq\<close> runs every activated softirq that has an action exactly
  once, in the order of their numbers, and clears the events, if the actions do not activate
  softirqs themselves.
\<close>

theorem softirqs_run_once:
  assumes "\<And>k s. run k s = Some (s\<lparr>env := g k (env s)\<rparr>)" "softirqEvens s = 0"
    and "\<And>k. k \<in> set ks \<Longrightarrow> softirqTable s k = map_option SAction (f k)"
  shows "DoSoftirq run call (fold ActiveSoftirq ks s) = Some (s\<lparr>env :=
    fold (\<lambda>k. g (the (f k))) (filter (\<lambda>k. k \<in> set ks \<and> f k \<noteq> None) [0..<NR_SOFTIRQS]) (env s)\<rparr>)"
proof -
  from Active_bits [of ks s] assms(2) obtain E where
    E: "fold ActiveSoftirq ks s = s\<lparr>softirqEvens := E\<rparr>"
      "\<And>j. bit E j \<longleftrightarrow> j \<in> set ks \<and> j < NR_SOFTIRQS \<and> softirqTable s j \<noteq> None" by auto
  let ?l = "filter (\<lambda>k. k \<in> set ks \<and> f k \<noteq> None) [0..<NR_SOFTIRQS]"
  have l: "filter (bit E) [0..<NR_SOFTIRQS] = ?l"
    using E(2) assms(3) by (intro filter_cong) auto
  show ?thesis
  proof (cases "E = 0")
    case True
    with l have "?l = []" by simp
    with True E(1) assms(2) show ?thesis by (simp add: DoSoftirq_def)
  next
    case False
    let ?s = "s\<lparr>softirqEvens := 0\<rparr>"
    have "foldO (\<lambda>j s. call_action run call (softirqTable s j) s) ?l ?s =
        Some (fold (\<lambda>j s. s\<lparr>env := g (the (f j)) (env s)\<rparr>) ?l ?s)"
      by (rule foldO_quiet [where P = "\<lambda>s'. softirqTable s' = softirqTable s"])
        (use assms(1,3) in \<open>auto simp: call_action_def\<close>)
    then have r: "events_loop run call 0 E ?s = Some (?s\<lparr>env := fold (\<lambda>k. g (the (f k))) ?l (env s)\<rparr>)"
      using round_run [of E run call ?s] E(2) fold_env [of "\<lambda>k. g (the (f k))" ?l ?s] by (simp add: l)
    show ?thesis
      using False r assms(2) by (simp add: E(1) DoSoftirq_def HandleSoftirq_def MAX_REDO_IRQ_def eval_nat_numeral)
  qed
qed

theorem softirqs_run_once_witness:
  "DoSoftirq (\<lambda>k s. Some (s\<lparr>env := env s @ [k]\<rparr>)) (\<lambda>_ _. Some) (fold ActiveSoftirq [5, 1, 6, 5]
     (BuildSoftirq 1 (Some (SAction 11)) (BuildSoftirq 5 (Some (SAction 55)) (InitSoftirq
       \<lparr>assist = (\<lambda>_. undefined), highTaskAssistHead = None, taskAssistHead = None, softirqTable = (\<lambda>_. None),
        softirqEvens = 0, env = []\<rparr>)))) =
   Some ((BuildSoftirq 1 (Some (SAction 11)) (BuildSoftirq 5 (Some (SAction 55)) (InitSoftirq
       \<lparr>assist = (\<lambda>_. undefined), highTaskAssistHead = None, taskAssistHead = None, softirqTable = (\<lambda>_. None),
        softirqEvens = 0, env = []\<rparr>)))\<lparr>env := [11, 55]\<rparr>)"
proof -
  let ?s = "BuildSoftirq 1 (Some (SAction 11)) (BuildSoftirq 5 (Some (SAction 55)) (InitSoftirq
       \<lparr>assist = (\<lambda>_. undefined), highTaskAssistHead = None, taskAssistHead = None, softirqTable = (\<lambda>_. None),
        softirqEvens = 0, env = []\<rparr>))"
  have "DoSoftirq (\<lambda>k s. Some (s\<lparr>env := env s @ [k]\<rparr>)) (\<lambda>_ _. Some) (fold ActiveSoftirq [5, 1, 6, 5] ?s) =
     Some (?s\<lparr>env := fold (\<lambda>k e. e @ [the ([1 \<mapsto> 11, 5 \<mapsto> (55::nat)] k)])
       (filter (\<lambda>k. k \<in> set [5, 1, 6, 5] \<and> [1 \<mapsto> 11, 5 \<mapsto> (55::nat)] k \<noteq> None) [0..<NR_SOFTIRQS]) (env ?s)\<rparr>)"
    by (rule softirqs_run_once [where g = "\<lambda>k e. e @ [k]" and f = "[1 \<mapsto> 11, 5 \<mapsto> 55]"])
      (auto simp: BuildSoftirq_def InitSoftirq_def NR_SOFTIRQS_def TASKASSIST_SOFTIRQ_def HIGHTASKASSIST_SOFTIRQ_def)
  moreover have "fold (\<lambda>k e. e @ [the ([1 \<mapsto> 11, 5 \<mapsto> (55::nat)] k)])
       (filter (\<lambda>k. k \<in> set [5, 1, 6, 5] \<and> [1 \<mapsto> 11, 5 \<mapsto> (55::nat)] k \<noteq> None) [0..<NR_SOFTIRQS]) (env ?s) = [11, 55]"
    by (simp add: NR_SOFTIRQS_def BuildSoftirq_def InitSoftirq_def upt_rec)
  ultimately show ?thesis by (simp only:)
qed

text \<open>
  C22: after any calls of \<open>TaskAssistSchedule\<close> on enabled assists, repeats included, one
  \<open>DoSoftirq\<close> runs the function of each exactly once, the assist first scheduled last, and leaves
  the queue empty and every assist ready to be scheduled again.
\<close>

theorem assists_run_once:
  assumes "\<And>f d s. call f d s = Some (s\<lparr>env := g f d (env s)\<rparr>)" "softirqEvens s = 0" "taskAssistHead s = None"
    and "softirqTable s TASKASSIST_SOFTIRQ = Some NormalTaskAssist"
    and "\<forall>a\<in>set as. acount (assist s a) = 0 \<and> \<not> scheduled (assist s a)"
  shows "\<exists>s'. DoSoftirq run call (fold TaskAssistSchedule as s) = Some s' \<and>
    env s' = fold (\<lambda>a. g (afunc (assist s a)) (adata (assist s a))) (remdups (rev as)) (env s) \<and>
    taskAssistHead s' = None \<and> softirqEvens s' = 0 \<and> (\<forall>a\<in>set as. \<not> scheduled (assist s' a))"
proof (cases "as = []")
  case True
  with assms show ?thesis by (simp add: DoSoftirq_def)
next
  case False
  define s1 where "s1 = fold TaskAssistSchedule as s"
  have "nq.queue s []" using assms(3) by (simp add: nq.queue_def)
  from nq.schedule_all [OF this, of as, folded s1_def] assms(2,4,5) False have
    s1: "nq.queue s1 (remdups (rev as))" "nq.kept s s1" "env s1 = env s"
      "softirqEvens s1 = push_bit TASKASSIST_SOFTIRQ 1" "\<forall>b. scheduled (assist s1 b) \<longleftrightarrow> b \<in> set as \<or> scheduled (assist s b)"
    by simp_all
  let ?xs = "remdups (rev as)"
  let ?s2 = "s1\<lparr>softirqEvens := 0, taskAssistHead := None\<rparr>"
  have tab: "softirqTable s1 TASKASSIST_SOFTIRQ = Some NormalTaskAssist" using s1(2) assms(4) by (simp add: nq.kept_def)
  have same: "acount (assist s1 b) = acount (assist s b)" "afunc (assist s1 b) = afunc (assist s b)"
    "adata (assist s1 b) = adata (assist s b)" for b using s1(2) by (simp_all add: nq.kept_def)
  have fil: "filter (\<lambda>a. acount (assist s a) = 0) ?xs = ?xs" "filter (\<lambda>a. acount (assist s a) \<noteq> 0) ?xs = []"
    using assms(5) by (auto simp: filter_id_conv filter_empty_conv)
  have "achain (assist ?s2) (taskAssistHead s1) ?xs" "achain (assist ?s2) (taskAssistHead ?s2) []" "distinct (?xs @ [])"
    "softirqTable ?s2 TASKASSIST_SOFTIRQ \<noteq> None"
    using s1(1) tab by (simp_all add: nq.queue_def)
  from nq.loop_ok [where call = call and g = g, OF assms(1) this] obtain s' where
    s': "assist_loop call (taskAssistHead s1) ?s2 = Some s'"
      "env s' = fold (\<lambda>a. g (afunc (assist s a)) (adata (assist s a))) ?xs (env s)"
      "achain (assist s') (taskAssistHead s') []"
      "\<forall>b. scheduled (assist s' b) \<longleftrightarrow> (b \<in> set as \<or> scheduled (assist s b)) \<and> \<not> (b \<in> set as \<and> acount (assist s b) = 0)"
      "softirqEvens s' = 0"
    using assms(5) by (auto simp: same fil s1(3,5))
  have "events_loop run call 0 (softirqEvens s1) (s1\<lparr>softirqEvens := 0\<rparr>) = Some s'"
    using assist_round [OF s1(4) tab, of run call] s'(1) by (simp add: TaskAssistAction_def)
  moreover have "softirqEvens s1 \<noteq> 0" by (simp add: s1(4) TASKASSIST_SOFTIRQ_def)
  ultimately have "DoSoftirq run call s1 = Some s'"
    using s'(5) by (simp add: DoSoftirq_def HandleSoftirq_def MAX_REDO_IRQ_def eval_nat_numeral)
  with s'(2-5) assms(5) show ?thesis unfolding s1_def by (intro exI [of _ s']) simp
qed

theorem assists_run_once_witness:
  "\<exists>s'. DoSoftirq (\<lambda>_. Some) (\<lambda>f d s. Some (s\<lparr>env := env s @ [d]\<rparr>)) (fold TaskAssistSchedule [2, 3, 2]
     (InitSoftirq \<lparr>assist = (\<lambda>a. \<lparr>anext = None, astatus = 0, acount = 0, afunc = 0, adata = of_nat a\<rparr>),
       highTaskAssistHead = None, taskAssistHead = None, softirqTable = (\<lambda>_. None), softirqEvens = 0, env = []\<rparr>)) = Some s' \<and>
     env s' = [3, 2]"
  using assists_run_once [where call = "\<lambda>f d s. Some (s\<lparr>env := env s @ [d]\<rparr>)" and g = "\<lambda>f d e. e @ [d]" and run = "\<lambda>_. Some"
      and as = "[2, 3, 2]" and s = "InitSoftirq \<lparr>assist = (\<lambda>a. \<lparr>anext = None, astatus = 0, acount = 0, afunc = 0, adata = of_nat a\<rparr>),
       highTaskAssistHead = None, taskAssistHead = None, softirqTable = (\<lambda>_. None), softirqEvens = 0, env = []\<rparr>"]
  by (auto simp: InitSoftirq_def BuildSoftirq_def NR_SOFTIRQS_def TASKASSIST_SOFTIRQ_def HIGHTASKASSIST_SOFTIRQ_def scheduled0)

text \<open>A state in which assist \<open>a\<close> waits with the count 2.\<close>

definition stuck :: "nat \<Rightarrow> 'w softirq \<Rightarrow> bool" where
  "stuck a s \<longleftrightarrow> nq.queue s [a] \<and> acount (assist s a) = 2 \<and> softirqEvens s = push_bit TASKASSIST_SOFTIRQ 1 \<and>
     softirqTable s TASKASSIST_SOFTIRQ = Some NormalTaskAssist"

lemma stuck_round:
  assumes "stuck a s"
  shows "\<exists>s'. events_loop run call 0 (softirqEvens s) (s\<lparr>softirqEvens := 0\<rparr>) = Some s' \<and> stuck a s' \<and> env s' = env s"
proof -
  from assms have q: "taskAssistHead s = Some a" "anext (assist s a) = None" "scheduled (assist s a)" "acount (assist s a) = 2"
    and e: "softirqEvens s = push_bit TASKASSIST_SOFTIRQ 1" "softirqTable s TASKASSIST_SOFTIRQ = Some NormalTaskAssist"
    by (simp_all add: stuck_def nq.queue_def)
  let ?s2 = "s\<lparr>softirqEvens := 0, taskAssistHead := None\<rparr>"
  let ?s' = "ActiveSoftirq TASKASSIST_SOFTIRQ ((upd_assist a (\<lambda>k. k\<lparr>anext := None\<rparr>) ?s2)\<lparr>taskAssistHead := Some a\<rparr>)"
  have "assist_loop call (Some a) ?s2 = Some ?s'"
    using nq.loop_skip [of ?s2 a call] q by (simp add: nq.loop_None)
  then have "events_loop run call 0 (softirqEvens s) (s\<lparr>softirqEvens := 0\<rparr>) = Some ?s'"
    using assist_round [OF e, of run call] q(1) by (simp add: TaskAssistAction_def)
  moreover have "stuck a ?s'" using q e
    by (simp add: stuck_def nq.queue_def) (simp add: ActiveSoftirq_def upd_assist_def TASKASSIST_SOFTIRQ_def NR_SOFTIRQS_def)
  ultimately show ?thesis by (intro exI [of _ ?s']) simp
qed

lemma stuck_redo: "stuck a s \<Longrightarrow> \<exists>s'. redo_loop run call n (softirqEvens s) s = Some s' \<and> stuck a s' \<and> env s' = env s"
proof (induction n arbitrary: s)
  case (Suc n)
  from stuck_round [OF Suc.prems] obtain s1 where
    s1: "events_loop run call 0 (softirqEvens s) (s\<lparr>softirqEvens := 0\<rparr>) = Some s1" "stuck a s1" "env s1 = env s" by blast
  have "softirqEvens s \<noteq> 0" "softirqEvens s1 \<noteq> 0"
    using Suc.prems s1(2) by (simp_all add: stuck_def TASKASSIST_SOFTIRQ_def)
  with Suc.IH [OF s1(2)] s1 show ?case by (cases "n = 0") auto
qed auto

text \<open>
  a task assist declared with \<open>DECLEAR_TASKASSIST_DISABLED\<close> never runs once it is enabled and
  scheduled: \<open>TaskAssistEnable\<close> counts it up to 2 instead of down to 0. It stays queued and its
  softirq stays raised, through any number of \<open>DoSoftirq\<close>, while an assist set up with
  \<open>TaskAssistInit\<close> is enabled again by the same call after \<open>TaskAssistDisable\<close>.
\<close>

theorem disabled_assist_never_runs:
  assumes "assist s a = DECLEAR_TASKASSIST_DISABLED f d" "softirqEvens s = 0" "taskAssistHead s = None"
    and "softirqTable s TASKASSIST_SOFTIRQ = Some NormalTaskAssist"
  shows "\<exists>s'. foldO (\<lambda>_. DoSoftirq run call) [0..<n] (TaskAssistSchedule a (TaskAssistEnable a s)) = Some s' \<and>
      env s' = env s \<and> scheduled (assist s' a) \<and> softirqEvens s' \<noteq> 0 \<and>
      acount (assist (TaskAssistEnable a (TaskAssistDisable a (TaskAssistInit a f d s))) a) = 0"
proof -
  have c: "i32 1 = 1" "i32 2 = 2" "i32 0 = 0" "i32 (-1) = -1" by (simp_all add: i32_def)
  let ?s0 = "TaskAssistEnable a s"
  have "nq.queue ?s0 []" "\<not> scheduled (assist ?s0 a)" "acount (assist ?s0 a) = 2" "softirqEvens ?s0 = 0"
    "softirqTable ?s0 TASKASSIST_SOFTIRQ = Some NormalTaskAssist"
    using assms c by (simp_all add: nq.queue_def TaskAssistEnable_def scheduled0 DECLEAR_TASKASSIST_DISABLED_def)
  then have "stuck a (TaskAssistSchedule a ?s0)"
    using nq.schedule_new [of ?s0 "[]" a] nq.schedule_evens [of ?s0 a] by (simp add: stuck_def nq.schedule_frame)
  moreover have "env (TaskAssistSchedule a ?s0) = env s" by (simp add: nq.schedule_frame TaskAssistEnable_def)
  moreover have "stuck a s1 \<Longrightarrow> \<exists>s'. foldO (\<lambda>_. DoSoftirq run call) xs s1 = Some s' \<and> stuck a s' \<and> env s' = env s1" for s1 and xs :: "nat list"
  proof (induction xs arbitrary: s1)
    case (Cons x xs)
    have "softirqEvens s1 \<noteq> 0" using Cons.prems by (simp add: stuck_def TASKASSIST_SOFTIRQ_def)
    with stuck_redo [OF Cons.prems, of run call MAX_REDO_IRQ] Cons.IH show ?case
      by (force simp: DoSoftirq_def HandleSoftirq_def)
  qed simp
  ultimately obtain s' where s': "foldO (\<lambda>_. DoSoftirq run call) [0..<n] (TaskAssistSchedule a ?s0) = Some s'"
    "stuck a s'" "env s' = env s" by metis
  from s'(2) have "scheduled (assist s' a)" "softirqEvens s' \<noteq> 0"
    by (simp_all add: stuck_def nq.queue_def TASKASSIST_SOFTIRQ_def)
  moreover have "acount (assist (TaskAssistEnable a (TaskAssistDisable a (TaskAssistInit a f d s))) a) = 0"
    using c by (simp add: TaskAssistEnable_def TaskAssistDisable_def TaskAssistInit_def)
  ultimately show ?thesis using s'(1,3) by blast
qed

end
