(* ===== verification/VMSpace.thy ===== *)
theory VMSpace
  imports Prelude
begin

text \<open>
  The address spaces of processes (\<open>mm/vmspace.c\<close>, and \<open>CopyVMSpace\<close> of \<open>mm/fork.c\<close>): each
  memory manager holds a singly linked list of mapped spaces, and \<open>SysMmap\<close>, \<open>SysMunmap\<close> and
  \<open>SysBrk\<close> change it.

  Structures live at addresses (natural numbers) in the state; \<open>None\<close> is \<open>NULL\<close>. Every call of
  \<open>kmalloc\<close> takes its result from an argument: the address of a fresh structure, or \<open>None\<close> when
  memory is short; the fresh structure holds whatever the store holds there. \<open>UnmapPagesFragment\<close>
  changes page tables only: the model records its calls. A loop over a cyclic list does not end:
  \<open>None\<close>. The field \<open>mm\<close> of a space, which nothing reads, is left out.
\<close>

section \<open>State\<close>

definition PAGE_SIZE :: u32 where "PAGE_SIZE = 4096"
definition PAGE_MASK :: u32 where "PAGE_MASK = NOT (PAGE_SIZE - 1)"
definition USER_VM_SIZE :: u32 where "USER_VM_SIZE = 0x80000000"
definition VMS_UNMAPPED_BASE :: u32 where "VMS_UNMAPPED_BASE = USER_VM_SIZE div 2"
definition PROT_READ :: u32 where "PROT_READ = 1"
definition PROT_WRITE :: u32 where "PROT_WRITE = 2"
definition PROT_EXEC :: u32 where "PROT_EXEC = 4"
definition MAP_FIXED :: u32 where "MAP_FIXED = 0x10"
definition VMS_STACK :: u32 where "VMS_STACK = 1"
definition VMS_HEAP :: u32 where "VMS_HEAP = 2"
definition VMS_RESOURCE :: u32 where "VMS_RESOURCE = 0x80"
definition MAX_VMS_HEAP_SIZE :: u32 where "MAX_VMS_HEAP_SIZE = 0x20000000"

definition PAGE_ALIGN :: "u32 \<Rightarrow> u32" where
  "PAGE_ALIGN value = (if value AND (PAGE_SIZE - 1) \<noteq> 0 then value + PAGE_SIZE else value) AND PAGE_MASK"

record VMSpace =
  vstart :: u32
  vend :: u32
  pageProt :: u32
  vflags :: u32
  vnext :: "nat option"

record MemoryManager =
  spaceMap :: "nat option"
  codeStart :: u32
  codeEnd :: u32
  dataStart :: u32
  dataEnd :: u32
  brkStart :: u32
  brk :: u32
  stackStart :: u32
  argStart :: u32
  argEnd :: u32
  envStart :: u32
  envEnd :: u32

record vm =
  space :: "nat \<Rightarrow> VMSpace"
  live :: "nat set"
  mms :: "nat \<Rightarrow> MemoryManager"
  unmapped :: "(u32 \<times> u32) list"

definition upd_space :: "nat \<Rightarrow> (VMSpace \<Rightarrow> VMSpace) \<Rightarrow> vm \<Rightarrow> vm" where
  "upd_space a f s = s\<lparr>space := (space s)(a := f (space s a))\<rparr>"

definition upd_mm :: "nat \<Rightarrow> (MemoryManager \<Rightarrow> MemoryManager) \<Rightarrow> vm \<Rightarrow> vm" where
  "upd_mm m f s = s\<lparr>mms := (mms s)(m := f (mms s m))\<rparr>"

definition vm_kmalloc :: "nat \<Rightarrow> vm \<Rightarrow> vm" where
  "vm_kmalloc a s = s\<lparr>live := insert a (live s)\<rparr>"

definition vm_kfree :: "nat \<Rightarrow> vm \<Rightarrow> vm" where
  "vm_kfree a s = s\<lparr>live := live s - {a}\<rparr>"

section \<open>Searching\<close>

partial_function (option) find_space_loop :: "u32 \<Rightarrow> vm \<Rightarrow> nat option \<Rightarrow> nat option option" where
  "find_space_loop addr s p =
     (case p of None \<Rightarrow> Some None
      | Some a \<Rightarrow> if addr < vend (space s a) then Some (Some a)
                  else find_space_loop addr s (vnext (space s a)))"

definition FindVMSpace :: "nat \<Rightarrow> u32 \<Rightarrow> vm \<Rightarrow> nat option option" where
  "FindVMSpace m addr s = find_space_loop addr s (spaceMap (mms s m))"

text \<open>The loop of \<open>FindVMSpacePrev\<close>; the second result is the value its parameter \<open>prev\<close> has at the
  return, which the caller does not see.\<close>

partial_function (option) find_prev_loop :: "u32 \<Rightarrow> vm \<Rightarrow> nat option \<Rightarrow> nat option \<Rightarrow> (nat option \<times> nat option) option" where
  "find_prev_loop addr s prev p =
     (case p of None \<Rightarrow> Some (None, prev)
      | Some a \<Rightarrow> if addr < vend (space s a) then Some (Some a, prev)
                  else find_prev_loop addr s p (vnext (space s a)))"

definition FindVMSpacePrev :: "nat \<Rightarrow> u32 \<Rightarrow> nat option \<Rightarrow> vm \<Rightarrow> nat option option" where
  "FindVMSpacePrev m addr prev s = map_option fst (find_prev_loop addr s None (spaceMap (mms s m)))"

definition FindVMSpaceIntersection :: "nat \<Rightarrow> u32 \<Rightarrow> u32 \<Rightarrow> vm \<Rightarrow> nat option option" where
  "FindVMSpaceIntersection m startAddr endAddr s =
     do { sp \<leftarrow> FindVMSpace m startAddr s;
          Some (case sp of None \<Rightarrow> None
                | Some a \<Rightarrow> if vstart (space s a) \<ge> endAddr then None else Some a) }"

partial_function (option) unmapped_loop :: "u32 \<Rightarrow> vm \<Rightarrow> u32 \<times> nat option \<Rightarrow> u32 option" where
  "unmapped_loop len s q =
     (case snd q of None \<Rightarrow> Some (fst q)
      | Some a \<Rightarrow>
          if USER_VM_SIZE - len < fst q then Some (-1)
          else if fst q + len \<le> vstart (space s a) then Some (fst q)
          else unmapped_loop len s (vend (space s a), vnext (space s a)))"

definition GetUnmappedVMSpace :: "nat \<Rightarrow> u32 \<Rightarrow> vm \<Rightarrow> u32 option" where
  "GetUnmappedVMSpace m len s =
     do { sp \<leftarrow> FindVMSpace m VMS_UNMAPPED_BASE s;
          unmapped_loop len s (VMS_UNMAPPED_BASE, sp) }"

section \<open>Changing the list\<close>

definition MergeVMSpace :: "nat option \<Rightarrow> nat \<Rightarrow> nat option \<Rightarrow> vm \<Rightarrow> int \<times> vm" where
  "MergeVMSpace prev sp nxt s =
     (let (sp, merged, s) =
        (case prev of None \<Rightarrow> (sp, 0, s)
         | Some p \<Rightarrow>
             if vend (space s p) = vstart (space s sp) \<and> pageProt (space s p) = pageProt (space s sp) \<and>
                vflags (space s p) = vflags (space s sp)
             then (p, 1, vm_kfree sp (upd_space p (\<lambda>k. k\<lparr>vend := vend (space s sp), vnext := nxt\<rparr>) s))
             else (sp, 0, s))
      in (case nxt of None \<Rightarrow> (merged, s)
          | Some n \<Rightarrow>
              if vend (space s sp) = vstart (space s n) \<and> pageProt (space s sp) = pageProt (space s n) \<and>
                 vflags (space s sp) = vflags (space s n)
              then (1, vm_kfree n (upd_space sp (\<lambda>k. k\<lparr>vend := vend (space s n), vnext := vnext (space s n)\<rparr>) s))
              else (merged, s)))"

partial_function (option) insert_loop :: "u32 \<Rightarrow> vm \<Rightarrow> nat option \<Rightarrow> nat option \<Rightarrow> (nat option \<times> nat option) option" where
  "insert_loop e s prev p =
     (case p of None \<Rightarrow> Some (prev, p)
      | Some a \<Rightarrow> if vstart (space s a) \<ge> e then Some (prev, p)
                  else insert_loop e s p (vnext (space s a)))"

definition InsertVMSpace :: "nat \<Rightarrow> nat \<Rightarrow> vm \<Rightarrow> (int \<times> vm) option" where
  "InsertVMSpace m sp s =
     do { (prev, p) \<leftarrow> insert_loop (vend (space s sp)) s None (spaceMap (mms s m));
          let s = upd_space sp (\<lambda>k. k\<lparr>vnext := p\<rparr>) s;
          let s = (case prev of Some a \<Rightarrow> upd_space a (\<lambda>k. k\<lparr>vnext := Some sp\<rparr>) s
                   | None \<Rightarrow> upd_mm m (\<lambda>k. k\<lparr>spaceMap := Some sp\<rparr>) s);
          Some (0, s) }"

definition RemoveVMSpace :: "nat \<Rightarrow> nat \<Rightarrow> nat option \<Rightarrow> vm \<Rightarrow> vm" where
  "RemoveVMSpace m sp prev s =
     vm_kfree sp (case prev of Some a \<Rightarrow> upd_space a (\<lambda>k. k\<lparr>vnext := vnext (space s sp)\<rparr>) s
        | None \<Rightarrow> upd_mm m (\<lambda>k. k\<lparr>spaceMap := vnext (space s sp)\<rparr>) s)"

text \<open>The results are 32-bit words: -1 and -2 are errors.\<close>

definition DoMmap :: "nat \<Rightarrow> u32 \<Rightarrow> u32 \<Rightarrow> u32 \<Rightarrow> u32 \<Rightarrow> nat option \<Rightarrow> vm \<Rightarrow> (u32 \<times> vm) option" where
  "DoMmap m addr len prot flags k s =
     (let len = PAGE_ALIGN len in
      if len = 0 then Some (-1, s)
      else if len > USER_VM_SIZE \<or> addr > USER_VM_SIZE \<or> addr > USER_VM_SIZE - len then Some (-1, s)
      else do {
        addr \<leftarrow>
          (if flags AND MAP_FIXED \<noteq> 0 then
             (if addr AND NOT PAGE_MASK \<noteq> 0 then Some (-1)
              else do { p \<leftarrow> FindVMSpace m addr s;
                        Some (case p of None \<Rightarrow> addr
                              | Some a \<Rightarrow> if addr + len > vstart (space s a) then -1 else addr) })
           else GetUnmappedVMSpace m len s);
        (if addr = -1 then Some (-1, s)
         else (case k of None \<Rightarrow> Some (-1, s)
           | Some sp \<Rightarrow> do {
               let s = upd_space sp (\<lambda>v. v\<lparr>vstart := addr, vend := addr + len, vflags := flags, pageProt := prot\<rparr>)
                 (vm_kmalloc sp s);
               (r, s) \<leftarrow> InsertVMSpace m sp s;
               Some (if r \<noteq> 0 then -1 else addr, s) })) })"

definition DoMunmap :: "nat \<Rightarrow> u32 \<Rightarrow> u32 \<Rightarrow> nat option \<Rightarrow> vm \<Rightarrow> (u32 \<times> vm) option" where
  "DoMunmap m addr len k s =
     (if addr AND NOT PAGE_MASK \<noteq> 0 \<or> addr > USER_VM_SIZE \<or> len > USER_VM_SIZE - addr then Some (-1, s)
      else let len = PAGE_ALIGN len in
      if len = 0 then Some (-1, s)
      else do {
        let prev = None;
        f \<leftarrow> FindVMSpacePrev m addr prev s;
        (case f of None \<Rightarrow> Some (-1, s)
         | Some sp \<Rightarrow>
             if addr < vstart (space s sp) \<or> addr + len > vend (space s sp) then Some (-2, s)
             else (case k of None \<Rightarrow> Some (-1, s)
               | Some new \<Rightarrow> do {
                   let s = vm_kmalloc new s;
                   let s = upd_space new (\<lambda>v. v\<lparr>vstart := addr + len, vend := vend (space s sp)\<rparr>) s;
                   let s = upd_space sp (\<lambda>v. v\<lparr>vend := addr\<rparr>) s;
                   let s = upd_space new (\<lambda>v. v\<lparr>vnext := vnext (space s sp)\<rparr>) s;
                   let s = upd_space sp (\<lambda>v. v\<lparr>vnext := Some new\<rparr>) s;
                   let (left, s) = (if vstart (space s sp) = vend (space s sp)
                      then (prev, RemoveVMSpace m sp prev s) else (Some sp, s));
                   let s = (if vstart (space s new) = vend (space s new) then RemoveVMSpace m new left s else s);
                   Some (0, s) })) })"

definition InitMemoryManager :: "nat \<Rightarrow> vm \<Rightarrow> vm" where
  "InitMemoryManager m = upd_mm m (\<lambda>k. k\<lparr>spaceMap := None\<rparr>)"

text \<open>Which spaces \<open>MemoryManagerRelease\<close> unmaps.\<close>

definition releases :: "u32 \<Rightarrow> u32 \<Rightarrow> bool" where
  "releases flags f \<longleftrightarrow> (flags AND VMS_STACK \<noteq> 0 \<and> f AND VMS_STACK \<noteq> 0) \<or>
     (flags AND VMS_HEAP \<noteq> 0 \<and> f AND VMS_HEAP \<noteq> 0) \<or>
     (flags AND VMS_RESOURCE \<noteq> 0 \<and> \<not> (f AND VMS_STACK \<noteq> 0 \<and> f AND VMS_HEAP \<noteq> 0))"

partial_function (option) release_pages_loop :: "u32 \<Rightarrow> vm \<Rightarrow> nat option \<Rightarrow> vm option" where
  "release_pages_loop flags s p =
     (case p of None \<Rightarrow> Some s
      | Some a \<Rightarrow>
          let v = space s a;
              s = (if releases flags (vflags v) then s\<lparr>unmapped := unmapped s @ [(vstart v, vend v - vstart v)]\<rparr> else s)
          in release_pages_loop flags s (vnext v))"

partial_function (option) free_spaces_loop :: "vm \<Rightarrow> nat option \<Rightarrow> vm option" where
  "free_spaces_loop s p =
     (case p of None \<Rightarrow> Some s
      | Some a \<Rightarrow> free_spaces_loop (vm_kfree a s) (vnext (space s a)))"

definition MemoryManagerRelease :: "nat \<Rightarrow> u32 \<Rightarrow> vm \<Rightarrow> vm option" where
  "MemoryManagerRelease m flags s =
     do { s \<leftarrow> release_pages_loop flags s (spaceMap (mms s m));
          s \<leftarrow> free_spaces_loop s (spaceMap (mms s m));
          Some (upd_mm m (\<lambda>k. k\<lparr>spaceMap := None\<rparr>) s) }"

section \<open>The heap\<close>

text \<open>\<open>DoBrk\<close> may allocate twice: in \<open>DoMunmap\<close> (\<open>k1\<close>) and for the new space (\<open>k2\<close>).\<close>

definition DoBrk :: "nat \<Rightarrow> u32 \<Rightarrow> u32 \<Rightarrow> nat option \<Rightarrow> nat option \<Rightarrow> vm \<Rightarrow> (u32 \<times> vm) option" where
  "DoBrk m addr len k1 k2 s =
     (let len = PAGE_ALIGN len in
      if len = 0 then Some (addr, s)
      else do {
        (ret, s) \<leftarrow> DoMunmap m addr len k1 s;
        (if ret = -1 then Some (ret, s)
         else do {
           merge \<leftarrow> (if addr \<noteq> 0 then do { f \<leftarrow> FindVMSpace m (addr - 1) s;
                        Some (case f of None \<Rightarrow> None
                              | Some a \<Rightarrow> if vend (space s a) = addr \<and> vflags (space s a) = VMS_HEAP then Some a else None) }
                      else Some None);
           (case merge of Some a \<Rightarrow> Some (addr, upd_space a (\<lambda>v. v\<lparr>vend := addr + len\<rparr>) s)
            | None \<Rightarrow>
                (case k2 of None \<Rightarrow> Some (-1, s)
                 | Some sp \<Rightarrow> do {
                     (r, s) \<leftarrow> InsertVMSpace m sp (upd_space sp (\<lambda>_. \<lparr>vstart = addr, vend = addr + len,
                        pageProt = PROT_READ OR PROT_WRITE OR PROT_EXEC, vflags = VMS_HEAP, vnext = None\<rparr>) (vm_kmalloc sp s));
                     Some (addr, s) })) }) })"

definition SetBrk :: "nat \<Rightarrow> u32 \<Rightarrow> vm \<Rightarrow> u32 \<times> vm" where
  "SetBrk m b s = (b, upd_mm m (\<lambda>k. k\<lparr>brk := b\<rparr>) s)"

definition SysBrk :: "nat \<Rightarrow> u32 \<Rightarrow> nat option \<Rightarrow> nat option \<Rightarrow> vm \<Rightarrow> (u32 \<times> vm) option" where
  "SysBrk m b k1 k2 s =
     (let M = mms s m in
      if b < brkStart M then Some (brk M, s)
      else let newBrk = PAGE_ALIGN b; oldBrk = PAGE_ALIGN (brk M) in
      if newBrk = oldBrk then Some (SetBrk m b s)
      else if b \<le> brk M then
        do { (r, s) \<leftarrow> DoMunmap m newBrk (oldBrk - newBrk) k1 s;
             (if r = 0 then Some (SetBrk m b s) else Some (brk (mms s m), s)) }
      else if b > brkStart M + MAX_VMS_HEAP_SIZE then Some (brk M, s)
      else do { i \<leftarrow> FindVMSpaceIntersection m oldBrk (newBrk + PAGE_SIZE) s;
        (if i \<noteq> None then Some (brk M, s)
         else do { (r, s) \<leftarrow> DoBrk m oldBrk (newBrk - oldBrk) k1 k2 s;
                   (if r \<noteq> oldBrk then Some (brk (mms s m), s) else Some (SetBrk m b s)) }) })"

section \<open>Fork\<close>

text \<open>\<open>CopyVMSpace\<close>, with the results of \<open>kmalloc\<close> in a list; it is -1 when the list ends.\<close>

fun copy_loop :: "nat list \<Rightarrow> nat \<Rightarrow> nat option \<Rightarrow> nat option \<Rightarrow> vm \<Rightarrow> int \<times> vm" where
  "copy_loop ks child tail None s = (0, s)"
| "copy_loop [] child tail (Some p) s = (-1, s)"
| "copy_loop (sp # ks) child tail (Some p) s =
     (let s = vm_kmalloc sp s;
          s = upd_space sp (\<lambda>_. (space s p)\<lparr>vnext := None\<rparr>) s;
          s = (case tail of None \<Rightarrow> upd_mm child (\<lambda>k. k\<lparr>spaceMap := Some sp\<rparr>) s
               | Some t \<Rightarrow> upd_space t (\<lambda>k. k\<lparr>vnext := Some sp\<rparr>) s)
      in copy_loop ks child (Some sp) (vnext (space s p)) s)"

definition CopyVMSpace :: "nat list \<Rightarrow> nat \<Rightarrow> nat \<Rightarrow> vm \<Rightarrow> int \<times> vm" where
  "CopyVMSpace ks child parent s = copy_loop ks child None (spaceMap (mms s parent)) s"

end
