(* ===== verification/VMProofs.thy ===== *)
theory VMProofs
  imports VMSpace
begin

text \<open>
  What the address space code guarantees. A list of spaces is read as its list of regions
  (start, end, protection, flags); \<open>apart\<close> regions are non-empty, in ascending order and do not
  overlap. The theorems give the region list after each call.
\<close>

section \<open>Region lists\<close>

type_synonym region = "u32 \<times> u32 \<times> u32 \<times> u32"

definition region :: "vm \<Rightarrow> nat \<Rightarrow> region" where
  "region s a = (vstart (space s a), vend (space s a), pageProt (space s a), vflags (space s a))"

definition apart :: "region list \<Rightarrow> bool" where
  "apart rs \<longleftrightarrow> (\<forall>r\<in>set rs. fst r < fst (snd r)) \<and> sorted_wrt (\<lambda>r r'. fst (snd r) \<le> fst r') rs"

definition spaces :: "vm \<Rightarrow> nat \<Rightarrow> nat list \<Rightarrow> bool" where
  "spaces s m xs \<longleftrightarrow> seg (\<lambda>a. vnext (space s a)) (spaceMap (mms s m)) xs None \<and> set xs \<subseteq> live s"

lemma region_sel [simp]: "fst (region s a) = vstart (space s a)" "fst (snd (region s a)) = vend (space s a)"
  by (simp_all add: region_def)

lemma spaces_distinct: "spaces s m xs \<Longrightarrow> distinct xs"
  unfolding spaces_def by (blast dest: seg_distinct)

lemma apart_append: "apart (rs @ rs') \<longleftrightarrow> apart rs \<and> apart rs' \<and> (\<forall>r\<in>set rs. \<forall>r'\<in>set rs'. fst (snd r) \<le> fst r')"
  by (auto simp: apart_def sorted_wrt_append)

lemma apart_Cons: "apart (r # rs) \<longleftrightarrow> fst r < fst (snd r) \<and> (\<forall>r'\<in>set rs. fst (snd r) \<le> fst r') \<and> apart rs"
  by (auto simp: apart_def)

lemma apart_each: "apart (map (region s) xs) \<Longrightarrow> a \<in> set xs \<Longrightarrow> vstart (space s a) < vend (space s a)"
  by (force simp: apart_def)

lemma upd_space_sel [simp]: "space (upd_space a f s) = (space s)(a := f (space s a))" "live (upd_space a f s) = live s"
  "mms (upd_space a f s) = mms s" "unmapped (upd_space a f s) = unmapped s"
  by (simp_all add: upd_space_def)

lemma upd_mm_sel [simp]: "space (upd_mm m f s) = space s" "live (upd_mm m f s) = live s"
  "mms (upd_mm m f s) = (mms s)(m := f (mms s m))" "unmapped (upd_mm m f s) = unmapped s"
  by (simp_all add: upd_mm_def)

lemma vm_alloc_sel [simp]: "space (vm_kmalloc a s) = space s" "live (vm_kmalloc a s) = insert a (live s)"
  "mms (vm_kmalloc a s) = mms s" "space (vm_kfree a s) = space s" "live (vm_kfree a s) = live s - {a}"
  "mms (vm_kfree a s) = mms s" "unmapped (vm_kmalloc a s) = unmapped s" "unmapped (vm_kfree a s) = unmapped s"
  by (simp_all add: vm_kmalloc_def vm_kfree_def)

section \<open>Searching\<close>

lemma find_space_seg: "seg (\<lambda>a. vnext (space s a)) p xs None \<Longrightarrow>
    find_space_loop addr s p = Some (List.find (\<lambda>a. addr < vend (space s a)) xs)"
proof (induction xs arbitrary: p)
  case Nil
  then show ?case by (subst find_space_loop.simps) simp
next
  case (Cons x xs)
  then show ?case by (subst find_space_loop.simps) simp
qed

lemma FindVMSpace_ok: "spaces s m xs \<Longrightarrow> FindVMSpace m addr s = Some (List.find (\<lambda>a. addr < vend (space s a)) xs)"
  by (simp add: FindVMSpace_def spaces_def find_space_seg)

lemma find_prev_seg: "seg (\<lambda>a. vnext (space s a)) p xs None \<Longrightarrow>
    map_option fst (find_prev_loop addr s q p) = Some (List.find (\<lambda>a. addr < vend (space s a)) xs)"
proof (induction xs arbitrary: p q)
  case Nil
  then show ?case by (subst find_prev_loop.simps) simp
next
  case (Cons x xs)
  then show ?case by (subst find_prev_loop.simps) simp
qed

lemma FindVMSpacePrev_ok: "spaces s m xs \<Longrightarrow>
    FindVMSpacePrev m addr q s = Some (List.find (\<lambda>a. addr < vend (space s a)) xs)"
  unfolding FindVMSpacePrev_def spaces_def by (rule find_prev_seg) blast

lemma find_split:
  "List.find P xs = Some x \<Longrightarrow> \<exists>l1 l2. xs = l1 @ x # l2 \<and> (\<forall>a\<in>set l1. \<not> P a) \<and> P x"
  by (induction xs) (auto split: if_splits intro: exI [of _ "[]"], metis append_Cons set_ConsD)

fun gap_search :: "u32 \<Rightarrow> vm \<Rightarrow> u32 \<Rightarrow> nat list \<Rightarrow> u32" where
  "gap_search len s addr [] = addr"
| "gap_search len s addr (a # l) =
     (if USER_VM_SIZE - len < addr then -1 else if addr + len \<le> vstart (space s a) then addr
      else gap_search len s (vend (space s a)) l)"

lemma unmapped_seg: "seg (\<lambda>a. vnext (space s a)) p xs None \<Longrightarrow> unmapped_loop len s (addr, p) = Some (gap_search len s addr xs)"
proof (induction xs arbitrary: p addr)
  case Nil
  then show ?case by (subst unmapped_loop.simps) simp
next
  case (Cons x xs)
  then show ?case by (subst unmapped_loop.simps) simp
qed

text \<open>A found gap lies after some regions, before all others, and starts inside user space.\<close>

definition fits :: "vm \<Rightarrow> u32 \<Rightarrow> u32 \<Rightarrow> nat list \<Rightarrow> nat list \<Rightarrow> bool" where
  "fits s r len l1 l2 \<longleftrightarrow> (\<forall>a\<in>set l1. vend (space s a) \<le> r) \<and> (\<forall>a\<in>set l2. r + len \<le> vstart (space s a))"

lemma gap_search_ok:
  assumes "apart (map (region s) (l1 @ l2))" "\<forall>a\<in>set l1. vend (space s a) \<le> addr"
    "\<forall>a\<in>set (l1 @ l2). vend (space s a) \<le> USER_VM_SIZE" "addr \<le> USER_VM_SIZE" "gap_search len s addr l2 \<noteq> -1"
  shows "gap_search len s addr l2 \<le> USER_VM_SIZE \<and>
    (\<exists>k1 k2. l1 @ l2 = k1 @ k2 \<and> fits s (gap_search len s addr l2) len k1 k2)"
  using assms
proof (induction l2 arbitrary: l1 addr)
  case Nil
  then have "fits s addr len l1 []" by (simp add: fits_def)
  with Nil.prems(4) show ?case by (intro conjI exI [of _ l1] exI [of _ "[]"]) simp_all
next
  case (Cons a l2)
  show ?case
  proof (cases "addr + len \<le> vstart (space s a)")
    case True
    have "vstart (space s a) \<le> vstart (space s b)" if "b \<in> set l2" for b
      using Cons.prems(1) that by (fastforce simp: apart_append apart_Cons)
    then have "fits s addr len l1 (a # l2)"
      using True Cons.prems(2) by (auto simp: fits_def intro: order_trans)
    then show ?thesis using True Cons.prems(4,5) by (auto split: if_splits)
  next
    case False
    have "\<forall>b\<in>set (l1 @ [a]). vend (space s b) \<le> vend (space s a)"
      using Cons.prems(1) by (fastforce simp: apart_append apart_Cons)
    with Cons.IH [of "l1 @ [a]" "vend (space s a)"] Cons.prems False show ?thesis by (auto split: if_splits)
  qed
qed

lemma GetUnmapped_ok:
  assumes "spaces s m xs" "apart (map (region s) xs)" "\<forall>a\<in>set xs. vend (space s a) \<le> USER_VM_SIZE"
  shows "\<exists>r. GetUnmappedVMSpace m len s = Some r \<and>
    (r \<noteq> -1 \<longrightarrow> r \<le> USER_VM_SIZE \<and> (\<exists>l1 l2. xs = l1 @ l2 \<and> fits s r len l1 l2))"
proof -
  have base: "VMS_UNMAPPED_BASE \<le> USER_VM_SIZE" by (simp add: VMS_UNMAPPED_BASE_def USER_VM_SIZE_def)
  note chain = assms(1) [unfolded spaces_def, THEN conjunct1]
  show ?thesis
  proof (cases "List.find (\<lambda>a. VMS_UNMAPPED_BASE < vend (space s a)) xs")
    case None
    then have "GetUnmappedVMSpace m len s = Some VMS_UNMAPPED_BASE"
      using FindVMSpace_ok [OF assms(1)] by (simp add: GetUnmappedVMSpace_def unmapped_loop.simps)
    moreover have "fits s VMS_UNMAPPED_BASE len xs []"
      using None by (auto simp: fits_def find_None_iff linorder_not_less)
    ultimately show ?thesis using base
      by (intro exI [of _ VMS_UNMAPPED_BASE] conjI impI exI [of _ xs] exI [of _ "[]"]) simp_all
  next
    case (Some x)
    from find_split [OF this] obtain l1 l2 where
      l: "xs = l1 @ x # l2" "\<forall>a\<in>set l1. \<not> VMS_UNMAPPED_BASE < vend (space s a)" by blast
    have "seg (\<lambda>a. vnext (space s a)) (Some x) (x # l2) None" using chain l(1) by auto
    from unmapped_seg [OF this] have "GetUnmappedVMSpace m len s = Some (gap_search len s VMS_UNMAPPED_BASE (x # l2))"
      using FindVMSpace_ok [OF assms(1)] Some by (simp add: GetUnmappedVMSpace_def del: gap_search.simps)
    moreover have lo: "\<forall>a\<in>set l1. vend (space s a) \<le> VMS_UNMAPPED_BASE" using l(2) by (simp add: linorder_not_less)
    have ap: "apart (map (region s) (l1 @ x # l2))" "\<forall>a\<in>set (l1 @ x # l2). vend (space s a) \<le> USER_VM_SIZE"
      using assms(2,3) unfolding l(1) .
    note gap_search_ok [OF ap(1) lo ap(2) base, of len, folded l(1)]
    ultimately show ?thesis by metis
  qed
qed

section \<open>Inserting\<close>

definition last_opt :: "'a option \<Rightarrow> 'a list \<Rightarrow> 'a option" where
  "last_opt q l = (if l = [] then q else Some (last l))"

lemma insert_seg:
  assumes "seg (\<lambda>a. vnext (space s a)) p (l1 @ l2) None" "\<forall>a\<in>set l1. vstart (space s a) < e"
    "\<forall>a\<in>set l2. e \<le> vstart (space s a)"
  shows "insert_loop e s q p = Some (last_opt q l1, case l2 of [] \<Rightarrow> None | a # _ \<Rightarrow> Some a)"
  using assms
proof (induction l1 arbitrary: p q)
  case Nil
  then show ?case by (cases l2; subst insert_loop.simps) (auto simp: last_opt_def)
next
  case (Cons x l1)
  from Cons.IH [of "vnext (space s x)" "Some x"] Cons.prems show ?case
    by (subst insert_loop.simps) (auto simp: last_opt_def)
qed

lemma seg_split_last: "seg nx p (l @ [x]) q \<longleftrightarrow> (\<exists>r. seg nx p l r \<and> r = Some x \<and> nx x = q)"
  by auto

text \<open>Inserting a node that stands outside the list puts it where its end says.\<close>

lemma InsertVMSpace_ok:
  assumes "spaces s m (l1 @ l2)" "sp \<notin> set (l1 @ l2)" "sp \<in> live s"
    "\<forall>a\<in>set l1. vstart (space s a) < vend (space s sp)" "\<forall>a\<in>set l2. vend (space s sp) \<le> vstart (space s a)"
  shows "\<exists>s'. InsertVMSpace m sp s = Some (0, s') \<and> spaces s' m (l1 @ sp # l2) \<and> live s' = live s \<and>
    unmapped s' = unmapped s \<and> (\<forall>a. region s' a = region s a) \<and> (\<forall>k. k \<noteq> m \<longrightarrow> mms s' k = mms s k) \<and>
    mms s' m = (mms s m)\<lparr>spaceMap := spaceMap (mms s' m)\<rparr>"
proof -
  note chain = assms(1) [unfolded spaces_def, THEN conjunct1]
  let ?p = "case l2 of [] \<Rightarrow> None | a # _ \<Rightarrow> Some a"
  note ins = insert_seg [OF chain assms(4,5), of None]
  have l2: "seg (\<lambda>a. vnext (space s a)) ?p l2 None" using chain seg_hd by fastforce
  show ?thesis
  proof (cases l1 rule: rev_cases)
    case Nil
    let ?s = "upd_mm m (\<lambda>k. k\<lparr>spaceMap := Some sp\<rparr>) (upd_space sp (\<lambda>k. k\<lparr>vnext := ?p\<rparr>) s)"
    have "InsertVMSpace m sp s = Some (0, ?s)" using ins Nil by (simp add: InsertVMSpace_def last_opt_def)
    moreover have "seg (\<lambda>a. vnext (if a = sp then space s sp\<lparr>vnext := ?p\<rparr> else space s a)) ?p l2 None"
      using l2 assms(2) by (subst seg_cong [where nx' = "\<lambda>a. vnext (space s a)"]) auto
    ultimately show ?thesis using Nil assms(1,3)
      by (intro exI [of _ ?s]) (auto simp: spaces_def region_def)
  next
    case (snoc k a)
    let ?s = "upd_space a (\<lambda>k. k\<lparr>vnext := Some sp\<rparr>) (upd_space sp (\<lambda>k. k\<lparr>vnext := ?p\<rparr>) s)"
    let ?n = "\<lambda>b. vnext (space ?s b)"
    have d: "distinct (l1 @ l2)" by (rule spaces_distinct [OF assms(1)])
    have "InsertVMSpace m sp s = Some (0, ?s)" using ins snoc by (simp add: InsertVMSpace_def last_opt_def)
    moreover have "seg ?n (spaceMap (mms s m)) k (Some a)"
      using chain snoc d assms(2) by (subst seg_cong [where nx' = "\<lambda>a. vnext (space s a)"]) auto
    moreover have "seg ?n ?p l2 None"
      using l2 snoc d assms(2) by (subst seg_cong [where nx' = "\<lambda>a. vnext (space s a)"]) auto
    moreover have "?n a = Some sp" "?n sp = ?p" using snoc assms(2) by auto
    ultimately show ?thesis using snoc assms(1,3)
      by (intro exI [of _ ?s]) (auto simp: spaces_def region_def)
  qed
qed

section \<open>Mapping\<close>

lemma fixed_ok:
  assumes "spaces s m xs" "apart (map (region s) xs)"
  shows "\<exists>p. FindVMSpace m addr s = Some p \<and>
    (case p of None \<Rightarrow> fits s addr len xs []
     | Some a \<Rightarrow> \<not> addr + len > vstart (space s a) \<longrightarrow> (\<exists>l1 l2. xs = l1 @ l2 \<and> fits s addr len l1 l2))"
proof (cases "List.find (\<lambda>a. addr < vend (space s a)) xs")
  case None
  then have "\<forall>a\<in>set xs. vend (space s a) \<le> addr" by (simp add: find_None_iff linorder_not_less)
  with None show ?thesis using FindVMSpace_ok [OF assms(1)] by (simp add: fits_def)
next
  case (Some x)
  from find_split [OF this] obtain l1 l2 where
    l: "xs = l1 @ x # l2" "\<forall>a\<in>set l1. vend (space s a) \<le> addr" by (auto simp: linorder_not_less)
  have "vstart (space s x) \<le> vstart (space s b)" if "b \<in> set l2" for b
    using assms(2) that unfolding l(1) by (fastforce simp: apart_append apart_Cons)
  then have "fits s addr len l1 (x # l2)" if "\<not> addr + len > vstart (space s x)"
    using that l(2) by (auto simp: fits_def linorder_not_less intro: order_trans)
  with l(1) Some show ?thesis using FindVMSpace_ok [OF assms(1)] by auto
qed

text \<open>The end of the new space does not wrap around.\<close>

lemma end_above: "r \<le> USER_VM_SIZE \<Longrightarrow> 0 < l \<Longrightarrow> l < USER_VM_SIZE \<Longrightarrow> r < r + l"
proof -
  assume a: "r \<le> USER_VM_SIZE" "0 < l" "l < USER_VM_SIZE"
  then have n: "unat r \<le> 2 ^ 31" "0 < unat l" "unat l < 2 ^ 31"
    by (simp_all add: word_le_nat_alt word_less_nat_alt USER_VM_SIZE_def)
  then have "unat (r + l) = unat r + unat l" by (intro unat_add_less) simp
  with n show ?thesis by (simp add: word_less_nat_alt)
qed

definition mmap_addr :: "nat \<Rightarrow> u32 \<Rightarrow> u32 \<Rightarrow> u32 \<Rightarrow> vm \<Rightarrow> u32 option" where
  "mmap_addr m addr len flags s =
     (if flags AND MAP_FIXED \<noteq> 0 then
        (if addr AND NOT PAGE_MASK \<noteq> 0 then Some (-1)
         else do { p \<leftarrow> FindVMSpace m addr s;
                   Some (case p of None \<Rightarrow> addr
                         | Some a \<Rightarrow> if addr + len > vstart (space s a) then -1 else addr) })
      else GetUnmappedVMSpace m len s)"

lemma mmap_addr_ok:
  assumes "spaces s m xs" "apart (map (region s) xs)" "\<forall>a\<in>set xs. vend (space s a) \<le> USER_VM_SIZE" "addr \<le> USER_VM_SIZE"
  shows "\<exists>r. mmap_addr m addr len flags s = Some r \<and> (r \<noteq> -1 \<longrightarrow> r \<le> USER_VM_SIZE \<and>
    (flags AND MAP_FIXED \<noteq> 0 \<longrightarrow> r = addr) \<and> (\<exists>l1 l2. xs = l1 @ l2 \<and> fits s r len l1 l2))"
proof (cases "flags AND MAP_FIXED = 0")
  case True
  with GetUnmapped_ok [OF assms(1-3)] show ?thesis by (simp add: mmap_addr_def)
next
  case False
  from fixed_ok [OF assms(1,2)] obtain p where
    p: "FindVMSpace m addr s = Some p"
      "case p of None \<Rightarrow> fits s addr len xs []
        | Some a \<Rightarrow> \<not> addr + len > vstart (space s a) \<longrightarrow> (\<exists>l1 l2. xs = l1 @ l2 \<and> fits s addr len l1 l2)" by blast
  show ?thesis
  proof (cases p)
    case None
    with p False assms(4) show ?thesis
      by (cases "addr AND NOT PAGE_MASK = 0") (auto simp: mmap_addr_def intro: exI [of _ xs] exI [of _ "[]"])
  next
    case (Some a)
    with p False assms(4) show ?thesis
      by (cases "addr AND NOT PAGE_MASK = 0"; cases "addr + len > vstart (space s a)") (auto simp: mmap_addr_def)
  qed
qed

lemma DoMmap_eq: "DoMmap m addr len prot flags k s =
     (let len = PAGE_ALIGN len in
      if len = 0 \<or> len > USER_VM_SIZE \<or> addr > USER_VM_SIZE \<or> addr > USER_VM_SIZE - len then Some (-1, s)
      else do { addr \<leftarrow> mmap_addr m addr len flags s;
        (if addr = -1 then Some (-1, s)
         else (case k of None \<Rightarrow> Some (-1, s)
           | Some sp \<Rightarrow> do {
               let s = upd_space sp (\<lambda>v. v\<lparr>vstart := addr, vend := addr + len, vflags := flags, pageProt := prot\<rparr>)
                 (vm_kmalloc sp s);
               (r, s) \<leftarrow> InsertVMSpace m sp s;
               Some (if r \<noteq> 0 then -1 else addr, s) })) })"
  unfolding DoMmap_def mmap_addr_def Let_def by simp

lemma DoMmap_ok:
  assumes "spaces s m xs" "apart (map (region s) xs)" "\<forall>a\<in>set xs. vend (space s a) \<le> USER_VM_SIZE"
    "sp \<notin> live s" "PAGE_ALIGN len < USER_VM_SIZE"
  shows "\<exists>r s'. DoMmap m addr len prot flags (Some sp) s = Some (r, s') \<and>
    (if r = -1 then s' = s
     else r \<le> USER_VM_SIZE \<and> (flags AND MAP_FIXED \<noteq> 0 \<longrightarrow> r = addr \<and> addr \<le> USER_VM_SIZE - PAGE_ALIGN len) \<and> PAGE_ALIGN len \<noteq> 0 \<and>
       (\<exists>l1 l2. xs = l1 @ l2 \<and> fits s r (PAGE_ALIGN len) l1 l2 \<and> spaces s' m (l1 @ sp # l2) \<and>
       map (region s') (l1 @ sp # l2) = map (region s) l1 @ (r, r + PAGE_ALIGN len, prot, flags) # map (region s) l2))"
proof (cases "PAGE_ALIGN len = 0 \<or> addr > USER_VM_SIZE \<or> addr > USER_VM_SIZE - PAGE_ALIGN len")
  case True
  then have "DoMmap m addr len prot flags (Some sp) s = Some (-1, s)" by (auto simp: DoMmap_eq Let_def)
  then show ?thesis by simp
next
  case False
  then have ok: "PAGE_ALIGN len \<noteq> 0" "addr \<le> USER_VM_SIZE" "addr \<le> USER_VM_SIZE - PAGE_ALIGN len" "\<not> USER_VM_SIZE < PAGE_ALIGN len"
    using assms(5) by auto
  from mmap_addr_ok [OF assms(1-3) ok(2), of "PAGE_ALIGN len" flags] obtain r where
    r: "mmap_addr m addr (PAGE_ALIGN len) flags s = Some r"
      "r \<noteq> -1 \<longrightarrow> r \<le> USER_VM_SIZE \<and> (flags AND MAP_FIXED \<noteq> 0 \<longrightarrow> r = addr) \<and>
         (\<exists>l1 l2. xs = l1 @ l2 \<and> fits s r (PAGE_ALIGN len) l1 l2)" by blast
  show ?thesis
  proof (cases "r = -1")
    case True
    then have "DoMmap m addr len prot flags (Some sp) s = Some (-1, s)"
      using ok r(1) by (simp add: DoMmap_eq Let_def linorder_not_less)
    then show ?thesis by simp
  next
    case good: False
    with r(2) obtain l1 l2 where l: "xs = l1 @ l2" "fits s r (PAGE_ALIGN len) l1 l2" and rl: "r \<le> USER_VM_SIZE"
      and fx: "flags AND MAP_FIXED \<noteq> 0 \<longrightarrow> r = addr" by blast
    define s1 where "s1 = upd_space sp (\<lambda>v. v\<lparr>vstart := r, vend := r + PAGE_ALIGN len, vflags := flags, pageProt := prot\<rparr>)
                 (vm_kmalloc sp s)"
    have new: "sp \<notin> set (l1 @ l2)" using assms(1,4) l(1) by (auto simp: spaces_def)
    have same: "region s1 a = region s a" "vend (space s1 a) = vend (space s a)" "vstart (space s1 a) = vstart (space s a)"
      if "a \<in> set (l1 @ l2)" for a
      using that new by (auto simp: s1_def region_def)
    have sp: "region s1 sp = (r, r + PAGE_ALIGN len, prot, flags)" "vend (space s1 sp) = r + PAGE_ALIGN len"
      by (simp_all add: s1_def region_def)
    have "spaces s1 m (l1 @ l2)"
      using assms(1) new unfolding spaces_def l(1) s1_def by (subst seg_cong [where nx' = "\<lambda>a. vnext (space s a)"]) auto
    moreover have "\<forall>a\<in>set l1. vstart (space s1 a) < vend (space s1 sp)"
    proof
      fix a assume a: "a \<in> set l1"
      have "vstart (space s a) < vend (space s a)" using apart_each [OF assms(2)] a l(1) by simp
      also have "\<dots> \<le> r" using l(2) a by (simp add: fits_def)
      also have "\<dots> < r + PAGE_ALIGN len" using rl ok(1) assms(5) by (intro end_above) (simp_all add: word_neq_0_conv)
      finally show "vstart (space s1 a) < vend (space s1 sp)" using same a sp by simp
    qed
    moreover have "\<forall>a\<in>set l2. vend (space s1 sp) \<le> vstart (space s1 a)" using l(2) same sp by (simp add: fits_def)
    moreover have "sp \<in> live s1" by (simp add: s1_def)
    ultimately obtain s2 where
      s2: "InsertVMSpace m sp s1 = Some (0, s2)" "spaces s2 m (l1 @ sp # l2)" "\<forall>a. region s2 a = region s1 a"
      using InsertVMSpace_ok [OF _ new, of s1 m] by blast
    have "DoMmap m addr len prot flags (Some sp) s = Some (r, s2)"
      using ok r(1) good s2(1) by (simp add: DoMmap_eq Let_def s1_def linorder_not_less)
    moreover have "map (region s2) (l1 @ sp # l2) = map (region s) l1 @ (r, r + PAGE_ALIGN len, prot, flags) # map (region s) l2"
      using s2(3) same sp by auto
    ultimately show ?thesis using good rl fx l s2(2) ok(1,3) by (intro exI [of _ r] exI [of _ s2]) auto
  qed
qed

section \<open>Unmapping\<close>

text \<open>What is left of the list when \<open>[a, e)\<close> is unmapped from space \<open>r\<close> between \<open>before\<close> and
  \<open>after\<close>: with \<open>a\<close> at the start of the space, the spaces before it are lost.\<close>

definition munmap_result :: "u32 \<Rightarrow> u32 \<Rightarrow> region list \<Rightarrow> region \<Rightarrow> u32 \<times> u32 \<Rightarrow> region list \<Rightarrow> region list" where
  "munmap_result a e before r junk after =
     (if a = fst r then [] else before @ [(fst r, a, snd (snd r))]) @
     (if e = fst (snd r) then [] else [(e, fst (snd r), junk)]) @ after"

lemma rem_sel [simp]: "region (RemoveVMSpace m b None t) = region t" "space (RemoveVMSpace m b None t) = space t"
    "live (RemoveVMSpace m b None t) = live t - {b}"
    "mms (RemoveVMSpace m b None t) = (mms t)(m := (mms t m)\<lparr>spaceMap := vnext (space t b)\<rparr>)"
  by (simp_all add: RemoveVMSpace_def region_def fun_eq_iff)

lemma DoMunmap_ok:
  assumes "spaces s m (l1 @ x # l2)" "\<forall>b\<in>set l1. vend (space s b) \<le> a" "k \<notin> live s"
    "a AND NOT PAGE_MASK = 0" "a \<le> USER_VM_SIZE" "len \<le> USER_VM_SIZE - a" "PAGE_ALIGN len \<noteq> 0"
    "vstart (space s x) \<le> a" "a < vend (space s x)" "a + PAGE_ALIGN len \<le> vend (space s x)"
  shows "\<exists>s' xs'. DoMunmap m a len (Some k) s = Some (0, s') \<and> spaces s' m xs' \<and>
    map (region s') xs' = munmap_result a (a + PAGE_ALIGN len) (map (region s) l1) (region s x)
      (pageProt (space s k), vflags (space s k)) (map (region s) l2) \<and>
    (\<forall>j. mms s' j = (if j = m then (mms s m)\<lparr>spaceMap := spaceMap (mms s' m)\<rparr> else mms s j))"
proof -
  define e where "e = a + PAGE_ALIGN len"
  have find: "FindVMSpacePrev m a q s = Some (Some x)" for q
  proof -
    have "List.find (\<lambda>b. a < vend (space s b)) (l1 @ x # l2) = Some x"
      using assms(2,9) find_None_iff [of "\<lambda>b. a < vend (space s b)" l1] by (auto simp: find_append linorder_not_less)
    with FindVMSpacePrev_ok [OF assms(1)] show ?thesis by simp
  qed
  have d: "distinct (l1 @ x # l2)" by (rule spaces_distinct [OF assms(1)])
  have new: "k \<notin> set (l1 @ x # l2)" using assms(1,3) by (auto simp: spaces_def)
  let ?p2 = "case l2 of [] \<Rightarrow> None | b # _ \<Rightarrow> Some b"
  have c: "seg (\<lambda>b. vnext (space s b)) (spaceMap (mms s m)) l1 (Some x)"
    "vnext (space s x) = ?p2" "seg (\<lambda>b. vnext (space s b)) ?p2 l2 None" "set (l1 @ x # l2) \<subseteq> live s"
    using assms(1) seg_hd [of "\<lambda>b. vnext (space s b)" "vnext (space s x)" l2] by (auto simp: spaces_def)
  define sx where "sx = (space s x)\<lparr>vend := a, vnext := Some k\<rparr>"
  define sk where "sk = (space s k)\<lparr>vstart := e, vend := vend (space s x), vnext := ?p2\<rparr>"
  define s4 where "s4 = s\<lparr>space := (space s)(k := sk, x := sx), live := insert k (live s)\<rparr>"
  have kx: "k \<noteq> x" using new by auto
  have s4: "upd_space x (vnext_update (\<lambda>_. Some k)) (upd_space k (vnext_update (\<lambda>_. vnext (space s x)))
      (upd_space x (vend_update (\<lambda>_. a)) (upd_space k (\<lambda>v. v\<lparr>vstart := e, vend := vend (space s x)\<rparr>) (vm_kmalloc k s)))) = s4"
    using kx c(2) by (simp add: s4_def sx_def sk_def upd_space_def vm_kmalloc_def fun_upd_twist)
  let ?left = "if vstart (space s x) = a then None else Some x"
  let ?s5 = "if vstart (space s x) = a then RemoveVMSpace m x None s4 else s4"
  have run: "DoMunmap m a len (Some k) s = Some (0, if e = vend (space s x) then RemoveVMSpace m k ?left ?s5 else ?s5)"
    using assms(4-10) find kx
    unfolding DoMunmap_def Let_def e_def [symmetric]
    by (simp add: linorder_not_less s4 [symmetric])
  let ?n = "\<lambda>b. vnext (space s4 b)"
  have s4_sel: "space s4 x = sx" "space s4 k = sk" "mms s4 = mms s" "live s4 = insert k (live s)"
    "\<And>b. b \<noteq> x \<Longrightarrow> b \<noteq> k \<Longrightarrow> space s4 b = space s b" using kx by (simp_all add: s4_def)
  have n: "?n x = Some k" "?n k = ?p2" using s4_sel by (simp_all add: sx_def sk_def)
  have off: "space s4 b = space s b" if "b \<in> set l1 \<union> set l2" for b
    using that d new s4_sel(5) [of b] by auto
  have seg1: "seg ?n (spaceMap (mms s m)) l1 (Some x)"
    using c(1) off by (subst seg_cong [where nx' = "\<lambda>b. vnext (space s b)"]) auto
  have seg2: "seg ?n ?p2 l2 None"
    using c(3) off by (subst seg_cong [where nx' = "\<lambda>b. vnext (space s b)"]) auto
  have reg: "region s4 x = (vstart (space s x), a, snd (snd (region s x)))"
    "region s4 k = (e, vend (space s x), pageProt (space s k), vflags (space s k))"
    "map (region s4) l1 = map (region s) l1" "map (region s4) l2 = map (region s) l2"
    using s4_sel(1,2) off by (simp_all add: region_def sx_def sk_def)
  consider (all) "vstart (space s x) = a" "e = vend (space s x)" | (front) "vstart (space s x) = a" "e \<noteq> vend (space s x)"
    | (tail) "vstart (space s x) \<noteq> a" "e = vend (space s x)" | (mid) "vstart (space s x) \<noteq> a" "e \<noteq> vend (space s x)" by blast
  then show ?thesis
  proof cases
    case all
    let ?s = "RemoveVMSpace m k None (RemoveVMSpace m x None s4)"
    have "spaces ?s m l2" using seg2 n c(4) d new s4_sel by (auto simp: spaces_def rem_sel)
    moreover have "map (region ?s) l2 = munmap_result a e (map (region s) l1) (region s x)
        (pageProt (space s k), vflags (space s k)) (map (region s) l2)"
      using all reg by (simp add: munmap_result_def rem_sel)
    ultimately show ?thesis using run all s4_sel unfolding e_def [symmetric]
      by (intro exI [of _ ?s] exI [of _ l2]) (simp add: rem_sel)
  next
    case front
    let ?s = "RemoveVMSpace m x None s4"
    have "spaces ?s m (k # l2)" using seg2 n c(4) d new s4_sel by (auto simp: spaces_def rem_sel)
    moreover have "map (region ?s) (k # l2) = munmap_result a e (map (region s) l1) (region s x)
        (pageProt (space s k), vflags (space s k)) (map (region s) l2)"
      using front reg by (simp add: munmap_result_def rem_sel)
    ultimately show ?thesis using run front s4_sel unfolding e_def [symmetric]
      by (intro exI [of _ ?s] exI [of _ "k # l2"]) (simp add: rem_sel)
  next
    case tail
    let ?s = "RemoveVMSpace m k (Some x) s4"
    have sel: "space ?s = (space s4)(x := sx\<lparr>vnext := ?p2\<rparr>)" "live ?s = live s4 - {k}" "mms ?s = mms s4"
      using s4_sel n by (simp_all add: RemoveVMSpace_def)
    have "seg (\<lambda>b. vnext (space ?s b)) (spaceMap (mms s m)) l1 (Some x)"
      using seg1 d sel by (subst seg_cong [where nx' = ?n]) auto
    moreover have "seg (\<lambda>b. vnext (space ?s b)) ?p2 l2 None"
      using seg2 d sel by (subst seg_cong [where nx' = ?n]) auto
    ultimately have "spaces ?s m (l1 @ x # l2)"
      using c(4) new s4_sel sel by (auto simp: spaces_def)
    moreover have "map (region ?s) (l1 @ x # l2) = munmap_result a e (map (region s) l1) (region s x)
        (pageProt (space s k), vflags (space s k)) (map (region s) l2)"
      using tail reg d sel s4_sel by (auto simp: munmap_result_def region_def sx_def)
    ultimately show ?thesis using run tail s4_sel sel unfolding e_def [symmetric]
      by (intro exI [of _ ?s] exI [of _ "l1 @ x # l2"]) simp
  next
    case mid
    have "spaces s4 m (l1 @ x # k # l2)" using seg1 seg2 n c(4) s4_sel by (auto simp: spaces_def)
    moreover have "map (region s4) (l1 @ x # k # l2) = munmap_result a e (map (region s) l1) (region s x)
        (pageProt (space s k), vflags (space s k)) (map (region s) l2)"
      using mid reg by (simp add: munmap_result_def)
    ultimately show ?thesis using run mid s4_sel unfolding e_def [symmetric]
      by (intro exI [of _ s4] exI [of _ "l1 @ x # k # l2"]) simp
  qed
qed

section \<open>The heap\<close>

definition aligned :: "u32 \<Rightarrow> bool" where
  "aligned w \<longleftrightarrow> take_bit 12 w = 0"



lemma aligned_masked: "aligned (w AND PAGE_MASK)"
  by (simp add: aligned_def take_bit_eq_mask PAGE_MASK_def PAGE_SIZE_def mask_eq_exp_minus_1 and.assoc)

lemma PAGE_ALIGN_aligned [simp]: "aligned (PAGE_ALIGN w)"
  by (simp add: PAGE_ALIGN_def aligned_masked)










section \<open>Releasing and copying\<close>

definition pages :: "region \<Rightarrow> u32 \<times> u32" where
  "pages r = (fst r, fst (snd r) - fst r)"

lemma release_pages_seg: "seg (\<lambda>a. vnext (space s a)) p xs None \<Longrightarrow>
    release_pages_loop flags s p = Some (s\<lparr>unmapped := unmapped s @
      map pages (filter (\<lambda>r. releases flags (snd (snd (snd r)))) (map (region s) xs))\<rparr>)"
proof (induction xs arbitrary: p s)
  case Nil
  then show ?case by (subst release_pages_loop.simps) simp
next
  case (Cons x xs)
  let ?s = "if releases flags (vflags (space s x))
    then s\<lparr>unmapped := unmapped s @ [(vstart (space s x), vend (space s x) - vstart (space s x))]\<rparr> else s"
  have sel: "space ?s = space s" "region ?s = region s" by (auto simp: region_def fun_eq_iff)
  then have "seg (\<lambda>a. vnext (space ?s a)) (vnext (space s x)) xs None" using Cons.prems by simp
  note IH = Cons.IH [OF this, unfolded sel(2)]
  have "pages (region s x) = (vstart (space s x), vend (space s x) - vstart (space s x))"
    "snd (snd (snd (region s x))) = vflags (space s x)" by (simp_all add: pages_def region_def)
  with IH Cons.prems show ?case
    by (subst release_pages_loop.simps) (simp add: Let_def)
qed

lemma free_spaces_seg: "seg (\<lambda>a. vnext (space s a)) p xs None \<Longrightarrow>
    free_spaces_loop s p = Some (s\<lparr>live := live s - set xs\<rparr>)"
proof (induction xs arbitrary: p s)
  case Nil
  then show ?case by (subst free_spaces_loop.simps) simp
next
  case (Cons x xs)
  then have "seg (\<lambda>a. vnext (space (vm_kfree x s) a)) (vnext (space s x)) xs None" by simp
  from Cons.IH [OF this] Cons.prems show ?case
    by (subst free_spaces_loop.simps) (simp add: vm_kfree_def Diff_insert2 [symmetric])
qed

text \<open>Copying the rest \<open>xs\<close> of the parent's list behind the child's nodes \<open>ds\<close>.\<close>

lemma copy_loop_ok:
  assumes "seg (\<lambda>a. vnext (space s a)) (spaceMap (mms s child)) ds None" "set ds \<subseteq> live s"
    "seg (\<lambda>a. vnext (space s a)) p xs None" "set xs \<subseteq> live s" "set ds \<inter> set xs = {}"
    "length xs \<le> length ks" "distinct ks" "set ks \<inter> live s = {}"
  shows "\<exists>s'. copy_loop ks child (last_opt None ds) p s = (0, s') \<and> spaces s' child (ds @ take (length xs) ks) \<and>
    map (region s') (ds @ take (length xs) ks) = map (region s) (ds @ xs) \<and>
    (\<forall>a. a \<notin> set ds \<union> set ks \<longrightarrow> space s' a = space s a) \<and> (\<forall>j. j \<noteq> child \<longrightarrow> mms s' j = mms s j) \<and> live s \<subseteq> live s'"
  using assms
proof (induction xs arbitrary: p s ds ks)
  case Nil
  then show ?case by (auto simp: spaces_def)
next
  case (Cons x xs)
  from Cons.prems(6) obtain k kr where ks: "ks = k # kr" by (cases ks) auto
  have p: "p = Some x" and rest: "seg (\<lambda>a. vnext (space s a)) (vnext (space s x)) xs None" using Cons.prems(3) by auto
  have kf: "k \<notin> live s" "k \<notin> set ds" "k \<noteq> x" "k \<notin> set xs" "k \<notin> set kr" using Cons.prems ks by auto
  have dd: "distinct ds" "distinct (x # xs)" using seg_distinct Cons.prems(1,3) by blast+
  define s1 where "s1 = upd_space k (\<lambda>_. (space s x)\<lparr>vnext := None\<rparr>) (vm_kmalloc k s)"
  define s2 where "s2 = (case last_opt None ds of None \<Rightarrow> upd_mm child (\<lambda>m. m\<lparr>spaceMap := Some k\<rparr>) s1
               | Some t \<Rightarrow> upd_space t (\<lambda>v. v\<lparr>vnext := Some k\<rparr>) s1)"
  have run: "copy_loop ks child (last_opt None ds) p s = copy_loop kr child (last_opt None (ds @ [k])) (vnext (space s2 x)) s2"
    unfolding ks p using kf(3) by (simp add: Let_def s1_def s2_def last_opt_def)
  have lv: "live s2 = insert k (live s)" by (simp add: s2_def s1_def split: option.split)
  have other: "mms s2 j = mms s j" if "j \<noteq> child" for j using that by (simp add: s2_def s1_def split: option.split)
  have sp: "space s2 a = space s a" if "a \<noteq> k" "a \<notin> set ds" for a
    using that by (cases ds rule: rev_cases) (auto simp: s2_def s1_def last_opt_def)
  have reg: "region s2 a = region s a" if "a \<noteq> k" for a
    using that by (cases ds rule: rev_cases) (auto simp: s2_def s1_def last_opt_def region_def)
  have regk: "region s2 k = region s x" using kf
    by (cases ds rule: rev_cases) (auto simp: s2_def s1_def last_opt_def region_def)
  have dsx: "x \<notin> set ds" "set ds \<inter> set xs = {}" using Cons.prems(5) by auto
  have chain: "seg (\<lambda>a. vnext (space s2 a)) (spaceMap (mms s2 child)) (ds @ [k]) None"
  proof (cases ds rule: rev_cases)
    case Nil
    then show ?thesis by (simp add: s2_def s1_def last_opt_def)
  next
    case (snoc d t)
    have n: "vnext (space s2 t) = Some k" "vnext (space s2 k) = None" "spaceMap (mms s2 child) = spaceMap (mms s child)"
      using snoc kf by (auto simp: s2_def s1_def last_opt_def)
    have "vnext (space s2 a) = vnext (space s a)" if "a \<in> set d" for a
      using that snoc kf dd(1) by (auto simp: s2_def s1_def last_opt_def)
    then have "seg (\<lambda>a. vnext (space s2 a)) (spaceMap (mms s child)) d (Some t)"
      using Cons.prems(1) snoc by (subst seg_cong [where nx' = "\<lambda>a. vnext (space s a)"]) auto
    then show ?thesis using snoc n by simp
  qed
  have "seg (\<lambda>a. vnext (space s2 a)) (vnext (space s2 x)) xs None"
  proof (subst seg_cong [where nx' = "\<lambda>a. vnext (space s a)"])
    fix a assume "a \<in> set xs"
    then have "a \<noteq> k" "a \<notin> set ds" using kf(4) dsx(2) by auto
    then show "vnext (space s2 a) = vnext (space s a)" using sp by simp
  qed (use rest sp [of x] kf(3) dsx(1) in simp)
  note rest2 = this
  have side: "set (ds @ [k]) \<subseteq> live s2" "set xs \<subseteq> live s2" "set (ds @ [k]) \<inter> set xs = {}" "length xs \<le> length kr"
    "distinct kr" "set kr \<inter> live s2 = {}"
    using Cons.prems(2,4,6,7,8) kf lv dsx ks by auto
  from Cons.IH [OF chain side(1) rest2 side(2-6)] obtain s' where
    s': "copy_loop kr child (last_opt None (ds @ [k])) (vnext (space s2 x)) s2 = (0, s')"
      "spaces s' child ((ds @ [k]) @ take (length xs) kr)"
      "map (region s') ((ds @ [k]) @ take (length xs) kr) = map (region s2) ((ds @ [k]) @ xs)"
      "\<forall>a. a \<notin> set (ds @ [k]) \<union> set kr \<longrightarrow> space s' a = space s2 a" "\<forall>j. j \<noteq> child \<longrightarrow> mms s' j = mms s2 j" "live s2 \<subseteq> live s'"
    by blast
  have "region s2 a = region s a" if "a \<in> set ds \<union> set xs" for a by (rule reg) (use that kf in auto)
  then have "map (region s2) ((ds @ [k]) @ xs) = map (region s) (ds @ x # xs)" using regk by simp
  with run s' ks kf sp other lv show ?case by (intro exI [of _ s']) auto
qed

section \<open>Properties\<close>

text \<open>
  C11: \<open>DoMmap\<close> on a well-formed address space either fails and changes nothing, or maps one new
  region of the page-aligned length with the given protection and flags, in order and apart from
  all others; with \<open>MAP_FIXED\<close> it starts at the address asked for and ends inside user space.
\<close>

theorem mmap_maps_region:
  assumes "spaces s m xs" "apart (map (region s) xs)" "\<forall>a\<in>set xs. vend (space s a) \<le> USER_VM_SIZE"
    and "sp \<notin> live s" "PAGE_ALIGN len < USER_VM_SIZE"
  shows "\<exists>r s' xs'. DoMmap m addr len prot flags (Some sp) s = Some (r, s') \<and> spaces s' m xs' \<and>
    apart (map (region s') xs') \<and>
    (if r = -1 then s' = s
     else (flags AND MAP_FIXED \<noteq> 0 \<longrightarrow> r = addr \<and> addr \<le> USER_VM_SIZE - PAGE_ALIGN len) \<and>
       (\<exists>before after. map (region s) xs = before @ after \<and>
          map (region s') xs' = before @ (r, r + PAGE_ALIGN len, prot, flags) # after))"
proof -
  from DoMmap_ok [OF assms, of addr prot flags] obtain r s' where
    rs: "DoMmap m addr len prot flags (Some sp) s = Some (r, s')" and
    c: "if r = -1 then s' = s
     else r \<le> USER_VM_SIZE \<and> (flags AND MAP_FIXED \<noteq> 0 \<longrightarrow> r = addr \<and> addr \<le> USER_VM_SIZE - PAGE_ALIGN len) \<and> PAGE_ALIGN len \<noteq> 0 \<and>
       (\<exists>l1 l2. xs = l1 @ l2 \<and> fits s r (PAGE_ALIGN len) l1 l2 \<and> spaces s' m (l1 @ sp # l2) \<and>
       map (region s') (l1 @ sp # l2) = map (region s) l1 @ (r, r + PAGE_ALIGN len, prot, flags) # map (region s) l2)" by blast
  show ?thesis
  proof (cases "r = -1")
    case True
    with rs c assms(1,2) show ?thesis by (intro exI [of _ r] exI [of _ s] exI [of _ xs]) simp
  next
    case False
    with c obtain l1 l2 where l: "xs = l1 @ l2" "fits s r (PAGE_ALIGN len) l1 l2" "spaces s' m (l1 @ sp # l2)"
      "map (region s') (l1 @ sp # l2) = map (region s) l1 @ (r, r + PAGE_ALIGN len, prot, flags) # map (region s) l2"
      and r: "r \<le> USER_VM_SIZE" "PAGE_ALIGN len \<noteq> 0" by auto
    have "r < r + PAGE_ALIGN len" using r assms(5) by (intro end_above) (simp_all add: word_neq_0_conv)
    then have "apart (map (region s') (l1 @ sp # l2))"
      using assms(2) l(1,2) unfolding l(4) by (auto simp: apart_append apart_Cons fits_def intro: order_trans less_imp_le)
    moreover have "map (region s) xs = map (region s) l1 @ map (region s) l2" using l(1) by simp
    moreover have "flags AND MAP_FIXED \<noteq> 0 \<longrightarrow> r = addr \<and> addr \<le> USER_VM_SIZE - PAGE_ALIGN len" using c False by simp
    ultimately show ?thesis using False rs l(3,4)
      by (intro exI [of _ r] exI [of _ s'] exI [of _ "l1 @ sp # l2"]) (simp only: if_False, blast)
  qed
qed

text \<open>A small address space for the instances: the regions of a list, at the addresses 1, 2, ...\<close>

definition layout :: "region list \<Rightarrow> u32 \<Rightarrow> u32 \<Rightarrow> vm" where
  "layout rs b0 b = \<lparr>space = (\<lambda>a. if a \<le> length rs then (case rs ! (a - 1) of (st, e, p, f) \<Rightarrow>
        \<lparr>vstart = st, vend = e, pageProt = p, vflags = f, vnext = (if a < length rs then Some (Suc a) else None)\<rparr>)
      else \<lparr>vstart = 0, vend = 0, pageProt = 0, vflags = 0, vnext = None\<rparr>),
     live = {1..length rs},
     mms = (\<lambda>_. \<lparr>spaceMap = (if rs = [] then None else Some 1), codeStart = 0, codeEnd = 0, dataStart = 0, dataEnd = 0,
       brkStart = b0, brk = b, stackStart = 0, argStart = 0, argEnd = 0, envStart = 0, envEnd = 0\<rparr>),
     unmapped = []\<rparr>"

lemma layout_spaces: "rs = [r1, r2, r3] \<Longrightarrow> spaces (layout rs b0 b) m [1, 2, 3] \<and> map (region (layout rs b0 b)) [1, 2, 3] = rs"
  by (auto simp: layout_def spaces_def region_def eval_nat_numeral split: prod.splits)

definition demo_regions :: "region list" where
  "demo_regions = [(0x1000, 0x3000, 5, 0), (0x5000, 0x6000, 7, VMS_HEAP), (0x7ffff000, 0x80000000, 3, VMS_STACK)]"

definition demo_vm :: vm where
  "demo_vm = layout demo_regions 0x5000 0x5800"

lemma demo_vm: "spaces demo_vm m [1, 2, 3]" "map (region demo_vm) [1, 2, 3] = demo_regions" "apart demo_regions"
    "\<forall>a\<in>set [1, 2, 3]. vend (space demo_vm a) \<le> USER_VM_SIZE" "9 \<notin> live demo_vm" "8 \<notin> live demo_vm"
    "brk (mms demo_vm m) = 0x5800" "brkStart (mms demo_vm m) = 0x5000"
  using layout_spaces [of demo_regions]
  by (simp_all add: demo_vm_def demo_regions_def apart_def USER_VM_SIZE_def layout_def)

theorem mmap_maps_region_witness:
  "\<exists>r s' xs'. DoMmap 0 0 4096 3 0 (Some 9) demo_vm = Some (r, s') \<and> spaces s' 0 xs' \<and> apart (map (region s') xs')"
proof -
  have "PAGE_ALIGN 4096 < USER_VM_SIZE" by (simp add: PAGE_ALIGN_def PAGE_SIZE_def PAGE_MASK_def USER_VM_SIZE_def)
  from mmap_maps_region [OF demo_vm(1) _ demo_vm(4,5) this] demo_vm(2,3) show ?thesis by metis
qed

text \<open>
  without \<open>MAP_FIXED\<close>, a request for which there is no gap between the middle of user space and
  a last space that ends at the top of user space is not refused: \<open>DoMmap\<close> returns the first
  kernel address and maps the region there.
\<close>

theorem mmap_leaves_user_space:
  assumes "spaces s m (l1 @ [x])" "\<forall>a\<in>set l1. vstart (space s a) < vend (space s a) \<and> vend (space s a) \<le> VMS_UNMAPPED_BASE"
    and "vend (space s x) = USER_VM_SIZE" "vstart (space s x) < VMS_UNMAPPED_BASE + PAGE_ALIGN len" "vstart (space s x) < USER_VM_SIZE"
    and "0 < PAGE_ALIGN len" "PAGE_ALIGN len \<le> VMS_UNMAPPED_BASE" "flags AND MAP_FIXED = 0" "sp \<notin> live s"
  shows "\<exists>s'. DoMmap m 0 len prot flags (Some sp) s = Some (USER_VM_SIZE, s') \<and> spaces s' m (l1 @ [x, sp]) \<and>
    region s' sp = (USER_VM_SIZE, USER_VM_SIZE + PAGE_ALIGN len, prot, flags)"
proof -
  let ?l = "PAGE_ALIGN len"
  have half: "VMS_UNMAPPED_BASE < USER_VM_SIZE" "USER_VM_SIZE \<noteq> -1" by (simp_all add: VMS_UNMAPPED_BASE_def USER_VM_SIZE_def)
  have "unat ?l \<le> 2 ^ 30" using assms(7) by (simp add: word_le_nat_alt VMS_UNMAPPED_BASE_def USER_VM_SIZE_def)
  then have room: "\<not> USER_VM_SIZE - ?l < VMS_UNMAPPED_BASE" "?l < USER_VM_SIZE" "\<not> USER_VM_SIZE - ?l < 0"
    by (simp_all add: word_less_nat_alt unat_sub word_le_nat_alt VMS_UNMAPPED_BASE_def USER_VM_SIZE_def)
  have "List.find (\<lambda>a. VMS_UNMAPPED_BASE < vend (space s a)) l1 = None"
    using assms(2) by (simp add: find_None_iff linorder_not_less)
  then have "FindVMSpace m VMS_UNMAPPED_BASE s = Some (Some x)"
    using FindVMSpace_ok [OF assms(1)] assms(3) half(1) by (simp add: find_append)
  moreover have "vnext (space s x) = None" using assms(1) by (auto simp: spaces_def)
  ultimately have "GetUnmappedVMSpace m ?l s = Some USER_VM_SIZE"
    using room assms(3) leD [of _ "vstart (space s x)"] assms(4) by (simp add: GetUnmappedVMSpace_def unmapped_loop.simps) blast
  then have addr: "mmap_addr m 0 ?l flags s = Some USER_VM_SIZE" using assms(8) by (simp add: mmap_addr_def)
  define s1 where "s1 = upd_space sp (\<lambda>v. v\<lparr>vstart := USER_VM_SIZE, vend := USER_VM_SIZE + ?l, vflags := flags, pageProt := prot\<rparr>)
                 (vm_kmalloc sp s)"
  have new: "sp \<notin> set (l1 @ [x])" using assms(1,9) by (auto simp: spaces_def)
  have top: "USER_VM_SIZE < USER_VM_SIZE + ?l" using room(2) assms(6) by (intro end_above) simp_all
  have "spaces s1 m ((l1 @ [x]) @ [])"
    using assms(1) new unfolding spaces_def s1_def by (simp, subst seg_cong [where nx' = "\<lambda>a. vnext (space s a)"]) auto
  moreover have "\<forall>a\<in>set (l1 @ [x]). vstart (space s1 a) < vend (space s1 sp)"
  proof
    fix a assume a: "a \<in> set (l1 @ [x])"
    then have "vstart (space s a) < USER_VM_SIZE" using assms(2,5) half(1) by fastforce
    moreover have "space s1 a = space s a" "vend (space s1 sp) = USER_VM_SIZE + ?l" using a new by (auto simp: s1_def)
    ultimately show "vstart (space s1 a) < vend (space s1 sp)" using top by simp
  qed
  moreover have "sp \<notin> set ((l1 @ [x]) @ [])" "sp \<in> live s1" using new by (simp_all add: s1_def)
  ultimately obtain s2 where s2: "InsertVMSpace m sp s1 = Some (0, s2)" "spaces s2 m ((l1 @ [x]) @ [sp])" "\<forall>a. region s2 a = region s1 a"
    using InsertVMSpace_ok [of s1 m "l1 @ [x]" "[]" sp] by auto
  have "DoMmap m 0 len prot flags (Some sp) s = Some (USER_VM_SIZE, s2)"
    using addr room half(2) assms(6) s2(1) unfolding s1_def
    by (simp add: DoMmap_eq Let_def linorder_not_less less_imp_le)
  moreover have "region s1 sp = (USER_VM_SIZE, USER_VM_SIZE + ?l, prot, flags)" by (simp add: s1_def region_def)
  ultimately show ?thesis using s2(2,3) by simp
qed

text \<open>
  C17: \<open>DoMunmap\<close> of a page-aligned range inside one space removes the range and keeps the spaces behind it: the part of the
  space below the range stays as it was, the part above becomes a space with the protection and flags that stood in the memory
  \<open>kmalloc\<close> returned. The spaces before stay if the range starts inside the space. If it starts where the space starts they
  are lost, though nothing unmapped them: the predecessor that \<open>FindVMSpacePrev\<close> finds does not reach its caller.
\<close>

theorem munmap_removes_range:
  assumes "spaces s m (l1 @ x # l2)" "\<forall>b\<in>set l1. vend (space s b) \<le> a" "k \<notin> live s"
    and "a AND NOT PAGE_MASK = 0" "a \<le> USER_VM_SIZE" "len \<le> USER_VM_SIZE - a" "PAGE_ALIGN len \<noteq> 0"
    and "vstart (space s x) \<le> a" "a < vend (space s x)" "a + PAGE_ALIGN len \<le> vend (space s x)"
  shows "\<exists>s' xs'. DoMunmap m a len (Some k) s = Some (0, s') \<and> spaces s' m xs' \<and>
    map (region s') xs' =
      (if vstart (space s x) = a then []
       else map (region s) l1 @ [(vstart (space s x), a, pageProt (space s x), vflags (space s x))]) @
      (if vend (space s x) = a + PAGE_ALIGN len then []
       else [(a + PAGE_ALIGN len, vend (space s x), pageProt (space s k), vflags (space s k))]) @
      map (region s) l2"
proof -
  have "munmap_result a (a + PAGE_ALIGN len) (map (region s) l1) (region s x) (pageProt (space s k), vflags (space s k))
        (map (region s) l2) =
      (if vstart (space s x) = a then []
       else map (region s) l1 @ [(vstart (space s x), a, pageProt (space s x), vflags (space s x))]) @
      (if vend (space s x) = a + PAGE_ALIGN len then []
       else [(a + PAGE_ALIGN len, vend (space s x), pageProt (space s k), vflags (space s k))]) @ map (region s) l2"
    by (auto simp: munmap_result_def region_def)
  then show ?thesis using DoMunmap_ok [OF assms] by metis
qed

theorem munmap_removes_range_witness:
  "(\<exists>s' xs'. DoMunmap 0 0x2000 0x1000 (Some 9) demo_vm = Some (0, s') \<and> spaces s' 0 xs' \<and>
     map (region s') xs' = (0x1000, 0x2000, 5, 0) # tl demo_regions) \<and>
   (\<exists>s' xs'. DoMunmap 0 0x5000 0x1000 (Some 9) demo_vm = Some (0, s') \<and> spaces s' 0 xs' \<and>
     map (region s') xs' = tl (tl demo_regions))"
proof
  have al: "PAGE_ALIGN 0x1000 = 0x1000" "NOT PAGE_MASK = 0xFFF" by (simp_all add: PAGE_ALIGN_def PAGE_SIZE_def PAGE_MASK_def)
  have sp: "spaces demo_vm 0 ([] @ 1 # [2, 3])" "spaces demo_vm 0 ([1] @ 2 # [3])" using demo_vm(1) by simp_all
  have r: "vstart (space demo_vm 1) = 0x1000" "vend (space demo_vm 1) = 0x3000" "pageProt (space demo_vm 1) = 5"
    "vflags (space demo_vm 1) = 0" "map (region demo_vm) [2, 3] = tl demo_regions"
    "vstart (space demo_vm 2) = 0x5000" "vend (space demo_vm 2) = 0x6000" "map (region demo_vm) [3] = tl (tl demo_regions)"
    using demo_vm(2) by (simp_all add: demo_vm_def layout_def demo_regions_def region_def)
  show "\<exists>s' xs'. DoMunmap 0 0x2000 0x1000 (Some 9) demo_vm = Some (0, s') \<and> spaces s' 0 xs' \<and>
     map (region s') xs' = (0x1000, 0x2000, 5, 0) # tl demo_regions"
    using munmap_removes_range [OF sp(1) _ demo_vm(5), of "0x2000" "0x1000"] al r by (simp add: USER_VM_SIZE_def)
  show "\<exists>s' xs'. DoMunmap 0 0x5000 0x1000 (Some 9) demo_vm = Some (0, s') \<and> spaces s' 0 xs' \<and>
     map (region s') xs' = tl (tl demo_regions)"
    using munmap_removes_range [OF sp(2) _ demo_vm(5), of "0x5000" "0x1000"] al r by (simp add: USER_VM_SIZE_def)
qed



text \<open>
  C25: \<open>CopyVMSpace\<close> gives a child that has no spaces yet a list of its own, on fresh memory, with
  the regions of the parent, and leaves the parent's list as it was.
\<close>

theorem fork_copies_spaces:
  assumes "spaces s parent xs" "child \<noteq> parent" "spaceMap (mms s child) = None"
    and "length xs \<le> length ks" "distinct ks" "set ks \<inter> live s = {}"
  shows "\<exists>s' ys. CopyVMSpace ks child parent s = (0, s') \<and> spaces s' child ys \<and> map (region s') ys = map (region s) xs \<and>
    set ys \<inter> set xs = {} \<and> spaces s' parent xs \<and> map (region s') xs = map (region s) xs"
proof -
  have p: "seg (\<lambda>a. vnext (space s a)) (spaceMap (mms s parent)) xs None" "set xs \<subseteq> live s"
    using assms(1) by (simp_all add: spaces_def)
  from copy_loop_ok [where ds = "[]" and child = child and ks = ks, OF _ _ p _ assms(4-6)] assms(3) obtain s' where
    s': "copy_loop ks child None (spaceMap (mms s parent)) s = (0, s')" "spaces s' child (take (length xs) ks)"
      "map (region s') (take (length xs) ks) = map (region s) xs" "\<forall>a. a \<notin> set ks \<longrightarrow> space s' a = space s a"
      "\<forall>j. j \<noteq> child \<longrightarrow> mms s' j = mms s j" "live s \<subseteq> live s'"
    by (auto simp: last_opt_def)
  have off: "space s' a = space s a" if "a \<in> set xs" for a using that s'(4) p(2) assms(6) by blast
  then have "spaces s' parent xs"
    using p s'(5,6) assms(2) unfolding spaces_def by (subst seg_cong [where nx' = "\<lambda>a. vnext (space s a)"]) auto
  moreover have "map (region s') xs = map (region s) xs" using off by (simp add: region_def)
  moreover have "set (take (length xs) ks) \<inter> set xs = {}" using assms(6) p(2) set_take_subset [of "length xs" ks] by blast
  ultimately show ?thesis using s'(1-3) unfolding CopyVMSpace_def by blast
qed

theorem fork_copies_spaces_witness:
  "\<exists>s' ys. CopyVMSpace [11, 12, 13, 14] 1 0 (upd_mm 1 (\<lambda>k. k\<lparr>spaceMap := None\<rparr>) demo_vm) = (0, s') \<and>
     spaces s' 1 ys \<and> map (region s') ys = demo_regions"
proof -
  let ?s = "upd_mm 1 (\<lambda>k. k\<lparr>spaceMap := None\<rparr>) demo_vm"
  have "spaces ?s 0 [1, 2, 3]" "map (region ?s) [1, 2, 3] = demo_regions"
    using demo_vm(1) [of 0] demo_vm(2) by (simp_all add: spaces_def region_def)
  moreover have "set [11, 12, 13, 14] \<inter> live ?s = {}" by (simp add: demo_vm_def layout_def demo_regions_def)
  ultimately show ?thesis using fork_copies_spaces [of ?s 0 "[1, 2, 3]" 1 "[11, 12, 13, 14]"] by fastforce
qed

text \<open>
  \<open>MemoryManagerRelease\<close> unmaps the pages of exactly the selected regions, in order, frees every
  space and leaves the list empty. With \<open>VMS_RESOURCE\<close> alone, meant for what is neither stack nor
  heap, it unmaps the stack and the heap too.
\<close>

theorem release_unmaps:
  assumes "spaces s m xs"
  shows "\<exists>s'. MemoryManagerRelease m flags s = Some s' \<and> spaces s' m [] \<and> live s' = live s - set xs \<and>
    unmapped s' = unmapped s @ map pages (filter (\<lambda>r. releases flags (snd (snd (snd r)))) (map (region s) xs)) \<and>
    releases VMS_RESOURCE VMS_STACK \<and> releases VMS_RESOURCE VMS_HEAP \<and> releases VMS_RESOURCE 0"
proof -
  let ?u = "unmapped s @ map pages (filter (\<lambda>r. releases flags (snd (snd (snd r)))) (map (region s) xs))"
  have c: "seg (\<lambda>a. vnext (space s a)) (spaceMap (mms s m)) xs None" using assms by (simp add: spaces_def)
  then have c2: "seg (\<lambda>a. vnext (space (s\<lparr>unmapped := ?u\<rparr>) a)) (spaceMap (mms s m)) xs None" by simp
  have "MemoryManagerRelease m flags s = Some (upd_mm m (\<lambda>k. k\<lparr>spaceMap := None\<rparr>) (s\<lparr>unmapped := ?u, live := live s - set xs\<rparr>))"
    using release_pages_seg [OF c, of flags] free_spaces_seg [OF c2] by (simp add: MemoryManagerRelease_def)
  then show ?thesis
    by (simp add: spaces_def releases_def VMS_RESOURCE_def VMS_STACK_def VMS_HEAP_def)
qed

end
