(* ===== verification/PhyMem.thy ===== *)
theory PhyMem
  imports Prelude
begin

text \<open>
  Physical pages: the node table of \<open>arch/x86/mm/phymem.c\<close> (one \<open>struct MemNode\<close> per page) and the
  allocator \<open>AllocPages\<close>/\<open>FreePages\<close> of \<open>arch/x86/mm/page.c\<close> that works on it. A node is its index in
  the table, a physical page a 32-bit address. The pointers to a cache and a group that a node
  carries for the slab allocator are numbers and addresses; NULL is \<open>None\<close>.

  \<open>pages_ok\<close> says that the nodes with a reference are the first pages of blocks that do not overlap.
  A walk over the table meets exactly the blocks and the pages outside them, so the first free
  node it finds is outside every block. \<open>AllocPages\<close> looks at that node only: it keeps the invariant
  for one page, and for more only when the pages that follow are free too.
\<close>

section \<open>Model\<close>

record MemNode =
  count :: u32
  flags :: u32
  reference :: u32
  memCache :: "nat option"
  group :: "addr option"

record physmem =
  memNodeTable :: "nat \<Rightarrow> MemNode"
  memNodeCount :: u32
  memNodeBase :: u32

definition PAGE_SHIFT :: nat where
  "PAGE_SHIFT = 12"

definition PAGE_OFFSET :: u32 where
  "PAGE_OFFSET = 0x80000000"

definition Vir2Phy :: "addr \<Rightarrow> u32" where
  "Vir2Phy address = word_of_nat address - PAGE_OFFSET"

definition Phy2Vir :: "u32 \<Rightarrow> addr" where
  "Phy2Vir address = unat (address + PAGE_OFFSET)"

lemma unat_nonzero: "c \<noteq> 0 \<Longrightarrow> 0 < unat (c :: u32)"
  by (rule ccontr) (simp add: unat_eq_zero)

function free_node_loop :: "physmem \<Rightarrow> nat \<Rightarrow> nat option" where
  "free_node_loop s node =
     (if node < unat (memNodeCount s) then
        if reference (memNodeTable s node) = 0 then Some node
        else free_node_loop s
          (if count (memNodeTable s node) \<noteq> 0 then node + unat (count (memNodeTable s node)) else node + 1)
      else None)"
  by pat_completeness auto

termination
  by (relation "measure (\<lambda>(s, node). unat (memNodeCount s) - node)") (auto dest!: unat_nonzero)

definition GetFreeMemNode :: "physmem \<Rightarrow> nat option" where
  "GetFreeMemNode s = free_node_loop s 0"

definition Page2MemNode :: "physmem \<Rightarrow> u32 \<Rightarrow> nat option" where
  "Page2MemNode s page =
     (let index = unat (drop_bit PAGE_SHIFT (page - memNodeBase s))
      in if unat (memNodeCount s) \<le> index then None else Some index)"

definition MemNode2Page :: "physmem \<Rightarrow> nat \<Rightarrow> u32" where
  "MemNode2Page s node = memNodeBase s + push_bit PAGE_SHIFT (word_of_nat node)"

definition upd_node :: "nat \<Rightarrow> (MemNode \<Rightarrow> MemNode) \<Rightarrow> physmem \<Rightarrow> physmem" where
  "upd_node i f s = s\<lparr>memNodeTable := (memNodeTable s)(i := f (memNodeTable s i))\<rparr>"

definition AllocPages :: "physmem \<Rightarrow> u32 \<Rightarrow> physmem \<times> u32" where
  "AllocPages s cnt =
     (case GetFreeMemNode s of
        None \<Rightarrow> (s, 0)
      | Some node \<Rightarrow>
          if memNodeCount s < word_of_nat node + cnt then (s, 0)
          else (upd_node node (\<lambda>n. n\<lparr>reference := 1, count := cnt, flags := 0, memCache := None, group := None\<rparr>) s,
                MemNode2Page s node))"

definition FreePages :: "physmem \<Rightarrow> u32 \<Rightarrow> physmem \<times> int" where
  "FreePages s page =
     (case Page2MemNode s page of
        None \<Rightarrow> (s, -1)
      | Some node \<Rightarrow>
          if reference (memNodeTable s node) \<noteq> 0
          then (upd_node node (\<lambda>n. n\<lparr>reference := 0, count := 0, flags := 0, memCache := None, group := None\<rparr>) s, 0)
          else (s, 0))"

definition NORMAL_MEM_ADDR :: u32 where
  "NORMAL_MEM_ADDR = 0x1000000"

definition HIGH_MEM_SIZE :: u32 where
  "HIGH_MEM_SIZE = 0x8000000"

definition NULL_MEM_SIZE :: u32 where
  "NULL_MEM_SIZE = 0x400000"

text \<open>
  \<open>InitPhysicMemory\<close> divides the memory the firmware reports into a kernel and a user part and sizes
  the node table. The table is zeroed; \<open>usedMem\<close> is what the boot allocator has handed out, the table
  included, which \<open>CutUesdMemory\<close> takes out of the pages.
\<close>

definition mem_sizes :: "u32 \<Rightarrow> u32 \<times> u32" where
  "mem_sizes memSize =
     (let normalSize = (memSize - (NORMAL_MEM_ADDR + HIGH_MEM_SIZE + NULL_MEM_SIZE)) div 2;
          userSize = memSize - normalSize
      in if 0x40000000 < normalSize then
           (let moreSize = normalSize - 0x40000000
            in (normalSize - moreSize, userSize + moreSize))
         else (normalSize, userSize))"

definition CutUesdMemory :: "u32 \<Rightarrow> physmem \<Rightarrow> physmem" where
  "CutUesdMemory usedMem s = (let usedPages = (usedMem + 4096 - 1) div 4096 in fst (AllocPages s usedPages))"

definition InitPhysicMemory :: "u32 \<Rightarrow> u32 \<Rightarrow> physmem" where
  "InitPhysicMemory memSize usedMem =
     (let (normalSize, userSize) = mem_sizes memSize;
          s = \<lparr>memNodeTable = (\<lambda>_. \<lparr>count = 0, flags = 0, reference = 0, memCache = None, group = None\<rparr>),
               memNodeCount = (normalSize + userSize) div 4096, memNodeBase = NORMAL_MEM_ADDR\<rparr>
      in CutUesdMemory usedMem s)"

declare free_node_loop.simps [simp del]

section \<open>Blocks\<close>

text \<open>A block starts at a node with a reference and holds \<open>count\<close> pages; \<open>in_block s i j\<close>: page \<open>j\<close> is in the block at \<open>i\<close>.\<close>

abbreviation is_head :: "physmem \<Rightarrow> nat \<Rightarrow> bool" where
  "is_head s i \<equiv> reference (memNodeTable s i) \<noteq> 0"

abbreviation blen :: "physmem \<Rightarrow> nat \<Rightarrow> nat" where
  "blen s i \<equiv> unat (count (memNodeTable s i))"

definition in_block :: "physmem \<Rightarrow> nat \<Rightarrow> nat \<Rightarrow> bool" where
  "in_block s i j \<longleftrightarrow> is_head s i \<and> i \<le> j \<and> j < i + blen s i"

definition owned :: "physmem \<Rightarrow> nat \<Rightarrow> bool" where
  "owned s j \<longleftrightarrow> (\<exists>i. in_block s i j)"

definition pages_ok :: "physmem \<Rightarrow> bool" where
  "pages_ok s \<longleftrightarrow>
     unat (memNodeCount s) < 2 ^ 20 \<and>
     unat (memNodeBase s) + unat (memNodeCount s) * 4096 \<le> 2 ^ 31 \<and>
     memNodeBase s \<noteq> 0 \<and> take_bit 12 (memNodeBase s) = 0 \<and>
     (\<forall>i. is_head s i \<longrightarrow> 0 < blen s i \<and> i + blen s i \<le> unat (memNodeCount s)) \<and>
     (\<forall>i j k. in_block s i k \<longrightarrow> in_block s j k \<longrightarrow> i = j)"


definition clear_before :: "physmem \<Rightarrow> nat \<Rightarrow> bool" where
  "clear_before s i \<longleftrightarrow> (\<forall>h < i. is_head s h \<longrightarrow> h + blen s h \<le> i)"

lemma pages_okD:
  assumes "pages_ok s"
  shows "unat (memNodeCount s) < 2 ^ 20"
    "unat (memNodeBase s) + unat (memNodeCount s) * 4096 \<le> 2 ^ 31"
    "memNodeBase s \<noteq> 0" "take_bit 12 (memNodeBase s) = 0"
    "is_head s i \<Longrightarrow> 0 < blen s i \<and> i + blen s i \<le> unat (memNodeCount s)"
    "in_block s i k \<Longrightarrow> in_block s j k \<Longrightarrow> i = j"
  using assms unfolding pages_ok_def by blast+

lemma in_block_self: "pages_ok s \<Longrightarrow> is_head s i \<Longrightarrow> in_block s i i"
  using pages_okD(5) [of s i] by (simp add: in_block_def)

lemma not_owned_iff: "clear_before s j \<Longrightarrow> \<not> is_head s j \<Longrightarrow> \<not> owned s j"
  by (auto simp: clear_before_def owned_def in_block_def) (metis le_neq_implies_less not_less)

lemma free_node_loop_spec:
  assumes "pages_ok s"
  shows "clear_before s i \<Longrightarrow>
    (case free_node_loop s i of
       None \<Rightarrow> (\<forall>k. i \<le> k \<longrightarrow> k < unat (memNodeCount s) \<longrightarrow> owned s k)
     | Some j \<Rightarrow> i \<le> j \<and> j < unat (memNodeCount s) \<and> \<not> is_head s j \<and> \<not> owned s j \<and>
         (\<forall>k. i \<le> k \<longrightarrow> k < j \<longrightarrow> owned s k))"
  using assms
proof (induction s i rule: free_node_loop.induct)
  case (1 s i)
  show ?case
  proof (cases "i < unat (memNodeCount s) \<and> is_head s i")
    case False
    then show ?thesis
      using not_owned_iff [OF "1.prems"(1)] by (simp add: free_node_loop.simps [of s i])
  next
    case True
    let ?i = "i + blen s i"
    have len: "0 < blen s i" using pages_okD(5) [OF "1.prems"(2)] True by blast
    then have ne: "count (memNodeTable s i) \<noteq> 0" by auto
    have step: "free_node_loop s i = free_node_loop s ?i"
      using True len by (subst free_node_loop.simps) auto
    have own: "owned s k" if "i \<le> k" "k < ?i" for k
      using that True unfolding owned_def in_block_def by blast
    have "clear_before s ?i"
      unfolding clear_before_def
    proof (intro allI impI)
      fix h assume h: "h < ?i" "is_head s h"
      show "h + blen s h \<le> ?i"
      proof (cases "h < i")
        case True
        then show ?thesis using "1.prems"(1) h by (auto simp: clear_before_def)
      next
        case False
        then have "in_block s i h" using h True by (simp add: in_block_def)
        then have "i = h" using pages_okD(6) [OF "1.prems"(2)] in_block_self [OF "1.prems"(2) h(2)] by blast
        then show ?thesis by simp
      qed
    qed
    then have IH: "case free_node_loop s ?i of
       None \<Rightarrow> (\<forall>k. ?i \<le> k \<longrightarrow> k < unat (memNodeCount s) \<longrightarrow> owned s k)
     | Some j \<Rightarrow> ?i \<le> j \<and> j < unat (memNodeCount s) \<and> \<not> is_head s j \<and> \<not> owned s j \<and>
         (\<forall>k. ?i \<le> k \<longrightarrow> k < j \<longrightarrow> owned s k)"
      using "1.IH" [unfolded if_P [OF ne]] "1.prems"(2) True by blast
    show ?thesis
      unfolding step using IH own not_less by (cases "free_node_loop s ?i") (simp; blast | auto)+
  qed
qed

lemma GetFreeMemNode_spec:
  assumes "pages_ok s"
  shows "case GetFreeMemNode s of
      None \<Rightarrow> (\<forall>k < unat (memNodeCount s). owned s k)
    | Some j \<Rightarrow> j < unat (memNodeCount s) \<and> \<not> is_head s j \<and> \<not> owned s j \<and> (\<forall>k < j. owned s k)"
  using free_node_loop_spec [OF assms, of 0]
  by (auto simp: GetFreeMemNode_def clear_before_def split: option.splits)


section \<open>Pages and nodes\<close>

lemma MemNode2Page_unat:
  assumes "pages_ok s" "i < unat (memNodeCount s)"
  shows "unat (MemNode2Page s i) = unat (memNodeBase s) + i * 4096"
proof -
  have i: "i < 2 ^ 20" using pages_okD(1) [OF assms(1)] assms(2) by simp
  have "push_bit PAGE_SHIFT (word_of_nat i) = (word_of_nat (i * 4096) :: u32)"
    by (simp add: PAGE_SHIFT_def push_bit_eq_mult)
  then have "unat (push_bit PAGE_SHIFT (word_of_nat i) :: u32) = i * 4096"
    using i by (simp only: unsigned_of_nat) (simp add: take_bit_nat_eq_self)
  moreover have "unat (memNodeBase s) + i * 4096 < 2 ^ 32"
    using pages_okD(2) [OF assms(1)] assms(2) by simp
  ultimately show ?thesis
    by (simp add: MemNode2Page_def unat_word_ariths)
qed

text \<open>Every address inside page \<open>i\<close> leads back to node \<open>i\<close>.\<close>

lemma Page2MemNode_inside:
  assumes "pages_ok s" "i < unat (memNodeCount s)" "off < 4096"
  shows "Page2MemNode s (MemNode2Page s i + word_of_nat off) = Some i"
proof -
  have i: "i < 2 ^ 20" using pages_okD(1) [OF assms(1)] assms(2) by simp
  have "unat (MemNode2Page s i + word_of_nat off - memNodeBase s) = i * 4096 + off"
  proof -
    have "MemNode2Page s i + word_of_nat off - memNodeBase s = word_of_nat (i * 4096 + off)"
      by (simp add: MemNode2Page_def PAGE_SHIFT_def push_bit_eq_mult)
    moreover have "i * 4096 + off < 2 ^ 32" using i assms(3) by simp
    ultimately show ?thesis by (simp only: unsigned_of_nat) (simp add: take_bit_nat_eq_self)
  qed
  then have "unat (drop_bit PAGE_SHIFT (MemNode2Page s i + word_of_nat off - memNodeBase s)) = i"
    using assms(3) by (simp add: PAGE_SHIFT_def unat_drop_bit_eq drop_bit_nat_def)
  then show ?thesis using assms(2) by (simp add: Page2MemNode_def)
qed

lemma Page2MemNode_node:
  "pages_ok s \<Longrightarrow> i < unat (memNodeCount s) \<Longrightarrow> Page2MemNode s (MemNode2Page s i) = Some i"
  using Page2MemNode_inside [of s i 0] by simp

lemma Vir2Phy_Phy2Vir: "Vir2Phy (Phy2Vir p) = p"
  by (simp add: Vir2Phy_def Phy2Vir_def)

lemma Phy2Vir_node:
  assumes "pages_ok s" "i < unat (memNodeCount s)"
  shows "Phy2Vir (MemNode2Page s i) = 2 ^ 31 + unat (memNodeBase s) + i * 4096"
proof -
  have "unat (MemNode2Page s i) + unat PAGE_OFFSET < 2 ^ 32"
    using pages_okD(2) [OF assms(1)] assms(2) by (simp add: MemNode2Page_unat [OF assms] PAGE_OFFSET_def)
  then show ?thesis
    by (simp add: Phy2Vir_def unat_add_less MemNode2Page_unat [OF assms]) (simp add: PAGE_OFFSET_def)
qed

lemma Vir2Phy_inside:
  "Vir2Phy (Phy2Vir p + off) = p + word_of_nat off"
  by (simp add: Vir2Phy_def Phy2Vir_def)

lemma MemNode2Page_nonzero:
  "pages_ok s \<Longrightarrow> i < unat (memNodeCount s) \<Longrightarrow> MemNode2Page s i \<noteq> 0"
  using MemNode2Page_unat [of s i] pages_okD(3) [of s] by (metis add_is_0 unat_0 unat_eq_zero)

section \<open>Allocation and release\<close>

text \<open>The pages a block of \<open>n\<close> pages would take are all free.\<close>

definition run_free :: "physmem \<Rightarrow> nat \<Rightarrow> bool" where
  "run_free s n \<longleftrightarrow> (\<forall>i. GetFreeMemNode s = Some i \<longrightarrow> (\<forall>j. i \<le> j \<longrightarrow> j < i + n \<longrightarrow> \<not> owned s j))"

lemma run_free_1 [simp]: "pages_ok s \<Longrightarrow> run_free s (Suc 0)"
  using GetFreeMemNode_spec [of s] unfolding run_free_def by (auto split: option.splits simp: less_Suc_eq_le dest: le_antisym)

lemma in_block_upd:
  "in_block (upd_node u f s) i j \<longleftrightarrow>
     (if i = u then reference (f (memNodeTable s u)) \<noteq> 0 \<and> u \<le> j \<and> j < u + unat (count (f (memNodeTable s u)))
      else in_block s i j)"
  by (simp add: in_block_def upd_node_def)

lemma upd_node_sel [simp]:
  "memNodeCount (upd_node u f s) = memNodeCount s" "memNodeBase (upd_node u f s) = memNodeBase s"
  "memNodeTable (upd_node u f s) i = (if i = u then f (memNodeTable s u) else memNodeTable s i)"
  by (simp_all add: upd_node_def)

lemma upd_node_addr [simp]:
  "MemNode2Page (upd_node u f s) = MemNode2Page s" "Page2MemNode (upd_node u f s) = Page2MemNode s"
  by (simp_all add: MemNode2Page_def Page2MemNode_def fun_eq_iff)

lemma AllocPages_spec:
  assumes ok: "pages_ok s" and n: "0 < unat n" "unat n < 2 ^ 20" and run: "run_free s (unat n)"
  shows "snd (AllocPages s n) = 0 \<and> fst (AllocPages s n) = s \<and>
      (\<forall>i. GetFreeMemNode s = Some i \<longrightarrow> unat (memNodeCount s) < i + unat n) \<or>
    (\<exists>i. GetFreeMemNode s = Some i \<and> snd (AllocPages s n) = MemNode2Page s i \<and> MemNode2Page s i \<noteq> 0 \<and>
       i + unat n \<le> unat (memNodeCount s) \<and>
       fst (AllocPages s n) = upd_node i (\<lambda>k. k\<lparr>reference := 1, count := n, flags := 0, memCache := None, group := None\<rparr>) s \<and>
       pages_ok (fst (AllocPages s n)) \<and>
       (\<forall>j. i \<le> j \<longrightarrow> j < i + unat n \<longrightarrow> \<not> owned s j) \<and>
       (\<forall>h j. in_block (fst (AllocPages s n)) h j \<longleftrightarrow> in_block s h j \<or> h = i \<and> i \<le> j \<and> j < i + unat n))"
proof (cases "GetFreeMemNode s")
  case None
  then show ?thesis by (simp add: AllocPages_def)
next
  case (Some i)
  let ?s' = "upd_node i (\<lambda>k. k\<lparr>reference := 1, count := n, flags := 0, memCache := None, group := None\<rparr>) s"
  from GetFreeMemNode_spec [OF ok] Some have i: "i < unat (memNodeCount s)" "\<not> is_head s i" by simp_all
  have free: "\<forall>j. i \<le> j \<longrightarrow> j < i + unat n \<longrightarrow> \<not> owned s j"
    using run Some by (simp add: run_free_def)
  have iw: "unat (word_of_nat i :: u32) = i"
    using i(1) pages_okD(1) [OF ok] by (simp add: unsigned_of_nat take_bit_nat_eq_self)
  have "unat (word_of_nat i + n) = i + unat n"
    using unat_add_less [of "word_of_nat i" n] iw i(1) pages_okD(1) [OF ok] n by simp
  then have test: "memNodeCount s < word_of_nat i + n \<longleftrightarrow> unat (memNodeCount s) < i + unat n"
    by (simp add: word_less_nat_alt)
  show ?thesis
  proof (cases "unat (memNodeCount s) < i + unat n")
    case True
    then show ?thesis using Some by (simp add: AllocPages_def test)
  next
    case False
    have blk: "in_block ?s' h j \<longleftrightarrow> in_block s h j \<or> h = i \<and> i \<le> j \<and> j < i + unat n" for h j
      using i(2) by (auto simp: in_block_upd) (simp_all add: in_block_def)
    have "pages_ok ?s'"
      unfolding pages_ok_def
    proof (intro conjI allI impI)
      fix h j k assume "in_block ?s' h k" "in_block ?s' j k"
      then show "h = j"
        unfolding blk using free pages_okD(6) [OF ok] by (auto simp: owned_def)
    qed (use pages_okD [OF ok] False n in \<open>auto split: if_splits\<close>)
    then show ?thesis
      using Some False blk free MemNode2Page_nonzero [OF ok i(1)] by (simp add: AllocPages_def test)
  qed
qed


lemma FreePages_spec:
  assumes ok: "pages_ok s" and hd: "is_head s i"
  shows "FreePages s (MemNode2Page s i) =
       (upd_node i (\<lambda>n. n\<lparr>reference := 0, count := 0, flags := 0, memCache := None, group := None\<rparr>) s, 0) \<and>
     pages_ok (fst (FreePages s (MemNode2Page s i))) \<and>
     (\<forall>h j. in_block (fst (FreePages s (MemNode2Page s i))) h j \<longleftrightarrow> in_block s h j \<and> h \<noteq> i)"
proof -
  let ?s' = "upd_node i (\<lambda>n. n\<lparr>reference := 0, count := 0, flags := 0, memCache := None, group := None\<rparr>) s"
  have i: "i < unat (memNodeCount s)" using pages_okD(5) [OF ok hd] by simp
  have eq: "FreePages s (MemNode2Page s i) = (?s', 0)"
    using hd by (simp add: FreePages_def Page2MemNode_node [OF ok i])
  have blk: "in_block ?s' h j \<longleftrightarrow> in_block s h j \<and> h \<noteq> i" for h j
    by (auto simp: in_block_upd)
  have "pages_ok ?s'"
    unfolding pages_ok_def
  proof (intro conjI allI impI)
    fix h j k assume "in_block ?s' h k" "in_block ?s' j k"
    then show "h = j" unfolding blk using pages_okD(6) [OF ok] by auto
  qed (use pages_okD [OF ok] in \<open>auto split: if_splits\<close>)
  then show ?thesis using blk by (simp add: eq)
qed

section \<open>Properties\<close>

text \<open>The abstract state: which blocks there are, by first page.\<close>

definition blocks :: "physmem \<Rightarrow> nat \<rightharpoonup> nat" where
  "blocks s i = (if is_head s i then Some (blen s i) else None)"

text \<open>
  C18: On the table of pages, AllocPages(n) implements an allocator of disjoint blocks as long as the
  pages after the first free one are free (which needs no assumption for n = 1): it returns 0 and
  changes nothing only if the block does not fit behind the first free page, or no page is free;
  otherwise the block starts at the lowest page outside every block, none of its pages was in a
  block, exactly this block is new and the invariant is kept. FreePages of the result then gives
  back exactly that block.
\<close>

theorem page_blocks_refined:
  assumes "pages_ok s" "0 < unat n" "unat n < 2 ^ 20" "n = 1 \<or> run_free s (unat n)"
  shows "let (s', page) = AllocPages s n in
    if page = 0 then s' = s \<and> (\<forall>i < unat (memNodeCount s). (\<forall>k < i. owned s k) \<longrightarrow> owned s i \<or> unat (memNodeCount s) < i + unat n)
    else pages_ok s' \<and> (\<exists>i. page = MemNode2Page s i \<and> (\<forall>k < i. owned s k) \<and>
           (\<forall>j. i \<le> j \<longrightarrow> j < i + unat n \<longrightarrow> j < unat (memNodeCount s) \<and> \<not> owned s j) \<and>
           blocks s' = (blocks s)(i \<mapsto> unat n)) \<and>
         pages_ok (fst (FreePages s' page)) \<and> blocks (fst (FreePages s' page)) = blocks s"
proof -
  have run: "run_free s (unat n)" using assms run_free_1 [of s] by auto
  obtain s' page where eq: "AllocPages s n = (s', page)" by fastforce
  note get = GetFreeMemNode_spec [OF assms(1)]
  show ?thesis
  proof (cases "page = 0")
    case True
    have "s' = s \<and> (\<forall>i. GetFreeMemNode s = Some i \<longrightarrow> unat (memNodeCount s) < i + unat n)"
      using AllocPages_spec [OF assms(1-3) run] True by (auto simp: eq)
    moreover have "owned s i \<or> GetFreeMemNode s = Some i"
      if "i < unat (memNodeCount s)" "\<forall>k < i. owned s k" for i
    proof (cases "GetFreeMemNode s")
      case None
      then show ?thesis using get that by simp
    next
      case (Some j)
      then have "\<not> owned s j" "\<forall>k < j. owned s k" using get by auto
      then show ?thesis using Some that by (metis linorder_neqE_nat)
    qed
    ultimately show ?thesis using True by (auto simp: eq)
  next
    case False
    then obtain i where i: "GetFreeMemNode s = Some i" "page = MemNode2Page s i"
        "i + unat n \<le> unat (memNodeCount s)"
        "s' = upd_node i (\<lambda>k. k\<lparr>reference := 1, count := n, flags := 0, memCache := None, group := None\<rparr>) s"
        "pages_ok s'" "\<forall>j. i \<le> j \<longrightarrow> j < i + unat n \<longrightarrow> \<not> owned s j"
      using AllocPages_spec [OF assms(1-3) run] by (auto simp: eq)
    have low: "\<forall>k < i. owned s k" "\<not> is_head s i" using get i(1) by simp_all
    have b: "blocks s' = (blocks s)(i \<mapsto> unat n)"
      unfolding i(4) by (auto simp: blocks_def fun_eq_iff)
    have hd: "is_head s' i" unfolding i(4) by simp
    have pg: "page = MemNode2Page s' i" using i(2) unfolding i(4) by simp
    have f: "FreePages s' page = (upd_node i (\<lambda>n. n\<lparr>reference := 0, count := 0, flags := 0, memCache := None, group := None\<rparr>) s', 0)"
      "pages_ok (fst (FreePages s' page))"
      unfolding pg using FreePages_spec [OF i(5) hd] by blast+
    have "blocks (fst (FreePages s' page)) = blocks s"
      unfolding f(1) using low(2) by (simp add: i(4) blocks_def fun_eq_iff)
    then show ?thesis
      using False i(2,3,5,6) low(1) b f(2) by (auto simp: eq intro!: exI [of _ i])
  qed
qed

text \<open>
  C40: AllocPages(n) checks only the first page of the block it hands out: when a later page j of the
  n pages behind the first free page belongs to an allocated block, the call still succeeds, and page
  j is then in two blocks.
\<close>

theorem page_blocks_overlap:
  assumes "pages_ok s" "GetFreeMemNode s = Some i" "i < j" "j < i + unat n" "in_block s h j"
    and "i + unat n \<le> unat (memNodeCount s)"
  shows "let (s', page) = AllocPages s n in
     page = MemNode2Page s i \<and> page \<noteq> 0 \<and> h \<noteq> i \<and> in_block s' i j \<and> in_block s' h j \<and> \<not> pages_ok s'"
proof -
  have i: "i < unat (memNodeCount s)" "\<not> is_head s i"
    using GetFreeMemNode_spec [OF assms(1)] assms(2) by simp_all
  have iw: "unat (word_of_nat i :: u32) = i"
    using i(1) pages_okD(1) [OF assms(1)] by (simp add: unsigned_of_nat take_bit_nat_eq_self)
  have "unat (word_of_nat i + n) = i + unat n"
    using unat_add_less [of "word_of_nat i" n] iw assms(6) pages_okD(1) [OF assms(1)] by simp
  then have test: "\<not> memNodeCount s < word_of_nat i + n" using assms(6) by (simp add: word_less_nat_alt)
  let ?s' = "upd_node i (\<lambda>k. k\<lparr>reference := 1, count := n, flags := 0, memCache := None, group := None\<rparr>) s"
  have ne: "h \<noteq> i" using assms(5) i(2) by (auto simp: in_block_def)
  have "in_block ?s' i j" "in_block ?s' h j"
    using assms(3-5) ne by (auto simp: in_block_upd)
  moreover have "\<not> pages_ok ?s'" using calculation ne pages_okD(6) by blast
  ultimately show ?thesis
    using assms(2) test ne MemNode2Page_nonzero [OF assms(1) i(1)] by (simp add: AllocPages_def)
qed


lemma mem_sizes_total: "(case mem_sizes memSize of (normalSize, userSize) \<Rightarrow> normalSize + userSize) = memSize"
  by (simp add: mem_sizes_def Let_def)

text \<open>
  InitPhysicMemory leaves a consistent table whose only block is the memory the boot allocator used,
  but the table describes memSize bytes from 16 MB on, so the pages of its last 16 MB are free for
  allocation although no memory of the machine is there.
\<close>

theorem init_counts_absent_pages:
  assumes "0 < unat usedMem" "unat usedMem + 2 ^ 24 + 4096 \<le> unat memSize" "unat memSize < 2 ^ 31 - 2 ^ 24"
  shows "let s = InitPhysicMemory memSize usedMem; n = unat memSize div 4096 in
     pages_ok s \<and> blocks s = [0 \<mapsto> (unat usedMem + 4095) div 4096] \<and> unat (memNodeCount s) = n \<and>
     (\<forall>i. n - 4095 \<le> i \<longrightarrow> i < n \<longrightarrow> \<not> owned s i \<and> unat memSize \<le> unat (MemNode2Page s i))"
proof -
  let ?s0 = "\<lparr>memNodeTable = (\<lambda>_. \<lparr>count = 0, flags = 0, reference = 0, memCache = None, group = None\<rparr>),
      memNodeCount = memSize div 4096, memNodeBase = NORMAL_MEM_ADDR\<rparr>"
  let ?u = "(usedMem + 4096 - 1) div 4096" and ?n = "unat memSize div 4096"
  define s where "s = InitPhysicMemory memSize usedMem"
  have s: "s = fst (AllocPages ?s0 ?u)"
    using mem_sizes_total [of memSize]
    by (simp add: s_def InitPhysicMemory_def CutUesdMemory_def Let_def split: prod.splits)
  have n: "unat (memSize div 4096) = ?n" by (simp add: unat_div)
  have "unat (usedMem + 4095) = unat usedMem + 4095"
    using unat_add_less [of usedMem 4095] assms by simp
  moreover have "usedMem + 4096 - 1 = usedMem + 4095" by simp
  moreover have "unat (4096 :: u32) = 4096" by simp
  ultimately have u: "unat ?u = (unat usedMem + 4095) div 4096" by (simp only: unat_div)
  have nh: "\<not> in_block ?s0 i j" for i j by (simp add: in_block_def)
  have base: "unat NORMAL_MEM_ADDR = 2 ^ 24" "NORMAL_MEM_ADDR \<noteq> 0" "take_bit 12 NORMAL_MEM_ADDR = 0"
    by (simp_all add: NORMAL_MEM_ADDR_def take_bit_eq_mod)
  have nb: "?n * 4096 \<le> unat memSize" "unat memSize < ?n * 4096 + 4096"
    using div_mult_mod_eq [of "unat memSize" 4096] mod_less_divisor [of 4096 "unat memSize"] by linarith+
  have max: "unat memSize < 2130706432" using assms(3) by simp
  have ok: "pages_ok ?s0"
  proof -
    have "?n \<le> 520192" using max nb by linarith
    then show ?thesis using nh base by (simp add: pages_ok_def n)
  qed
  have min: "unat usedMem + 16781312 \<le> unat memSize" using assms(2) by simp
  have n0: "4096 < ?n" using assms(1) min nb by linarith
  have g: "GetFreeMemNode ?s0 = Some 0"
    using n0 n by (simp add: GetFreeMemNode_def free_node_loop.simps)
  have run: "run_free ?s0 (unat ?u)" using nh by (simp add: run_free_def owned_def)
  have ub: "unat ?u * 4096 < unat usedMem + 4096" "0 < unat ?u"
    using assms(1) unfolding u by auto
  have un: "unat ?u + 4096 \<le> ?n"
    using ub nb min by linarith
  have us: "unat ?u < 2 ^ 20" using un max nb by simp
  from AllocPages_spec [OF ok ub(2) us run] g un n
  have "pages_ok s" "s = upd_node 0 (\<lambda>k. k\<lparr>reference := 1, count := ?u, flags := 0, memCache := None, group := None\<rparr>) ?s0"
    "\<And>h j. in_block s h j \<longleftrightarrow> h = 0 \<and> j < unat ?u"
    unfolding s using nh by auto
  note s' = this
  have cnt: "unat (memNodeCount s) = ?n" by (subst s'(2)) (simp add: n)
  have "blocks s = [0 \<mapsto> unat ?u]" by (subst s'(2)) (simp add: blocks_def fun_eq_iff)
  then have "blocks s = [0 \<mapsto> (unat usedMem + 4095) div 4096]" unfolding u .
  moreover have "\<not> owned s i \<and> unat memSize \<le> unat (MemNode2Page s i)" if "?n - 4095 \<le> i" "i < ?n" for i
  proof
    show "\<not> owned s i" using that un by (simp add: owned_def s'(3))
    have "memNodeBase s = NORMAL_MEM_ADDR" by (subst s'(2)) simp
    then show "unat memSize \<le> unat (MemNode2Page s i)"
      using MemNode2Page_unat [OF s'(1), of i] cnt that nb n0 base by simp
  qed
  ultimately show ?thesis
    using s'(1) cnt by (simp add: Let_def s_def)
qed

text \<open>Three pages, the first free, the second taken: two pages from the first overlap the second.\<close>

definition hole :: physmem where
  "hole = \<lparr>memNodeTable = (\<lambda>i. \<lparr>count = (if i = 1 then 1 else 0), flags = 0, reference = (if i = 1 then 1 else 0),
       memCache = None, group = None\<rparr>), memNodeCount = 3, memNodeBase = 0x1000000\<rparr>"

lemma hole_ok: "pages_ok hole" "GetFreeMemNode hole = Some 0" "in_block hole 1 1"
  by (auto simp: pages_ok_def hole_def in_block_def take_bit_eq_mod GetFreeMemNode_def free_node_loop.simps
      split: if_splits)

theorem page_blocks_overlap_witness:
  "in_block (fst (AllocPages hole 2)) 0 1 \<and> in_block (fst (AllocPages hole 2)) 1 1"
  using page_blocks_overlap [of hole 0 1 2 1] hole_ok by (auto simp: hole_def split: prod.splits)

theorem page_blocks_refined_witness:
  "snd (AllocPages hole 1) = 0x1000000 \<and> blocks (fst (FreePages (fst (AllocPages hole 1)) 0x1000000)) = blocks hole"
proof -
  have "AllocPages hole 1 = (fst (AllocPages hole 1), 0x1000000)"
    using hole_ok(2) by (simp add: AllocPages_def MemNode2Page_def) (simp add: hole_def)
  then obtain s' where eq: "AllocPages hole 1 = (s', 0x1000000)" by blast
  have "0 < unat (1 :: u32)" "unat (1 :: u32) < 2 ^ 20" by simp_all
  from page_blocks_refined [OF hole_ok(1) this] eq show ?thesis
    by (simp add: Let_def)
qed

end
