(* ===== verification/Bitmap.thy ===== *)
theory Bitmap
  imports CString
begin

text \<open>
  The bitmap of \<open>kernel/bitmap.c\<close>: bit \<open>i\<close> of a bitmap is bit \<open>i mod 8\<close> of the byte
  \<open>bits + i div 8\<close> of memory. Indices are natural numbers: a bitmap has fewer than \<open>2 ^ 28\<close>
  bytes (it lives in a 256 MB kernel heap), so none of the 32-bit index computations of the
  code wraps. The code's reads beyond the last byte (both scanning loops make one) read the
  memory that follows.

  The locale \<open>bit_array\<close> is the interface the allocators use: a test and an update with the
  read-over-write law. It is interpreted on \<open>BitmapScanTest\<close> and \<open>BitmapSet\<close>.
\<close>

section \<open>Model\<close>

record bitmap =
  btmpBytesLen :: nat
  bits :: addr

definition BitmapInit :: "mem \<Rightarrow> bitmap \<Rightarrow> mem" where
  "BitmapInit m btmp = fst (memset m (bits btmp) 0 (word_of_nat (btmpBytesLen btmp)))"

definition BitmapScanTest :: "mem \<Rightarrow> bitmap \<Rightarrow> nat \<Rightarrow> bool" where
  "BitmapScanTest m btmp bitIdx =
     (let byteIdx = bitIdx div 8; bitOdd = bitIdx mod 8
      in m (bits btmp + byteIdx) AND push_bit bitOdd 1 \<noteq> 0)"

function scan_byte :: "mem \<Rightarrow> bitmap \<Rightarrow> nat \<Rightarrow> nat" where
  "scan_byte m btmp idxByte =
     (if m (bits btmp + idxByte) = 0xff \<and> idxByte < btmpBytesLen btmp
      then scan_byte m btmp (idxByte + 1) else idxByte)"
  by pat_completeness auto
termination
  by (relation "measure (\<lambda>(m, btmp, i). btmpBytesLen btmp - i)") auto

lemma byte_and_exp: "(2 ^ i AND w = 0) = (\<not> bit (w :: u8) i)" "(w AND 2 ^ i = 0) = (\<not> bit (w :: u8) i)"
  using and_exp_eq_0_iff_not_bit [of w i] by (simp_all add: and.commute)

lemma byte_bit_ge: "\<not> i < 8 \<Longrightarrow> 2 ^ i AND (w :: u8) = 0"
  unfolding byte_and_exp by (rule impossible_bit) simp

text \<open>\<open>(unsigned char)(BITMAP_MASK << idxBit)\<close> is 0 from bit 8 on, which ends the loop.\<close>

function scan_bit :: "u8 \<Rightarrow> nat \<Rightarrow> nat" where
  "scan_bit byte idxBit =
     (if push_bit idxBit 1 AND byte \<noteq> 0 then scan_bit byte (idxBit + 1) else idxBit)"
  by pat_completeness auto
termination
proof (relation "measure (\<lambda>(w, i). 8 - i)", simp)
  fix byte :: u8 and i :: nat
  assume "push_bit i 1 AND byte \<noteq> 0"
  then have "i < 8" by (rule contrapos_np) (simp add: byte_bit_ge)
  then show "((byte, i + 1), byte, i) \<in> measure (\<lambda>(w, i). 8 - i)" by simp
qed

declare scan_byte.simps [simp del] scan_bit.simps [simp del]

fun scan_run :: "mem \<Rightarrow> bitmap \<Rightarrow> nat \<Rightarrow> nat \<Rightarrow> nat \<Rightarrow> nat \<Rightarrow> int" where
  "scan_run m btmp cnt 0 nextBit count = -1"
| "scan_run m btmp cnt (Suc bit_left) nextBit count =
     (let count = (if \<not> BitmapScanTest m btmp nextBit then count + 1 else 0)
      in if count = cnt then int nextBit - int cnt + 1
         else scan_run m btmp cnt bit_left (nextBit + 1) count)"

definition BitmapScan :: "mem \<Rightarrow> bitmap \<Rightarrow> nat \<Rightarrow> int" where
  "BitmapScan m btmp cnt =
     (let idxByte = scan_byte m btmp 0 in
      if idxByte = btmpBytesLen btmp then -1
      else
        let idxBit = scan_bit (m (bits btmp + idxByte)) 0;
            bitIdxStart = idxByte * 8 + idxBit
        in if cnt = 1 then int bitIdxStart
           else scan_run m btmp cnt (btmpBytesLen btmp * 8 - bitIdxStart) (bitIdxStart + 1) 1)"

definition BitmapSet :: "mem \<Rightarrow> bitmap \<Rightarrow> nat \<Rightarrow> bool \<Rightarrow> mem" where
  "BitmapSet m btmp bitIdx value =
     (let byteIdx = bitIdx div 8; bitOdd = bitIdx mod 8; a = bits btmp + byteIdx
      in if value then m(a := m a OR push_bit bitOdd 1)
         else m(a := m a AND NOT (push_bit bitOdd 1)))"

definition BitmapChange :: "mem \<Rightarrow> bitmap \<Rightarrow> nat \<Rightarrow> mem \<times> u8" where
  "BitmapChange m btmp bitIdx =
     (let byteIdx = bitIdx div 8; bitOdd = bitIdx mod 8; a = bits btmp + byteIdx;
          m' = m(a := m a XOR push_bit bitOdd 1)
      in (m', m' a AND push_bit bitOdd 1))"

definition BitmapTestAndChange :: "mem \<Rightarrow> bitmap \<Rightarrow> nat \<Rightarrow> mem \<times> u8" where
  "BitmapTestAndChange m btmp bitIdx =
     (let byteIdx = bitIdx div 8; bitOdd = bitIdx mod 8; a = bits btmp + byteIdx;
          ret = m a AND push_bit bitOdd 1
      in (m(a := m a XOR push_bit bitOdd 1), ret))"

section \<open>The interface of a bit array\<close>

locale bit_array =
  fixes test :: "'s \<Rightarrow> nat \<Rightarrow> bool" and upd :: "'s \<Rightarrow> nat \<Rightarrow> bool \<Rightarrow> 's"
  assumes test_upd: "test (upd s i v) j = (if j = i then v else test s j)"
begin

text \<open>\<open>for (i = 0; i < n; i++) set(start + i, v)\<close>\<close>

primrec upd_range :: "'s \<Rightarrow> nat \<Rightarrow> nat \<Rightarrow> bool \<Rightarrow> 's" where
  "upd_range s start 0 v = s"
| "upd_range s start (Suc n) v = upd (upd_range s start n v) (start + n) v"

lemma test_upd_range:
  "test (upd_range s start n v) j = (if start \<le> j \<and> j < start + n then v else test s j)"
  by (induction n) (auto simp: test_upd)

text \<open>Claiming a range that is clear and giving it back one bit at a time restores every bit.\<close>

lemma upd_range_restore:
  assumes "\<And>j. start \<le> j \<Longrightarrow> j < start + n \<Longrightarrow> test s j = v"
  shows "test (upd_range (upd_range s start n (\<not> v)) start n v) = test s"
  using assms by (auto simp: fun_eq_iff test_upd_range)

end

section \<open>Bits of a byte\<close>

lemma BitmapScanTest_bit:
  "BitmapScanTest m b i = bit (m (bits b + i div 8)) (i mod 8)"
  by (simp add: BitmapScanTest_def Let_def bit_iff_and_push_bit_not_eq_0)

lemma push_bit_and_iff: "push_bit i 1 AND w \<noteq> 0 \<longleftrightarrow> bit (w :: u8) i"
  by (simp add: byte_and_exp)

lemma div_mod_8_eq: "i div 8 = j div 8 \<Longrightarrow> i mod 8 = j mod 8 \<Longrightarrow> i = (j :: nat)"
  by (metis div_mult_mod_eq)

interpretation bm: bit_array "\<lambda>m. BitmapScanTest m b" "\<lambda>m. BitmapSet m b" for b
proof
  fix m i v j
  have mod8: "k mod 8 < 8" for k :: nat by simp
  show "BitmapScanTest (BitmapSet m b i v) b j = (if j = i then v else BitmapScanTest m b j)"
    using div_mod_8_eq [of j i] mod8 [of j]
    by (auto simp: BitmapScanTest_bit BitmapSet_def Let_def bit_simps)
qed

lemma BitmapSet_frame: "a \<noteq> bits b + i div 8 \<Longrightarrow> BitmapSet m b i v a = m a"
  by (simp add: BitmapSet_def Let_def)

lemma BitmapInit_clear: "i < 8 * btmpBytesLen b \<Longrightarrow> btmpBytesLen b < 2 ^ 32 \<Longrightarrow>
    \<not> BitmapScanTest (BitmapInit m b) b i"
proof -
  assume "i < 8 * btmpBytesLen b" and len: "btmpBytesLen b < 2 ^ 32"
  then have "i div 8 < btmpBytesLen b" by auto
  with len show ?thesis
    by (simp add: BitmapScanTest_bit BitmapInit_def memset_def memset_loop_eq unat_of_nat take_bit_nat_eq_self)
qed

lemma BitmapChange_test:
  "BitmapScanTest (fst (BitmapChange m b i)) b j = (BitmapScanTest m b j \<noteq> (j = i)) \<and>
   (snd (BitmapChange m b i) \<noteq> 0) = (\<not> BitmapScanTest m b i)"
proof -
  have "k mod 8 < 8" for k :: nat by simp
  then show ?thesis using div_mod_8_eq [of j i]
    by (auto simp: BitmapScanTest_bit BitmapChange_def Let_def byte_and_exp bit_simps)
qed

lemma BitmapTestAndChange_test:
  "BitmapScanTest (fst (BitmapTestAndChange m b i)) b j = (BitmapScanTest m b j \<noteq> (j = i)) \<and>
   (snd (BitmapTestAndChange m b i) \<noteq> 0) = BitmapScanTest m b i"
proof -
  have "k mod 8 < 8" for k :: nat by simp
  then show ?thesis using div_mod_8_eq [of j i]
    by (auto simp: BitmapScanTest_bit BitmapTestAndChange_def Let_def byte_and_exp bit_simps)
qed

section \<open>Scanning\<close>

lemma scan_byte_spec:
  "i \<le> btmpBytesLen b \<Longrightarrow>
   i \<le> scan_byte m b i \<and> scan_byte m b i \<le> btmpBytesLen b \<and>
   (\<forall>k. i \<le> k \<longrightarrow> k < scan_byte m b i \<longrightarrow> m (bits b + k) = 0xff) \<and>
   (scan_byte m b i < btmpBytesLen b \<longrightarrow> m (bits b + scan_byte m b i) \<noteq> 0xff)"
proof (induction m b i rule: scan_byte.induct)
  case (1 m b i)
  show ?case
  proof (cases "m (bits b + i) = 0xff \<and> i < btmpBytesLen b")
    case True
    then have "scan_byte m b i = scan_byte m b (i + 1)" by (subst scan_byte.simps) simp
    with 1 True show ?thesis
      by (subst all_ge_step) (simp add: Suc_le_eq less_imp_le)
  next
    case False
    then have "scan_byte m b i = i" by (subst scan_byte.simps) auto
    with 1 False show ?thesis by auto
  qed
qed

lemma scan_bit_spec:
  "\<not> bit w (scan_bit w i) \<and> i \<le> scan_bit w i \<and> (\<forall>k. i \<le> k \<longrightarrow> k < scan_bit w i \<longrightarrow> bit w k)"
proof (induction w i rule: scan_bit.induct)
  case (1 w i)
  show ?case
  proof (cases "bit w i")
    case True
    then have "push_bit i 1 AND w \<noteq> 0" unfolding push_bit_and_iff .
    with 1 True have "\<not> bit w (scan_bit w (i + 1)) \<and> i + 1 \<le> scan_bit w (i + 1) \<and>
        (\<forall>k. i + 1 \<le> k \<longrightarrow> k < scan_bit w (i + 1) \<longrightarrow> bit w k)" by blast
    moreover have "scan_bit w i = scan_bit w (i + 1)"
      using True by (subst scan_bit.simps) (simp only: push_bit_and_iff if_True)
    ultimately show ?thesis using True by (subst all_ge_step) simp
  next
    case False
    then have "scan_bit w i = i" by (subst scan_bit.simps) (simp only: push_bit_and_iff if_False)
    with False show ?thesis by simp
  qed
qed

text \<open>A run of \<open>n\<close> clear bits from \<open>s\<close> on.\<close>

definition clear_run :: "mem \<Rightarrow> bitmap \<Rightarrow> nat \<Rightarrow> nat \<Rightarrow> bool" where
  "clear_run m b s n \<longleftrightarrow> (\<forall>j. s \<le> j \<and> j < s + n \<longrightarrow> \<not> BitmapScanTest m b j)"

lemma clear_runD: "clear_run m b s n \<Longrightarrow> s \<le> j \<Longrightarrow> j < s + n \<Longrightarrow> \<not> BitmapScanTest m b j"
  by (simp add: clear_run_def)

text \<open>
  The loop invariant: the last \<open>count\<close> bits are clear and no run of \<open>cnt\<close> clear bits starts
  before them.
\<close>

definition scan_inv :: "mem \<Rightarrow> bitmap \<Rightarrow> nat \<Rightarrow> nat \<Rightarrow> nat \<Rightarrow> bool" where
  "scan_inv m b cnt nextBit count \<longleftrightarrow> count < cnt \<and> count \<le> nextBit \<and>
     clear_run m b (nextBit - count) count \<and> (\<forall>s < nextBit - count. \<not> clear_run m b s cnt)"

lemma scan_inv_clear:
  assumes "scan_inv m b cnt nb c" "\<not> BitmapScanTest m b nb"
  shows "if c + 1 = cnt
    then clear_run m b (nb + 1 - cnt) cnt \<and> (\<forall>s < nb + 1 - cnt. \<not> clear_run m b s cnt)
    else scan_inv m b cnt (nb + 1) (c + 1)"
proof -
  have "clear_run m b (nb - c) (c + 1)"
    unfolding clear_run_def
  proof (intro allI impI)
    fix j assume j: "nb - c \<le> j \<and> j < nb - c + (c + 1)"
    have "c \<le> nb" "clear_run m b (nb - c) c" using assms(1) by (simp_all add: scan_inv_def)
    then show "\<not> BitmapScanTest m b j"
      using j assms(2) clear_runD [of m b "nb - c" c j] by (cases "j = nb") auto
  qed
  with assms show ?thesis by (auto simp: scan_inv_def)
qed

lemma scan_inv_set:
  assumes "scan_inv m b cnt nb c" "BitmapScanTest m b nb"
  shows "scan_inv m b cnt (nb + 1) 0"
proof -
  have "\<not> clear_run m b s cnt" if "s < nb + 1" for s
  proof (cases "s < nb - c")
    case True
    with assms show ?thesis by (simp add: scan_inv_def)
  next
    case False
    then have "s \<le> nb" "nb < s + cnt" using that assms(1) by (auto simp: scan_inv_def)
    with assms(2) show ?thesis using clear_runD by blast
  qed
  with assms show ?thesis by (auto simp: scan_inv_def clear_run_def)
qed

lemma scan_run_spec:
  "scan_inv m b cnt nb c \<Longrightarrow>
   (scan_run m b cnt left nb c = -1 \<longrightarrow> (\<forall>s. s + cnt \<le> nb + left \<longrightarrow> \<not> clear_run m b s cnt)) \<and>
   (scan_run m b cnt left nb c \<noteq> -1 \<longrightarrow>
      (\<exists>r. scan_run m b cnt left nb c = int r \<and> clear_run m b r cnt \<and> r + cnt \<le> nb + left \<and>
         (\<forall>s < r. \<not> clear_run m b s cnt)))"
proof (induction left arbitrary: nb c)
  case 0
  then show ?case by (auto simp: scan_inv_def)
next
  case (Suc left)
  show ?case
  proof (cases "BitmapScanTest m b nb")
    case True
    have "cnt \<noteq> 0" using Suc.prems by (simp add: scan_inv_def)
    with True Suc.IH [OF scan_inv_set [OF Suc.prems True]] show ?thesis by simp
  next
    case False
    show ?thesis
    proof (cases "c + 1 = cnt")
      case True
      moreover have "c \<le> nb" using Suc.prems by (simp add: scan_inv_def)
      ultimately show ?thesis using False scan_inv_clear [OF Suc.prems False]
        by (auto intro!: exI [of _ "nb + 1 - cnt"])
    next
      case False': False
      with scan_inv_clear [OF Suc.prems False] have "scan_inv m b cnt (nb + 1) (c + 1)" by simp
      with Suc.IH [OF this] False False' show ?thesis by simp
    qed
  qed
qed

text \<open>The two byte and bit loops find the first clear bit of the whole bitmap.\<close>

lemma first_clear:
  assumes "scan_byte m b 0 \<noteq> btmpBytesLen b"
  defines "f \<equiv> scan_byte m b 0 * 8 + scan_bit (m (bits b + scan_byte m b 0)) 0"
  shows "\<not> BitmapScanTest m b f \<and> f < 8 * btmpBytesLen b \<and> (\<forall>j < f. BitmapScanTest m b j)"
proof -
  let ?i = "scan_byte m b 0" and ?w = "m (bits b + scan_byte m b 0)"
  have i: "?i < btmpBytesLen b" "\<And>k. k < ?i \<Longrightarrow> m (bits b + k) = 0xff" "?w \<noteq> 0xff"
    using scan_byte_spec [of 0 b m] assms(1) by auto
  have full: "bit (0xff :: u8) k" if "k < 8" for k
    using that unfolding less_8 by (elim disjE) simp_all
  have k: "\<not> bit ?w (scan_bit ?w 0)" "\<And>k. k < scan_bit ?w 0 \<Longrightarrow> bit ?w k"
    using scan_bit_spec [of ?w 0] by auto
  have "scan_bit ?w 0 < 8"
  proof (rule ccontr)
    assume "\<not> scan_bit ?w 0 < 8"
    then have "?w = 0xff" using k(2) full by (intro bit_word_eqI) auto
    with i(3) show False ..
  qed
  moreover have "BitmapScanTest m b j" if "j < f" for j
  proof (cases "j div 8 = ?i")
    case True
    with that have "j mod 8 < scan_bit ?w 0" unfolding f_def by (metis add_less_cancel_left div_mult_mod_eq)
    with True k show ?thesis by (simp add: BitmapScanTest_bit)
  next
    case False
    with that have "j div 8 < ?i" using \<open>scan_bit ?w 0 < 8\<close> unfolding f_def by auto
    with i(2) full show ?thesis by (simp add: BitmapScanTest_bit)
  qed
  ultimately show ?thesis using i(1) k(1) unfolding f_def by (auto simp: BitmapScanTest_bit)
qed


text \<open>The exact reach of the scan: it looks one bit beyond the bitmap when more than one is asked.\<close>

lemma BitmapScan_spec:
  fixes b :: bitmap
  assumes "0 < cnt"
  defines "T \<equiv> 8 * btmpBytesLen b + (if cnt = 1 then 0 else 1)"
  shows "(BitmapScan m b cnt = -1 \<longrightarrow> (\<forall>s. s + cnt \<le> T \<longrightarrow> \<not> clear_run m b s cnt)) \<and>
    (BitmapScan m b cnt \<noteq> -1 \<longrightarrow> (\<exists>r. BitmapScan m b cnt = int r \<and>
       clear_run m b r cnt \<and> r + cnt \<le> T \<and> (\<forall>s < r. \<not> clear_run m b s cnt)))"
proof (cases "scan_byte m b 0 = btmpBytesLen b")
  case True
  have "BitmapScanTest m b j" if "j < 8 * btmpBytesLen b" for j
  proof -
    have "m (bits b + j div 8) = 0xff"
      using that True scan_byte_spec [of 0 b m] by auto
    moreover have "bit (0xff :: u8) k" if "k < 8" for k
      using that unfolding less_8 by (elim disjE) simp_all
    ultimately show ?thesis by (simp add: BitmapScanTest_bit)
  qed
  then have "\<not> clear_run m b s cnt" if "s + cnt \<le> T" for s
    using that assms unfolding T_def clear_run_def by (intro notI) (auto split: if_splits dest!: spec [of _ s])
  with True show ?thesis by (simp add: BitmapScan_def)
next
  case False
  define f where "f = scan_byte m b 0 * 8 + scan_bit (m (bits b + scan_byte m b 0)) 0"
  have f: "\<not> BitmapScanTest m b f" "f < 8 * btmpBytesLen b" "\<And>j. j < f \<Longrightarrow> BitmapScanTest m b j"
    using first_clear [OF False] unfolding f_def by auto
  have before: "\<not> clear_run m b s cnt" if "s < f" for s
    using f(3) [OF that] assms(1) clear_runD [of m b s cnt s] by auto
  show ?thesis
  proof (cases "cnt = 1")
    case True
    have "BitmapScan m b cnt = int f"
      using True False by (simp add: BitmapScan_def f_def Let_def)
    moreover have "clear_run m b f cnt" using f(1) True by (auto simp: clear_run_def less_Suc_eq)
    ultimately show ?thesis using f(2) before True by (auto simp: T_def)
  next
    case cnt: False
    have scan: "BitmapScan m b cnt = scan_run m b cnt (btmpBytesLen b * 8 - f) (f + 1) 1"
      using False cnt by (simp add: BitmapScan_def f_def Let_def)
    have "scan_inv m b cnt (f + 1) 1"
      using cnt assms(1) f before by (auto simp: scan_inv_def clear_run_def le_less_Suc_eq)
    from scan_run_spec [OF this, of "btmpBytesLen b * 8 - f"] scan f(2) cnt
    show ?thesis by (simp add: T_def algebra_simps)
  qed
qed

section \<open>Properties\<close>

text \<open>
  a scan for \<open>cnt > 0\<close> bits is first fit: it fails only if the bitmap has no run of \<open>cnt\<close>
  clear bits, and otherwise returns the start of the first such run in memory order.
\<close>

theorem BitmapScan_first_fit:
  assumes "0 < cnt"
  shows "(BitmapScan m b cnt = -1 \<longrightarrow> (\<forall>s. s + cnt \<le> 8 * btmpBytesLen b \<longrightarrow> \<not> clear_run m b s cnt)) \<and>
    (BitmapScan m b cnt \<noteq> -1 \<longrightarrow> (\<exists>r. BitmapScan m b cnt = int r \<and>
       clear_run m b r cnt \<and> r + cnt \<le> 8 * btmpBytesLen b + 1 \<and> (\<forall>s < r. \<not> clear_run m b s cnt)))"
  using BitmapScan_spec [OF assms, of m b] by (auto split: if_splits)

text \<open>
  the scan for several bits looks one bit too far. If only the last bit of a bitmap is
  clear and the byte that follows the bitmap in memory has bit 0 clear, a scan for two bits
  succeeds with a range whose second bit is outside the bitmap.
\<close>

theorem BitmapScan_past_end:
  assumes "0 < btmpBytesLen b"
    and "\<And>j. j < 8 * btmpBytesLen b - 1 \<Longrightarrow> BitmapScanTest m b j"
    and "\<not> BitmapScanTest m b (8 * btmpBytesLen b - 1)"
    and "\<not> BitmapScanTest m b (8 * btmpBytesLen b)"
  shows "BitmapScan m b 2 = int (8 * btmpBytesLen b - 1)"
proof -
  let ?e = "8 * btmpBytesLen b - 1"
  have run: "clear_run m b ?e 2"
    using assms by (auto simp: clear_run_def numeral_2_eq_2 less_Suc_eq le_less)
  have none: "\<not> clear_run m b s 2" if "s < ?e" for s
    using assms(2) [OF that] clear_runD [of m b s 2 s] by auto
  have "BitmapScan m b 2 \<noteq> -1"
    using BitmapScan_spec [of 2 m b] run assms(1) by force
  then obtain r where r: "BitmapScan m b 2 = int r" "clear_run m b r 2" "\<forall>s < r. \<not> clear_run m b s 2"
    using BitmapScan_spec [of 2 m b] by auto
  with run none have "r = ?e" by (metis linorder_neqE_nat)
  with r(1) show ?thesis by simp
qed

end
