(* ===== verification/MemCache.thy ===== *)
theory MemCache
  imports PhyMem Bitmap KList
begin

text \<open>
  The kernel heap of \<open>mm/memcache.c\<close>: a cache for each object size of 32 bytes to 128 KB, each with a
  full, a partial and a free list of groups. A group describes up to 1024 objects of one size with a
  bitmap; the page of the group holds the objects themselves when they are smaller than 1 KB, else
  they are in 1 MB of pages of their own. \<open>struct MemNode\<close> of each page that holds objects points back
  to the cache and the group, which is how \<open>kfree\<close> finds them.

  A cache is its index in \<open>memCacheTable\<close>, a group its address. The fields of groups and caches are
  records; the bitmaps are in the flat memory \<open>hmem\<close> behind the group, the list nodes in \<open>hlinks\<close>, the
  pages in \<open>phys\<close>. \<open>None\<close> is a Panic or a NULL dereference; a NULL result is address 0. What runs
  with interrupts off is one step. The contents of the objects belong to the callers.
\<close>

section \<open>Model\<close>

datatype hnode = Full nat | Partial nat | Free nat | GroupNode addr

record MemGroup =
  gmap :: bitmap
  objects :: addr
  usingCount :: u32
  freeCount :: u32
  gflags :: u32

record MemCache =
  objectSize :: u32
  cflags :: u32
  objectNumber :: u32
  cname :: string

record heap =
  hmem :: mem
  hlinks :: "hnode links"
  groupAt :: "addr \<Rightarrow> MemGroup"
  memCacheTable :: "nat \<Rightarrow> MemCache"
  cachePtr :: "nat \<Rightarrow> nat option"
  phys :: physmem

definition cacheSizes :: "u32 list" where
  "cacheSizes = [32, 64, 128, 256, 512, 1024, 2048, 4096, 8 * 1024, 16 * 1024, 32 * 1024, 64 * 1024, 128 * 1024]"

definition MAX_MEM_CACHE_SIZE :: u32 where
  "MAX_MEM_CACHE_SIZE = 128 * 1024"

definition MAX_MEM_CACHE_NR :: nat where
  "MAX_MEM_CACHE_NR = 13"

definition SIZEOF_MEM_GROUP :: nat where
  "SIZEOF_MEM_GROUP = 32"

text \<open>The macro of \<open>page.h\<close>; it adds the alignment even to an aligned number.\<close>

definition ALIGN_WITH :: "u32 \<Rightarrow> u32 \<Rightarrow> u32" where
  "ALIGN_WITH x y = (x + y) AND NOT (y - 1)"

definition upd_group :: "addr \<Rightarrow> (MemGroup \<Rightarrow> MemGroup) \<Rightarrow> heap \<Rightarrow> heap" where
  "upd_group g f s = s\<lparr>groupAt := (groupAt s)(g := f (groupAt s g))\<rparr>"

definition with_hlinks :: "(hnode links \<Rightarrow> hnode links option) \<Rightarrow> heap \<Rightarrow> heap option" where
  "with_hlinks f s = do { l \<leftarrow> f (hlinks s); Some (s\<lparr>hlinks := l\<rparr>) }"

definition MemCacheInit :: "heap \<Rightarrow> nat \<Rightarrow> string \<Rightarrow> u32 \<Rightarrow> u32 \<Rightarrow> heap \<times> int" where
  "MemCacheInit s cache nm sz fl =
     (if sz = 0 then (s, -1)
      else
        let s = s\<lparr>hlinks := INIT_LIST_HEAD (Free cache) (INIT_LIST_HEAD (Partial cache) (INIT_LIST_HEAD (Full cache) (hlinks s)))\<rparr>;
            number =
              (if sz < 1024 then
                 (let groupSize = ALIGN_WITH (word_of_nat SIZEOF_MEM_GROUP) 8; leftSize = 4096 - groupSize - 16
                  in leftSize div sz)
               else if sz \<le> 128 * 1024 then 0x100000 div sz
               else if sz \<le> 4 * 1024 * 1024 then 0x400000 div sz
               else objectNumber (memCacheTable s cache))
        in (s\<lparr>memCacheTable := (memCacheTable s)(cache :=
                 \<lparr>objectSize = sz, cflags = fl, objectNumber = number, cname = nm\<rparr>)\<rparr>, 0))"

definition MemCacheAllocPages :: "heap \<Rightarrow> u32 \<Rightarrow> heap \<times> addr" where
  "MemCacheAllocPages s n =
     (let (p, page) = AllocPages (phys s) n
      in if page = 0 then (s\<lparr>phys := p\<rparr>, 0) else (s\<lparr>phys := p\<rparr>, Phy2Vir page))"

definition MemCacheFreePages :: "heap \<Rightarrow> addr \<Rightarrow> heap \<times> int" where
  "MemCacheFreePages s address =
     (if address = 0 then (s, -1)
      else let page = Vir2Phy address in
        if page = 0 then (s, -1) else (s\<lparr>phys := fst (FreePages (phys s) page)\<rparr>, 0))"

definition MEM_NODE_MARK_CHACHE_GROUP :: "nat \<Rightarrow> nat \<Rightarrow> addr \<Rightarrow> heap \<Rightarrow> heap" where
  "MEM_NODE_MARK_CHACHE_GROUP node cache g s =
     s\<lparr>phys := upd_node node (\<lambda>n. n\<lparr>memCache := Some cache, group := Some g\<rparr>) (phys s)\<rparr>"

text \<open>The loop of \<open>MemGroupInit\<close> that marks the pages of the objects; it stops the kernel at a page without a node.\<close>

fun mark_loop :: "heap \<Rightarrow> nat \<Rightarrow> addr \<Rightarrow> nat \<Rightarrow> nat \<Rightarrow> heap option" where
  "mark_loop s cache g i 0 = Some s"
| "mark_loop s cache g i (Suc k) =
     do { node \<leftarrow> Page2MemNode (phys s) (Vir2Phy (objects (groupAt s g) + i * 4096));
          mark_loop (MEM_NODE_MARK_CHACHE_GROUP node cache g s) cache g (i + 1) k }"

definition MemGroupInit :: "heap \<Rightarrow> nat \<Rightarrow> addr \<Rightarrow> u32 \<Rightarrow> (heap \<times> int) option" where
  "MemGroupInit s cache g fl =
     do { s \<leftarrow> with_hlinks (ListAdd (GroupNode g) (Free cache)) s;
          let m = g + SIZEOF_MEM_GROUP;
          let C = memCacheTable s cache;
          let s = upd_group g (\<lambda>G. G\<lparr>gmap := \<lparr>btmpBytesLen = unat ((objectNumber C + 8 - 1) div 8), bits = m\<rparr>\<rparr>) s;
          let s = s\<lparr>hmem := BitmapInit (hmem s) (gmap (groupAt s g))\<rparr>;
          (s, ret) \<leftarrow>
            (if objectSize C < 1024 then
               do { let s = upd_group g (\<lambda>G. G\<lparr>objects := m + 16\<rparr>) s;
                    node \<leftarrow> Page2MemNode (phys s) (Vir2Phy g);
                    Some (MEM_NODE_MARK_CHACHE_GROUP node cache g s, 0) }
             else
               do { let pages = (objectNumber C * objectSize C + 4096 - 1) div 4096;
                    let (s, p) = MemCacheAllocPages s pages;
                    let s = upd_group g (\<lambda>G. G\<lparr>objects := p\<rparr>) s;
                    if p = 0 then Some (s, -1)
                    else do { s \<leftarrow> mark_loop s cache g 0 (unat pages); Some (s, 0 :: int) } });
          if ret \<noteq> 0 then Some (s, ret)
          else Some (upd_group g (\<lambda>G. G\<lparr>usingCount := 0, freeCount := objectNumber C, gflags := fl\<rparr>) s, 0) }"

definition CreateMemGroup :: "heap \<Rightarrow> nat \<Rightarrow> u32 \<Rightarrow> (heap \<times> int) option" where
  "CreateMemGroup s cache fl =
     (let (s, g) = MemCacheAllocPages s 1 in
      if g = 0 then Some (s, -1)
      else do { (s, ret) \<leftarrow> MemGroupInit s cache g fl;
                if ret \<noteq> 0 then Some (fst (MemCacheFreePages s g), -1) else Some (s, 0) })"

fun make_caches_loop :: "heap \<Rightarrow> nat \<Rightarrow> u32 list \<Rightarrow> heap \<times> int" where
  "make_caches_loop s i [] = (s, 0)"
| "make_caches_loop s i (sz # szs) =
     (let (s, ret) = MemCacheInit s i ''mem cache'' sz 0 in
      if ret \<noteq> 0 then (s, -1) else make_caches_loop (s\<lparr>cachePtr := (cachePtr s)(i := Some i)\<rparr>) (i + 1) szs)"

definition MakeMemCaches :: "heap \<Rightarrow> heap \<times> int" where
  "MakeMemCaches s = make_caches_loop s 0 cacheSizes"

definition MemGroupAllocObjcet :: "heap \<Rightarrow> nat \<Rightarrow> addr \<Rightarrow> (heap \<times> addr) option" where
  "MemGroupAllocObjcet s cache g =
     (let idx = BitmapScan (hmem s) (gmap (groupAt s g)) 1 in
      if idx = -1 then Some (s, 0)
      else
        do { let s = s\<lparr>hmem := BitmapSet (hmem s) (gmap (groupAt s g)) (nat idx) True\<rparr>;
             let object = objects (groupAt s g) + nat idx * unat (objectSize (memCacheTable s cache));
             let s = upd_group g (\<lambda>G. G\<lparr>usingCount := usingCount G + 1, freeCount := freeCount G - 1\<rparr>) s;
             s \<leftarrow> (if freeCount (groupAt s g) = 0
                   then with_hlinks (\<lambda>l. ListDel (GroupNode g) l \<bind> ListAddTail (GroupNode g) (Full cache)) s
                   else Some s);
             Some (s, object) })"

definition ListOwner_group :: "hnode \<Rightarrow> addr option" where
  "ListOwner_group n = (case n of GroupNode g \<Rightarrow> Some g | _ \<Rightarrow> None)"

partial_function (option) GroupAllocObjcet :: "heap \<Rightarrow> nat \<Rightarrow> (heap \<times> addr) option" where
  "GroupAllocObjcet s cache =
     (if ListEmpty (Partial cache) (hlinks s) \<and> ListEmpty (Free cache) (hlinks s) then
        do { (s, ret) \<leftarrow> CreateMemGroup s cache 0;
             if ret \<noteq> 0 then Some (s, 0) else GroupAllocObjcet s cache }
      else if ListEmpty (Partial cache) (hlinks s) then
        do { node \<leftarrow> lnext (hlinks s) (Free cache);
             s \<leftarrow> with_hlinks (\<lambda>l. ListDel node l \<bind> ListAddTail node (Partial cache)) s;
             g \<leftarrow> ListOwner_group node;
             MemGroupAllocObjcet s cache g }
      else
        do { node \<leftarrow> lnext (hlinks s) (Partial cache);
             g \<leftarrow> ListOwner_group node;
             MemGroupAllocObjcet s cache g })"

fun size_loop :: "nat \<Rightarrow> u32 list \<Rightarrow> u32 \<Rightarrow> nat" where
  "size_loop i [] sz = i"
| "size_loop i (cs # r) sz = (if sz \<le> cs then i else size_loop (i + 1) r sz)"

definition kmalloc :: "heap \<Rightarrow> u32 \<Rightarrow> (heap \<times> addr) option" where
  "kmalloc s sz =
     (if MAX_MEM_CACHE_SIZE < sz then Some (s, 0)
      else do { cache \<leftarrow> cachePtr s (size_loop 0 cacheSizes sz); GroupAllocObjcet s cache })"

definition GroupFreeObject :: "heap \<Rightarrow> nat option \<Rightarrow> addr \<Rightarrow> heap option" where
  "GroupFreeObject s cp object =
     do { node \<leftarrow> Page2MemNode (phys s) (Vir2Phy object);
          g \<leftarrow> group (memNodeTable (phys s) node);
          cache \<leftarrow> cp;
          let C = memCacheTable s cache;
          let index = (word_of_nat object - word_of_nat (objects (groupAt s g))) div objectSize C;
          if sint index < 0 \<or> btmpBytesLen (gmap (groupAt s g)) * 8 < unat index then None
          else do {
            let s = s\<lparr>hmem := BitmapSet (hmem s) (gmap (groupAt s g)) (unat index) False\<rparr>;
            let unsing = usingCount (groupAt s g);
            let s = upd_group g (\<lambda>G. G\<lparr>usingCount := usingCount G - 1, freeCount := freeCount G + 1\<rparr>) s;
            if usingCount (groupAt s g) = 0 then
              with_hlinks (\<lambda>l. ListDel (GroupNode g) l \<bind> ListAddTail (GroupNode g) (Free cache)) s
            else if unsing = objectNumber C then
              with_hlinks (\<lambda>l. ListDel (GroupNode g) l \<bind> ListAddTail (GroupNode g) (Partial cache)) s
            else Some s } }"

definition kfree :: "heap \<Rightarrow> addr \<Rightarrow> heap option" where
  "kfree s object =
     (if object = 0 then Some s
      else do { node \<leftarrow> Page2MemNode (phys s) (Vir2Phy object);
                GroupFreeObject s (memCache (memNodeTable (phys s) node)) object })"

definition GroupDestory :: "heap \<Rightarrow> nat \<Rightarrow> addr \<Rightarrow> (heap \<times> int) option" where
  "GroupDestory s cache g =
     do { s \<leftarrow> with_hlinks (ListDel (GroupNode g)) s;
          if objectSize (memCacheTable s cache) < 1024 then
            (let (s, ret) = MemCacheFreePages s g in Some (s, if ret \<noteq> 0 then -1 else 0))
          else
            (let (s, ret) = MemCacheFreePages s (objects (groupAt s g)) in
             if ret \<noteq> 0 then Some (s, -1)
             else let (s, ret) = MemCacheFreePages s g in Some (s, if ret \<noteq> 0 then -1 else 0)) }"

partial_function (option) shrink_loop :: "heap \<Rightarrow> nat \<Rightarrow> hnode option \<Rightarrow> hnode option \<Rightarrow> u32 \<Rightarrow> (heap \<times> u32) option" where
  "shrink_loop s cache pos nxt ret =
     (if pos = Some (Free cache) then Some (s, ret)
      else do { node \<leftarrow> pos; g \<leftarrow> ListOwner_group node; q \<leftarrow> nxt;
                (s, r) \<leftarrow> GroupDestory s cache g;
                shrink_loop s cache nxt (lnext (hlinks s) q) (if r = 0 then ret + 1 else ret) })"

definition MemCacheShrink :: "heap \<Rightarrow> nat option \<Rightarrow> (heap \<times> u32) option" where
  "MemCacheShrink s cp =
     (case cp of None \<Rightarrow> Some (s, 0)
      | Some cache \<Rightarrow>
          do { first \<leftarrow> lnext (hlinks s) (Free cache);
               (s, ret) \<leftarrow> shrink_loop s cache (Some first) (lnext (hlinks s) first) 0;
               Some (s, ret * objectNumber (memCacheTable s cache) * objectSize (memCacheTable s cache)) })"

fun shrink_all :: "heap \<Rightarrow> nat \<Rightarrow> u32 list \<Rightarrow> u32 \<Rightarrow> (heap \<times> u32) option" where
  "shrink_all s i [] acc = Some (s, acc)"
| "shrink_all s i (sz # r) acc =
     do { (s, n) \<leftarrow> MemCacheShrink s (cachePtr s i); shrink_all s (i + 1) r (acc + n) }"

definition kmshrink :: "heap \<Rightarrow> (heap \<times> u32) option" where
  "kmshrink s = shrink_all s 0 cacheSizes 0"

end
