(* ===== verification/MemProofs.thy ===== *)
theory MemProofs
  imports MemCache
begin

text \<open>
  Correctness of the kernel heap. \<open>heap_inv s L X\<close> is the invariant: the page table is consistent, the
  caches have the sizes \<open>SZ\<close> and group capacities \<open>NUM\<close>, the lists hold the groups \<open>L\<close>, each
  group's bitmap, counts, pages and page marks agree (\<open>grp_ok\<close>), and a group is on the list that its number
  of used objects calls for (\<open>on_right_list\<close>), except those of \<open>X\<close>. \<open>live\<close> is the set of
  allocated objects with their sizes.
\<close>

section \<open>Sizes\<close>

definition SZ :: "nat \<Rightarrow> nat" where
  "SZ c = 2 ^ (c + 5)"

definition NUM :: "nat \<Rightarrow> nat" where
  "NUM c = (if c < 5 then 4040 div 2 ^ (c + 5) else 2 ^ (15 - c))"

lemma cache_cases: "c < 13 \<Longrightarrow> c = 0 \<or> c = 1 \<or> c = 2 \<or> c = 3 \<or> c = 4 \<or> c = 5 \<or> c = 6 \<or> c = 7 \<or> c = 8 \<or> c = 9 \<or> c = 10 \<or> c = 11 \<or> c = 12"
  for c :: nat by presburger

lemma SZ_pos [simp]: "0 < SZ c"
  by (simp add: SZ_def)

lemma NUM_facts:
  assumes "c < 13"
  shows "1 < NUM c" "NUM c \<le> 1024" "SZ c \<le> 131072" "NUM c * SZ c \<le> 1048576"
    "SZ c < 1024 \<longleftrightarrow> c < 5" "c < 5 \<Longrightarrow> NUM c * SZ c + 48 \<le> 4096" "c < 5 \<Longrightarrow> (NUM c + 7) div 8 \<le> 16"
    "\<not> c < 5 \<Longrightarrow> NUM c * SZ c = 1048576" "(NUM c + 7) div 8 \<le> 128"
  using cache_cases [OF assms] by (auto simp: NUM_def SZ_def)

definition caches_ok :: "heap \<Rightarrow> bool" where
  "caches_ok s \<longleftrightarrow> (\<forall>c < 13. cachePtr s c = Some c \<and>
     unat (objectSize (memCacheTable s c)) = SZ c \<and> unat (objectNumber (memCacheTable s c)) = NUM c)"

lemma caches_okD:
  assumes "caches_ok s" "c < 13"
  shows "cachePtr s c = Some c" "unat (objectSize (memCacheTable s c)) = SZ c"
    "unat (objectNumber (memCacheTable s c)) = NUM c"
  using assms by (simp_all add: caches_ok_def)

lemma objectSize_small: "caches_ok s \<Longrightarrow> c < 13 \<Longrightarrow> objectSize (memCacheTable s c) < 1024 \<longleftrightarrow> c < 5"
  using NUM_facts(5) [of c] by (simp add: word_less_nat_alt caches_okD)

section \<open>The lists of a cache\<close>

definition heads :: "nat \<Rightarrow> hnode set" where
  "heads c = {Full c, Partial c, Free c}"

definition all_heads :: "hnode set" where
  "all_heads = (\<Union>c \<in> {..<13}. heads c)"

definition lists_ok :: "hnode links \<Rightarrow> (hnode \<Rightarrow> addr list) \<Rightarrow> bool" where
  "lists_ok lk L \<longleftrightarrow>
     (\<forall>h \<in> all_heads. dlist lk h (map GroupNode (L h))) \<and>
     (\<forall>h \<in> all_heads. \<forall>h' \<in> all_heads. h \<noteq> h' \<longrightarrow> set (L h) \<inter> set (L h') = {})"

lemma headsI [simp]:
  "Full c \<in> heads c" "Partial c \<in> heads c" "Free c \<in> heads c"
  "c < 13 \<Longrightarrow> Full c \<in> all_heads" "c < 13 \<Longrightarrow> Partial c \<in> all_heads" "c < 13 \<Longrightarrow> Free c \<in> all_heads"
  "c < 13 \<Longrightarrow> h \<in> heads c \<Longrightarrow> h \<in> all_heads" "GroupNode g \<notin> all_heads"
  by (auto simp: heads_def all_heads_def)

lemma lists_okD:
  assumes "lists_ok lk L" "h \<in> all_heads"
  shows "dlist lk h (map GroupNode (L h))" "distinct (L h)"
    "h' \<in> all_heads \<Longrightarrow> g \<in> set (L h) \<Longrightarrow> g \<in> set (L h') \<Longrightarrow> h = h'"
  using assms dlist_distinct(1) [of lk h "map GroupNode (L h)"] by (auto simp: lists_ok_def distinct_map)

lemma remove1_map_inj: "inj f \<Longrightarrow> remove1 (f x) (map f xs) = map f (remove1 x xs)"
  by (induction xs) (auto dest: injD)

lemma inj_GroupNode: "inj GroupNode"
  by (simp add: inj_def)

text \<open>Taking a group off a list, and moving it to another.\<close>

lemma lists_ok_del:
  assumes ok: "lists_ok lk L" and a: "a \<in> all_heads" and g: "g \<in> set (L a)"
  shows "\<exists>lk'. ListDel (GroupNode g) lk = Some lk' \<and> lists_ok lk' (L(a := remove1 g (L a))) \<and>
     agree (set (a # map GroupNode (L a))) lk lk'"
proof -
  obtain lk' where d: "ListDel (GroupNode g) lk = Some lk'"
      "dlist lk' a (map GroupNode (remove1 g (L a)))" "agree (set (a # map GroupNode (L a))) lk lk'"
    using ListDel_dlist [OF lists_okD(1) [OF ok a], of "GroupNode g"] g
    by (auto simp: remove1_map_inj [OF inj_GroupNode])
  have "dlist lk' h (map GroupNode (L h))" if "h \<in> all_heads" "h \<noteq> a" for h
  proof -
    have "set (L h) \<inter> set (L a) = {}" using ok that a unfolding lists_ok_def by blast
    then have "set (a # map GroupNode (L a)) \<inter> set (h # map GroupNode (L h)) = {}"
      using that a by auto
    then show ?thesis by (rule dlist_agree [OF d(3) lists_okD(1) [OF ok that(1)]])
  qed
  moreover have "set (remove1 g (L a)) \<subseteq> set (L a)" by (rule set_remove1_subset)
  moreover have "\<forall>h \<in> all_heads. \<forall>h' \<in> all_heads. h \<noteq> h' \<longrightarrow> set (L h) \<inter> set (L h') = {}"
    using ok by (simp add: lists_ok_def)
  ultimately have "lists_ok lk' (L(a := remove1 g (L a)))"
    using d(2) unfolding lists_ok_def by (simp; blast)
  then show ?thesis using d by blast
qed

lemma lists_ok_add:
  assumes ok: "lists_ok lk L" and b: "b \<in> all_heads" and g: "\<And>h. h \<in> all_heads \<Longrightarrow> g \<notin> set (L h)"
  shows "\<exists>lk'. ListAddTail (GroupNode g) b lk = Some lk' \<and> lists_ok lk' (L(b := L b @ [g]))"
    "\<exists>lk'. ListAdd (GroupNode g) b lk = Some lk' \<and> lists_ok lk' (L(b := g # L b))"
proof -
  have n: "GroupNode g \<notin> set (b # map GroupNode (L b))" using g [OF b] b by auto
  have frame: "dlist lk' h (map GroupNode (L h))"
    if "agree (set (b # GroupNode g # map GroupNode (L b))) lk lk'" "h \<in> all_heads" "h \<noteq> b" for lk' h
  proof -
    have "set (L h) \<inter> set (L b) = {}" using ok that b unfolding lists_ok_def by blast
    then have "set (b # GroupNode g # map GroupNode (L b)) \<inter> set (h # map GroupNode (L h)) = {}"
      using that b g by auto
    then show ?thesis by (rule dlist_agree [OF that(1) lists_okD(1) [OF ok that(2)]])
  qed
  have dj: "\<forall>h \<in> all_heads. \<forall>h' \<in> all_heads. h \<noteq> h' \<longrightarrow> set (L h) \<inter> set (L h') = {}"
    using ok by (simp add: lists_ok_def)
  obtain l1 where l1: "ListAddTail (GroupNode g) b lk = Some l1" "dlist l1 b (map GroupNode (L b @ [g]))"
      "agree (set (b # GroupNode g # map GroupNode (L b))) lk l1"
    using ListAddTail_dlist [OF lists_okD(1) [OF ok b] n] by auto
  have "lists_ok l1 (L(b := L b @ [g]))"
    unfolding lists_ok_def using l1(2) frame [OF l1(3)] dj g by auto
  with l1 show "\<exists>lk'. ListAddTail (GroupNode g) b lk = Some lk' \<and> lists_ok lk' (L(b := L b @ [g]))" by blast
  obtain l2 where l2: "ListAdd (GroupNode g) b lk = Some l2" "dlist l2 b (map GroupNode (g # L b))"
      "agree (set (b # GroupNode g # map GroupNode (L b))) lk l2"
    using ListAdd_dlist [OF lists_okD(1) [OF ok b] n] by auto
  have "lists_ok l2 (L(b := g # L b))"
    unfolding lists_ok_def using l2(2) frame [OF l2(3)] dj g by auto
  with l2 show "\<exists>lk'. ListAdd (GroupNode g) b lk = Some lk' \<and> lists_ok lk' (L(b := g # L b))" by blast
qed

definition moved :: "addr \<Rightarrow> hnode \<Rightarrow> hnode \<Rightarrow> (hnode \<Rightarrow> addr list) \<Rightarrow> hnode \<Rightarrow> addr list" where
  "moved g a b L = L(a := remove1 g (L a), b := L b @ [g])"

lemma lists_ok_move:
  assumes ok: "lists_ok lk L" and a: "a \<in> all_heads" and b: "b \<in> all_heads" and ne: "a \<noteq> b" and g: "g \<in> set (L a)"
  shows "\<exists>lk'. (ListDel (GroupNode g) lk \<bind> ListAddTail (GroupNode g) b) = Some lk' \<and> lists_ok lk' (moved g a b L)"
proof -
  obtain l1 where l1: "ListDel (GroupNode g) lk = Some l1" "lists_ok l1 (L(a := remove1 g (L a)))"
    using lists_ok_del [OF ok a g] by blast
  have "g \<notin> set ((L(a := remove1 g (L a))) h)" if "h \<in> all_heads" for h
    using lists_okD(2,3) [OF ok] that a g by auto
  moreover have "(L(a := remove1 g (L a)))(b := (L(a := remove1 g (L a))) b @ [g]) = moved g a b L"
    using ne by (simp add: moved_def)
  ultimately obtain l2 where "ListAddTail (GroupNode g) b l1 = Some l2" "lists_ok l2 (moved g a b L)"
    using lists_ok_add(1) [OF l1(2) b, of g] by auto
  with l1(1) show ?thesis by auto
qed


section \<open>Groups\<close>

definition used :: "heap \<Rightarrow> addr \<Rightarrow> nat set" where
  "used s g = {i. i < 8 * btmpBytesLen (gmap (groupAt s g)) \<and> BitmapScanTest (hmem s) (gmap (groupAt s g)) i}"

definition marked :: "heap \<Rightarrow> nat \<Rightarrow> nat \<Rightarrow> addr \<Rightarrow> bool" where
  "marked s k c g \<longleftrightarrow> memCache (memNodeTable (phys s) k) = Some c \<and> group (memNodeTable (phys s) k) = Some g"

text \<open>The pages of a group: \<open>n\<close> holds the group, the block at \<open>m\<close> the objects.\<close>

definition place :: "heap \<Rightarrow> nat \<Rightarrow> addr \<Rightarrow> nat \<Rightarrow> nat \<Rightarrow> bool" where
  "place s c g n m \<longleftrightarrow>
     g = Phy2Vir (MemNode2Page (phys s) n) \<and> is_head (phys s) n \<and> blen (phys s) n = 1 \<and> is_head (phys s) m \<and>
     (if c < 5 then m = n \<and> objects (groupAt s g) = g + 48 \<and> marked s n c g
      else group (memNodeTable (phys s) n) = None \<and> objects (groupAt s g) = Phy2Vir (MemNode2Page (phys s) m) \<and>
        blen (phys s) m = 256 \<and> (\<forall>j. m \<le> j \<longrightarrow> j < m + 256 \<longrightarrow> marked s j c g))"

definition grp_ok :: "heap \<Rightarrow> nat \<Rightarrow> addr \<Rightarrow> bool" where
  "grp_ok s c g \<longleftrightarrow>
     gmap (groupAt s g) = \<lparr>btmpBytesLen = (NUM c + 7) div 8, bits = g + 32\<rparr> \<and>
     used s g \<subseteq> {..<NUM c} \<and>
     unat (usingCount (groupAt s g)) = card (used s g) \<and>
     unat (freeCount (groupAt s g)) = NUM c - card (used s g) \<and>
     (\<exists>n m. place s c g n m)"

fun on_right_list :: "hnode \<Rightarrow> nat \<Rightarrow> bool" where
  "on_right_list (Full c) k \<longleftrightarrow> k = NUM c"
| "on_right_list (Partial c) k \<longleftrightarrow> 0 < k \<and> k < NUM c"
| "on_right_list (Free c) k \<longleftrightarrow> k = 0"
| "on_right_list (GroupNode _) k \<longleftrightarrow> False"

definition heap_inv :: "heap \<Rightarrow> (hnode \<Rightarrow> addr list) \<Rightarrow> addr set \<Rightarrow> bool" where
  "heap_inv s L X \<longleftrightarrow> pages_ok (phys s) \<and> caches_ok s \<and> lists_ok (hlinks s) L \<and>
     (\<forall>c < 13. \<forall>h \<in> heads c. \<forall>g \<in> set (L h). grp_ok s c g \<and> (g \<notin> X \<longrightarrow> on_right_list h (card (used s g))))"

abbreviation heap_ok :: "heap \<Rightarrow> (hnode \<Rightarrow> addr list) \<Rightarrow> bool" where
  "heap_ok s L \<equiv> heap_inv s L {}"

definition groups_of :: "(hnode \<Rightarrow> addr list) \<Rightarrow> nat \<Rightarrow> addr set" where
  "groups_of L c = (\<Union>h \<in> heads c. set (L h))"

definition live :: "heap \<Rightarrow> (hnode \<Rightarrow> addr list) \<Rightarrow> (addr \<times> nat) set" where
  "live s L = {(objects (groupAt s g) + i * SZ c, SZ c) | c g i. c < 13 \<and> g \<in> groups_of L c \<and> i \<in> used s g}"

lemma heap_invD:
  assumes "heap_inv s L X"
  shows "pages_ok (phys s)" "caches_ok s" "lists_ok (hlinks s) L"
    "c < 13 \<Longrightarrow> h \<in> heads c \<Longrightarrow> g \<in> set (L h) \<Longrightarrow> grp_ok s c g"
    "c < 13 \<Longrightarrow> h \<in> heads c \<Longrightarrow> g \<in> set (L h) \<Longrightarrow> g \<notin> X \<Longrightarrow> on_right_list h (card (used s g))"
    "c < 13 \<Longrightarrow> g \<in> groups_of L c \<Longrightarrow> grp_ok s c g"
  using assms unfolding heap_inv_def groups_of_def by blast+

lemma grp_okD:
  assumes "grp_ok s c g"
  shows "btmpBytesLen (gmap (groupAt s g)) = (NUM c + 7) div 8" "bits (gmap (groupAt s g)) = g + 32"
    "used s g \<subseteq> {..<NUM c}" "unat (usingCount (groupAt s g)) = card (used s g)"
    "unat (freeCount (groupAt s g)) = NUM c - card (used s g)" "\<exists>n m. place s c g n m"
    "finite (used s g)" "card (used s g) \<le> NUM c"
proof -
  show u: "used s g \<subseteq> {..<NUM c}" using assms by (simp add: grp_ok_def)
  then show "finite (used s g)" by (rule finite_subset) simp
  from card_mono [OF _ u] show "card (used s g) \<le> NUM c" by simp
qed (use assms in \<open>simp_all add: grp_ok_def\<close>)

lemma head_bound: "pages_ok p \<Longrightarrow> is_head p n \<Longrightarrow> n < unat (memNodeCount p)"
  using pages_okD(5) [of p n] by simp

lemma place_addr:
  assumes "pages_ok (phys s)" "place s c g n m"
  shows "g = 2 ^ 31 + unat (memNodeBase (phys s)) + n * 4096" "n < unat (memNodeCount (phys s))"
  using assms head_bound [OF assms(1)] by (auto simp: place_def Phy2Vir_node)

lemma place_small:
  assumes "place s c g n m" "c < 5"
  shows "m = n \<and> objects (groupAt s g) = g + 48 \<and> marked s n c g"
  using assms(1) unfolding place_def if_P [OF assms(2)] by blast

lemma place_large:
  assumes "place s c g n m" "\<not> c < 5"
  shows "group (memNodeTable (phys s) n) = None \<and> objects (groupAt s g) = Phy2Vir (MemNode2Page (phys s) m) \<and>
    blen (phys s) m = 256 \<and> (\<forall>j. m \<le> j \<longrightarrow> j < m + 256 \<longrightarrow> marked s j c g)"
  using assms(1) unfolding place_def if_not_P [OF assms(2)] by blast

lemma place_heads:
  assumes "place s c g n m"
  shows "g = Phy2Vir (MemNode2Page (phys s) n)" "is_head (phys s) n" "blen (phys s) n = 1" "is_head (phys s) m"
  using assms unfolding place_def by blast+

lemma placeI:
  assumes "g = Phy2Vir (MemNode2Page (phys s) n)" "is_head (phys s) n" "blen (phys s) n = 1" "is_head (phys s) m"
    and "c < 5 \<Longrightarrow> m = n \<and> objects (groupAt s g) = g + 48 \<and> marked s n c g"
    and "\<not> c < 5 \<Longrightarrow> group (memNodeTable (phys s) n) = None \<and> objects (groupAt s g) = Phy2Vir (MemNode2Page (phys s) m) \<and>
        blen (phys s) m = 256 \<and> (\<forall>j. m \<le> j \<longrightarrow> j < m + 256 \<longrightarrow> marked s j c g)"
  shows "place s c g n m"
proof -
  have "if c < 5 then m = n \<and> objects (groupAt s g) = g + 48 \<and> marked s n c g
      else group (memNodeTable (phys s) n) = None \<and> objects (groupAt s g) = Phy2Vir (MemNode2Page (phys s) m) \<and>
        blen (phys s) m = 256 \<and> (\<forall>j. m \<le> j \<longrightarrow> j < m + 256 \<longrightarrow> marked s j c g)"
    using assms(5,6) by presburger
  then show ?thesis using assms(1-4) unfolding place_def by blast
qed

text \<open>Every byte of an object leads to a page that is marked with its group.\<close>

lemma object_node:
  assumes ok: "pages_ok (phys s)" and pl: "place s c g n m" and c: "c < 13" and off: "off < NUM c * SZ c"
  shows "\<exists>k. Page2MemNode (phys s) (Vir2Phy (objects (groupAt s g) + off)) = Some k \<and> marked s k c g \<and>
    in_block (phys s) m k"
proof (cases "c < 5")
  case True
  have n: "n < unat (memNodeCount (phys s))" using place_addr [OF ok pl] by simp
  have "objects (groupAt s g) = g + 48" "g = Phy2Vir (MemNode2Page (phys s) n)"
    using place_small [OF pl True] place_heads(1) [OF pl] by blast+
  then have "objects (groupAt s g) + off = Phy2Vir (MemNode2Page (phys s) n) + (48 + off)" by linarith
  moreover have "48 + off < 4096" using NUM_facts(6) [OF c True] off by simp
  ultimately have "Page2MemNode (phys s) (Vir2Phy (objects (groupAt s g) + off)) = Some n"
    by (simp only: Vir2Phy_inside Page2MemNode_inside [OF ok n])
  then show ?thesis using pl True by (auto simp: place_def in_block_def)
next
  case False
  have off': "off < 1048576" using off NUM_facts(8) [OF c False] by simp
  let ?j = "off div 4096" and ?r = "off mod 4096"
  have j: "?j < 256" using off' by (simp add: div_less_iff_less_mult)
  have hd: "is_head (phys s) m" "blen (phys s) m = 256" and obj: "objects (groupAt s g) = Phy2Vir (MemNode2Page (phys s) m)"
    using place_large [OF pl False] place_heads(4) [OF pl] by blast+
  have m: "m + 256 \<le> unat (memNodeCount (phys s))" using pages_okD(5) [OF ok hd(1)] hd(2) by simp
  then have mj: "m + ?j < unat (memNodeCount (phys s))" using j by simp
  have "word_of_nat off = (word_of_nat (?j * 4096 + ?r) :: u32)" by (simp only: div_mult_mod_eq)
  then have "MemNode2Page (phys s) m + word_of_nat off = MemNode2Page (phys s) (m + ?j) + word_of_nat ?r"
    unfolding MemNode2Page_def PAGE_SHIFT_def push_bit_eq_mult by (simp only: of_nat_add of_nat_mult) (simp add: distrib_right)
  then have "Page2MemNode (phys s) (Vir2Phy (objects (groupAt s g) + off)) = Some (m + ?j)"
    using Page2MemNode_inside [OF ok mj, of ?r] by (simp add: obj Vir2Phy_inside)
  then show ?thesis using place_large [OF pl False] j hd(1) by (auto simp: in_block_def)
qed

lemma marked_unique: "marked s k c g \<Longrightarrow> marked s k c' g' \<Longrightarrow> c = c' \<and> g = g'"
  by (simp add: marked_def)


lemma live_disjoint:
  assumes inv: "heap_inv s L X" and p: "(p, n) \<in> live s L" and q: "(q, m) \<in> live s L" and ne: "(p, n) \<noteq> (q, m)"
  shows "p + n \<le> q \<or> q + m \<le> p"
proof (rule ccontr)
  assume "\<not> (p + n \<le> q \<or> q + m \<le> p)"
  then have ov: "q < p + n" "p < q + m" by auto
  from p obtain c g i where p': "p = objects (groupAt s g) + i * SZ c" "n = SZ c" "c < 13" "g \<in> groups_of L c" "i \<in> used s g"
    unfolding live_def by blast
  from q obtain c' g' i' where q': "q = objects (groupAt s g') + i' * SZ c'" "m = SZ c'" "c' < 13" "g' \<in> groups_of L c'" "i' \<in> used s g'"
    unfolding live_def by blast
  let ?a = "max p q"
  have off: "\<exists>off. ?a = objects (groupAt s h) + off \<and> off < NUM d * SZ d"
    if "c0 = objects (groupAt s h) + j * SZ d" "c0 \<le> ?a" "?a < c0 + SZ d" "d < 13" "h \<in> groups_of L d" "j \<in> used s h" for c0 h j d
  proof (intro exI [of _ "?a - objects (groupAt s h)"] conjI)
    have "j < NUM d" using grp_okD(3) [OF heap_invD(6) [OF inv that(4,5)]] that(6) by auto
    then have "(j + 1) * SZ d \<le> NUM d * SZ d" by (intro mult_le_mono1) simp
    then have "j * SZ d + SZ d \<le> NUM d * SZ d" by simp
    then show "?a - objects (groupAt s h) < NUM d * SZ d" using that(1-3) by linarith
    show "?a = objects (groupAt s h) + (?a - objects (groupAt s h))" using that by simp
  qed
  obtain n1 m1 where pl: "place s c g n1 m1" using grp_okD(6) [OF heap_invD(6) [OF inv p'(3,4)]] by blast
  obtain n2 m2 where pl': "place s c' g' n2 m2" using grp_okD(6) [OF heap_invD(6) [OF inv q'(3,4)]] by blast
  have a: "p \<le> ?a" "?a < p + SZ c" "q \<le> ?a" "?a < q + SZ c'"
    using ov p'(2) q'(2) by auto
  obtain o1 where o1: "?a = objects (groupAt s g) + o1" "o1 < NUM c * SZ c"
    using off [OF p'(1) _ _ p'(3-5)] a(1,2) by blast
  obtain o2 where o2: "?a = objects (groupAt s g') + o2" "o2 < NUM c' * SZ c'"
    using off [OF q'(1) _ _ q'(3-5)] a(3,4) by blast
  from object_node [OF heap_invD(1) [OF inv] pl p'(3) o1(2)] object_node [OF heap_invD(1) [OF inv] pl' q'(3) o2(2)]
  have "c = c' \<and> g = g'" unfolding o1(1) [symmetric] o2(1) [symmetric] using marked_unique by fastforce
  then have "i \<noteq> i'" and eq: "c = c'" "g = g'" using ne p'(1,2) q'(1,2) by auto
  then have "(i + 1) * SZ c \<le> i' * SZ c \<or> (i' + 1) * SZ c \<le> i * SZ c"
    by (metis Suc_eq_plus1 Suc_leI mult_le_mono1 nat_neq_iff)
  then show False using ov p'(1,2) q'(1,2) eq by auto
qed

section \<open>Changing one bit of a group\<close>

text \<open>The bitmaps of different groups are in different pages.\<close>

lemma bits_apart:
  assumes ok: "pages_ok (phys s)" and g: "grp_ok s c g" "c < 13" and h: "grp_ok s d h" "d < 13" and ne: "g \<noteq> h"
    and i: "i < NUM c" and j: "j < 8 * btmpBytesLen (gmap (groupAt s h))"
  shows "bits (gmap (groupAt s g)) + i div 8 \<noteq> bits (gmap (groupAt s h)) + j div 8"
proof -
  obtain n m where n: "place s c g n m" using grp_okD(6) [OF g(1)] by blast
  obtain n' m' where n': "place s d h n' m'" using grp_okD(6) [OF h(1)] by blast
  note a = place_addr(1) [OF ok n] place_addr(1) [OF ok n']
  have "i div 8 < 128" using i NUM_facts(2) [OF g(2)] by (simp add: div_less_iff_less_mult)
  moreover have "j div 8 < 128" using j grp_okD(1) [OF h(1)] NUM_facts(9) [OF h(2)] by (simp add: div_less_iff_less_mult)
  moreover have "n + 1 \<le> n' \<or> n' + 1 \<le> n" using a ne by auto
  ultimately show ?thesis
    using a grp_okD(2) [OF g(1)] grp_okD(2) [OF h(1)] by linarith
qed

definition put_bit :: "heap \<Rightarrow> addr \<Rightarrow> nat \<Rightarrow> bool \<Rightarrow> (MemGroup \<Rightarrow> MemGroup) \<Rightarrow> heap" where
  "put_bit s g i v f = upd_group g f (s\<lparr>hmem := BitmapSet (hmem s) (gmap (groupAt s g)) i v\<rparr>)"

lemma put_bit_sel [simp]:
  "phys (put_bit s g i v f) = phys s" "hlinks (put_bit s g i v f) = hlinks s"
  "memCacheTable (put_bit s g i v f) = memCacheTable s" "cachePtr (put_bit s g i v f) = cachePtr s"
  "hmem (put_bit s g i v f) = BitmapSet (hmem s) (gmap (groupAt s g)) i v"
  "groupAt (put_bit s g i v f) h = (if h = g then f (groupAt s g) else groupAt s h)"
  by (simp_all add: put_bit_def upd_group_def)

lemma used_put_bit:
  assumes "gmap (f (groupAt s g)) = gmap (groupAt s g)" "i < 8 * btmpBytesLen (gmap (groupAt s g))"
  shows "used (put_bit s g i v f) g = (if v then insert i (used s g) else used s g - {i})"
  using assms by (auto simp: used_def bm.test_upd)

lemma used_put_bit_other:
  assumes ok: "pages_ok (phys s)" and g: "grp_ok s c g" "c < 13" and h: "grp_ok s d h" "d < 13" and ne: "h \<noteq> g"
    and i: "i < NUM c"
  shows "used (put_bit s g i v f) h = used s h"
proof -
  have "BitmapScanTest (BitmapSet (hmem s) (gmap (groupAt s g)) i v) (gmap (groupAt s h)) j =
      BitmapScanTest (hmem s) (gmap (groupAt s h)) j" if "j < 8 * btmpBytesLen (gmap (groupAt s h))" for j
    using bits_apart [OF ok g h ne [symmetric] i that] by (simp add: BitmapScanTest_bit BitmapSet_frame)
  then show ?thesis using ne by (auto simp: used_def)
qed

lemma place_put_bit: "objects (f (groupAt s g)) = objects (groupAt s g) \<Longrightarrow> place (put_bit s g i v f) d h n m = place s d h n m"
  by (simp add: place_def marked_def)

lemma grp_ok_put_bit_other:
  assumes "pages_ok (phys s)" "grp_ok s c g" "c < 13" "grp_ok s d h" "d < 13" "h \<noteq> g" "i < NUM c"
    and "objects (f (groupAt s g)) = objects (groupAt s g)"
  shows "grp_ok (put_bit s g i v f) d h"
  using assms(4,6) unfolding grp_ok_def used_put_bit_other [OF assms(1-7)] place_put_bit [of f, OF assms(8)] by simp


lemma head_of_group:
  assumes "heap_inv s L X" "c < 13" "h \<in> heads c" "g \<in> set (L h)" "d < 13" "h' \<in> heads d" "g \<in> set (L h')"
  shows "h = h'" "c = d"
proof -
  show "h = h'" using lists_okD(3) [OF heap_invD(3) [OF assms(1)]] assms by simp
  with assms show "c = d" by (auto simp: heads_def)
qed

lemma heap_inv_put_bit:
  assumes inv: "heap_inv s L X" and c: "c < 13" "h \<in> heads c" "g \<in> set (L h)" and i: "i < NUM c"
    and f: "objects (f (groupAt s g)) = objects (groupAt s g)" and new: "grp_ok (put_bit s g i v f) c g"
  shows "heap_inv (put_bit s g i v f) L (insert g X)"
proof -
  have "grp_ok (put_bit s g i v f) d g' \<and>
      (g' \<notin> insert g X \<longrightarrow> on_right_list h' (card (used (put_bit s g i v f) g')))"
    if g': "d < 13" "h' \<in> heads d" "g' \<in> set (L h')" for d h' g'
  proof (cases "g' = g")
    case True
    then have "d = c" using head_of_group(2) [OF inv c] g' by blast
    then show ?thesis using new True by simp
  next
    case False
    note a = heap_invD(1) [OF inv] heap_invD(4) [OF inv c] c(1) heap_invD(4) [OF inv g'] g'(1) False i
    show ?thesis
      using grp_ok_put_bit_other [of s c g d g' i f v] used_put_bit_other [of s c g d g' i v f] a f heap_invD(5) [OF inv g'] by auto
  qed
  then show ?thesis
    using heap_invD(1-3) [OF inv] unfolding heap_inv_def caches_ok_def by simp
qed

lemma hlinks_upd [simp]:
  "used (s\<lparr>hlinks := l\<rparr>) = used s" "grp_ok (s\<lparr>hlinks := l\<rparr>) = grp_ok s" "caches_ok (s\<lparr>hlinks := l\<rparr>) = caches_ok s"
  by (auto simp: fun_eq_iff used_def grp_ok_def place_def marked_def caches_ok_def)

lemma heap_inv_move:
  assumes inv: "heap_inv s L (insert g X)" and c: "c < 13" "a \<in> heads c" "b \<in> heads c" "g \<in> set (L a)" and ne: "a \<noteq> b"
    and lk: "lists_ok lk (moved g a b L)"
  shows "heap_inv (s\<lparr>hlinks := lk\<rparr>) (moved g a b L) (insert g X)"
    "on_right_list b (card (used s g)) \<Longrightarrow> heap_inv (s\<lparr>hlinks := lk\<rparr>) (moved g a b L) (X - {g})"
proof -
  have sub: "g' \<in> set (L h') \<and> g' \<noteq> g \<or> g' = g \<and> h' = b \<and> d = c" if g': "d < 13" "h' \<in> heads d" "g' \<in> set (moved g a b L h')" for d h' g'
  proof (cases "g' = g")
    case False
    then show ?thesis using g'(3) ne by (auto simp: moved_def split: if_splits dest: notin_set_remove1 [rotated] set_remove1_subset [THEN subsetD])
  next
    case True
    have "h' \<noteq> a" using g'(3) True lists_okD(2) [OF heap_invD(3) [OF inv], of a] c ne by (auto simp: moved_def)
    moreover have "g \<notin> set (L h')" if "h' \<noteq> a"
      using head_of_group(1) [OF inv c(1,2,4) g'(1,2)] that by blast
    ultimately have "h' = b" using g'(3) True ne by (auto simp: moved_def split: if_splits)
    then show ?thesis using True g'(2) c(3) by (auto simp: heads_def)
  qed
  have g: "grp_ok s c g" using heap_invD(4) [OF inv c(1,2,4)] .
  have old: "grp_ok s d g' \<and> (g' \<notin> insert g X \<longrightarrow> on_right_list h' (card (used s g')))"
    if "d < 13" "h' \<in> heads d" "g' \<in> set (L h')" for d h' g'
    using inv that unfolding heap_inv_def by blast
  show "heap_inv (s\<lparr>hlinks := lk\<rparr>) (moved g a b L) (insert g X)"
    using heap_invD(1,2) [OF inv] lk sub old g unfolding heap_inv_def by (simp; blast)
  show "heap_inv (s\<lparr>hlinks := lk\<rparr>) (moved g a b L) (X - {g})" if "on_right_list b (card (used s g))"
    using heap_invD(1,2) [OF inv] lk sub old g that unfolding heap_inv_def by (simp; blast)
qed

lemma heap_inv_stay:
  assumes "heap_inv s L (insert g X)" "c < 13" "a \<in> heads c" "g \<in> set (L a)" "on_right_list a (card (used s g))"
  shows "heap_inv s L (X - {g})"
proof -
  have "on_right_list h' (card (used s g))" if "d < 13" "h' \<in> heads d" "g \<in> set (L h')" for d h'
    using head_of_group(1) [OF assms(1-4) that] assms(5) by simp
  then have "on_right_list h' (card (used s g'))" if "d < 13" "h' \<in> heads d" "g' \<in> set (L h')" "g' \<notin> X - {g}" for d h' g'
    using that heap_invD(5) [OF assms(1) that(1-3)] by (cases "g' = g") auto
  then show ?thesis using heap_invD(1-4) [OF assms(1)] unfolding heap_inv_def by simp
qed


section \<open>Live objects\<close>

lemma object_inj:
  assumes inv: "heap_inv s L X" and p: "c < 13" "g \<in> groups_of L c" "i < NUM c"
    and q: "d < 13" "h \<in> groups_of L d" "j < NUM d"
    and eq: "objects (groupAt s g) + i * SZ c = objects (groupAt s h) + j * SZ d"
  shows "c = d \<and> g = h \<and> i = j"
proof -
  obtain n m where pl: "place s c g n m" using grp_okD(6) [OF heap_invD(6) [OF inv p(1,2)]] by blast
  obtain n' m' where pl': "place s d h n' m'" using grp_okD(6) [OF heap_invD(6) [OF inv q(1,2)]] by blast
  have "i * SZ c < NUM c * SZ c" "j * SZ d < NUM d * SZ d" using p(3) q(3) by simp_all
  from object_node [OF heap_invD(1) [OF inv] pl p(1) this(1)] object_node [OF heap_invD(1) [OF inv] pl' q(1) this(2)]
  have "c = d \<and> g = h" unfolding eq using marked_unique by fastforce
  then show ?thesis using eq by (simp add: SZ_def)
qed

lemma live_hlinks [simp]: "live (s\<lparr>hlinks := l\<rparr>) L = live s L"
  by (simp add: live_def)

lemma groups_of_moved:
  assumes "a \<in> heads c" "b \<in> heads c" "g \<in> set (L a)"
  shows "groups_of (moved g a b L) d = groups_of L d"
proof -
  have "set (moved g a b L a) \<union> {g} = set (L a) \<union> (if a = b then {g} else {})" if "distinct (L a)"
    using that assms(3) by (auto simp: moved_def)
  have rem: "set (remove1 g xs) \<union> {g} = set xs" if "g \<in> set xs" for xs
    using that by (induction xs) auto
  show ?thesis
  proof (cases "d = c")
    case True
    have "groups_of (moved g a b L) c = groups_of L c"
      using assms rem [OF assms(3)] unfolding groups_of_def moved_def heads_def by auto
    then show ?thesis using True by simp
  next
    case False
    then show ?thesis using assms by (auto simp: groups_of_def moved_def heads_def)
  qed
qed

lemma live_groups: "(\<And>d. groups_of L' d = groups_of L d) \<Longrightarrow> live s L' = live s L"
  by (simp add: live_def)

lemma live_put_bit:
  assumes inv: "heap_inv s L X" and c: "c < 13" "g \<in> groups_of L c" and i: "i < NUM c"
    and f: "objects (f (groupAt s g)) = objects (groupAt s g)" "gmap (f (groupAt s g)) = gmap (groupAt s g)"
  shows "live (put_bit s g i v f) L =
    (if v then insert (objects (groupAt s g) + i * SZ c, SZ c) (live s L)
     else live s L - {(objects (groupAt s g) + i * SZ c, SZ c)})"
proof -
  let ?s = "put_bit s g i v f"
  have len: "i < 8 * btmpBytesLen (gmap (groupAt s g))"
    using i grp_okD(1) [OF heap_invD(6) [OF inv c]] by simp
  have u: "used ?s h = (if h = g then if v then insert i (used s g) else used s g - {i} else used s h)"
    if "d < 13" "h \<in> groups_of L d" for d h
    using used_put_bit [of f s g i v, OF f(2) len]
      used_put_bit_other [OF heap_invD(1) [OF inv] heap_invD(6) [OF inv c] c(1) heap_invD(6) [OF inv that] that(1) _ i]
    by auto
  have o: "objects (groupAt ?s h) = objects (groupAt s h)" for h using f(1) by simp
  have mem: "(p, n) \<in> live ?s L \<longleftrightarrow> (\<exists>d h j. d < 13 \<and> h \<in> groups_of L d \<and> p = objects (groupAt s h) + j * SZ d \<and> n = SZ d \<and>
      j \<in> used ?s h)" for p n
    unfolding live_def o by blast
  have inj: "d = c \<and> h = g \<and> j = i" if "d < 13" "h \<in> groups_of L d" "j \<in> used s h"
      "objects (groupAt s h) + j * SZ d = objects (groupAt s g) + i * SZ c" for d h j
    using object_inj [OF inv that(1,2) _ c i that(4)] grp_okD(3) [OF heap_invD(6) [OF inv that(1,2)]] that(3) by auto
  have un: "d = c" if "d < 13" "g \<in> groups_of L d" for d
    using head_of_group(2) [OF inv] that c unfolding groups_of_def by blast
  have lv: "(p, n) \<in> live s L \<longleftrightarrow> (\<exists>d h j. d < 13 \<and> h \<in> groups_of L d \<and> p = objects (groupAt s h) + j * SZ d \<and> n = SZ d \<and>
      j \<in> used s h)" for p n
    unfolding live_def by blast
  have new: "(objects (groupAt s g) + i * SZ c, SZ c) \<in> live ?s L" if v
    unfolding mem using that c u [OF c] by auto
  have old: "x \<in> live s L" if "x \<in> live ?s L" "x \<noteq> (objects (groupAt s g) + i * SZ c, SZ c)" for x
  proof -
    obtain p n where x: "x = (p, n)" by (cases x)
    with that(1) have "(p, n) \<in> live ?s L" by simp
    then obtain d h j where d: "d < 13" "h \<in> groups_of L d" "p = objects (groupAt s h) + j * SZ d" "n = SZ d" "j \<in> used ?s h"
      unfolding mem by blast
    have "j \<in> used s h \<or> h = g \<and> j = i" using u [OF d(1,2)] d(5) by (auto split: if_splits)
    then show ?thesis using d(1-4) that(2) un [of d] unfolding x lv by blast
  qed
  have keep: "x \<in> live ?s L" if "x \<in> live s L" "v \<or> x \<noteq> (objects (groupAt s g) + i * SZ c, SZ c)" for x
  proof -
    obtain p n where x: "x = (p, n)" by (cases x)
    with that(1) have "(p, n) \<in> live s L" by simp
    then obtain d h j where d: "d < 13" "h \<in> groups_of L d" "p = objects (groupAt s h) + j * SZ d" "n = SZ d" "j \<in> used s h"
      unfolding lv by blast
    have "v \<or> \<not> (h = g \<and> j = i)" using that(2) d(1-4) un [of d] unfolding x by blast
    then have "j \<in> used ?s h" using u [OF d(1,2)] d(5) by auto
    then show ?thesis using d(1-4) unfolding x mem by blast
  qed
  have gone: "(objects (groupAt s g) + i * SZ c, SZ c) \<notin> live ?s L" if nv: "\<not> v"
  proof
    assume "(objects (groupAt s g) + i * SZ c, SZ c) \<in> live ?s L"
    then obtain d h j where d: "d < 13" "h \<in> groups_of L d" "j \<in> used ?s h"
        "objects (groupAt s h) + j * SZ d = objects (groupAt s g) + i * SZ c"
      unfolding mem by metis
    have us: "j \<in> used s h" "\<not> (h = g \<and> j = i)" using u [OF d(1,2)] d(3) nv by (auto split: if_splits)
    from inj [OF d(1,2) us(1) d(4)] us(2) show False by blast
  qed
  show ?thesis using new old keep gone by (cases v) auto
qed


section \<open>Allocation in a group\<close>

lemma in_groups_of: "h \<in> heads c \<Longrightarrow> g \<in> set (L h) \<Longrightarrow> g \<in> groups_of L c"
  by (auto simp: groups_of_def)

lemma first_free_object:
  assumes g: "grp_ok s c g" and c: "c < 13" and room: "card (used s g) < NUM c"
  shows "\<exists>r. BitmapScan (hmem s) (gmap (groupAt s g)) 1 = int r \<and> r < NUM c \<and> r \<notin> used s g"
proof -
  let ?b = "gmap (groupAt s g)"
  have "used s g \<noteq> {..<NUM c}" using room by (metis card_lessThan less_irrefl)
  then have "used s g \<subset> {..<NUM c}" using grp_okD(3) [OF g] by (rule psubsetI [rotated])
  then obtain k where "k \<in> {..<NUM c} - used s g" using psubset_imp_ex_mem by metis
  then have k: "k < NUM c" "k \<notin> used s g" by simp_all
  have len: "NUM c \<le> 8 * btmpBytesLen ?b" using grp_okD(1) [OF g] by simp
  have "\<not> BitmapScanTest (hmem s) ?b k" using k len by (simp add: used_def)
  then have clear: "clear_run (hmem s) ?b k 1"
    unfolding clear_run_def by (metis Suc_eq_plus1 le_less_Suc_eq)
  note spec = BitmapScan_spec [of 1 "hmem s" ?b, simplified]
  have "BitmapScan (hmem s) ?b 1 \<noteq> -1"
  proof
    assume "BitmapScan (hmem s) ?b 1 = -1"
    then have "\<not> clear_run (hmem s) ?b k (Suc 0)" using conjunct1 [OF spec] k(1) len by simp
    then show False using clear by simp
  qed
  then obtain r where r: "BitmapScan (hmem s) ?b 1 = int r"
      "clear_run (hmem s) ?b r 1" "\<forall>j < r. \<not> clear_run (hmem s) ?b j 1"
    using conjunct2 [OF spec] by auto
  have "r \<le> k" using r(3) clear by (meson not_less)
  moreover have "r \<notin> used s g" using r(2) by (simp add: used_def clear_run_def)
  ultimately show ?thesis using r(1) k(1) by auto
qed

lemma count_up: "unat a = k \<Longrightarrow> k < 1024 \<Longrightarrow> unat (a + 1 :: u32) = k + 1"
  using unat_add_less [of a 1] by simp

lemma count_down: "unat a = k \<Longrightarrow> 0 < k \<Longrightarrow> unat (a - 1 :: u32) = k - 1"
  using unat_minus_one [of a] by fastforce

lemma grp_ok_alloc:
  assumes g: "grp_ok s c g" and c: "c < 13" and i: "i < NUM c" "i \<notin> used s g"
  defines "f \<equiv> \<lambda>G. G\<lparr>usingCount := usingCount G + 1, freeCount := freeCount G - 1\<rparr>"
  shows "grp_ok (put_bit s g i True f) c g" "used (put_bit s g i True f) g = insert i (used s g)"
proof -
  have len: "i < 8 * btmpBytesLen (gmap (groupAt s g))" using i(1) grp_okD(1) [OF g] by simp
  show u: "used (put_bit s g i True f) g = insert i (used s g)"
    using used_put_bit [of f s g i True] len by (simp add: f_def)
  have card: "card (used s g) < NUM c"
    using card_mono [of "{..<NUM c}" "insert i (used s g)"] grp_okD(3,7) [OF g] i by simp
  have cnt: "unat (usingCount (groupAt s g) + 1) = card (used s g) + 1"
    using count_up [OF grp_okD(4) [OF g]] card NUM_facts(2) [OF c] by simp
  have cnt': "unat (freeCount (groupAt s g) - 1) = NUM c - card (used s g) - 1"
    using count_down [OF grp_okD(5) [OF g]] card by simp
  have pl: "\<exists>n m. place (put_bit s g i True f) c g n m"
    using grp_okD(6) [OF g] place_put_bit [of f s g i True] by (simp add: f_def)
  show "grp_ok (put_bit s g i True f) c g"
    unfolding grp_ok_def u using pl g i cnt cnt' grp_okD(7) [OF g] by (simp add: grp_ok_def f_def)
qed

lemma MemGroupAllocObjcet_spec:
  assumes inv: "heap_inv s L {g}" and c: "c < 13" and g: "g \<in> set (L (Partial c))" and room: "card (used s g) < NUM c"
  shows "\<exists>s' i L'. MemGroupAllocObjcet s c g = Some (s', objects (groupAt s g) + i * SZ c) \<and> i < NUM c \<and> i \<notin> used s g \<and>
     heap_ok s' L' \<and> phys s' = phys s \<and>
     live s' L' = insert (objects (groupAt s g) + i * SZ c, SZ c) (live s L)"
proof -
  note G = heap_invD(4) [OF inv c headsI(2) g]
  obtain i where i: "BitmapScan (hmem s) (gmap (groupAt s g)) 1 = int i" "i < NUM c" "i \<notin> used s g"
    using first_free_object [OF G c room] by blast
  define f :: "MemGroup \<Rightarrow> MemGroup" where
    "f = (\<lambda>G. G\<lparr>usingCount := usingCount G + 1, freeCount := freeCount G - 1\<rparr>)"
  define s1 where "s1 = put_bit s g i True f"
  have f: "objects (f (groupAt s g)) = objects (groupAt s g)" "gmap (f (groupAt s g)) = gmap (groupAt s g)"
    by (simp_all add: f_def)
  have G1: "grp_ok s1 c g" "used s1 g = insert i (used s g)"
    using grp_ok_alloc [OF G c i(2,3)] by (simp_all add: s1_def f_def)
  have inv1: "heap_inv s1 L (insert g {})"
    using heap_inv_put_bit [where f = f and v = True, OF inv c headsI(2) g i(2) f(1)] G1(1) by (simp add: s1_def)
  have live1: "live s1 L = insert (objects (groupAt s g) + i * SZ c, SZ c) (live s L)"
    using live_put_bit [where f = f and v = True, OF inv c in_groups_of [where L = L, OF headsI(2) g] i(2) f]
    by (simp add: s1_def)
  have card1: "card (used s1 g) = card (used s g) + 1" using G1(2) i(3) grp_okD(7) [OF G] by simp
  have fc: "freeCount (groupAt s1 g) = 0 \<longleftrightarrow> card (used s1 g) = NUM c"
    using grp_okD(5,8) [OF G1(1)] by (metis diff_is_0_eq le_antisym diff_self_eq_0 unat_0 unat_eq_zero order_refl)
  have run: "MemGroupAllocObjcet s c g =
      (if freeCount (groupAt s1 g) = 0
       then with_hlinks (\<lambda>l. ListDel (GroupNode g) l \<bind> ListAddTail (GroupNode g) (Full c)) s1
       else Some s1) \<bind> (\<lambda>s'. Some (s', objects (groupAt s g) + i * SZ c))"
    using i(1) caches_okD(2) [OF heap_invD(2) [OF inv] c]
    by (simp add: MemGroupAllocObjcet_def s1_def put_bit_def f_def)
  show ?thesis
  proof (cases "card (used s1 g) = NUM c")
    case True
    obtain lk where lk: "(ListDel (GroupNode g) (hlinks s1) \<bind> ListAddTail (GroupNode g) (Full c)) = Some lk"
        "lists_ok lk (moved g (Partial c) (Full c) L)"
      using lists_ok_move [OF heap_invD(3) [OF inv1] headsI(5) [OF c] headsI(4) [OF c] _ g] by auto
    have "heap_ok (s1\<lparr>hlinks := lk\<rparr>) (moved g (Partial c) (Full c) L)"
      using heap_inv_move(2) [OF inv1 c headsI(2) headsI(1) g _ lk(2)] True by simp
    moreover have "live (s1\<lparr>hlinks := lk\<rparr>) (moved g (Partial c) (Full c) L) = live s1 L"
      using live_groups [OF groups_of_moved [of "Partial c" c "Full c" g L]] g by simp
    ultimately show ?thesis
      using True run fc lk i live1 by (auto simp: with_hlinks_def s1_def)
  next
    case False
    have "on_right_list (Partial c) (card (used s1 g))"
      using False card1 room by simp
    from heap_inv_stay [OF inv1 c headsI(2) g this] have "heap_ok s1 L" by simp
    then show ?thesis
      using False run fc i live1 by (auto simp: s1_def)
  qed
qed


section \<open>Release of an object\<close>

lemma grp_ok_release:
  assumes g: "grp_ok s c g" and c: "c < 13" and i: "i \<in> used s g"
  defines "f \<equiv> \<lambda>G. G\<lparr>usingCount := usingCount G - 1, freeCount := freeCount G + 1\<rparr>"
  shows "grp_ok (put_bit s g i False f) c g" "used (put_bit s g i False f) g = used s g - {i}"
    "card (used s g - {i}) = card (used s g) - 1" "0 < card (used s g)"
proof -
  have iN: "i < NUM c" using i grp_okD(3) [OF g] by auto
  have len: "i < 8 * btmpBytesLen (gmap (groupAt s g))" using iN grp_okD(1) [OF g] by simp
  show u: "used (put_bit s g i False f) g = used s g - {i}"
    using used_put_bit [of f s g i False] len by (simp add: f_def)
  show card: "card (used s g - {i}) = card (used s g) - 1" using i by simp
  show pos: "0 < card (used s g)" using i grp_okD(7) [OF g] by (auto simp: card_gt_0_iff)
  have cnt: "unat (usingCount (groupAt s g) - 1) = card (used s g) - 1"
    using count_down [OF grp_okD(4) [OF g] pos] .
  have cnt': "unat (freeCount (groupAt s g) + 1) = NUM c - card (used s g) + 1"
    using count_up [OF grp_okD(5) [OF g]] pos NUM_facts(2) [OF c] grp_okD(8) [OF g] by linarith
  have cnt'': "NUM c - card (used s g) + 1 = NUM c - (card (used s g) - 1)"
    using pos grp_okD(8) [OF g] by simp
  have pl: "\<exists>n m. place (put_bit s g i False f) c g n m"
    using grp_okD(6) [OF g] place_put_bit [of f s g i False] by (simp add: f_def)
  have fields: "usingCount (groupAt (put_bit s g i False f) g) = usingCount (groupAt s g) - 1"
    "freeCount (groupAt (put_bit s g i False f) g) = freeCount (groupAt s g) + 1"
    "gmap (groupAt (put_bit s g i False f) g) = gmap (groupAt s g)"
    by (simp_all add: f_def)
  have sub: "used s g - {i} \<subseteq> {..<NUM c}" using grp_okD(3) [OF g] by blast
  show "grp_ok (put_bit s g i False f) c g"
    unfolding grp_ok_def u fields cnt cnt' cnt'' card using pl sub g by (simp add: grp_ok_def)
qed

lemma index_of_object:
  fixes q :: nat
  assumes "i < NUM c" "c < 13" "unat w = SZ c"
  defines "x \<equiv> (word_of_nat (q + i * SZ c) - word_of_nat q) div w"
  shows "unat (x :: u32) = i" "0 \<le> sint x"
proof -
  have "i * SZ c \<le> NUM c * SZ c" using assms(1) by (intro mult_le_mono1) simp
  also have "NUM c * SZ c < 2 ^ 32" using NUM_facts(4) [OF assms(2)] by simp
  finally have b: "i * SZ c < 2 ^ 32" .
  have "word_of_nat (q + i * SZ c) - word_of_nat q = (word_of_nat (i * SZ c) :: u32)"
    by (simp only: of_nat_add add_diff_cancel_left')
  then have "unat x = unat (word_of_nat (i * SZ c) :: u32) div SZ c"
    unfolding x_def by (simp only: unat_div assms(3))
  also have "unat (word_of_nat (i * SZ c) :: u32) = i * SZ c"
    using b by (simp only: unsigned_of_nat) (simp add: take_bit_nat_eq_self)
  finally show x: "unat x = i" by simp
  have "i < 1024" using assms(1) NUM_facts(2) [OF assms(2)] by simp
  moreover have "x = word_of_nat i" using x by (metis of_nat_unat ucast_id)
  ultimately have "sint x = int i" by (simp add: signed_of_nat signed_take_bit_int_eq_self)
  then show "0 \<le> sint x" by simp
qed


lemma group_list:
  assumes inv: "heap_ok s L" and c: "c < 13" "g \<in> groups_of L c" and u: "0 < card (used s g)"
  shows "card (used s g) = NUM c \<and> g \<in> set (L (Full c)) \<or> card (used s g) < NUM c \<and> g \<in> set (L (Partial c))"
proof -
  obtain h where h: "h \<in> heads c" "g \<in> set (L h)" using c(2) by (auto simp: groups_of_def)
  have "on_right_list h (card (used s g))" using heap_invD(5) [OF inv c(1) h] by simp
  then show ?thesis using h u by (auto simp: heads_def)
qed

lemma relist:
  assumes inv: "heap_inv s L {g}" and c: "c < 13" "a \<in> heads c" "b \<in> heads c" "g \<in> set (L a)" "a \<noteq> b"
    and right: "on_right_list b (card (used s g))"
  shows "\<exists>lk L'. with_hlinks (\<lambda>l. ListDel (GroupNode g) l \<bind> ListAddTail (GroupNode g) b) s = Some (s\<lparr>hlinks := lk\<rparr>) \<and>
    heap_ok (s\<lparr>hlinks := lk\<rparr>) L' \<and> live (s\<lparr>hlinks := lk\<rparr>) L' = live s L"
proof -
  have h: "a \<in> all_heads" "b \<in> all_heads" using c headsI(7) by blast+
  obtain lk where lk: "(ListDel (GroupNode g) (hlinks s) \<bind> ListAddTail (GroupNode g) b) = Some lk"
      "lists_ok lk (moved g a b L)"
    using lists_ok_move [OF heap_invD(3) [OF inv] h c(5,4)] by blast
  have "heap_ok (s\<lparr>hlinks := lk\<rparr>) (moved g a b L)"
    using heap_inv_move(2) [of s L g "{}" c a b lk] inv c lk(2) right by simp
  moreover have "live (s\<lparr>hlinks := lk\<rparr>) (moved g a b L) = live s L"
    using live_groups [OF groups_of_moved [of a c b g L]] c by simp
  ultimately show ?thesis using lk(1) by (auto simp: with_hlinks_def)
qed

lemma kfree_spec:
  assumes inv: "heap_ok s L" and p: "(p, n) \<in> live s L"
  shows "\<exists>s' L'. kfree s p = Some s' \<and> heap_ok s' L' \<and> live s' L' = live s L - {(p, n)} \<and> phys s' = phys s"
proof -
  obtain c g i where p': "p = objects (groupAt s g) + i * SZ c" "n = SZ c" "c < 13" "g \<in> groups_of L c" "i \<in> used s g"
    using p unfolding live_def by blast
  note G = heap_invD(6) [OF inv p'(3,4)]
  have i: "i < NUM c" using grp_okD(3) [OF G] p'(5) by auto
  obtain n0 m where pl: "place s c g n0 m" using grp_okD(6) [OF G] by blast
  have off: "i * SZ c < NUM c * SZ c" using i by simp
  obtain k where k: "Page2MemNode (phys s) (Vir2Phy p) = Some k" "marked s k c g"
    using object_node [OF heap_invD(1) [OF inv] pl p'(3) off] p'(1) by blast
  define f :: "MemGroup \<Rightarrow> MemGroup" where
    "f = (\<lambda>G. G\<lparr>usingCount := usingCount G - 1, freeCount := freeCount G + 1\<rparr>)"
  define s1 where "s1 = put_bit s g i False f"
  have f: "objects (f (groupAt s g)) = objects (groupAt s g)" "gmap (f (groupAt s g)) = gmap (groupAt s g)"
    by (simp_all add: f_def)
  note rel = grp_ok_release [OF G p'(3,5), folded f_def, folded s1_def]
  obtain h where h: "h \<in> heads c" "g \<in> set (L h)" using p'(4) by (auto simp: groups_of_def)
  have "heap_inv s1 L (insert g {})"
    using heap_inv_put_bit [where f = f and v = False, OF inv p'(3) h i f(1)] rel(1) by (simp add: s1_def)
  then have inv1: "heap_inv s1 L {g}" .
  have live1: "live s1 L = live s L - {(p, n)}"
    using live_put_bit [where f = f and v = False, OF inv p'(3,4) i f] p'(1,2) by (simp add: s1_def)
  have card1: "card (used s1 g) = card (used s g) - 1" using rel(2,3) by simp
  define idx where "idx = (word_of_nat p - word_of_nat (objects (groupAt s g))) div objectSize (memCacheTable s c)"
  have idx: "unat idx = i" "0 \<le> sint idx"
    using index_of_object [OF i p'(3) caches_okD(2) [OF heap_invD(2) [OF inv] p'(3)], of "objects (groupAt s g)"]
    unfolding idx_def p'(1) by blast+
  have len: "\<not> btmpBytesLen (gmap (groupAt s g)) * 8 < i" using i grp_okD(1) [OF G] by simp
  have p0: "p \<noteq> 0"
    using place_small [OF pl] place_large [OF pl] p'(1) Phy2Vir_node [OF heap_invD(1) [OF inv] head_bound [OF heap_invD(1) [OF inv] place_heads(4) [OF pl]]]
    by (cases "c < 5") auto
  have uc: "usingCount (groupAt s1 g) = 0 \<longleftrightarrow> card (used s1 g) = 0"
    using grp_okD(4) [OF rel(1)] by (metis unat_0 unat_eq_zero)
  have full: "usingCount (groupAt s g) = objectNumber (memCacheTable s c) \<longleftrightarrow> card (used s g) = NUM c"
    using grp_okD(4) [OF G] caches_okD(3) [OF heap_invD(2) [OF inv] p'(3)] by (metis word_unat_eq_iff)
  have run: "kfree s p =
      (if usingCount (groupAt s1 g) = 0 then
         with_hlinks (\<lambda>l. ListDel (GroupNode g) l \<bind> ListAddTail (GroupNode g) (Free c)) s1
       else if usingCount (groupAt s g) = objectNumber (memCacheTable s c) then
         with_hlinks (\<lambda>l. ListDel (GroupNode g) l \<bind> ListAddTail (GroupNode g) (Partial c)) s1
       else Some s1)"
    using p0 k idx len unfolding kfree_def GroupFreeObject_def marked_def
    by (simp add: Let_def idx_def [symmetric] s1_def put_bit_def f_def)
  have phys1: "phys s1 = phys s" by (simp add: s1_def)
  have NUM1: "1 < NUM c" using NUM_facts(1) [OF p'(3)] .
  consider (empty) "card (used s1 g) = 0" "g \<in> set (L (Partial c))"
    | (full) "card (used s1 g) \<noteq> 0" "card (used s g) = NUM c" "g \<in> set (L (Full c))"
    | (partial) "card (used s1 g) \<noteq> 0" "card (used s g) < NUM c" "g \<in> set (L (Partial c))"
    using group_list [OF inv p'(3,4) rel(4)] card1 NUM1 by linarith
  then show ?thesis
  proof cases
    case empty
    then obtain lk L' where "with_hlinks (\<lambda>l. ListDel (GroupNode g) l \<bind> ListAddTail (GroupNode g) (Free c)) s1 = Some (s1\<lparr>hlinks := lk\<rparr>)"
        "heap_ok (s1\<lparr>hlinks := lk\<rparr>) L'" "live (s1\<lparr>hlinks := lk\<rparr>) L' = live s1 L"
      using relist [OF inv1 p'(3) headsI(2) headsI(3)] by auto
    then show ?thesis using run uc empty live1 phys1 by auto
  next
    case full
    then have "on_right_list (Partial c) (card (used s1 g))" using card1 NUM1 by simp
    then obtain lk L' where "with_hlinks (\<lambda>l. ListDel (GroupNode g) l \<bind> ListAddTail (GroupNode g) (Partial c)) s1 = Some (s1\<lparr>hlinks := lk\<rparr>)"
        "heap_ok (s1\<lparr>hlinks := lk\<rparr>) L'" "live (s1\<lparr>hlinks := lk\<rparr>) L' = live s1 L"
      using relist [OF inv1 p'(3) headsI(1) headsI(2)] full(3) by auto
    then show ?thesis using run uc full \<open>(_ = objectNumber _) = _\<close> live1 phys1 by auto
  next
    case partial
    then have "on_right_list (Partial c) (card (used s1 g))" using card1 by simp
    then have "heap_ok s1 L" using heap_inv_stay [OF inv1 [folded insert_is_Un] p'(3) headsI(2) partial(3)] by simp
    then show ?thesis using run uc partial \<open>(_ = objectNumber _) = _\<close> live1 phys1 by auto
  qed
qed

end
