(* ===== verification/HeapRun.thy ===== *)
theory HeapRun
  imports MemProofs
begin

text \<open>
  Allocation with new groups, initialisation, whole runs of the kernel heap, the release of free groups
  by \<open>kmshrink\<close>, and the heap's properties. \<open>compact\<close> holds of the page table as long as no page has
  been given back; then every block of pages that fits is free (see \<open>PhyMem\<close> for what happens else).
\<close>

section \<open>Creating a group\<close>

text \<open>As long as no page has been given back, the pages from the first free one on are free.\<close>

definition compact :: "physmem \<Rightarrow> bool" where
  "compact p \<longleftrightarrow> (\<forall>i. GetFreeMemNode p = Some i \<longrightarrow> (\<forall>j \<ge> i. \<not> owned p j))"

lemma compact_run_free: "compact p \<Longrightarrow> run_free p n"
  by (simp add: compact_def run_free_def)

definition mark :: "nat \<Rightarrow> addr \<Rightarrow> MemNode \<Rightarrow> MemNode" where
  "mark c g n = n\<lparr>memCache := Some c, group := Some g\<rparr>"

lemma mark_eta: "(\<lambda>n. n\<lparr>memCache := Some c, group := Some g\<rparr>) = mark c g"
  by (simp add: fun_eq_iff mark_def)

lemma mark_sel [simp]:
  "reference (mark c g n) = reference n" "count (mark c g n) = count n"
  "memCache (mark c g n) = Some c" "group (mark c g n) = Some g"
  by (simp_all add: mark_def)

text \<open>Marking leaves the blocks alone.\<close>

definition same_blocks :: "physmem \<Rightarrow> physmem \<Rightarrow> bool" where
  "same_blocks p q \<longleftrightarrow> memNodeCount q = memNodeCount p \<and> memNodeBase q = memNodeBase p \<and>
     (\<forall>i. reference (memNodeTable q i) = reference (memNodeTable p i) \<and> count (memNodeTable q i) = count (memNodeTable p i))"

lemma same_blocks_in_block: "same_blocks p q \<Longrightarrow> in_block q = in_block p"
  by (auto simp: fun_eq_iff same_blocks_def in_block_def)

lemma same_blocks_owned: "same_blocks p q \<Longrightarrow> owned q = owned p"
  by (auto simp: fun_eq_iff owned_def same_blocks_in_block)

lemma same_blocks_ok: "same_blocks p q \<Longrightarrow> pages_ok q = pages_ok p"
  unfolding pages_ok_def same_blocks_in_block by (simp add: same_blocks_in_block) (simp add: same_blocks_def)

lemma same_blocks_addr:
  "same_blocks p q \<Longrightarrow> MemNode2Page q = MemNode2Page p" "same_blocks p q \<Longrightarrow> Page2MemNode q = Page2MemNode p"
  by (auto simp: fun_eq_iff same_blocks_def MemNode2Page_def Page2MemNode_def)

lemma GetFreeMemNode_unique:
  assumes "pages_ok p" "i < unat (memNodeCount p)" "\<not> owned p i" "\<forall>k < i. owned p k"
  shows "GetFreeMemNode p = Some i"
proof (cases "GetFreeMemNode p")
  case None
  then show ?thesis using GetFreeMemNode_spec [OF assms(1)] assms(2,3) by simp
next
  case (Some j)
  then have "\<not> owned p j" "\<forall>k < j. owned p k" using GetFreeMemNode_spec [OF assms(1)] by auto
  then show ?thesis using Some assms(3,4) by (metis linorder_neqE_nat)
qed

lemma compact_same_blocks:
  assumes "same_blocks p q" "pages_ok p" "compact p"
  shows "compact q"
  unfolding compact_def
proof (intro allI impI)
  fix i j assume i: "GetFreeMemNode q = Some i" and j: "i \<le> j"
  have ok: "pages_ok q" using assms same_blocks_ok by blast
  have "i < unat (memNodeCount p)" "\<not> owned p i" "\<forall>k < i. owned p k"
    using GetFreeMemNode_spec [OF ok] i same_blocks_owned [OF assms(1)] assms(1) by (auto simp: same_blocks_def)
  then have "GetFreeMemNode p = Some i" by (rule GetFreeMemNode_unique [OF assms(2)])
  then show "\<not> owned q j" using assms(3) j same_blocks_owned [OF assms(1)] by (simp add: compact_def)
qed

text \<open>What one successful allocation of pages gives.\<close>

definition new_block :: "physmem \<Rightarrow> nat \<Rightarrow> u32 \<Rightarrow> physmem" where
  "new_block p i n = upd_node i (\<lambda>k. k\<lparr>reference := 1, count := n, flags := 0, memCache := None, group := None\<rparr>) p"

lemma AllocPages_cases:
  assumes ok: "pages_ok p" and n: "0 < unat n" "unat n < 2 ^ 20" and run: "run_free p (unat n)"
  obtains (fail) "AllocPages p n = (p, 0)" "\<forall>i. GetFreeMemNode p = Some i \<longrightarrow> unat (memNodeCount p) < i + unat n"
  | (block) i where "GetFreeMemNode p = Some i" "AllocPages p n = (new_block p i n, MemNode2Page p i)" "MemNode2Page p i \<noteq> 0"
      "i + unat n \<le> unat (memNodeCount p)" "pages_ok (new_block p i n)"
      "\<And>j. i \<le> j \<Longrightarrow> j < i + unat n \<Longrightarrow> \<not> owned p j"
      "\<And>j. owned (new_block p i n) j \<longleftrightarrow> owned p j \<or> i \<le> j \<and> j < i + unat n"
      "compact p \<Longrightarrow> compact (new_block p i n)"
proof (cases "snd (AllocPages p n) = 0")
  case True
  then show thesis using AllocPages_spec [OF ok n run] fail by (metis prod.collapse)
next
  case False
  then obtain i where i: "GetFreeMemNode p = Some i" "snd (AllocPages p n) = MemNode2Page p i" "MemNode2Page p i \<noteq> 0"
      "i + unat n \<le> unat (memNodeCount p)" "fst (AllocPages p n) = new_block p i n" "pages_ok (fst (AllocPages p n))"
      "\<forall>j. i \<le> j \<longrightarrow> j < i + unat n \<longrightarrow> \<not> owned p j"
      "\<forall>h j. in_block (fst (AllocPages p n)) h j \<longleftrightarrow> in_block p h j \<or> h = i \<and> i \<le> j \<and> j < i + unat n"
    using AllocPages_spec [OF ok n run] unfolding new_block_def by blast
  have ow: "owned (new_block p i n) j \<longleftrightarrow> owned p j \<or> i \<le> j \<and> j < i + unat n" for j
    using i(8) unfolding i(5) owned_def by blast
  have "compact (new_block p i n)" if c: "compact p"
    unfolding compact_def
  proof (intro allI impI)
    fix j k assume j: "GetFreeMemNode (new_block p i n) = Some j" "j \<le> k"
    have nj: "\<not> owned (new_block p i n) j"
      using GetFreeMemNode_spec [of "new_block p i n"] i(5,6) j(1) by simp
    have "\<forall>k < i. owned p k" using GetFreeMemNode_spec [OF ok] i(1) by simp
    then have "i + unat n \<le> j" using nj ow by (metis linorder_not_le)
    then show "\<not> owned (new_block p i n) k"
      using c i(1) j(2) ow by (simp add: compact_def)
  qed
  then show thesis using i ow block [of i] by (metis prod.collapse)
qed


lemma place_frame0:
  assumes pl: "place s d h n m"
    and nodes: "\<And>k. k = n \<or> k = m \<or> marked s k d h \<Longrightarrow> memNodeTable (phys s') k = memNodeTable (phys s) k"
    and same: "memNodeBase (phys s') = memNodeBase (phys s)" "groupAt s' h = groupAt s h"
  shows "place s' d h n m"
proof (rule placeI)
  have addr: "MemNode2Page (phys s') = MemNode2Page (phys s)"
    using same by (simp add: fun_eq_iff MemNode2Page_def)
  show "h = Phy2Vir (MemNode2Page (phys s') n)" "is_head (phys s') n" "blen (phys s') n = 1" "is_head (phys s') m"
    using place_heads [OF pl] nodes [of n] nodes [of m] addr by simp_all
  show "d < 5 \<Longrightarrow> m = n \<and> objects (groupAt s' h) = h + 48 \<and> marked s' n d h"
    using place_small [OF pl] nodes [of n] same(2) by (simp add: marked_def)
  show "\<not> d < 5 \<Longrightarrow> group (memNodeTable (phys s') n) = None \<and> objects (groupAt s' h) = Phy2Vir (MemNode2Page (phys s') m) \<and>
      blen (phys s') m = 256 \<and> (\<forall>j. m \<le> j \<longrightarrow> j < m + 256 \<longrightarrow> marked s' j d h)"
    using place_large [OF pl] nodes [of n] nodes [of m] nodes same(2) addr by (simp add: marked_def)
qed

lemma place_frame:
  assumes ok: "pages_ok (phys s)" and pl: "place s d h n m"
    and nodes: "\<And>k. owned (phys s) k \<Longrightarrow> memNodeTable (phys s') k = memNodeTable (phys s) k"
    and same: "memNodeBase (phys s') = memNodeBase (phys s)" "groupAt s' h = groupAt s h"
  shows "place s' d h n m"
proof -
  have own: "owned (phys s) n" "owned (phys s) m"
    using in_block_self [OF ok] place_heads [OF pl] unfolding owned_def by blast+
  have addr: "MemNode2Page (phys s') = MemNode2Page (phys s)"
    using same by (simp add: fun_eq_iff MemNode2Page_def)
  have blk: "owned (phys s) j" if "\<not> d < 5" "m \<le> j" "j < m + 256" for j
    using that place_large [OF pl that(1)] place_heads(4) [OF pl] unfolding owned_def in_block_def by auto
  show ?thesis
  proof (rule placeI)
    show "d < 5 \<Longrightarrow> m = n \<and> objects (groupAt s' h) = h + 48 \<and> marked s' n d h"
      using place_small [OF pl] nodes [OF own(1)] same(2) by (simp add: marked_def)
    show "\<not> d < 5 \<Longrightarrow> group (memNodeTable (phys s') n) = None \<and> objects (groupAt s' h) = Phy2Vir (MemNode2Page (phys s') m) \<and>
        blen (phys s') m = 256 \<and> (\<forall>j. m \<le> j \<longrightarrow> j < m + 256 \<longrightarrow> marked s' j d h)"
      using place_large [OF pl] nodes own blk same(2) addr by (simp add: marked_def)
  qed (use place_heads [OF pl] nodes [OF own(1)] nodes [OF own(2)] addr in simp_all)
qed

lemma used_frame:
  assumes "groupAt s' h = groupAt s h" "btmpBytesLen (gmap (groupAt s h)) \<le> 128" "bits (gmap (groupAt s h)) = h + 32"
    and "\<And>a. h + 32 \<le> a \<Longrightarrow> a < h + 160 \<Longrightarrow> hmem s' a = hmem s a"
  shows "used s' h = used s h"
proof -
  have "BitmapScanTest (hmem s') (gmap (groupAt s h)) j = BitmapScanTest (hmem s) (gmap (groupAt s h)) j"
    if "j < 8 * btmpBytesLen (gmap (groupAt s h))" for j
  proof -
    have "j div 8 < 128" using that assms(2) by (simp add: div_less_iff_less_mult)
    then have "hmem s' (h + 32 + j div 8) = hmem s (h + 32 + j div 8)" by (intro assms(4)) simp_all
    then show ?thesis unfolding BitmapScanTest_bit assms(3) by simp
  qed
  then show ?thesis using assms(1) by (auto simp: used_def)
qed

lemma heap_extend:
  assumes inv: "heap_ok s L" and c: "c < 13" and new: "\<And>h. h \<in> all_heads \<Longrightarrow> g \<notin> set (L h)"
    and ok': "pages_ok (phys s')" and cc: "memCacheTable s' = memCacheTable s" "cachePtr s' = cachePtr s"
    and lk: "lists_ok (hlinks s') (L(Free c := g # L (Free c)))"
    and ga: "\<And>h. h \<noteq> g \<Longrightarrow> groupAt s' h = groupAt s h"
    and mem: "\<And>a. a < g + 32 \<or> g + 160 \<le> a \<Longrightarrow> hmem s' a = hmem s a"
    and nodes: "\<And>k. owned (phys s) k \<Longrightarrow> memNodeTable (phys s') k = memNodeTable (phys s) k"
    and base: "memNodeBase (phys s') = memNodeBase (phys s)"
    and G: "grp_ok s' c g" "used s' g = {}"
  shows "heap_ok s' (L(Free c := g # L (Free c))) \<and> live s' (L(Free c := g # L (Free c))) = live s L"
proof -
  let ?L = "L(Free c := g # L (Free c))"
  obtain n m where gp: "place s' c g n m" using grp_okD(6) [OF G(1)] by blast
  have keep: "grp_ok s' d h \<and> used s' h = used s h \<and> h \<noteq> g" if h: "d < 13" "h \<in> groups_of L d" for d h
  proof -
    have H: "grp_ok s d h" using heap_invD(6) [OF inv h] .
    obtain n' m' where hp: "place s d h n' m'" using grp_okD(6) [OF H] by blast
    have ne: "h \<noteq> g" using h new headsI(7) [OF h(1)] unfolding groups_of_def by blast
    have hp': "place s' d h n' m'"
      using place_frame [OF heap_invD(1) [OF inv] hp nodes base ga [OF ne]] .
    have "n \<noteq> n'" using ne place_addr(1) [OF ok' gp] place_addr(1) [OF ok' hp'] by auto
    then have "n + 1 \<le> n' \<or> n' + 1 \<le> n" by auto
    then have "a < g + 32 \<or> g + 160 \<le> a" if "h + 32 \<le> a" "a < h + 160" for a
      using that place_addr(1) [OF ok' gp] place_addr(1) [OF ok' hp'] by linarith
    then have "used s' h = used s h"
      using used_frame [of s' h s] ga [OF ne] grp_okD(1,2) [OF H] NUM_facts(9) [OF h(1)] mem by auto
    then show ?thesis using H hp' ga [OF ne] ne unfolding grp_ok_def by auto
  qed
  have mem_L: "h' = g \<and> a = Free c \<or> h' \<in> set (L a)" if "h' \<in> set (?L a)" for a h'
    using that by (auto split: if_splits)
  have "grp_ok s' d h' \<and> on_right_list a (card (used s' h'))" if "d < 13" "a \<in> heads d" "h' \<in> set (?L a)" for d a h'
  proof -
    from mem_L [OF that(3)] show ?thesis
    proof
      assume "h' = g \<and> a = Free c"
      then show ?thesis using that(2) G by (auto simp: heads_def)
    next
      assume h': "h' \<in> set (L a)"
      then show ?thesis
        using keep [OF that(1) in_groups_of [where L = L, OF that(2) h']] heap_invD(5) [OF inv that(1,2) h'] by simp
    qed
  qed
  moreover have "caches_ok s'" using heap_invD(2) [OF inv] cc by (simp add: caches_ok_def)
  ultimately have "heap_ok s' ?L"
    using ok' lk unfolding heap_inv_def by blast
  moreover have gr: "groups_of ?L d = (if d = c then insert g (groups_of L c) else groups_of L d)" for d
    by (auto simp: groups_of_def heads_def)
  have "(p, k) \<in> live s' ?L \<longleftrightarrow> (p, k) \<in> live s L" for p k
  proof
    assume "(p, k) \<in> live s' ?L"
    then obtain d h i where "p = objects (groupAt s' h) + i * SZ d" "k = SZ d" "d < 13" "h \<in> groups_of ?L d" "i \<in> used s' h"
      unfolding live_def by blast
    moreover from this have "h \<in> groups_of L d" using gr [of d] G(2) by (auto split: if_splits)
    ultimately show "(p, k) \<in> live s L" using keep [of d h] ga [of h] unfolding live_def by auto
  next
    assume "(p, k) \<in> live s L"
    then obtain d h i where d: "p = objects (groupAt s h) + i * SZ d" "k = SZ d" "d < 13" "h \<in> groups_of L d" "i \<in> used s h"
      unfolding live_def by blast
    then have "h \<in> groups_of ?L d" "p = objects (groupAt s' h) + i * SZ d" "i \<in> used s' h"
      using gr [of d] keep [of d h] ga [of h] by auto
    then show "(p, k) \<in> live s' ?L" using d(2,3) unfolding live_def by blast
  qed
  then have "live s' ?L = live s L" by auto
  ultimately show ?thesis by blast
qed

lemma BitmapInit_frame: "a < bits b \<or> bits b + btmpBytesLen b \<le> a \<Longrightarrow> btmpBytesLen b < 2 ^ 32 \<Longrightarrow> BitmapInit m b a = m a"
  by (auto simp: BitmapInit_def memset_def memset_loop_eq unat_of_nat take_bit_nat_eq_self)

lemma mark_loop_spec:
  assumes ok: "pages_ok (phys s)" and obj: "objects (groupAt s g) = Phy2Vir (MemNode2Page (phys s) m)"
  shows "m + i + k \<le> unat (memNodeCount (phys s)) \<Longrightarrow>
    \<exists>p. mark_loop s c g i k = Some (s\<lparr>phys := p\<rparr>) \<and> same_blocks (phys s) p \<and>
      (\<forall>j. memNodeTable p j = (if m + i \<le> j \<and> j < m + i + k then mark c g (memNodeTable (phys s) j) else memNodeTable (phys s) j))"
  using ok obj
proof (induction k arbitrary: s i)
  case 0
  then show ?case by (intro exI [of _ "phys s"]) (auto simp: same_blocks_def)
next
  case (Suc k)
  let ?s = "MEM_NODE_MARK_CHACHE_GROUP (m + i) c g s"
  have mi: "m + i < unat (memNodeCount (phys s))" using Suc.prems(1) by simp
  have "MemNode2Page (phys s) m + word_of_nat (i * 4096) = MemNode2Page (phys s) (m + i)"
    by (simp add: MemNode2Page_def PAGE_SHIFT_def push_bit_eq_mult distrib_right)
  then have node: "Page2MemNode (phys s) (Vir2Phy (objects (groupAt s g) + i * 4096)) = Some (m + i)"
    unfolding Suc.prems(3) Vir2Phy_inside using Page2MemNode_node [OF Suc.prems(2) mi] by metis
  have sb: "same_blocks (phys s) (phys ?s)"
    by (simp add: same_blocks_def MEM_NODE_MARK_CHACHE_GROUP_def)
  have "pages_ok (phys ?s)" using same_blocks_ok [OF sb] Suc.prems(2) by simp
  moreover have "objects (groupAt ?s g) = Phy2Vir (MemNode2Page (phys ?s) m)"
    using same_blocks_addr(1) [OF sb] Suc.prems(3) by (simp add: MEM_NODE_MARK_CHACHE_GROUP_def)
  moreover have "m + (i + 1) + k \<le> unat (memNodeCount (phys ?s))"
    using Suc.prems(1) sb by (simp add: same_blocks_def)
  ultimately obtain p where p: "mark_loop ?s c g (i + 1) k = Some (?s\<lparr>phys := p\<rparr>)" "same_blocks (phys ?s) p"
      "\<forall>j. memNodeTable p j = (if m + (i + 1) \<le> j \<and> j < m + (i + 1) + k then mark c g (memNodeTable (phys ?s) j) else memNodeTable (phys ?s) j)"
    using Suc.IH [of "i + 1" ?s] by blast
  have "?s\<lparr>phys := p\<rparr> = s\<lparr>phys := p\<rparr>" by (simp add: MEM_NODE_MARK_CHACHE_GROUP_def)
  moreover have "same_blocks (phys s) p" using sb p(2) by (simp add: same_blocks_def)
  moreover have "memNodeTable p j = (if m + i \<le> j \<and> j < m + i + Suc k then mark c g (memNodeTable (phys s) j) else memNodeTable (phys s) j)" for j
    using p(3) by (auto simp: MEM_NODE_MARK_CHACHE_GROUP_def mark_def)
  ultimately show ?case using node p(1) by auto
qed


lemma fresh_group:
  assumes inv: "heap_ok s L" and i: "i < unat (memNodeCount (phys s))" "\<not> owned (phys s) i" and h: "h \<in> all_heads"
  shows "Phy2Vir (MemNode2Page (phys s) i) \<notin> set (L h)"
proof
  assume g: "Phy2Vir (MemNode2Page (phys s) i) \<in> set (L h)"
  obtain d where d: "d < 13" "h \<in> heads d" using h by (auto simp: all_heads_def)
  note ok = heap_invD(1) [OF inv]
  obtain n m where pl: "place s d (Phy2Vir (MemNode2Page (phys s) i)) n m"
    using grp_okD(6) [OF heap_invD(4) [OF inv d g]] by blast
  have "n = i" using place_addr [OF ok pl] Phy2Vir_node [OF ok i(1)] by simp
  then have "owned (phys s) i"
    using in_block_self [OF ok place_heads(2) [OF pl]] unfolding owned_def by blast
  then show False using i(2) by blast
qed

lemma bitmap_len:
  assumes "caches_ok s" "c < 13"
  shows "unat ((objectNumber (memCacheTable s c) + 8 - 1) div 8) = (NUM c + 7) div 8"
proof -
  have "objectNumber (memCacheTable s c) + 8 - 1 = objectNumber (memCacheTable s c) + 7" by simp
  moreover have "unat (objectNumber (memCacheTable s c) + 7) = NUM c + 7"
    using unat_add_less [of "objectNumber (memCacheTable s c)" 7] caches_okD(3) [OF assms] NUM_facts(2) [OF assms(2)] by simp
  moreover have "unat (8 :: u32) = 8" by simp
  ultimately show ?thesis by (simp only: unat_div)
qed

lemma object_pages:
  assumes "caches_ok s" "c < 13" "\<not> c < 5"
  shows "(objectNumber (memCacheTable s c) * objectSize (memCacheTable s c) + 4096 - 1) div 4096 = 256"
proof -
  have "unat (objectNumber (memCacheTable s c) * objectSize (memCacheTable s c)) = 1048576"
    using NUM_facts(8) [OF assms(2,3)] caches_okD(2,3) [OF assms(1,2)] by (simp add: unat_word_ariths)
  then have "unat (objectNumber (memCacheTable s c) * objectSize (memCacheTable s c)) = unat (1048576 :: u32)" by simp
  then have "objectNumber (memCacheTable s c) * objectSize (memCacheTable s c) = 1048576" by (simp only: word_unat_eq_iff)
  then show ?thesis by simp
qed

text \<open>The parts of the state that a new group at \<open>g\<close> determines.\<close>

definition group_at :: "heap \<Rightarrow> nat \<Rightarrow> addr \<Rightarrow> addr \<Rightarrow> u32 \<Rightarrow> hnode links \<Rightarrow> physmem \<Rightarrow> heap" where
  "group_at s c g obj fl lk p =
     (let b = \<lparr>btmpBytesLen = (NUM c + 7) div 8, bits = g + 32\<rparr>
      in s\<lparr>hlinks := lk, hmem := BitmapInit (hmem s) b, phys := p,
           groupAt := (groupAt s)(g := \<lparr>gmap = b, objects = obj, usingCount = 0,
             freeCount = objectNumber (memCacheTable s c), gflags = fl\<rparr>)\<rparr>)"

lemma group_at_sel [simp]:
  "hmem (group_at s c g obj fl lk p) = BitmapInit (hmem s) \<lparr>btmpBytesLen = (NUM c + 7) div 8, bits = g + 32\<rparr>"
  "hlinks (group_at s c g obj fl lk p) = lk" "phys (group_at s c g obj fl lk p) = p"
  "memCacheTable (group_at s c g obj fl lk p) = memCacheTable s" "cachePtr (group_at s c g obj fl lk p) = cachePtr s"
  "groupAt (group_at s c g obj fl lk p) h = (if h = g then
     \<lparr>gmap = \<lparr>btmpBytesLen = (NUM c + 7) div 8, bits = g + 32\<rparr>, objects = obj, usingCount = 0,
      freeCount = objectNumber (memCacheTable s c), gflags = fl\<rparr> else groupAt s h)"
  by (simp_all add: group_at_def Let_def)

lemma MemGroup_fields:
  "G\<lparr>gmap := b, objects := q, usingCount := u, freeCount := f, gflags := fl\<rparr> =
   \<lparr>gmap = b, objects = q, usingCount = u, freeCount = f, gflags = fl\<rparr>"
  by (cases G) simp

lemma group_at_ok:
  assumes inv: "heap_ok s L" and c: "c < 13" and i: "i < unat (memNodeCount (phys s))" "\<not> owned (phys s) i"
    and g: "g = Phy2Vir (MemNode2Page (phys s) i)"
    and lk: "lists_ok lk (L(Free c := g # L (Free c)))" and ok: "pages_ok p"
    and nodes: "\<And>k. owned (phys s) k \<Longrightarrow> memNodeTable p k = memNodeTable (phys s) k"
    and base: "memNodeBase p = memNodeBase (phys s)" and pl: "place (group_at s c g obj fl lk p) c g i m"
  defines "s' \<equiv> group_at s c g obj fl lk p"
  shows "heap_ok s' (L(Free c := g # L (Free c))) \<and> live s' (L(Free c := g # L (Free c))) = live s L"
proof (rule heap_extend [OF inv c])
  let ?b = "\<lparr>btmpBytesLen = (NUM c + 7) div 8, bits = g + 32\<rparr>"
  have len: "(NUM c + 7) div 8 \<le> 128" using NUM_facts(9) [OF c] .
  show "g \<notin> set (L h)" if "h \<in> all_heads" for h
    using fresh_group [OF inv i that] g by simp
  show u: "used s' g = {}"
    using BitmapInit_clear [of _ ?b "hmem s"] len by (auto simp: used_def s'_def)
  show "grp_ok s' c g"
    unfolding grp_ok_def u using pl caches_okD(3) [OF heap_invD(2) [OF inv] c]
    by (auto simp: s'_def)
  show "hmem s' a = hmem s a" if "a < g + 32 \<or> g + 160 \<le> a" for a
    using that len BitmapInit_frame [of a ?b "hmem s"] by (auto simp: s'_def)
qed (use lk ok nodes base in \<open>simp_all add: s'_def\<close>)

lemma MemGroupInit_small:
  assumes inv: "heap_ok s L" and c: "c < 13" "c < 5" and i: "i < unat (memNodeCount (phys s))" "\<not> owned (phys s) i"
    and g: "g = Phy2Vir (MemNode2Page (phys s) i)" and ok: "pages_ok (new_block (phys s) i 1)"
  shows "\<exists>lk. let p = upd_node i (mark c g) (new_block (phys s) i 1); s' = group_at s c g (g + 48) fl lk p;
       L' = L(Free c := g # L (Free c)) in
     MemGroupInit (s\<lparr>phys := new_block (phys s) i 1\<rparr>) c g fl = Some (s', 0) \<and> heap_ok s' L' \<and> live s' L' = live s L"
proof -
  let ?p1 = "new_block (phys s) i 1"
  let ?p = "upd_node i (mark c g) ?p1"
  have sb: "same_blocks ?p1 ?p" by (simp add: same_blocks_def)
  obtain lk where lk: "ListAdd (GroupNode g) (Free c) (hlinks s) = Some lk" "lists_ok lk (L(Free c := g # L (Free c)))"
    using lists_ok_add(2) [OF heap_invD(3) [OF inv] headsI(6) [OF c(1)], of g] fresh_group [OF inv i] g by blast
  have node: "Page2MemNode ?p1 (Vir2Phy g) = Some i"
    using Page2MemNode_node [OF heap_invD(1) [OF inv] i(1)] by (simp add: g Vir2Phy_Phy2Vir new_block_def)
  have run: "MemGroupInit (s\<lparr>phys := ?p1\<rparr>) c g fl = Some (group_at s c g (g + 48) fl lk ?p, 0)"
    using lk(1) node objectSize_small [OF heap_invD(2) [OF inv] c(1)] c(2) bitmap_len [OF heap_invD(2) [OF inv] c(1)]
    by (simp add: MemGroupInit_def with_hlinks_def upd_group_def Let_def group_at_def SIZEOF_MEM_GROUP_def
        MEM_NODE_MARK_CHACHE_GROUP_def mark_eta MemGroup_fields add.commute)
  have pl: "place (group_at s c g (g + 48) fl lk ?p) c g i i"
  proof (rule placeI)
    show "g = Phy2Vir (MemNode2Page (phys (group_at s c g (g + 48) fl lk ?p)) i)"
      using g same_blocks_addr(1) [OF sb] by (simp add: new_block_def)
  qed (use c in \<open>simp_all add: new_block_def marked_def\<close>)
  have "heap_ok (group_at s c g (g + 48) fl lk ?p) (L(Free c := g # L (Free c))) \<and>
      live (group_at s c g (g + 48) fl lk ?p) (L(Free c := g # L (Free c))) = live s L"
  proof (rule group_at_ok [OF inv c(1) i g lk(2) _ _ _ pl])
    show "pages_ok ?p" using same_blocks_ok [OF sb] ok by simp
    show "memNodeTable ?p k = memNodeTable (phys s) k" if "owned (phys s) k" for k
      using that i(2) by (auto simp: new_block_def)
  qed (simp add: new_block_def)
  then show ?thesis using run by (auto simp: Let_def)
qed


lemma MemGroupInit_large:
  assumes inv: "heap_ok s L" and c: "c < 13" "\<not> c < 5" and i: "i < unat (memNodeCount (phys s))" "\<not> owned (phys s) i"
    and g: "g = Phy2Vir (MemNode2Page (phys s) i)" and ok: "pages_ok (new_block (phys s) i 1)"
    and ow: "\<And>j. owned (new_block (phys s) i 1) j \<longleftrightarrow> owned (phys s) j \<or> j = i"
    and blk: "AllocPages (new_block (phys s) i 1) 256 = (new_block (new_block (phys s) i 1) m 256, MemNode2Page (new_block (phys s) i 1) m)"
      "MemNode2Page (new_block (phys s) i 1) m \<noteq> 0" "m + 256 \<le> unat (memNodeCount (phys s))"
      "pages_ok (new_block (new_block (phys s) i 1) m 256)" "\<And>j. m \<le> j \<Longrightarrow> j < m + 256 \<Longrightarrow> \<not> owned (new_block (phys s) i 1) j"
  shows "\<exists>s' p. MemGroupInit (s\<lparr>phys := new_block (phys s) i 1\<rparr>) c g fl = Some (s', 0) \<and>
     heap_ok s' (L(Free c := g # L (Free c))) \<and> live s' (L(Free c := g # L (Free c))) = live s L \<and>
     same_blocks (new_block (new_block (phys s) i 1) m 256) (phys s')"
proof -
  let ?p1 = "new_block (phys s) i 1" and ?obj = "Phy2Vir (MemNode2Page (phys s) m)"
  let ?p2 = "new_block ?p1 m 256"
  let ?b = "\<lparr>btmpBytesLen = (NUM c + 7) div 8, bits = g + 32\<rparr>"
  note ok0 = heap_invD(1) [OF inv]
  have addr: "MemNode2Page ?p2 = MemNode2Page (phys s)" "MemNode2Page ?p1 = MemNode2Page (phys s)" by (simp_all add: new_block_def)
  have free: "\<not> owned (phys s) j" "j \<noteq> i" if "m \<le> j" "j < m + 256" for j
    using blk(5) [OF that] ow by blast+
  obtain lk where lk: "ListAdd (GroupNode g) (Free c) (hlinks s) = Some lk" "lists_ok lk (L(Free c := g # L (Free c)))"
    using lists_ok_add(2) [OF heap_invD(3) [OF inv] headsI(6) [OF c(1)], of g] fresh_group [OF inv i] g by blast
  define s2 where "s2 = s\<lparr>hlinks := lk, hmem := BitmapInit (hmem s) ?b, phys := ?p2,
      groupAt := (groupAt s)(g := (groupAt s g)\<lparr>gmap := ?b, objects := ?obj\<rparr>)\<rparr>"
  have s2: "phys s2 = ?p2" "objects (groupAt s2 g) = ?obj" by (simp_all add: s2_def)
  obtain p where p: "mark_loop s2 c g 0 256 = Some (s2\<lparr>phys := p\<rparr>)" "same_blocks ?p2 p"
      "\<And>j. memNodeTable p j = (if m \<le> j \<and> j < m + 256 then mark c g (memNodeTable ?p2 j) else memNodeTable ?p2 j)"
    using mark_loop_spec [of s2 g m 0 256 c] blk(3,4) s2 addr by (auto simp: new_block_def)
  have obj0: "?obj \<noteq> 0" using Phy2Vir_node [OF ok0, of m] blk(3) by simp
  have alloc: "MemCacheAllocPages t 256 = (t\<lparr>phys := ?p2\<rparr>, ?obj)" if "phys t = ?p1" for t
    using blk(1,2) addr that by (simp add: MemCacheAllocPages_def)
  have len: "unat ((objectNumber (memCacheTable s c) + 8 - 1) div 8) = (NUM c + 7) div 8"
    by (rule bitmap_len [OF heap_invD(2) [OF inv] c(1)])
  have run: "MemGroupInit (s\<lparr>phys := ?p1\<rparr>) c g fl = Some (group_at s c g ?obj fl lk p, 0)"
    using lk(1) p(1) obj0 alloc len objectSize_small [OF heap_invD(2) [OF inv] c(1)] c(2) object_pages [OF heap_invD(2) [OF inv] c]
    unfolding MemGroupInit_def with_hlinks_def upd_group_def group_at_def SIZEOF_MEM_GROUP_def
    by (simp add: Let_def s2_def MemGroup_fields)
  have i_m: "\<not> (m \<le> i \<and> i < m + 256)" using free(2) [of i] by blast
  have nodes: "memNodeTable p k = memNodeTable (phys s) k" if "owned (phys s) k" for k
  proof -
    have "\<not> (m \<le> k \<and> k < m + 256)" "k \<noteq> i" "k \<noteq> m" using free(1) [of k] free(1) [of m] i(2) that by auto
    then show ?thesis unfolding p(3) new_block_def by auto
  qed
  have pl: "place (group_at s c g ?obj fl lk p) c g i m"
  proof (rule placeI)
    show "g = Phy2Vir (MemNode2Page (phys (group_at s c g ?obj fl lk p)) i)"
      using g same_blocks_addr(1) [OF p(2)] addr by simp
  qed (use c i_m same_blocks_addr(1) [OF p(2)] addr in \<open>auto simp: p(3) marked_def new_block_def\<close>)
  have "heap_ok (group_at s c g ?obj fl lk p) (L(Free c := g # L (Free c))) \<and>
      live (group_at s c g ?obj fl lk p) (L(Free c := g # L (Free c))) = live s L"
  proof (rule group_at_ok [OF inv c(1) i g lk(2) _ nodes _ pl])
    show "pages_ok p" using same_blocks_ok [OF p(2)] blk(4) by simp
    show "memNodeBase p = memNodeBase (phys s)" using p(2) by (simp add: same_blocks_def new_block_def)
  qed
  then show ?thesis using run p(2) by (intro exI conjI) (assumption | simp)+
qed


lemma MemGroupInit_fails:
  assumes inv: "heap_ok s L" and c: "c < 13" "\<not> c < 5" and i: "i < unat (memNodeCount (phys s))" "\<not> owned (phys s) i"
    and g: "g = Phy2Vir (MemNode2Page (phys s) i)" and blk: "AllocPages (new_block (phys s) i 1) 256 = (new_block (phys s) i 1, 0)"
  shows "\<exists>s'. MemGroupInit (s\<lparr>phys := new_block (phys s) i 1\<rparr>) c g fl = Some (s', -1) \<and> phys s' = new_block (phys s) i 1 \<and>
     objects (groupAt s' g) = 0 \<and> lists_ok (hlinks s') (L(Free c := g # L (Free c)))"
proof -
  obtain lk where lk: "ListAdd (GroupNode g) (Free c) (hlinks s) = Some lk" "lists_ok lk (L(Free c := g # L (Free c)))"
    using lists_ok_add(2) [OF heap_invD(3) [OF inv] headsI(6) [OF c(1)], of g] fresh_group [OF inv i] g by blast
  have alloc: "MemCacheAllocPages t 256 = (t, 0)" if "phys t = new_block (phys s) i 1" for t
    using blk that by (simp add: MemCacheAllocPages_def)
  show ?thesis
    using lk alloc objectSize_small [OF heap_invD(2) [OF inv] c(1)] c(2) object_pages [OF heap_invD(2) [OF inv] c]
    unfolding MemGroupInit_def with_hlinks_def upd_group_def SIZEOF_MEM_GROUP_def
    by (simp add: Let_def)
qed

lemma MemCacheAllocPages_1:
  assumes "pages_ok (phys s)"
  obtains (fail) "MemCacheAllocPages s 1 = (s, 0)" "GetFreeMemNode (phys s) = None"
  | (block) i where "GetFreeMemNode (phys s) = Some i" "i < unat (memNodeCount (phys s))" "\<not> owned (phys s) i"
      "MemCacheAllocPages s 1 = (s\<lparr>phys := new_block (phys s) i 1\<rparr>, Phy2Vir (MemNode2Page (phys s) i))"
      "Phy2Vir (MemNode2Page (phys s) i) \<noteq> 0" "pages_ok (new_block (phys s) i 1)"
      "\<And>j. owned (new_block (phys s) i 1) j \<longleftrightarrow> owned (phys s) j \<or> j = i"
      "compact (phys s) \<Longrightarrow> compact (new_block (phys s) i 1)"
proof -
  have one: "0 < unat (1 :: u32)" "unat (1 :: u32) < 2 ^ 20" by simp_all
  have run: "run_free (phys s) (unat (1 :: u32))" using run_free_1 [OF assms] by simp
  show thesis
  proof (cases rule: AllocPages_cases [OF assms one run])
    case 1
    have "GetFreeMemNode (phys s) = None"
      using 1(2) GetFreeMemNode_spec [OF assms] by (cases "GetFreeMemNode (phys s)") auto
    then show thesis using 1(1) fail by (simp add: MemCacheAllocPages_def)
  next
    case (2 i)
    have i: "i < unat (memNodeCount (phys s))" using 2(4) by simp
    have "MemCacheAllocPages s 1 = (s\<lparr>phys := new_block (phys s) i 1\<rparr>, Phy2Vir (MemNode2Page (phys s) i))"
      using 2(2,3) by (simp add: MemCacheAllocPages_def)
    moreover have "\<not> owned (phys s) i" using 2(6) [of i] by simp
    moreover have "Phy2Vir (MemNode2Page (phys s) i) \<noteq> 0" using Phy2Vir_node [OF assms i] by simp
    moreover have "owned (new_block (phys s) i 1) j \<longleftrightarrow> owned (phys s) j \<or> j = i" for j
      using 2(7) [of j] by auto
    ultimately show thesis
      using block [of i] 2(1,5,8) i by blast
  qed
qed


text \<open>There is a page for a group of large objects, but not the 256 pages for the objects after it.\<close>

definition no_object_pages :: "physmem \<Rightarrow> bool" where
  "no_object_pages p \<longleftrightarrow> GetFreeMemNode p \<noteq> None \<and> snd (AllocPages (fst (AllocPages p 1)) 256) = 0"

lemma MemCacheAllocPages_phys: "MemCacheAllocPages s n = (s\<lparr>phys := q\<rparr>, g) \<Longrightarrow> fst (AllocPages (phys s) n) = q"
  by (auto simp: MemCacheAllocPages_def Let_def split: prod.splits if_splits dest: arg_cong [where f = phys])

lemma AllocPages_zero:
  assumes "pages_ok p" "snd (AllocPages p n) = 0"
  shows "AllocPages p n = (p, 0)"
proof (cases "GetFreeMemNode p")
  case None
  then show ?thesis by (simp add: AllocPages_def)
next
  case (Some i)
  then have "MemNode2Page p i \<noteq> 0"
    using GetFreeMemNode_spec [OF assms(1)] MemNode2Page_nonzero [OF assms(1)] by simp
  then show ?thesis using Some assms(2) by (auto simp: AllocPages_def split: if_splits)
qed


lemma CreateMemGroup_spec:
  assumes inv: "heap_ok s L" and c: "c < 13" and safe: "c < 5 \<or> compact (phys s)"
  shows "\<exists>s' ret. CreateMemGroup s c fl = Some (s', ret) \<and>
    (ret = 0 \<and> (\<exists>g. heap_ok s' (L(Free c := g # L (Free c))) \<and> live s' (L(Free c := g # L (Free c))) = live s L) \<and>
        (compact (phys s) \<longrightarrow> compact (phys s')) \<or>
     ret = -1 \<and> (s' = s \<and> GetFreeMemNode (phys s) = None \<or> \<not> c < 5 \<and> no_object_pages (phys s)))"
proof (cases rule: MemCacheAllocPages_1 [OF heap_invD(1) [OF inv]])
  case 1
  then show ?thesis by (simp add: CreateMemGroup_def)
next
  case (2 i)
  let ?g = "Phy2Vir (MemNode2Page (phys s) i)" and ?p1 = "new_block (phys s) i 1"
  have create: "CreateMemGroup s c fl = do { (s, ret) \<leftarrow> MemGroupInit (s\<lparr>phys := ?p1\<rparr>) c ?g fl;
      if ret \<noteq> 0 then Some (fst (MemCacheFreePages s ?g), -1) else Some (s, 0) }"
    using 2(4,5) by (simp add: CreateMemGroup_def)
  show ?thesis
  proof (cases "c < 5")
    case True
    obtain lk where init: "MemGroupInit (s\<lparr>phys := ?p1\<rparr>) c ?g fl =
        Some (group_at s c ?g (?g + 48) fl lk (upd_node i (mark c ?g) ?p1), 0)"
      "heap_ok (group_at s c ?g (?g + 48) fl lk (upd_node i (mark c ?g) ?p1)) (L(Free c := ?g # L (Free c)))"
      "live (group_at s c ?g (?g + 48) fl lk (upd_node i (mark c ?g) ?p1)) (L(Free c := ?g # L (Free c))) = live s L"
      using MemGroupInit_small [OF inv c True 2(2,3) refl 2(6), of fl] unfolding Let_def by blast
    have "same_blocks ?p1 (upd_node i (mark c ?g) ?p1)" by (simp add: same_blocks_def)
    then have "compact (phys s) \<longrightarrow> compact (upd_node i (mark c ?g) ?p1)"
      using compact_same_blocks 2(6,8) by blast
    then show ?thesis using create init by auto
  next
    case False
    then have comp: "compact ?p1" using safe 2(8) by blast
    have n: "0 < unat (256 :: u32)" "unat (256 :: u32) < 2 ^ 20" by simp_all
    show ?thesis
    proof (cases rule: AllocPages_cases [OF 2(6) n compact_run_free [OF comp]])
      case 1
      then obtain s2 where "MemGroupInit (s\<lparr>phys := ?p1\<rparr>) c ?g fl = Some (s2, -1)"
        using MemGroupInit_fails [OF inv c False 2(2,3) refl] by blast
      moreover have "no_object_pages (phys s)"
        using 1(1) 2(1) MemCacheAllocPages_phys [OF 2(4)] by (simp add: no_object_pages_def)
      ultimately show ?thesis using create False by simp
    next
      case (2 m)
      have "m + 256 \<le> unat (memNodeCount (phys s))" using 2(4) by (simp add: new_block_def)
      with 2 obtain s' where "MemGroupInit (s\<lparr>phys := ?p1\<rparr>) c ?g fl = Some (s', 0)"
          "heap_ok s' (L(Free c := ?g # L (Free c)))" "live s' (L(Free c := ?g # L (Free c))) = live s L"
          "same_blocks (new_block ?p1 m 256) (phys s')"
        using MemGroupInit_large [OF inv c False \<open>i < _\<close> \<open>\<not> owned _ i\<close> refl \<open>pages_ok ?p1\<close> \<open>\<And>j. owned ?p1 j = _\<close>, of m fl]
        by auto
      moreover from this have "compact (phys s')"
        using compact_same_blocks 2(5,8) comp by blast
      ultimately show ?thesis using create by auto
    qed
  qed
qed

section \<open>Allocation in a cache\<close>

lemma lists_first:
  assumes "lists_ok lk L" "h \<in> all_heads"
  shows "ListEmpty h lk \<longleftrightarrow> L h = []" "L h = g # gs \<Longrightarrow> lnext lk h = Some (GroupNode g)"
  using ListEmpty_dlist [OF lists_okD(1) [OF assms]] dlist_next_head [OF lists_okD(1) [OF assms]] by auto

text \<open>The result of an allocation, for one that succeeds.\<close>

definition allocates :: "heap \<Rightarrow> (hnode \<Rightarrow> addr list) \<Rightarrow> nat \<Rightarrow> heap \<Rightarrow> addr \<Rightarrow> bool" where
  "allocates s L n s' p \<longleftrightarrow> p \<noteq> 0 \<and> (\<forall>m. (p, m) \<notin> live s L) \<and>
     (\<exists>L'. heap_ok s' L' \<and> live s' L' = insert (p, n) (live s L)) \<and> (compact (phys s) \<longrightarrow> compact (phys s'))"

lemma object_nonzero:
  assumes "pages_ok (phys s)" "place s c g n m"
  shows "0 < objects (groupAt s g)"
  using place_small [OF assms(2)] place_large [OF assms(2)] Phy2Vir_node [OF assms(1) head_bound [OF assms(1) place_heads(4) [OF assms(2)]]]
  by (cases "c < 5") auto

lemma alloc_in_group:
  assumes inv: "heap_inv s L {g}" and c: "c < 13" and g: "g \<in> set (L (Partial c))" and room: "card (used s g) < NUM c"
  shows "\<exists>s' p. MemGroupAllocObjcet s c g = Some (s', p) \<and> allocates s L (SZ c) s' p"
proof -
  obtain s' i L' where a: "MemGroupAllocObjcet s c g = Some (s', objects (groupAt s g) + i * SZ c)" "i < NUM c" "i \<notin> used s g"
      "heap_ok s' L'" "phys s' = phys s" "live s' L' = insert (objects (groupAt s g) + i * SZ c, SZ c) (live s L)"
    using MemGroupAllocObjcet_spec [OF assms] by blast
  note G = heap_invD(4) [OF inv c headsI(2) g]
  obtain n m where pl: "place s c g n m" using grp_okD(6) [OF G] by blast
  have "(objects (groupAt s g) + i * SZ c, k) \<notin> live s L" for k
  proof
    assume "(objects (groupAt s g) + i * SZ c, k) \<in> live s L"
    then obtain d h j where d: "objects (groupAt s g) + i * SZ c = objects (groupAt s h) + j * SZ d" "d < 13" "h \<in> groups_of L d" "j \<in> used s h"
      unfolding live_def by blast
    moreover have "j < NUM d" using grp_okD(3) [OF heap_invD(6) [OF inv d(2,3)]] d(4) by auto
    ultimately have "h = g" "j = i" using object_inj [OF inv c in_groups_of [where L = L, OF headsI(2) g] a(2)] by metis+
    then show False using d(4) a(3) by simp
  qed
  then show ?thesis
    using a object_nonzero [OF heap_invD(1) [OF inv] pl] by (auto simp: allocates_def)
qed


lemma heap_inv_mono: "heap_inv s L X \<Longrightarrow> X \<subseteq> Y \<Longrightarrow> heap_inv s L Y"
  unfolding heap_inv_def by blast

lemma alloc_from_lists:
  assumes inv: "heap_ok s L" and c: "c < 13" and some: "L (Partial c) \<noteq> [] \<or> L (Free c) \<noteq> []"
  shows "\<exists>s' p. GroupAllocObjcet s c = Some (s', p) \<and> allocates s L (SZ c) s' p"
proof (cases "L (Partial c)")
  case (Cons g gs)
  then have g: "g \<in> set (L (Partial c))" by simp
  have inv1: "heap_inv s L {g}" using heap_inv_mono [OF inv] by simp
  have room: "card (used s g) < NUM c" using heap_invD(5) [OF inv c headsI(2) g] by simp
  have "GroupAllocObjcet s c = MemGroupAllocObjcet s c g"
    using lists_first [OF heap_invD(3) [OF inv] headsI(5) [OF c]] Cons
    by (subst GroupAllocObjcet.simps) (simp add: ListOwner_group_def)
  then show ?thesis using alloc_in_group [OF inv1 c g room] by simp
next
  case Nil
  then obtain g gs where free: "L (Free c) = g # gs" using some by (cases "L (Free c)") auto
  then have g: "g \<in> set (L (Free c))" by simp
  obtain lk where lk: "(ListDel (GroupNode g) (hlinks s) \<bind> ListAddTail (GroupNode g) (Partial c)) = Some lk"
      "lists_ok lk (moved g (Free c) (Partial c) L)"
    using lists_ok_move [OF heap_invD(3) [OF inv] headsI(6) [OF c] headsI(5) [OF c] _ g] by auto
  let ?s = "s\<lparr>hlinks := lk\<rparr>" and ?L = "moved g (Free c) (Partial c) L"
  have "heap_inv s L (insert g {})" using heap_inv_mono [OF inv] by simp
  from heap_inv_move(1) [OF this c headsI(3) headsI(2) g _ lk(2)] have inv1: "heap_inv ?s ?L {g}" by simp
  have gm: "g \<in> set (?L (Partial c))" by (simp add: moved_def)
  have "card (used s g) = 0" using heap_invD(5) [OF inv c headsI(3) g] by simp
  then have room: "card (used ?s g) < NUM c" using NUM_facts(1) [OF c] by simp
  have lv: "live ?s ?L = live s L"
    using live_groups [OF groups_of_moved [of "Free c" c "Partial c" g L]] g by simp
  have wl: "with_hlinks (\<lambda>l. ListDel (GroupNode g) l \<bind> ListAddTail (GroupNode g) (Partial c)) s = Some ?s"
    using lk(1) by (simp only: with_hlinks_def Option.bind.bind_lunit)
  have "GroupAllocObjcet s c = MemGroupAllocObjcet ?s c g"
    using lists_first [OF heap_invD(3) [OF inv] headsI(5) [OF c]] lists_first [OF heap_invD(3) [OF inv] headsI(6) [OF c]] Nil free wl
    by (subst GroupAllocObjcet.simps) (simp add: ListOwner_group_def)
  then show ?thesis using alloc_in_group [OF inv1 c gm room] lv by (auto simp: allocates_def)
qed

lemma GroupAllocObjcet_spec:
  assumes inv: "heap_ok s L" and c: "c < 13" and safe: "c < 5 \<or> compact (phys s)"
  shows "\<exists>s' p. GroupAllocObjcet s c = Some (s', p) \<and>
    (allocates s L (SZ c) s' p \<or> p = 0 \<and> (s' = s \<and> GetFreeMemNode (phys s) = None \<or>
       \<not> c < 5 \<and> no_object_pages (phys s) \<and> L (Partial c) = [] \<and> L (Free c) = []))"
proof (cases "L (Partial c) \<noteq> [] \<or> L (Free c) \<noteq> []")
  case True
  then show ?thesis using alloc_from_lists [OF inv c] by blast
next
  case False
  then have empty: "ListEmpty (Partial c) (hlinks s)" "ListEmpty (Free c) (hlinks s)"
    using lists_first(1) [OF heap_invD(3) [OF inv] headsI(5) [OF c]] lists_first(1) [OF heap_invD(3) [OF inv] headsI(6) [OF c]] by auto
  have run: "GroupAllocObjcet s c = do { (s, ret) \<leftarrow> CreateMemGroup s c 0;
      if ret \<noteq> 0 then Some (s, 0) else GroupAllocObjcet s c }"
    using empty by (subst GroupAllocObjcet.simps) simp
  obtain s1 ret where cr: "CreateMemGroup s c 0 = Some (s1, ret)"
      "ret = 0 \<and> (\<exists>g. heap_ok s1 (L(Free c := g # L (Free c))) \<and> live s1 (L(Free c := g # L (Free c))) = live s L) \<and>
        (compact (phys s) \<longrightarrow> compact (phys s1)) \<or>
       ret = -1 \<and> (s1 = s \<and> GetFreeMemNode (phys s) = None \<or> \<not> c < 5 \<and> no_object_pages (phys s))"
    using CreateMemGroup_spec [OF inv c safe, of 0] by (elim exE conjE) (rule that)
  show ?thesis
  proof (cases "ret = 0")
    case True
    then obtain g where g: "heap_ok s1 (L(Free c := g # L (Free c)))" "live s1 (L(Free c := g # L (Free c))) = live s L"
        "compact (phys s) \<longrightarrow> compact (phys s1)"
      using cr(2) by auto
    have ne: "(L(Free c := g # L (Free c))) (Free c) \<noteq> []" by simp
    from alloc_from_lists [OF g(1) c disjI2 [OF ne]] obtain s' p where
      "GroupAllocObjcet s1 c = Some (s', p)" "allocates s1 (L(Free c := g # L (Free c))) (SZ c) s' p" by blast
    then show ?thesis using run cr(1) True g(2,3) by (simp add: allocates_def)
  next
    case False
    then have "ret \<noteq> 0" "s1 = s \<and> GetFreeMemNode (phys s) = None \<or> \<not> c < 5 \<and> no_object_pages (phys s)" using cr(2) by simp_all
    moreover have "L (Partial c) = []" "L (Free c) = []" using \<open>\<not> (L (Partial c) \<noteq> [] \<or> L (Free c) \<noteq> [])\<close> by simp_all
    ultimately show ?thesis using run cr(1) by simp
  qed
qed

section \<open>Initialisation and size classes\<close>

lemma size_class:
  assumes "unat sz \<le> 131072"
  shows "size_loop 0 cacheSizes sz < 13 \<and> unat sz \<le> SZ (size_loop 0 cacheSizes sz) \<and>
    (size_loop 0 cacheSizes sz < 5 \<longleftrightarrow> unat sz \<le> 512) \<and>
    (SZ (size_loop 0 cacheSizes sz) = 32 \<or> SZ (size_loop 0 cacheSizes sz) < 2 * unat sz)"
  using assms by (simp add: cacheSizes_def word_le_nat_alt SZ_def)

text \<open>The number of objects that \<open>MemCacheInit\<close> computes.\<close>

definition number_for :: "u32 \<Rightarrow> u32" where
  "number_for sz = (if sz < 1024 then (4096 - ALIGN_WITH (word_of_nat SIZEOF_MEM_GROUP) 8 - 16) div sz else 0x100000 div sz)"

lemma MemCacheInit_eq:
  assumes "0 < sz" "sz \<le> 128 * 1024"
  shows "MemCacheInit s i nm sz fl =
    (s\<lparr>hlinks := INIT_LIST_HEAD (Free i) (INIT_LIST_HEAD (Partial i) (INIT_LIST_HEAD (Full i) (hlinks s))),
       memCacheTable := (memCacheTable s)(i := \<lparr>objectSize = sz, cflags = fl, objectNumber = number_for sz, cname = nm\<rparr>)\<rparr>, 0)"
  using assms by (simp add: MemCacheInit_def number_for_def Let_def word_gt_0)

lemma heads_INIT:
  assumes "h \<in> heads i"
  shows "dlist (INIT_LIST_HEAD (Free i) (INIT_LIST_HEAD (Partial i) (INIT_LIST_HEAD (Full i) lk))) h []"
proof -
  have *: "dlist (INIT_LIST_HEAD b lk') a []" if "dlist lk' a []" "a \<noteq> b" for a b :: hnode and lk'
    using that by (intro dlist_agree [OF INIT_agree]) auto
  from assms consider "h = Full i" | "h = Partial i" | "h = Free i" by (auto simp: heads_def)
  then show ?thesis
  proof cases
    case 1
    have "dlist (INIT_LIST_HEAD (Partial i) (INIT_LIST_HEAD (Full i) lk)) (Full i) []" by (rule *) simp_all
    then show ?thesis unfolding 1 by (rule *) simp
  next
    case 2
    show ?thesis unfolding 2 by (rule *) simp_all
  next
    case 3
    show ?thesis unfolding 3 by (rule dlist_INIT)
  qed
qed

lemma heads_INIT_other:
  assumes "dlist lk h []" "h \<notin> heads i"
  shows "dlist (INIT_LIST_HEAD (Free i) (INIT_LIST_HEAD (Partial i) (INIT_LIST_HEAD (Full i) lk))) h []"
proof -
  have *: "dlist (INIT_LIST_HEAD b lk') h []" if "dlist lk' h []" "h \<noteq> b" for b :: hnode and lk'
    using that by (intro dlist_agree [OF INIT_agree]) auto
  from assms(2) have n: "h \<noteq> Full i" "h \<noteq> Partial i" "h \<noteq> Free i" by (auto simp: heads_def)
  show ?thesis using * [OF * [OF * [OF assms(1) n(1)] n(2)] n(3)] .
qed

lemma make_caches_loop_spec:
  "\<lbrakk>\<forall>sz \<in> set szs. 0 < sz \<and> sz \<le> 128 * 1024; \<forall>c < i. cachePtr s c = Some c \<and> (\<forall>h \<in> heads c. dlist (hlinks s) h [])\<rbrakk> \<Longrightarrow>
   \<exists>s'. make_caches_loop s i szs = (s', 0) \<and> phys s' = phys s \<and> hmem s' = hmem s \<and> groupAt s' = groupAt s \<and>
     (\<forall>c < i + length szs. cachePtr s' c = Some c \<and> (\<forall>h \<in> heads c. dlist (hlinks s') h [])) \<and>
     (\<forall>c < i. memCacheTable s' c = memCacheTable s c) \<and>
     (\<forall>c < length szs. objectSize (memCacheTable s' (i + c)) = szs ! c \<and> objectNumber (memCacheTable s' (i + c)) = number_for (szs ! c))"
proof (induction szs arbitrary: s i)
  case Nil
  then show ?case by simp
next
  case (Cons sz szs)
  define s1 where "s1 = fst (MemCacheInit s i ''mem cache'' sz 0)"
  let ?s = "s1\<lparr>cachePtr := (cachePtr s1)(i := Some i)\<rparr>"
  have init: "MemCacheInit s i ''mem cache'' sz 0 = (s1, 0)"
    using MemCacheInit_eq [of sz s i] Cons.prems(1) by (simp add: s1_def)
  have s1: "s1 = s\<lparr>hlinks := INIT_LIST_HEAD (Free i) (INIT_LIST_HEAD (Partial i) (INIT_LIST_HEAD (Full i) (hlinks s))),
       memCacheTable := (memCacheTable s)(i := \<lparr>objectSize = sz, cflags = 0, objectNumber = number_for sz, cname = ''mem cache''\<rparr>)\<rparr>"
    using MemCacheInit_eq [of sz s i] Cons.prems(1) by (simp add: s1_def)
  have ih: "\<forall>c < i + 1. cachePtr ?s c = Some c \<and> (\<forall>h \<in> heads c. dlist (hlinks ?s) h [])"
  proof (intro allI impI)
    fix c assume "c < i + 1"
    then consider "c = i" | "c < i" by linarith
    then show "cachePtr ?s c = Some c \<and> (\<forall>h \<in> heads c. dlist (hlinks ?s) h [])"
    proof cases
      case 1
      then show ?thesis using heads_INIT by (simp add: s1)
    next
      case 2
      then have "h \<notin> heads i" if "h \<in> heads c" for h using that by (auto simp: heads_def)
      then show ?thesis using 2 Cons.prems(2) heads_INIT_other by (simp add: s1)
    qed
  qed
  have "\<forall>sz \<in> set szs. 0 < sz \<and> sz \<le> 128 * 1024" using Cons.prems(1) by simp
  from Cons.IH [OF this ih] obtain s' where s': "make_caches_loop ?s (i + 1) szs = (s', 0)" "phys s' = phys ?s" "hmem s' = hmem ?s" "groupAt s' = groupAt ?s"
     "\<forall>c < i + 1 + length szs. cachePtr s' c = Some c \<and> (\<forall>h \<in> heads c. dlist (hlinks s') h [])"
     "\<forall>c < i + 1. memCacheTable s' c = memCacheTable ?s c"
     "\<forall>c < length szs. objectSize (memCacheTable s' (i + 1 + c)) = szs ! c \<and> objectNumber (memCacheTable s' (i + 1 + c)) = number_for (szs ! c)"
    by blast
  have "objectSize (memCacheTable s' (i + c)) = (sz # szs) ! c \<and> objectNumber (memCacheTable s' (i + c)) = number_for ((sz # szs) ! c)"
    if "c < length (sz # szs)" for c
    using that s'(6,7) by (cases c) (auto simp: s1)
  then show ?case
    using init s' by (intro exI [of _ s']) (simp add: s1)
qed

lemma number_for_NUM: "c < 13 \<Longrightarrow> unat (cacheSizes ! c) = SZ c \<and> unat (number_for (cacheSizes ! c)) = NUM c"
  using cache_cases [of c] by (auto simp: cacheSizes_def SZ_def NUM_def number_for_def ALIGN_WITH_def SIZEOF_MEM_GROUP_def)

lemma MakeMemCaches_spec:
  assumes "pages_ok (phys s)"
  shows "snd (MakeMemCaches s) = 0 \<and> heap_ok (fst (MakeMemCaches s)) (\<lambda>_. []) \<and> live (fst (MakeMemCaches s)) (\<lambda>_. []) = {} \<and>
    phys (fst (MakeMemCaches s)) = phys s"
proof -
  have "\<forall>sz \<in> set cacheSizes. 0 < sz \<and> sz \<le> 128 * 1024" by (simp add: cacheSizes_def)
  from make_caches_loop_spec [OF this, of 0 s] obtain s' where s': "MakeMemCaches s = (s', 0)" "phys s' = phys s"
     "\<forall>c < length cacheSizes. cachePtr s' c = Some c \<and> (\<forall>h \<in> heads c. dlist (hlinks s') h [])"
     "\<forall>c < length cacheSizes. objectSize (memCacheTable s' c) = cacheSizes ! c \<and> objectNumber (memCacheTable s' c) = number_for (cacheSizes ! c)"
    unfolding MakeMemCaches_def by auto
  have len: "length cacheSizes = 13" by (simp add: cacheSizes_def)
  have "lists_ok (hlinks s') (\<lambda>_. [])" using s'(3) len by (auto simp: lists_ok_def all_heads_def)
  moreover have "caches_ok s'" using s'(3,4) len number_for_NUM by (simp add: caches_ok_def)
  ultimately show ?thesis
    using s'(1,2) assms by (auto simp: heap_inv_def live_def groups_of_def)
qed


section \<open>kmalloc and kfree\<close>

lemma kmalloc_spec:
  assumes inv: "heap_ok s L" and sz: "unat sz \<le> 131072" and safe: "unat sz \<le> 512 \<or> compact (phys s)"
  shows "\<exists>s' p n. kmalloc s sz = Some (s', p) \<and> unat sz \<le> n \<and> (n = 32 \<or> n < 2 * unat sz) \<and>
    (allocates s L n s' p \<or> p = 0 \<and> (s' = s \<and> GetFreeMemNode (phys s) = None \<or> 512 < unat sz \<and> no_object_pages (phys s) \<and>
       L (Partial (size_loop 0 cacheSizes sz)) = [] \<and> L (Free (size_loop 0 cacheSizes sz)) = []))"
proof -
  let ?c = "size_loop 0 cacheSizes sz"
  note cls = size_class [OF sz]
  have c: "?c < 13" using cls by simp
  have "\<not> MAX_MEM_CACHE_SIZE < sz" using sz by (simp add: MAX_MEM_CACHE_SIZE_def word_less_nat_alt)
  then have run: "kmalloc s sz = GroupAllocObjcet s ?c"
    using caches_okD(1) [OF heap_invD(2) [OF inv] c] by (simp add: kmalloc_def)
  have "?c < 5 \<or> compact (phys s)" using safe cls by blast
  from GroupAllocObjcet_spec [OF inv c this] obtain s' p where r: "GroupAllocObjcet s ?c = Some (s', p)"
      "allocates s L (SZ ?c) s' p \<or> p = 0 \<and> (s' = s \<and> GetFreeMemNode (phys s) = None \<or>
         \<not> ?c < 5 \<and> no_object_pages (phys s) \<and> L (Partial ?c) = [] \<and> L (Free ?c) = [])"
    by (elim exE conjE) (rule that)
  moreover have "\<not> ?c < 5 \<longleftrightarrow> 512 < unat sz" using cls by auto
  ultimately show ?thesis using run cls by (intro exI [of _ s'] exI [of _ p] exI [of _ "SZ ?c"]) simp
qed

text \<open>A request that fails after it has taken a page, and leaves the group it began on the free list.\<close>

definition leaves_group :: "heap \<Rightarrow> u32 \<Rightarrow> bool" where
  "leaves_group s sz \<longleftrightarrow> 512 < unat sz \<and> unat sz \<le> 131072 \<and> no_object_pages (phys s)"

lemma kmalloc_some:
  assumes inv: "heap_ok s L" and sz: "unat sz \<le> 131072" and safe: "unat sz \<le> 512 \<or> compact (phys s)"
    and run: "kmalloc s sz = Some (s', p)"
  shows "p \<noteq> 0 \<Longrightarrow> \<exists>n. unat sz \<le> n \<and> allocates s L n s' p" "p = 0 \<Longrightarrow> \<not> leaves_group s sz \<Longrightarrow> s' = s"
proof -
  from kmalloc_spec [OF inv sz safe] obtain s1 q n where r: "kmalloc s sz = Some (s1, q)" "unat sz \<le> n"
      "allocates s L n s1 q \<or> q = 0 \<and> (s1 = s \<or> 512 < unat sz \<and> no_object_pages (phys s))"
    by blast
  then have eq: "s1 = s'" "q = p" using run by simp_all
  show "\<exists>n. unat sz \<le> n \<and> allocates s L n s' p" if "p \<noteq> 0" using r(2,3) that eq by blast
  show "s' = s" if "p = 0" "\<not> leaves_group s sz" using r(3) that eq sz by (auto simp: allocates_def leaves_group_def)
qed

lemma kmalloc_large: "131072 < unat sz \<Longrightarrow> kmalloc s sz = Some (s, 0)"
  by (simp add: kmalloc_def MAX_MEM_CACHE_SIZE_def word_less_nat_alt)

lemma kmalloc_size:
  assumes "kmalloc s sz = Some (s', p)" "p \<noteq> 0"
  shows "unat sz \<le> 131072"
proof (rule ccontr)
  assume "\<not> unat sz \<le> 131072"
  then have "kmalloc s sz = Some (s, 0)" by (intro kmalloc_large) simp
  then show False using assms by simp
qed

lemma no_page_left: "pages_ok p \<Longrightarrow> GetFreeMemNode p = None \<Longrightarrow> i < unat (memNodeCount p) \<Longrightarrow> owned p i"
  using GetFreeMemNode_spec [of p] by simp

lemma kmalloc_dangles_ok:
  assumes "heap_ok s L" "512 < unat sz" "unat sz \<le> 131072"
    and "L (Partial (size_loop 0 cacheSizes sz)) = []" "L (Free (size_loop 0 cacheSizes sz)) = []"
    and "GetFreeMemNode (phys s) = Some i" "snd (AllocPages (fst (AllocPages (phys s) 1)) 256) = 0"
  defines "g \<equiv> Phy2Vir (MemNode2Page (phys s) i)"
  shows "\<exists>s'. kmalloc s sz = Some (s', 0) \<and> lnext (hlinks s') (Free (size_loop 0 cacheSizes sz)) = Some (GroupNode g) \<and>
     objects (groupAt s' g) = 0 \<and> \<not> owned (phys s') i \<and> snd (MemCacheAllocPages s' 1) = g"
proof -
  let ?c = "size_loop 0 cacheSizes sz" and ?p1 = "new_block (phys s) i 1"
  note inv = assms(1)
  note ok = heap_invD(1) [OF inv]
  have c: "?c < 13" "\<not> ?c < 5" using size_class [OF assms(3)] assms(2) by auto
  have run: "kmalloc s sz = GroupAllocObjcet s ?c"
    using caches_okD(1) [OF heap_invD(2) [OF inv] c(1)] assms(3)
    by (simp add: kmalloc_def MAX_MEM_CACHE_SIZE_def word_less_nat_alt)
  have "ListEmpty (Partial ?c) (hlinks s)" "ListEmpty (Free ?c) (hlinks s)"
    using lists_first(1) [OF heap_invD(3) [OF inv] headsI(5) [OF c(1)]] lists_first(1) [OF heap_invD(3) [OF inv] headsI(6) [OF c(1)]]
      assms(4,5) by auto
  then have run1: "GroupAllocObjcet s ?c = do { (s, ret) \<leftarrow> CreateMemGroup s ?c 0;
      if ret \<noteq> 0 then Some (s, 0) else GroupAllocObjcet s ?c }"
    by (subst GroupAllocObjcet.simps) simp
  show ?thesis
  proof (cases rule: MemCacheAllocPages_1 [OF ok])
    case 1
    then show ?thesis using assms(6) by simp
  next
    case (2 j)
    then have j: "j = i" using assms(6) by simp
    note blk = 2 [unfolded j, folded g_def]
    have "fst (AllocPages (phys s) 1) = ?p1"
      using blk(4) by (auto simp: MemCacheAllocPages_def Let_def split: prod.splits if_splits dest: arg_cong [where f = phys])
    then have "AllocPages ?p1 256 = (?p1, 0)" using AllocPages_zero [OF blk(6)] assms(7) by simp
    from MemGroupInit_fails [OF inv c blk(2,3) g_def [THEN meta_eq_to_obj_eq] this, of 0] obtain s2 where
      s2: "MemGroupInit (s\<lparr>phys := ?p1\<rparr>) ?c g 0 = Some (s2, -1)" "phys s2 = ?p1" "objects (groupAt s2 g) = 0"
        "lists_ok (hlinks s2) (L(Free ?c := g # L (Free ?c)))" by blast
    define s3 where "s3 = fst (MemCacheFreePages s2 g)"
    have hd: "is_head ?p1 i" by (simp add: new_block_def)
    have addr: "MemNode2Page ?p1 = MemNode2Page (phys s)" by (simp add: new_block_def)
    have phys3: "phys s3 = fst (FreePages ?p1 (MemNode2Page ?p1 i))" and same: "groupAt s3 = groupAt s2" "hlinks s3 = hlinks s2"
      using blk(5) MemNode2Page_nonzero [OF ok blk(2)] by (simp_all add: s3_def MemCacheFreePages_def g_def Vir2Phy_Phy2Vir s2(2) addr)
    note fr = FreePages_spec [OF blk(6) hd]
    have ok3: "pages_ok (phys s3)" unfolding phys3 using fr by blast
    have nb: "\<not> in_block (phys s) i k" for k
      using blk(3) in_block_self [OF ok, of i] unfolding owned_def by (auto simp: in_block_def)
    have "in_block (phys s3) h k \<longleftrightarrow> in_block (phys s) h k" for h k
      unfolding phys3 conjunct2 [OF conjunct2 [OF fr], rule_format]
      using nb by (auto simp: new_block_def in_block_upd)
    then have ow: "owned (phys s3) = owned (phys s)" by (simp add: owned_def fun_eq_iff)
    have cnt: "memNodeCount (phys s3) = memNodeCount (phys s)" "MemNode2Page (phys s3) = MemNode2Page (phys s)"
      unfolding phys3 conjunct1 [OF fr] by (simp_all add: new_block_def)
    have free3: "GetFreeMemNode (phys s3) = Some i"
      using GetFreeMemNode_unique [OF ok3, of i] blk(1,2,3) GetFreeMemNode_spec [OF ok] by (simp add: ow cnt)
    have "snd (MemCacheAllocPages s3 1) = g"
    proof (cases rule: MemCacheAllocPages_1 [OF ok3])
      case 1
      then show ?thesis using free3 by simp
    next
      case (2 k)
      then show ?thesis using free3 by (simp add: g_def cnt)
    qed
    moreover have "CreateMemGroup s ?c 0 = Some (s3, -1)"
      using blk(4,5) s2(1) by (simp add: CreateMemGroup_def s3_def)
    moreover have "lnext (hlinks s3) (Free ?c) = Some (GroupNode g)"
      using lists_first(2) [OF s2(4) headsI(6) [OF c(1)]] by (simp add: same)
    ultimately show ?thesis using run run1 s2(3) ow blk(3) same by simp
  qed
qed

text \<open>
  C12: on a consistent heap kmalloc always returns, provided that a request above 512 bytes is made while the free pages lie
  together (\<open>compact\<close>). It returns an object at least as large as asked for (32 bytes, or less than twice the request) that was
  not allocated, and afterwards the heap is consistent with exactly that object added; or NULL with nothing changed, because
  the request is above 128 KB or no page is free; or NULL to a request above 512 bytes for which there is a page but not the
  256 pages for the objects, and then the page is given back while the free list of the cache still points to it.
\<close>

theorem kmalloc_allocates:
  assumes "heap_ok s L" "unat sz \<le> 512 \<or> compact (phys s)"
  shows "\<exists>s' p. kmalloc s sz = Some (s', p) \<and>
    (if p \<noteq> 0 then unat sz \<le> 131072 \<and> (\<exists>n L'. unat sz \<le> n \<and> (n = 32 \<or> n < 2 * unat sz) \<and> (\<forall>m. (p, m) \<notin> live s L) \<and>
       heap_ok s' L' \<and> live s' L' = insert (p, n) (live s L) \<and> (compact (phys s) \<longrightarrow> compact (phys s')))
     else if leaves_group s sz then \<exists>i. GetFreeMemNode (phys s) = Some i \<and> \<not> owned (phys s') i \<and>
       lnext (hlinks s') (Free (size_loop 0 cacheSizes sz)) = Some (GroupNode (Phy2Vir (MemNode2Page (phys s) i)))
     else s' = s \<and> (131072 < unat sz \<or> (\<forall>i < unat (memNodeCount (phys s)). owned (phys s) i)))"
proof (cases "unat sz \<le> 131072")
  case True
  let ?c = "size_loop 0 cacheSizes sz"
  from kmalloc_spec [OF assms(1) True assms(2)] obtain s' p n where r: "kmalloc s sz = Some (s', p)" "unat sz \<le> n"
      "n = 32 \<or> n < 2 * unat sz"
      "allocates s L n s' p \<or> p = 0 \<and> (s' = s \<and> GetFreeMemNode (phys s) = None \<or>
         512 < unat sz \<and> no_object_pages (phys s) \<and> L (Partial ?c) = [] \<and> L (Free ?c) = [])"
    by (elim exE conjE) (rule that)
  consider (object) "p \<noteq> 0" "allocates s L n s' p" | (none) "p = 0" "s' = s" "GetFreeMemNode (phys s) = None"
    | (left) "p = 0" "512 < unat sz" "no_object_pages (phys s)" "L (Partial ?c) = []" "L (Free ?c) = []"
    using r(4) by (auto simp: allocates_def)
  then show ?thesis
  proof cases
    case object
    then obtain L' where "heap_ok s' L'" "live s' L' = insert (p, n) (live s L)" "\<forall>m. (p, m) \<notin> live s L"
        "compact (phys s) \<longrightarrow> compact (phys s')"
      unfolding allocates_def by blast
    then show ?thesis using r(1-3) object(1) True by auto
  next
    case none
    then have "\<not> leaves_group s sz" by (simp add: leaves_group_def no_object_pages_def)
    then show ?thesis using r(1) none no_page_left [OF heap_invD(1) [OF assms(1)]] by simp
  next
    case left
    then obtain i where i: "GetFreeMemNode (phys s) = Some i" "snd (AllocPages (fst (AllocPages (phys s) 1)) 256) = 0"
      by (auto simp: no_object_pages_def)
    from kmalloc_dangles_ok [OF assms(1) left(2) True left(4,5) i] r(1) left(1)
    show ?thesis using left True i(1) by (simp add: leaves_group_def)
  qed
next
  case False
  then show ?thesis using kmalloc_large [of sz s] by (simp add: leaves_group_def)
qed

text \<open>
  C31: kfree undoes kmalloc: freeing an object that kmalloc returned succeeds, keeps the heap consistent
  and leaves exactly the objects that were allocated before.
\<close>

theorem kmalloc_kfree_roundtrip:
  assumes "heap_ok s L" "unat sz \<le> 512 \<or> compact (phys s)" "kmalloc s sz = Some (s', p)" "p \<noteq> 0"
  shows "\<exists>s'' L''. kfree s' p = Some s'' \<and> heap_ok s'' L'' \<and> live s'' L'' = live s L \<and> phys s'' = phys s'"
proof -
  have sz: "unat sz \<le> 131072" using kmalloc_size [OF assms(3,4)] .
  obtain n where "allocates s L n s' p" using kmalloc_some(1) [OF assms(1) sz assms(2,3,4)] by blast
  then obtain L' where L': "heap_ok s' L'" "live s' L' = insert (p, n) (live s L)" "\<forall>m. (p, m) \<notin> live s L"
    unfolding allocates_def by blast
  have "(p, n) \<in> live s' L'" using L'(2) by simp
  from kfree_spec [OF L'(1) this] obtain s'' L'' where "kfree s' p = Some s''" "heap_ok s'' L''"
      "live s'' L'' = live s' L' - {(p, n)}" "phys s'' = phys s'" by blast
  moreover have "live s' L' - {(p, n)} = live s L" using L'(2,3) by auto
  ultimately show ?thesis by metis
qed

text \<open>
  The runs of a client: any requests and any releases of what was obtained, from a heap initialised while the free pages lie
  together. \<open>A\<close> is what the client holds, addresses and requested sizes. \<open>left\<close> says that some request has left a group behind.
\<close>

inductive heap_run :: "bool \<Rightarrow> heap \<Rightarrow> (addr \<times> nat) set \<Rightarrow> bool" where
  start: "\<lbrakk>pages_ok (phys s); compact (phys s)\<rbrakk> \<Longrightarrow> heap_run False (fst (MakeMemCaches s)) {}"
| alloc: "\<lbrakk>heap_run left s A; kmalloc s sz = Some (s', p); p \<noteq> 0\<rbrakk> \<Longrightarrow> heap_run left s' (insert (p, unat sz) A)"
| fail: "\<lbrakk>heap_run left s A; kmalloc s sz = Some (s', 0)\<rbrakk> \<Longrightarrow> heap_run (left \<or> leaves_group s sz) s' A"
| release: "\<lbrakk>heap_run left s A; (p, n) \<in> A; kfree s p = Some s'\<rbrakk> \<Longrightarrow> heap_run left s' (A - {(p, n)})"

definition covers :: "(addr \<times> nat) set \<Rightarrow> (addr \<times> nat) set \<Rightarrow> bool" where
  "covers B A \<longleftrightarrow> (\<forall>(p, n) \<in> A. \<exists>m \<ge> n. (p, m) \<in> B) \<and> (\<forall>p n m. (p, n) \<in> A \<longrightarrow> (p, m) \<in> A \<longrightarrow> n = m)"

lemma live_unique: "heap_inv s L X \<Longrightarrow> (p, n) \<in> live s L \<Longrightarrow> (p, m) \<in> live s L \<Longrightarrow> n = m"
proof -
  assume a: "heap_inv s L X" "(p, n) \<in> live s L" "(p, m) \<in> live s L"
  have "0 < n" "0 < m" using a(2,3) by (auto simp: live_def)
  then show "n = m" using live_disjoint [OF a] by auto
qed

lemma heap_run_inv: "heap_run left s A \<Longrightarrow> \<not> left \<Longrightarrow> \<exists>L. heap_ok s L \<and> compact (phys s) \<and> covers (live s L) A"
proof (induction rule: heap_run.induct)
  case (start s)
  then show ?case using MakeMemCaches_spec [of s] by (auto simp: covers_def)
next
  case (alloc left s A sz s' p)
  then obtain L where L: "heap_ok s L" "compact (phys s)" "covers (live s L) A" by blast
  have sz: "unat sz \<le> 131072" using kmalloc_size [OF alloc.hyps(2,3)] .
  obtain n where "allocates s L n s' p" "unat sz \<le> n"
    using kmalloc_some(1) [OF L(1) sz disjI2 [OF L(2)] alloc.hyps(2,3)] by blast
  then obtain L' where L': "heap_ok s' L'" "live s' L' = insert (p, n) (live s L)" "\<forall>m. (p, m) \<notin> live s L" "compact (phys s')"
    unfolding allocates_def using L(2) by blast
  have "(p, m) \<notin> A" for m using L(3) L'(3) unfolding covers_def by blast
  then have "covers (live s' L') (insert (p, unat sz) A)"
    using L(3) \<open>unat sz \<le> n\<close> unfolding covers_def L'(2) by blast
  then show ?case using L' by blast
next
  case (fail left s A sz s')
  then obtain L where L: "heap_ok s L" "compact (phys s)" "covers (live s L) A" by blast
  have "s' = s"
  proof (cases "unat sz \<le> 131072")
    case True
    then show ?thesis using kmalloc_some(2) [OF L(1) True disjI2 [OF L(2)] fail.hyps(2)] fail.prems by blast
  next
    case False
    then show ?thesis using kmalloc_large [of sz s] fail.hyps by simp
  qed
  then show ?case using L by blast
next
  case (release left s A p n s')
  then obtain L where L: "heap_ok s L" "compact (phys s)" "covers (live s L) A" by blast
  obtain m where m: "(p, m) \<in> live s L" using L(3) release.hyps(2) unfolding covers_def by blast
  obtain L' where L': "heap_ok s' L'" "live s' L' = live s L - {(p, m)}" "phys s' = phys s"
    using kfree_spec [OF L(1) m] release.hyps(3) by auto
  have "q \<noteq> p" if "(q, k) \<in> A - {(p, n)}" for q k using that L(3) release.hyps(2) unfolding covers_def by blast
  then have "covers (live s' L') (A - {(p, n)})"
    using L(3) unfolding covers_def L'(2) by blast
  then show ?case using L' L(2) by auto
qed

text \<open>
  C2: in every run of requests and releases, of any sizes, from a heap initialised while the free pages lie together, what the
  client holds never overlaps, lies outside address 0 and can be released, and every request returns, until a request of 513
  to 131072 bytes has failed for want of pages for the objects after it took a page for the group.
\<close>

theorem heap_run_safe:
  assumes "heap_run False s A"
  shows "(\<forall>p n q m. (p, n) \<in> A \<and> (q, m) \<in> A \<and> (p, n) \<noteq> (q, m) \<longrightarrow> p \<noteq> q \<and> (p + n \<le> q \<or> q + m \<le> p)) \<and>
    (\<forall>p n. (p, n) \<in> A \<longrightarrow> p \<noteq> 0 \<and> (\<exists>s'. kfree s p = Some s')) \<and> (\<forall>sz. kmalloc s sz \<noteq> None)"
proof -
  obtain L where L: "heap_ok s L" "compact (phys s)" "covers (live s L) A" using heap_run_inv [OF assms] by auto
  have cover: "\<exists>m \<ge> n. (p, m) \<in> live s L" if "(p, n) \<in> A" for p n using L(3) that unfolding covers_def by blast
  have apart: "p \<noteq> q \<and> (p + n \<le> q \<or> q + m \<le> p)" if a: "(p, n) \<in> A" "(q, m) \<in> A" "(p, n) \<noteq> (q, m)" for p n q m
  proof -
    obtain n' m' where "n \<le> n'" "(p, n') \<in> live s L" "m \<le> m'" "(q, m') \<in> live s L" using cover a(1,2) by blast
    moreover have "p \<noteq> q" using a L(3) unfolding covers_def by blast
    ultimately show ?thesis using live_disjoint [OF L(1), of p n' q m'] by auto
  qed
  have free: "p \<noteq> 0 \<and> (\<exists>s'. kfree s p = Some s')" if a: "(p, n) \<in> A" for p n
  proof -
    obtain m where m: "(p, m) \<in> live s L" using cover [OF a] by blast
    then obtain c g i where "c < 13" "g \<in> groups_of L c" "p = objects (groupAt s g) + i * SZ c" unfolding live_def by blast
    moreover from this obtain k j where "place s c g k j" using grp_okD(6) [OF heap_invD(6) [OF L(1)]] by blast
    ultimately have "p \<noteq> 0" using object_nonzero [OF heap_invD(1) [OF L(1)]] by auto
    then show ?thesis using kfree_spec [OF L(1) m] by blast
  qed
  have "kmalloc s sz \<noteq> None" for sz
    using kmalloc_spec [OF L(1) _ disjI2 [OF L(2)], of sz] kmalloc_large [of sz s] by (cases "unat sz \<le> 131072") auto
  then show ?thesis using apart free by blast
qed


section \<open>Running out of pages\<close>

text \<open>
  C39: When kmalloc gets a page for a group of large objects but not the pages for the objects, it returns
  NULL and gives the page of the group back, but leaves the group on the free list of its cache: the
  next allocation of a page returns the page that the list still points to, and the group has its
  objects at address 0.
\<close>

theorem kmalloc_failure_dangles:
  assumes "heap_ok s L" "512 < unat sz" "unat sz \<le> 131072"
    and "L (Partial (size_loop 0 cacheSizes sz)) = []" "L (Free (size_loop 0 cacheSizes sz)) = []"
    and "GetFreeMemNode (phys s) = Some i" "snd (AllocPages (fst (AllocPages (phys s) 1)) 256) = 0"
  defines "g \<equiv> Phy2Vir (MemNode2Page (phys s) i)"
  shows "\<exists>s'. kmalloc s sz = Some (s', 0) \<and> lnext (hlinks s') (Free (size_loop 0 cacheSizes sz)) = Some (GroupNode g) \<and>
     objects (groupAt s' g) = 0 \<and> \<not> owned (phys s') i \<and> snd (MemCacheAllocPages s' 1) = g"
  unfolding g_def by (rule kmalloc_dangles_ok [OF assms(1-7)])


section \<open>Giving free groups back\<close>

definition clear_node :: "MemNode \<Rightarrow> MemNode" where
  "clear_node n = n\<lparr>reference := 0, count := 0, flags := 0, memCache := None, group := None\<rparr>"

lemma clear_node_sel [simp]: "reference (clear_node n) = 0"
  by (simp add: clear_node_def)

lemma MemCacheFreePages_head:
  assumes ok: "pages_ok (phys s)" and hd: "is_head (phys s) n"
  shows "MemCacheFreePages s (Phy2Vir (MemNode2Page (phys s) n)) = (s\<lparr>phys := upd_node n clear_node (phys s)\<rparr>, 0)"
    "pages_ok (upd_node n clear_node (phys s))"
    "in_block (upd_node n clear_node (phys s)) h j \<longleftrightarrow> in_block (phys s) h j \<and> h \<noteq> n"
proof -
  have n: "n < unat (memNodeCount (phys s))" by (rule head_bound [OF ok hd])
  have eq: "clear_node = (\<lambda>n. n\<lparr>reference := 0, count := 0, flags := 0, memCache := None, group := None\<rparr>)"
    by (simp add: fun_eq_iff clear_node_def)
  note fr = FreePages_spec [OF ok hd, folded eq]
  show "MemCacheFreePages s (Phy2Vir (MemNode2Page (phys s) n)) = (s\<lparr>phys := upd_node n clear_node (phys s)\<rparr>, 0)"
  proof -
    have "Phy2Vir (MemNode2Page (phys s) n) \<noteq> 0" using Phy2Vir_node [OF ok n] by simp
    then show ?thesis
      using MemNode2Page_nonzero [OF ok n] conjunct1 [OF fr] by (simp add: MemCacheFreePages_def Vir2Phy_Phy2Vir)
  qed
  note run = conjunct1 [OF fr]
  show "pages_ok (upd_node n clear_node (phys s))"
    using conjunct1 [OF conjunct2 [OF fr]] unfolding run fst_conv .
  show "in_block (upd_node n clear_node (phys s)) h j \<longleftrightarrow> in_block (phys s) h j \<and> h \<noteq> n"
    using conjunct2 [OF conjunct2 [OF fr]] unfolding run fst_conv by blast
qed

text \<open>Freeing the pages of a group leaves the pages of the other groups alone.\<close>

lemma place_apart:
  assumes ok: "pages_ok (phys s)" and g: "place s c g n m" and h: "place s d h n' m'" and ne: "h \<noteq> g"
    and k: "k = n' \<or> k = m' \<or> marked s k d h"
  shows "k \<noteq> n" "k \<noteq> m"
proof -
  have nn: "n' \<noteq> n" using ne place_heads(1) [OF g] place_heads(1) [OF h] by auto
  have mg: "marked s m c g" "group (memNodeTable (phys s) n) = None \<or> marked s n c g"
    using place_small [OF g] place_large [OF g] by (cases "c < 5"; auto)+
  have mh: "marked s m' d h" "group (memNodeTable (phys s) n') = None \<or> marked s n' d h"
    using place_small [OF h] place_large [OF h] by (cases "d < 5"; auto)+
  show "k \<noteq> n" using k nn mg mh ne by (auto simp: marked_def)
  show "k \<noteq> m" using k mg mh ne by (auto simp: marked_def)
qed

lemma GroupDestory_spec:
  assumes inv: "heap_ok s L" and c: "c < 13" and g: "g \<in> set (L (Free c))"
  shows "\<exists>s'. GroupDestory s c g = Some (s', 0) \<and> heap_ok s' (L(Free c := remove1 g (L (Free c)))) \<and>
     live s' (L(Free c := remove1 g (L (Free c)))) = live s L \<and>
     (\<forall>j. owned (phys s') j \<longrightarrow> owned (phys s) j) \<and> memNodeBase (phys s') = memNodeBase (phys s) \<and>
     memNodeCount (phys s') = memNodeCount (phys s) \<and> \<not> owned (phys s') (the (Page2MemNode (phys s) (Vir2Phy g)))"
proof -
  let ?L = "L(Free c := remove1 g (L (Free c)))"
  note ok = heap_invD(1) [OF inv]
  obtain lk where lk: "ListDel (GroupNode g) (hlinks s) = Some lk" "lists_ok lk ?L"
    using lists_ok_del [OF heap_invD(3) [OF inv] headsI(6) [OF c] g] by blast
  obtain n m where pl: "place s c g n m" using grp_okD(6) [OF heap_invD(4) [OF inv c headsI(3) g]] by blast
  let ?s1 = "s\<lparr>hlinks := lk\<rparr>"
  define p where "p = (if c < 5 then upd_node n clear_node (phys s) else upd_node n clear_node (upd_node m clear_node (phys s)))"
  let ?s' = "s\<lparr>hlinks := lk, phys := p\<rparr>"
  have hn: "is_head (phys s) n" "is_head (phys s) m" using place_heads [OF pl] by simp_all
  have run: "GroupDestory s c g = Some (?s', 0) \<and> pages_ok p \<and>
      (\<forall>h j. in_block p h j \<longrightarrow> in_block (phys s) h j \<and> h \<noteq> n)"
  proof (cases "c < 5")
    case True
    have "phys ?s1 = phys s" by simp
    note f = MemCacheFreePages_head [of ?s1 n, unfolded \<open>phys ?s1 = _\<close>, OF ok hn(1)]
    show ?thesis
      using lk(1) f True objectSize_small [OF heap_invD(2) [OF inv] c] place_heads(1) [OF pl]
      by (simp add: GroupDestory_def with_hlinks_def p_def)
  next
    case False
    have "phys ?s1 = phys s" by simp
    note f1 = MemCacheFreePages_head [of ?s1 m, unfolded \<open>phys ?s1 = _\<close>, OF ok hn(2)]
    have nm: "n \<noteq> m" using place_large [OF pl False] place_heads(3) [OF pl] by auto
    let ?s2 = "s\<lparr>hlinks := lk, phys := upd_node m clear_node (phys s)\<rparr>"
    have p2: "phys ?s2 = upd_node m clear_node (phys s)" by simp
    have hn2: "is_head (upd_node m clear_node (phys s)) n" using hn(1) nm by simp
    note f2 = MemCacheFreePages_head [of ?s2 n, unfolded p2, OF f1(2) hn2]
    have obj: "objects (groupAt s g) = Phy2Vir (MemNode2Page (phys s) m)" using place_large [OF pl False] by blast
    show ?thesis
      using lk(1) f1 f2 False objectSize_small [OF heap_invD(2) [OF inv] c] place_heads(1) [OF pl] obj
      by (simp add: GroupDestory_def with_hlinks_def p_def)
  qed
  then have okp: "pages_ok p" and blk: "\<And>h j. in_block p h j \<Longrightarrow> in_block (phys s) h j \<and> h \<noteq> n" by blast+
  have nodes: "memNodeTable p k = memNodeTable (phys s) k" if "k \<noteq> n" "k \<noteq> m" for k using that by (simp add: p_def)
  have base: "memNodeBase p = memNodeBase (phys s)" "memNodeCount p = memNodeCount (phys s)" by (simp_all add: p_def)
  have keep: "grp_ok ?s' d h \<and> h \<noteq> g" if h: "d < 13" "a \<in> heads d" "h \<in> set (?L a)" for d a h
  proof -
    have hL: "h \<in> set (L a)" using h(3) notin_set_remove1 by (auto split: if_splits dest: set_remove1_subset [THEN subsetD])
    have ne: "h \<noteq> g"
    proof
      assume "h = g"
      then have "a = Free c" using head_of_group(1) [OF inv c headsI(3) g h(1,2)] hL by simp
      then show False using h(3) \<open>h = g\<close> lists_okD(2) [OF heap_invD(3) [OF inv] headsI(6) [OF c]] by simp
    qed
    have H: "grp_ok s d h" by (rule heap_invD(4) [OF inv h(1,2) hL])
    then obtain n' m' where hp: "place s d h n' m'" using grp_okD(6) by blast
    have "place ?s' d h n' m'"
    proof (rule place_frame0 [OF hp])
      show "memNodeTable (phys ?s') k = memNodeTable (phys s) k" if "k = n' \<or> k = m' \<or> marked s k d h" for k
        using nodes [OF place_apart [OF ok pl hp ne that]] by simp
    qed (simp_all add: base)
    moreover have "used ?s' h = used s h" by (simp add: used_def)
    ultimately show ?thesis using H ne unfolding grp_ok_def by auto
  qed
  have "on_right_list a (card (used ?s' h))" if h: "d < 13" "a \<in> heads d" "h \<in> set (?L a)" for d a h
  proof -
    have "h \<in> set (L a)" using h(3) by (auto split: if_splits dest: set_remove1_subset [THEN subsetD])
    then show ?thesis using heap_invD(5) [OF inv h(1,2)] by (simp add: used_def)
  qed
  then have inv': "heap_ok ?s' ?L"
    using okp heap_invD(2) [OF inv] lk(2) keep unfolding heap_inv_def by (simp add: caches_ok_def)
  have empty: "used s g = {}"
    using heap_invD(5) [OF inv c headsI(3) g] grp_okD(7) [OF heap_invD(4) [OF inv c headsI(3) g]] by simp
  have gr: "groups_of ?L d = groups_of L d - (if d = c then {g} else {})" for d
  proof (cases "d = c")
    case True
    have "set (remove1 g (L (Free c))) = set (L (Free c)) - {g}"
      using lists_okD(2) [OF heap_invD(3) [OF inv] headsI(6) [OF c]] by simp
    moreover have "g \<notin> set (L (Full c))" "g \<notin> set (L (Partial c))"
      using head_of_group(1) [OF inv c headsI(3) g c headsI(1)] head_of_group(1) [OF inv c headsI(3) g c headsI(2)] by auto
    ultimately show ?thesis using True by (auto simp: groups_of_def heads_def)
  qed (auto simp: groups_of_def heads_def)
  have "live ?s' ?L = live s L"
  proof -
    have "d \<noteq> c \<or> h \<noteq> g" if "i \<in> used s h" for d h i using that empty by auto
    then show ?thesis unfolding live_def gr by (auto simp: used_def) (metis+)?
  qed
  moreover have "\<not> owned p n"
    using blk pages_okD(6) [OF ok] in_block_self [OF ok hn(1)] unfolding owned_def by blast
  moreover have "\<forall>j. owned p j \<longrightarrow> owned (phys s) j" using blk unfolding owned_def by blast
  moreover have "Page2MemNode (phys s) (Vir2Phy g) = Some n"
    using place_heads(1) [OF pl] Page2MemNode_node [OF ok head_bound [OF ok hn(1)]] by (simp add: Vir2Phy_Phy2Vir)
  ultimately show ?thesis using run inv' base by (intro exI [of _ ?s']) simp
qed

text \<open>The loop over the free list takes every group off it.\<close>

lemma shrink_loop_spec:
  assumes "heap_ok s L" "c < 13" "L (Free c) = gs"
    "lnext (hlinks s) (Free c) = Some first" "lnext (hlinks s) first = nxt"
  shows "\<exists>s'. shrink_loop s c (Some first) nxt ret = Some (s', ret + word_of_nat (length gs)) \<and>
     heap_ok s' (L(Free c := [])) \<and> live s' (L(Free c := [])) = live s L \<and>
     (\<forall>j. owned (phys s') j \<longrightarrow> owned (phys s) j) \<and> memNodeBase (phys s') = memNodeBase (phys s) \<and>
     memNodeCount (phys s') = memNodeCount (phys s) \<and>
     (\<forall>g \<in> set gs. \<not> owned (phys s') (the (Page2MemNode (phys s) (Vir2Phy g))))"
  using assms
proof (induction gs arbitrary: s L first nxt ret)
  case Nil
  have "first = Free c"
    using dlist_next_head [OF lists_okD(1) [OF heap_invD(3) [OF Nil(1)] headsI(6) [OF Nil(2)]]] Nil(3,4) by simp
  moreover have "L(Free c := []) = L" using Nil(3) by auto
  ultimately show ?case using Nil(1) by (subst shrink_loop.simps) simp
next
  case (Cons g gs)
  note c = Cons.prems(2)
  let ?L = "L(Free c := gs)"
  have d: "dlist (hlinks s) (Free c) (map GroupNode (g # gs))"
    using lists_okD(1) [OF heap_invD(3) [OF Cons.prems(1)] headsI(6) [OF c]] Cons.prems(3) by simp
  have first: "first = GroupNode g" using dlist_next_head [OF d] Cons.prems(4) by simp
  obtain q where q: "nxt = Some q" "q = hd (map GroupNode gs @ [Free c])"
    using dlist_links(1) [of "hlinks s" "Free c" "[]" "GroupNode g" "map GroupNode gs"] d Cons.prems(5) first by auto
  obtain s1 where s1: "GroupDestory s c g = Some (s1, 0)" "heap_ok s1 ?L" "live s1 ?L = live s L"
     "\<forall>j. owned (phys s1) j \<longrightarrow> owned (phys s) j" "memNodeBase (phys s1) = memNodeBase (phys s)"
     "memNodeCount (phys s1) = memNodeCount (phys s)"
     "\<not> owned (phys s1) (the (Page2MemNode (phys s) (Vir2Phy g)))"
    using GroupDestory_spec [OF Cons.prems(1) c, of g] Cons.prems(3) by auto
  have "dlist (hlinks s1) (Free c) (map GroupNode gs)"
    using lists_okD(1) [OF heap_invD(3) [OF s1(2)] headsI(6) [OF c]] by simp
  then have nq: "lnext (hlinks s1) (Free c) = Some q" using dlist_next_head [of "hlinks s1" "Free c" "map GroupNode gs"] q(2) by simp
  have lf: "?L (Free c) = gs" by simp
  from Cons.IH [OF s1(2) c lf nq refl, of "ret + 1", unfolded fun_upd_upd] obtain s' where
    s': "shrink_loop s1 c (Some q) (lnext (hlinks s1) q) (ret + 1) = Some (s', ret + 1 + word_of_nat (length gs))"
      "heap_ok s' (L(Free c := []))" "live s' (L(Free c := [])) = live s1 ?L"
      "\<forall>j. owned (phys s') j \<longrightarrow> owned (phys s1) j" "memNodeBase (phys s') = memNodeBase (phys s1)"
      "memNodeCount (phys s') = memNodeCount (phys s1)"
      "\<forall>g \<in> set gs. \<not> owned (phys s') (the (Page2MemNode (phys s1) (Vir2Phy g)))"
    by (elim exE conjE) (rule that)
  have "Page2MemNode (phys s1) = Page2MemNode (phys s)" using s1(5,6) by (simp add: fun_eq_iff Page2MemNode_def)
  moreover have "shrink_loop s c (Some first) nxt ret = Some (s', ret + word_of_nat (length (g # gs)))"
    using s1(1) s'(1) q(1) by (subst shrink_loop.simps) (simp add: first ListOwner_group_def)
  ultimately show ?case using s' s1 by (intro exI [of _ s']) (auto simp del: fun_upd_apply)
qed


lemma MemCacheShrink_spec:
  assumes inv: "heap_ok s L" and c: "c < 13"
  shows "\<exists>s'. MemCacheShrink s (cachePtr s c) = Some (s', word_of_nat (length (L (Free c)) * (NUM c * SZ c))) \<and>
     heap_ok s' (L(Free c := [])) \<and> live s' (L(Free c := [])) = live s L \<and>
     (\<forall>j. owned (phys s') j \<longrightarrow> owned (phys s) j) \<and> memNodeBase (phys s') = memNodeBase (phys s) \<and>
     memNodeCount (phys s') = memNodeCount (phys s) \<and>
     (\<forall>g \<in> set (L (Free c)). \<not> owned (phys s') (the (Page2MemNode (phys s) (Vir2Phy g))))"
proof -
  obtain first where first: "lnext (hlinks s) (Free c) = Some first"
    using dlist_next_head [OF lists_okD(1) [OF heap_invD(3) [OF inv] headsI(6) [OF c]]] by blast
  obtain s' where s': "shrink_loop s c (Some first) (lnext (hlinks s) first) 0 = Some (s', 0 + word_of_nat (length (L (Free c))))"
      "heap_ok s' (L(Free c := []))" "live s' (L(Free c := [])) = live s L"
      "\<forall>j. owned (phys s') j \<longrightarrow> owned (phys s) j" "memNodeBase (phys s') = memNodeBase (phys s)"
      "memNodeCount (phys s') = memNodeCount (phys s)"
      "\<forall>g \<in> set (L (Free c)). \<not> owned (phys s') (the (Page2MemNode (phys s) (Vir2Phy g)))"
    using shrink_loop_spec [OF inv c refl first refl, of 0] by (elim exE conjE) (rule that)
  note C = caches_okD [OF heap_invD(2) [OF inv] c] caches_okD [OF heap_invD(2) [OF s'(2)] c]
  have "word_of_nat (length (L (Free c))) * objectNumber (memCacheTable s' c) * objectSize (memCacheTable s' c) =
      (word_of_nat (length (L (Free c)) * (NUM c * SZ c)) :: u32)"
    unfolding C(5) [symmetric] C(6) [symmetric] by simp
  then show ?thesis using C(1) first s' by (intro exI [of _ s']) (simp add: MemCacheShrink_def)
qed

definition shrunk :: "nat \<Rightarrow> (hnode \<Rightarrow> addr list) \<Rightarrow> hnode \<Rightarrow> addr list" where
  "shrunk n L h = (if \<exists>c < n. h = Free c then [] else L h)"

lemma shrink_all_spec:
  "\<lbrakk>heap_ok s (shrunk i L); i + length szs = 13; live s (shrunk i L) = A;
    \<forall>c < i. \<forall>g \<in> set (L (Free c)). \<not> owned (phys s) (the (Page2MemNode p (Vir2Phy g)));
    Page2MemNode (phys s) = Page2MemNode p; \<forall>j. owned (phys s) j \<longrightarrow> owned p j\<rbrakk> \<Longrightarrow>
   \<exists>s'. shrink_all s i szs acc = Some (s', acc + word_of_nat (\<Sum>c = i..<13. length (L (Free c)) * (NUM c * SZ c))) \<and>
     heap_ok s' (shrunk 13 L) \<and> live s' (shrunk 13 L) = A \<and>
     (\<forall>j. owned (phys s') j \<longrightarrow> owned p j) \<and>
     (\<forall>c < 13. \<forall>g \<in> set (L (Free c)). \<not> owned (phys s') (the (Page2MemNode p (Vir2Phy g))))"
proof (induction szs arbitrary: s i acc)
  case Nil
  then show ?case by simp
next
  case (Cons sz szs)
  have i: "i < 13" using Cons.prems(2) by simp
  have now: "shrunk i L (Free i) = L (Free i)" by (simp add: shrunk_def)
  have step: "(shrunk i L)(Free i := []) = shrunk (Suc i) L"
    by (auto simp: shrunk_def fun_eq_iff less_Suc_eq)
  obtain s1 where s1: "MemCacheShrink s (cachePtr s i) = Some (s1, word_of_nat (length (L (Free i)) * (NUM i * SZ i)))"
      "heap_ok s1 (shrunk (Suc i) L)" "live s1 (shrunk (Suc i) L) = live s (shrunk i L)"
      "\<forall>j. owned (phys s1) j \<longrightarrow> owned (phys s) j" "memNodeBase (phys s1) = memNodeBase (phys s)"
      "memNodeCount (phys s1) = memNodeCount (phys s)"
      "\<forall>g \<in> set (L (Free i)). \<not> owned (phys s1) (the (Page2MemNode (phys s) (Vir2Phy g)))"
    using MemCacheShrink_spec [OF Cons.prems(1) i, unfolded now step] by (elim exE conjE) (rule that)
  have pg: "Page2MemNode (phys s1) = Page2MemNode p"
    using Cons.prems(5) s1(5,6) by (simp add: fun_eq_iff Page2MemNode_def)
  have gone: "\<forall>c < Suc i. \<forall>g \<in> set (L (Free c)). \<not> owned (phys s1) (the (Page2MemNode p (Vir2Phy g)))"
    using Cons.prems(4,5) s1(4,7) by (auto simp: less_Suc_eq)
  have own: "\<forall>j. owned (phys s1) j \<longrightarrow> owned p j" using s1(4) Cons.prems(6) by blast
  have len: "Suc i + length szs = 13" using Cons.prems(2) by simp
  have lv: "live s1 (shrunk (Suc i) L) = A" using s1(3) Cons.prems(3) by simp
  from Cons.IH [OF s1(2) len lv gone pg own, of "acc + word_of_nat (length (L (Free i)) * (NUM i * SZ i))"]
  obtain s' where s': "shrink_all s1 (Suc i) szs (acc + word_of_nat (length (L (Free i)) * (NUM i * SZ i))) =
      Some (s', acc + word_of_nat (length (L (Free i)) * (NUM i * SZ i)) + word_of_nat (\<Sum>c = Suc i..<13. length (L (Free c)) * (NUM c * SZ c)))"
     "heap_ok s' (shrunk 13 L)" "live s' (shrunk 13 L) = A" "\<forall>j. owned (phys s') j \<longrightarrow> owned p j"
     "\<forall>c < 13. \<forall>g \<in> set (L (Free c)). \<not> owned (phys s') (the (Page2MemNode p (Vir2Phy g)))"
    by (elim exE conjE) (rule that)
  have "(\<Sum>c = i..<13. length (L (Free c)) * (NUM c * SZ c)) =
      length (L (Free i)) * (NUM i * SZ i) + (\<Sum>c = Suc i..<13. length (L (Free c)) * (NUM c * SZ c))"
    using i by (simp add: sum.atLeast_Suc_lessThan)
  then have "shrink_all s i (sz # szs) acc = Some (s', acc + word_of_nat (\<Sum>c = i..<13. length (L (Free c)) * (NUM c * SZ c)))"
    using s1(1) s'(1) by (simp add: add.assoc)
  then show ?case using s'(2-5) by blast
qed

text \<open>
  kmshrink always returns, gives back the pages of every group without allocated objects (no page it
  did not own becomes allocated, and the pages of those groups are free afterwards), leaves every
  allocated object, and returns the number of bytes of the objects of those groups, modulo 2^32.
\<close>

theorem kmshrink_releases:
  assumes "heap_ok s L"
  shows "\<exists>s'. kmshrink s = Some (s', word_of_nat (\<Sum>c = 0..<13. length (L (Free c)) * (NUM c * SZ c))) \<and>
     heap_ok s' (shrunk 13 L) \<and> live s' (shrunk 13 L) = live s L \<and>
     (\<forall>j. owned (phys s') j \<longrightarrow> owned (phys s) j) \<and>
     (\<forall>c < 13. \<forall>g \<in> set (L (Free c)). \<not> owned (phys s') (the (Page2MemNode (phys s) (Vir2Phy g))))"
proof -
  have L0: "shrunk 0 L = L" by (simp add: shrunk_def fun_eq_iff)
  have "heap_ok s (shrunk 0 L)" "0 + length cacheSizes = 13" "live s (shrunk 0 L) = live s L"
    using assms by (simp_all add: L0 cacheSizes_def)
  from shrink_all_spec [OF this _ refl, of 0] show ?thesis by (simp add: kmshrink_def)
qed


section \<open>A heap on three pages\<close>

definition three_pages :: physmem where
  "three_pages = \<lparr>memNodeTable = (\<lambda>_. \<lparr>count = 0, flags = 0, reference = 0, memCache = None, group = None\<rparr>),
     memNodeCount = 3, memNodeBase = 0x1000000\<rparr>"

definition small_heap :: heap where
  "small_heap = fst (MakeMemCaches \<lparr>hmem = (\<lambda>_. 0), hlinks = \<lparr>lprev = (\<lambda>_. None), lnext = (\<lambda>_. None)\<rparr>,
     groupAt = (\<lambda>_. \<lparr>gmap = \<lparr>btmpBytesLen = 0, bits = 0\<rparr>, objects = 0, usingCount = 0, freeCount = 0, gflags = 0\<rparr>),
     memCacheTable = (\<lambda>_. \<lparr>objectSize = 0, cflags = 0, objectNumber = 0, cname = []\<rparr>),
     cachePtr = (\<lambda>_. None), phys = three_pages\<rparr>)"

lemma three_pages_ok: "pages_ok three_pages" "compact three_pages" "GetFreeMemNode three_pages = Some 0"
  by (auto simp: pages_ok_def three_pages_def in_block_def owned_def compact_def take_bit_eq_mod GetFreeMemNode_def
      free_node_loop.simps)

lemma small_heap_ok: "heap_ok small_heap (\<lambda>_. [])" "phys small_heap = three_pages" "heap_run False small_heap {}"
proof -
  let ?s = "\<lparr>hmem = (\<lambda>_. 0), hlinks = \<lparr>lprev = (\<lambda>_. None), lnext = (\<lambda>_. None)\<rparr>,
     groupAt = (\<lambda>_. \<lparr>gmap = \<lparr>btmpBytesLen = 0, bits = 0\<rparr>, objects = 0, usingCount = 0, freeCount = 0, gflags = 0\<rparr>),
     memCacheTable = (\<lambda>_. \<lparr>objectSize = 0, cflags = 0, objectNumber = 0, cname = []\<rparr>),
     cachePtr = (\<lambda>_. None), phys = three_pages\<rparr>"
  have p: "phys ?s = three_pages" by simp
  show "heap_ok small_heap (\<lambda>_. [])" "phys small_heap = three_pages"
    using MakeMemCaches_spec [of ?s] three_pages_ok p unfolding small_heap_def by simp_all
  show "heap_run False small_heap {}"
    unfolding small_heap_def by (rule heap_run.start) (simp_all add: three_pages_ok)
qed

lemma small_heap_alloc: "\<exists>s' p. kmalloc small_heap 100 = Some (s', p) \<and> p \<noteq> 0"
proof -
  have sz: "unat (100 :: u32) \<le> 131072" "unat (100 :: u32) \<le> 512" by simp_all
  from kmalloc_spec [OF small_heap_ok(1) sz(1) disjI1 [OF sz(2)]] obtain s' p n where
    "kmalloc small_heap 100 = Some (s', p)"
    "allocates small_heap (\<lambda>_. []) n s' p \<or> p = 0 \<and> (GetFreeMemNode (phys small_heap) = None \<or> 512 < unat (100 :: u32))"
    by blast
  then show ?thesis using sz three_pages_ok small_heap_ok(2) by (auto simp: allocates_def)
qed

theorem kmalloc_allocates_witness:
  "\<exists>s' p n L'. kmalloc small_heap 100 = Some (s', p) \<and> p \<noteq> 0 \<and> 100 \<le> n \<and> heap_ok s' L' \<and> (p, n) \<in> live s' L'"
proof -
  have "unat (100 :: u32) \<le> 512 \<or> compact (phys small_heap)" by simp
  note all = kmalloc_allocates [OF small_heap_ok(1) this]
  obtain s' p where r: "kmalloc small_heap 100 = Some (s', p)" and p: "p \<noteq> 0" using small_heap_alloc by blast
  then obtain n L' where "unat (100 :: u32) \<le> n" "heap_ok s' L'" "live s' L' = insert (p, n) (live small_heap (\<lambda>_. []))"
    using all by auto
  then show ?thesis using r p by (intro exI [of _ s'] exI [of _ p] exI [of _ n] exI [of _ L']) simp
qed

theorem kmalloc_kfree_roundtrip_witness:
  "\<exists>s' p s''. kmalloc small_heap 100 = Some (s', p) \<and> p \<noteq> 0 \<and> kfree s' p = Some s'' \<and> phys s'' = phys s'"
proof -
  have sz: "unat (100 :: u32) \<le> 512 \<or> compact (phys small_heap)" by simp
  obtain s' p where r: "kmalloc small_heap 100 = Some (s', p)" "p \<noteq> 0" using small_heap_alloc by blast
  from kmalloc_kfree_roundtrip [OF small_heap_ok(1) sz r] r show ?thesis by blast
qed

theorem heap_run_safe_witness:
  "\<exists>s p s'. heap_run False s {(p, 100)} \<and> p \<noteq> 0 \<and> kfree s p = Some s'"
proof -
  obtain s p where r: "kmalloc small_heap 100 = Some (s, p)" "p \<noteq> 0" using small_heap_alloc by blast
  have "heap_run False s (insert (p, unat (100 :: u32)) {})" by (rule heap_run.alloc [OF small_heap_ok(3) r])
  then have run: "heap_run False s {(p, 100)}" by simp
  from conjunct1 [OF conjunct2 [OF heap_run_safe [OF run]]] run r(2) show ?thesis by blast
qed

theorem kmalloc_failure_dangles_witness:
  "\<exists>s'. kmalloc small_heap 4000 = Some (s', 0) \<and> lnext (hlinks s') (Free 7) = Some (GroupNode 0x81000000) \<and> \<not> owned (phys s') 0"
proof -
  have c: "size_loop 0 cacheSizes 4000 = 7" by (simp add: cacheSizes_def)
  have "AllocPages three_pages 1 = (new_block three_pages 0 1, MemNode2Page three_pages 0)"
    using three_pages_ok(3) by (simp add: AllocPages_def new_block_def) (simp add: three_pages_def)
  moreover have "GetFreeMemNode (new_block three_pages 0 1) = Some 1"
    by (simp add: GetFreeMemNode_def free_node_loop.simps new_block_def three_pages_def upd_node_def)
  moreover have "memNodeCount (new_block three_pages 0 1) = 3" by (simp add: new_block_def three_pages_def)
  ultimately have full: "snd (AllocPages (fst (AllocPages (phys small_heap) 1)) 256) = 0"
    by (simp add: small_heap_ok(2) AllocPages_def)
  have free: "GetFreeMemNode (phys small_heap) = Some 0" by (simp add: small_heap_ok(2) three_pages_ok(3))
  have sz: "512 < unat (4000 :: u32)" "unat (4000 :: u32) \<le> 131072" by simp_all
  have "Phy2Vir (MemNode2Page (phys small_heap) 0) = 0x81000000"
    by (simp add: small_heap_ok(2) MemNode2Page_def three_pages_def Phy2Vir_def PAGE_OFFSET_def)
  with kmalloc_failure_dangles [OF small_heap_ok(1) sz refl refl free full] show ?thesis unfolding c by auto
qed

end
