(* ===== verification/Locks.thy ===== *)
theory Locks
  imports Task
begin

text \<open>
  The spin lock of \<open>kernel/spinlock.c\<close> and the mutex of \<open>kernel/mutex.c\<close>.

  The mutex is a step relation between the states of the lock and of the tasks that use it. A task has a
  program counter, one value for every statement that reads or writes shared data; \<open>mutex_exec\<close>
  is those statements. \<open>cur\<close> is the running task of the one processor, and \<open>parked\<close> holds
  the tasks that the scheduler does not pick: those whose status is \<open>TASK_BLOCKED\<close> (see \<open>Task\<close>: a task
  that leaves the processor with this status is on no ready list). Interrupts are on outside the
  blocks that disable them, so the clock may take the processor away between any two statements
  (\<open>preempt\<close>). A wait list is the list of the waiting tasks, oldest first; \<open>KList\<close> relates the pointer
  operations to it. Counters are integers: there are fewer than \<open>2 ^ 31\<close> tasks.
\<close>

section \<open>Atomic counters and the spin lock\<close>

definition AtomicInc :: "int \<Rightarrow> int" where
  "AtomicInc a = a + 1"

definition AtomicDec :: "int \<Rightarrow> int" where
  "AtomicDec a = a - 1"

definition SpinLockInit :: int where
  "SpinLockInit = 0"

definition SpinUnlock :: int where
  "SpinUnlock = 0"

definition SpinTryLock :: "int \<Rightarrow> int \<times> int" where
  "SpinTryLock l = (if l > 0 then (l, 1) else (AtomicInc l, 0))"

definition SpinIsLocked :: "int \<Rightarrow> int" where
  "SpinIsLocked l = (if l > 0 then 1 else 0)"

section \<open>The mutex\<close>

datatype mpc = MIdle
  | ML_dec | ML_spin | ML_take | ML_add | ML_xchg | ML_block | ML_rel | ML_sched | ML_spin2 | ML_take2
  | ML_del | ML_fix | ML_rel2 | ML_own
  | MHeld
  | MU_inc | MU_spin | MU_take | MU_fix | MU_wake | MU_rel | MU_clear
  | MT_dec | MT_get

record mutex =
  mcount :: int
  waitLock :: int
  waitList :: "tid list"
  owner :: "tid option"
  parked :: "tid set"
  cur :: tid
  mpc :: "tid \<Rightarrow> mpc"

definition MutexInit :: "tid \<Rightarrow> mutex" where
  "MutexInit c = \<lparr>mcount = 1, waitLock = SpinLockInit, waitList = [], owner = None, parked = {}, cur = c,
     mpc = (\<lambda>_. MIdle)\<rparr>"

definition goto :: "mpc \<Rightarrow> mutex \<Rightarrow> mutex" where
  "goto p s = s\<lparr>mpc := (mpc s)(cur s := p)\<rparr>"

text \<open>
  The statement at each program counter. \<open>ML_dec\<close>, \<open>MU_inc\<close>: decrement or increment and test, with
  interrupts off. A spinning task (\<open>ML_spin\<close>, \<open>ML_spin2\<close>, \<open>MU_spin\<close>) stays where it is while the lock is
  taken (the code then reads it once more, which changes nothing); the test and the increment of
  \<open>SpinLock\<close> are two statements. \<open>ML_xchg\<close> is \<open>ATOMIC_XCHG\<close>.
  \<open>MIdle\<close>, \<open>MHeld\<close> and \<open>ML_sched\<close> have rules of their own below.
\<close>

fun mutex_exec :: "mutex \<Rightarrow> mutex" where
  "mutex_exec s =
     (case mpc s (cur s) of
        ML_dec \<Rightarrow> (let s = s\<lparr>mcount := AtomicDec (mcount s)\<rparr> in goto (if mcount s \<ge> 0 then ML_own else ML_spin) s)
      | ML_spin \<Rightarrow> if waitLock s > 0 then s else goto ML_take s
      | ML_take \<Rightarrow> goto ML_add (s\<lparr>waitLock := AtomicInc (waitLock s)\<rparr>)
      | ML_add \<Rightarrow> goto ML_xchg (s\<lparr>waitList := waitList s @ [cur s]\<rparr>)
      | ML_xchg \<Rightarrow> goto (if mcount s = 1 then ML_del else ML_block) (s\<lparr>mcount := -1\<rparr>)
      | ML_block \<Rightarrow> goto ML_rel (s\<lparr>parked := insert (cur s) (parked s)\<rparr>)
      | ML_rel \<Rightarrow> goto ML_sched (s\<lparr>waitLock := SpinUnlock\<rparr>)
      | ML_spin2 \<Rightarrow> if waitLock s > 0 then s else goto ML_take2 s
      | ML_take2 \<Rightarrow> goto ML_xchg (s\<lparr>waitLock := AtomicInc (waitLock s)\<rparr>)
      | ML_del \<Rightarrow> goto ML_fix (s\<lparr>waitList := remove1 (cur s) (waitList s)\<rparr>)
      | ML_fix \<Rightarrow> goto ML_rel2 (if waitList s = [] then s\<lparr>mcount := 0\<rparr> else s)
      | ML_rel2 \<Rightarrow> goto ML_own (s\<lparr>waitLock := SpinUnlock\<rparr>)
      | ML_own \<Rightarrow> goto MHeld (s\<lparr>owner := Some (cur s)\<rparr>)
      | MU_inc \<Rightarrow> (let s = s\<lparr>mcount := AtomicInc (mcount s)\<rparr> in goto (if mcount s = 1 then MU_clear else MU_spin) s)
      | MU_spin \<Rightarrow> if waitLock s > 0 then s else goto MU_take s
      | MU_take \<Rightarrow> goto MU_fix (s\<lparr>waitLock := AtomicInc (waitLock s)\<rparr>)
      | MU_fix \<Rightarrow> goto MU_wake (if mcount s > 1 then s\<lparr>mcount := 1\<rparr> else s)
      | MU_wake \<Rightarrow> goto MU_rel (case waitList s of [] \<Rightarrow> s | w # _ \<Rightarrow> s\<lparr>parked := parked s - {w}\<rparr>)
      | MU_rel \<Rightarrow> goto MU_clear (s\<lparr>waitLock := SpinUnlock\<rparr>)
      | MU_clear \<Rightarrow> goto MIdle (s\<lparr>owner := None\<rparr>)
      | MT_dec \<Rightarrow> goto MT_get (s\<lparr>mcount := AtomicDec (mcount s)\<rparr>)
      | MT_get \<Rightarrow> goto (if mcount s \<ge> 0 then MHeld else MIdle) s
      | _ \<Rightarrow> s)"

declare mutex_exec.simps [simp del]

definition MutexIsLocked :: "mutex \<Rightarrow> int" where
  "MutexIsLocked s = (if mcount s \<le> 0 then 1 else 0)"

text \<open>
  The steps. \<open>lock\<close>, \<open>unlock\<close> and \<open>trylock\<close> are the calls of clients, who unlock only what they hold; \<open>trylock\<close> is
  there only when \<open>wt\<close> says that clients use \<open>MutexTryLock\<close>. \<open>sched\<close> is the call of \<open>Schedule\<close>.
\<close>

inductive mutex_step :: "bool \<Rightarrow> mutex \<Rightarrow> mutex \<Rightarrow> bool" for wt where
  lock: "mpc s (cur s) = MIdle \<Longrightarrow> mutex_step wt s (goto ML_dec s)"
| unlock: "mpc s (cur s) = MHeld \<Longrightarrow> mutex_step wt s (goto MU_inc s)"
| trylock: "wt \<Longrightarrow> mpc s (cur s) = MIdle \<Longrightarrow> mutex_step wt s (goto MT_dec s)"
| exec: "mpc s (cur s) \<notin> {MIdle, MHeld, ML_sched} \<Longrightarrow> mutex_step wt s (mutex_exec s)"
| sched: "mpc s (cur s) = ML_sched \<Longrightarrow> u \<notin> parked s \<Longrightarrow> mutex_step wt s ((goto ML_spin2 s)\<lparr>cur := u\<rparr>)"
| preempt: "u \<notin> parked s \<Longrightarrow> mutex_step wt s (s\<lparr>cur := u\<rparr>)"

inductive_cases mutex_stepE: "mutex_step wt s s'"

abbreviation mutex_reach :: "bool \<Rightarrow> tid \<Rightarrow> mutex \<Rightarrow> bool" where
  "mutex_reach wt c \<equiv> (mutex_step wt)\<^sup>*\<^sup>* (MutexInit c)"

text \<open>Who has the lock, and who has found it taken and is on the slow path.\<close>

fun holds :: "mpc \<Rightarrow> bool" where
  "holds ML_own \<longleftrightarrow> True"
| "holds MHeld \<longleftrightarrow> True"
| "holds MU_inc \<longleftrightarrow> True"
| "holds ML_del \<longleftrightarrow> True"
| "holds ML_fix \<longleftrightarrow> True"
| "holds ML_rel2 \<longleftrightarrow> True"
| "holds _ \<longleftrightarrow> False"

fun slow :: "mpc \<Rightarrow> bool" where
  "slow ML_spin \<longleftrightarrow> True"
| "slow ML_take \<longleftrightarrow> True"
| "slow ML_add \<longleftrightarrow> True"
| "slow ML_xchg \<longleftrightarrow> True"
| "slow ML_block \<longleftrightarrow> True"
| "slow ML_rel \<longleftrightarrow> True"
| "slow ML_sched \<longleftrightarrow> True"
| "slow ML_spin2 \<longleftrightarrow> True"
| "slow ML_take2 \<longleftrightarrow> True"
| "slow _ \<longleftrightarrow> False"

definition holders :: "mutex \<Rightarrow> tid set" where
  "holders s = {t. holds (mpc s t)}"

definition waiters :: "mutex \<Rightarrow> tid set" where
  "waiters s = {t. slow (mpc s t)}"

definition mutex_inv :: "mutex \<Rightarrow> bool" where
  "mutex_inv s \<longleftrightarrow>
     (\<forall>t u. t \<in> holders s \<longrightarrow> u \<in> holders s \<longrightarrow> t = u) \<and>
     (if waiters s = {} then mcount s = (if holders s = {} then 1 else 0)
      else mcount s \<le> (if holders s = {} then 0 else -1)) \<and>
     (\<forall>t. mpc s t \<notin> {MT_dec, MT_get, ML_del, ML_fix, ML_rel2})"

lemma goto_sel [simp]:
  "mpc (goto p s) = (mpc s)(cur s := p)" "mcount (goto p s) = mcount s" "cur (goto p s) = cur s"
  "waitList (goto p s) = waitList s" "parked (goto p s) = parked s" "owner (goto p s) = owner s" "waitLock (goto p s) = waitLock s"
  by (simp_all add: goto_def)

text \<open>What a step of a task at \<open>t\<close> from program counter \<open>p\<close> to \<open>q\<close> does to the two sets.\<close>

lemma holders_upd: "mpc s' = (mpc s)(t := q) \<Longrightarrow>
    holders s' = (if holds q then insert t (holders s) else holders s - {t})"
  by (auto simp: holders_def)

lemma waiters_upd: "mpc s' = (mpc s)(t := q) \<Longrightarrow>
    waiters s' = (if slow q then insert t (waiters s) else waiters s - {t})"
  by (auto simp: waiters_def)

lemma holder_iff: "t \<in> holders s \<longleftrightarrow> holds (mpc s t)" "t \<in> waiters s \<longleftrightarrow> slow (mpc s t)"
  by (simp_all add: holders_def waiters_def)


lemma mutex_invI:
  assumes inv: "mutex_inv s" and pc: "mpc s' = (mpc s)(t := q)" and q: "q \<notin> {MT_dec, MT_get, ML_del, ML_fix, ML_rel2}"
    and move: "holds q = holds (mpc s t) \<and> slow q = slow (mpc s t) \<and> (mcount s' = mcount s \<or> slow q \<and> mcount s' = -1) \<or>
      holds q \<and> \<not> slow (mpc s t) \<and> mcount s = 1 \<and> mcount s' = 0 \<or>
      slow q \<and> \<not> holds (mpc s t) \<and> mcount s \<le> 0 \<and> mcount s' = mcount s - 1 \<or>
      \<not> holds q \<and> \<not> slow q \<and> holds (mpc s t) \<and> mcount s' = mcount s + 1"
  shows "mutex_inv s'"
proof -
  have disj: "\<not> (holds p \<and> slow p)" for p by (cases p) simp_all
  have one: "x = t" if "x \<in> holders s" "t \<in> holders s" for x using inv that by (auto simp: mutex_inv_def)
  note hw = holders_upd [OF pc] waiters_upd [OF pc]
  have pcs: "\<forall>x. mpc s' x \<notin> {MT_dec, MT_get, ML_del, ML_fix, ML_rel2}"
    using inv pc q by (simp add: mutex_inv_def)
  have cnt: "if waiters s = {} then mcount s = (if holders s = {} then 1 else 0) else mcount s \<le> (if holders s = {} then 0 else -1)"
    using inv by (simp add: mutex_inv_def)
  have t: "holds (mpc s t) \<longleftrightarrow> t \<in> holders s" "slow (mpc s t) \<longleftrightarrow> t \<in> waiters s" by (simp_all add: holder_iff)
  consider (stay) "holds q = holds (mpc s t)" "slow q = slow (mpc s t)" "mcount s' = mcount s \<or> slow q \<and> mcount s' = -1"
    | (get) "holds q" "\<not> slow (mpc s t)" "mcount s = 1" "mcount s' = 0"
    | (wait) "slow q" "\<not> holds (mpc s t)" "mcount s \<le> 0" "mcount s' = mcount s - 1"
    | (drop) "\<not> holds q" "\<not> slow q" "holds (mpc s t)" "mcount s' = mcount s + 1"
    using move by blast
  then show ?thesis
  proof cases
    case stay
    then have "holders s' = holders s" "waiters s' = waiters s" using hw t by auto
    moreover have "mcount s' \<le> -1" if "mcount s' \<noteq> mcount s" using stay that by auto
    moreover have "waiters s \<noteq> {}" if "mcount s' \<noteq> mcount s" using stay that t by auto
    ultimately show ?thesis using inv pcs cnt unfolding mutex_inv_def by (auto split: if_splits)
  next
    case get
    then have h: "holders s = {}" "waiters s = {}" using cnt by (auto split: if_splits)
    have "holders s' = {t}" "waiters s' = {}" using hw h get disj [of q] by auto
    then show ?thesis using pcs get unfolding mutex_inv_def by simp
  next
    case wait
    have "holders s' = holders s" "waiters s' = insert t (waiters s)" using hw wait disj [of q] t by auto
    moreover have "mcount s' \<le> (if holders s = {} then 0 else -1)" using cnt wait by (auto split: if_splits)
    ultimately show ?thesis using inv pcs unfolding mutex_inv_def by auto
  next
    case drop
    have tin: "t \<in> holders s" using drop(3) t(1) by simp
    then have "holders s = {t}" using one [OF _ tin] by blast
    then have "holders s' = {}" "waiters s' = waiters s" using hw drop disj [of "mpc s t"] t by auto
    moreover have "holders s \<noteq> {}" using \<open>holders s = {t}\<close> by simp
    ultimately show ?thesis using pcs cnt drop unfolding mutex_inv_def by (auto split: if_splits)
  qed
qed

lemma mutex_inv_exec:
  assumes inv: "mutex_inv s" and pc: "mpc s (cur s) \<notin> {MIdle, MHeld, ML_sched}"
  shows "mutex_inv (mutex_exec s)"
proof -
  have bad: "mpc s (cur s) \<notin> {MT_dec, MT_get, ML_del, ML_fix, ML_rel2}" using inv by (simp add: mutex_inv_def)
  have cnt: "if waiters s = {} then mcount s = (if holders s = {} then 1 else 0) else mcount s \<le> (if holders s = {} then 0 else -1)"
    using inv by (simp add: mutex_inv_def)
  have le: "mcount s \<le> 1" using cnt by (auto split: if_splits)
  have slow0: "mcount s \<le> 0" if "slow (mpc s (cur s))"
    using that cnt holder_iff(2) [of "cur s" s] by (auto split: if_splits)
  let ?q = "mpc (mutex_exec s) (cur s)"
  have "mpc (mutex_exec s) = (mpc s)(cur s := ?q)"
    by (cases "mpc s (cur s)") (simp_all add: mutex_exec.simps Let_def fun_eq_iff split: list.splits)
  moreover have "?q \<notin> {MT_dec, MT_get, ML_del, ML_fix, ML_rel2} \<and>
     (holds ?q = holds (mpc s (cur s)) \<and> slow ?q = slow (mpc s (cur s)) \<and>
        (mcount (mutex_exec s) = mcount s \<or> slow ?q \<and> mcount (mutex_exec s) = -1) \<or>
      holds ?q \<and> \<not> slow (mpc s (cur s)) \<and> mcount s = 1 \<and> mcount (mutex_exec s) = 0 \<or>
      slow ?q \<and> \<not> holds (mpc s (cur s)) \<and> mcount s \<le> 0 \<and> mcount (mutex_exec s) = mcount s - 1 \<or>
      \<not> holds ?q \<and> \<not> slow ?q \<and> holds (mpc s (cur s)) \<and> mcount (mutex_exec s) = mcount s + 1)"
    using pc bad le slow0
    by (cases "mpc s (cur s)")
      (simp_all add: mutex_exec.simps Let_def AtomicInc_def AtomicDec_def split: list.splits)
  ultimately show ?thesis using mutex_invI [OF inv] by blast
qed


lemma switch_cur [simp]: "holders (s\<lparr>cur := u\<rparr>) = holders s" "waiters (s\<lparr>cur := u\<rparr>) = waiters s"
  by (simp_all add: holders_def waiters_def)

lemma mutex_inv_step: "mutex_step False s s' \<Longrightarrow> mutex_inv s \<Longrightarrow> mutex_inv s'"
proof (induction rule: mutex_step.induct)
  case (lock s)
  then show ?case by (intro mutex_invI [OF lock.prems, of _ "cur s" ML_dec]) simp_all
next
  case (unlock s)
  then show ?case by (intro mutex_invI [OF unlock.prems, of _ "cur s" MU_inc]) simp_all
next
  case (exec s)
  then show ?case by (intro mutex_inv_exec)
next
  case (sched s u)
  then show ?case by (intro mutex_invI [OF sched.prems, of _ "cur s" ML_spin2]) simp_all
next
  case (preempt u s)
  then show ?case by (simp add: mutex_inv_def)
qed simp

lemma mutex_inv_init: "mutex_inv (MutexInit c)"
  by (simp add: mutex_inv_def MutexInit_def holders_def waiters_def)

lemma mutex_inv_reach: "mutex_reach False c s \<Longrightarrow> mutex_inv s"
  by (induction rule: rtranclp_induct) (auto intro: mutex_inv_init mutex_inv_step)

text \<open>No free lock: no task holds it, or a task waits for it, and the count is not positive.\<close>

definition unavailable :: "mutex \<Rightarrow> bool" where
  "unavailable s \<longleftrightarrow> mcount s \<le> 0 \<and> (holders s \<noteq> {} \<longrightarrow> mcount s \<le> -1) \<and>
     (\<forall>t u. t \<in> holders s \<longrightarrow> u \<in> holders s \<longrightarrow> t = u) \<and> (\<forall>t. mpc s t \<notin> {MT_dec, MT_get, ML_del, ML_fix, ML_rel2})"

lemma unavailable_move:
  assumes s: "unavailable s" and pc: "mpc s' = (mpc s)(t := q)" and q: "q \<notin> {MT_dec, MT_get, ML_del, ML_fix, ML_rel2}"
    and move: "(holds q \<longrightarrow> holds (mpc s t)) \<and> (mcount s' \<le> mcount s \<or> mcount s' = -1) \<or>
      holds (mpc s t) \<and> \<not> holds q \<and> mcount s' = mcount s + 1"
  shows "unavailable s' \<and> holders s' \<subseteq> holders s"
proof -
  have one: "x = t" if "x \<in> holders s" "t \<in> holders s" for x using s that by (auto simp: unavailable_def)
  have t: "holds (mpc s t) \<longleftrightarrow> t \<in> holders s" by (simp add: holder_iff)
  note h = holders_upd [OF pc]
  have sub: "holders s' \<subseteq> holders s" using h move t by auto
  have le: "mcount s' \<le> 0 \<and> (holders s' \<noteq> {} \<longrightarrow> mcount s' \<le> -1)"
    using move
  proof
    assume m: "(holds q \<longrightarrow> holds (mpc s t)) \<and> (mcount s' \<le> mcount s \<or> mcount s' = -1)"
    have "holders s \<noteq> {}" if "holders s' \<noteq> {}" using that sub by blast
    then show ?thesis using m s unfolding unavailable_def by (metis order_trans order_refl neg_le_0_iff_le zero_le_one)
  next
    assume m: "holds (mpc s t) \<and> \<not> holds q \<and> mcount s' = mcount s + 1"
    have tin: "t \<in> holders s" using m t by simp
    then have "holders s = {t}" using one [OF _ tin] by blast
    then have "holders s' = {}" using h m by simp
    moreover have "mcount s \<le> -1" using s tin unfolding unavailable_def by blast
    ultimately show ?thesis using m by simp
  qed
  have "\<forall>x. mpc s' x \<notin> {MT_dec, MT_get, ML_del, ML_fix, ML_rel2}" using s q by (simp add: unavailable_def pc)
  then show ?thesis using sub le s unfolding unavailable_def by blast
qed

lemma unavailable_exec:
  assumes s: "unavailable s" and pc: "mpc s (cur s) \<notin> {MIdle, MHeld, ML_sched}"
  shows "unavailable (mutex_exec s) \<and> holders (mutex_exec s) \<subseteq> holders s \<and> waiters s \<subseteq> waiters (mutex_exec s)"
proof -
  have bad: "mpc s (cur s) \<notin> {MT_dec, MT_get, ML_del, ML_fix, ML_rel2}" and le: "mcount s \<le> 0"
    using s by (simp_all add: unavailable_def)
  let ?q = "mpc (mutex_exec s) (cur s)"
  have eq: "mpc (mutex_exec s) = (mpc s)(cur s := ?q)"
    by (cases "mpc s (cur s)") (simp_all add: mutex_exec.simps Let_def fun_eq_iff split: list.splits)
  have q: "?q \<notin> {MT_dec, MT_get, ML_del, ML_fix, ML_rel2}"
     "(holds ?q \<longrightarrow> holds (mpc s (cur s))) \<and> (mcount (mutex_exec s) \<le> mcount s \<or> mcount (mutex_exec s) = -1) \<or>
      holds (mpc s (cur s)) \<and> \<not> holds ?q \<and> mcount (mutex_exec s) = mcount s + 1"
     "slow (mpc s (cur s)) \<longrightarrow> slow ?q"
    using pc bad le
    by (cases "mpc s (cur s)";
      simp add: mutex_exec.simps Let_def AtomicInc_def AtomicDec_def split: list.splits)+
  have "waiters s \<subseteq> waiters (mutex_exec s)"
    using waiters_upd [OF eq] q(3) by (auto simp: holder_iff)
  then show ?thesis using unavailable_move [OF s eq q(1,2)] by blast
qed

lemma unavailable_step:
  "mutex_step False s s' \<Longrightarrow> unavailable s \<Longrightarrow> unavailable s' \<and> holders s' \<subseteq> holders s \<and> waiters s \<subseteq> waiters s'"
proof (induction rule: mutex_step.induct)
  case (lock s)
  have "waiters s \<subseteq> waiters (goto ML_dec s)" using lock.hyps by (auto simp: waiters_def)
  then show ?case using lock unavailable_move [OF lock.prems, of _ "cur s" ML_dec] by simp
next
  case (unlock s)
  have "waiters s \<subseteq> waiters (goto MU_inc s)" using unlock.hyps by (auto simp: waiters_def)
  then show ?case using unlock unavailable_move [OF unlock.prems, of _ "cur s" MU_inc] by simp
next
  case (exec s)
  then show ?case by (intro unavailable_exec)
next
  case (sched s u)
  have "waiters s \<subseteq> waiters ((goto ML_spin2 s)\<lparr>cur := u\<rparr>)" using sched.hyps by (auto simp: waiters_def)
  then show ?case using sched unavailable_move [OF sched.prems, of "(goto ML_spin2 s)\<lparr>cur := u\<rparr>" "cur s" ML_spin2] by simp
next
  case (preempt u s)
  then show ?case by (simp add: unavailable_def)
qed simp

lemma unavailable_run:
  "(mutex_step False)\<^sup>*\<^sup>* s s' \<Longrightarrow> unavailable s \<Longrightarrow> unavailable s' \<and> holders s' \<subseteq> holders s \<and> waiters s \<subseteq> waiters s'"
proof (induction rule: rtranclp_induct)
  case (step u v)
  then show ?case using unavailable_step [of u v] by auto
qed simp

lemma contended_unavailable: "mutex_inv s \<Longrightarrow> waiters s \<noteq> {} \<Longrightarrow> unavailable s"
  by (auto simp: mutex_inv_def unavailable_def split: if_splits)

section \<open>Runs by script\<close>

datatype mact = ALock | AUnlock | ATry | AExec | ASched tid | APreempt tid

fun mutex_act :: "bool \<Rightarrow> mact \<Rightarrow> mutex \<Rightarrow> mutex option" where
  "mutex_act wt ALock s = (if mpc s (cur s) = MIdle then Some (goto ML_dec s) else None)"
| "mutex_act wt AUnlock s = (if mpc s (cur s) = MHeld then Some (goto MU_inc s) else None)"
| "mutex_act wt ATry s = (if wt \<and> mpc s (cur s) = MIdle then Some (goto MT_dec s) else None)"
| "mutex_act wt AExec s = (if mpc s (cur s) \<in> {MIdle, MHeld, ML_sched} then None else Some (mutex_exec s))"
| "mutex_act wt (ASched u) s = (if mpc s (cur s) = ML_sched \<and> u \<notin> parked s then Some ((goto ML_spin2 s)\<lparr>cur := u\<rparr>) else None)"
| "mutex_act wt (APreempt u) s = (if u \<notin> parked s then Some (s\<lparr>cur := u\<rparr>) else None)"

fun mutex_acts :: "bool \<Rightarrow> mact list \<Rightarrow> mutex \<Rightarrow> mutex option" where
  "mutex_acts wt [] s = Some s"
| "mutex_acts wt (a # as) s = mutex_act wt a s \<bind> mutex_acts wt as"

lemma mutex_act_step: "mutex_act wt a s = Some s' \<Longrightarrow> mutex_step wt s s'"
  by (cases a) (auto intro: mutex_step.intros split: if_splits)

lemma mutex_acts_run: "mutex_acts wt as s = Some s' \<Longrightarrow> (mutex_step wt)\<^sup>*\<^sup>* s s'"
  by (induction as arbitrary: s)
    (auto split: Option.bind_splits dest!: mutex_act_step intro: converse_rtranclp_into_rtranclp)

lemma mutex_script: "mutex_acts wt as (MutexInit c) = Some s \<Longrightarrow> mutex_reach wt c s"
  by (rule mutex_acts_run)

lemmas run_script = mutex_acts.simps mutex_act.simps mutex_exec.simps MutexInit_def SpinLockInit_def SpinUnlock_def
  AtomicInc_def AtomicDec_def goto_def Let_def Option.bind.bind_lunit

section \<open>Properties of the mutex\<close>

text \<open>C7: mutual exclusion of the mutex. Whatever the interleaving of tasks that call \<open>MutexLock\<close> and \<open>MutexUnlock\<close>, and
  wherever the clock takes the processor away, at most one task is between the return of \<open>MutexLock\<close> and
  the release in \<open>MutexUnlock\<close>, and while one is, \<open>MutexIsLocked\<close> answers 1 and the count is not
  positive; and with no task inside and none waiting, the count is 1, so the next \<open>MutexLock\<close> succeeds.\<close>

theorem mutex_exclusion:
  assumes "mutex_reach False c s"
  shows "(\<forall>t u. mpc s t = MHeld \<longrightarrow> mpc s u = MHeld \<longrightarrow> t = u) \<and>
    ((\<exists>t. mpc s t = MHeld) \<longrightarrow> MutexIsLocked s = 1) \<and>
    (holders s = {} \<longrightarrow> waiters s = {} \<longrightarrow> MutexIsLocked s = 0)"
proof -
  have inv: "mutex_inv s" using mutex_inv_reach [OF assms] .
  have h: "t \<in> holders s" if "mpc s t = MHeld" for t using that by (simp add: holder_iff)
  have one: "t = u" if "mpc s t = MHeld" "mpc s u = MHeld" for t u
    using inv h [OF that(1)] h [OF that(2)] unfolding mutex_inv_def by blast
  have locked: "MutexIsLocked s = 1" if "mpc s t = MHeld" for t
    using inv h [OF that] unfolding mutex_inv_def MutexIsLocked_def by (auto split: if_splits)
  have free: "MutexIsLocked s = 0" if "holders s = {}" "waiters s = {}"
    using inv that unfolding mutex_inv_def MutexIsLocked_def by simp
  show ?thesis using one locked free by blast
qed

theorem mutex_exclusion_witness:
  "\<exists>s. mpc s 1 = MHeld \<and> mpc s 2 = ML_spin \<and> MutexIsLocked s = 1"
proof -
  obtain s where s: "mutex_acts False [ALock, AExec, AExec, APreempt 2, ALock, AExec] (MutexInit 1) = Some s"
      "mpc s 1 = MHeld" "mpc s 2 = ML_spin"
    by (simp add: run_script)
  then show ?thesis using mutex_exclusion [OF mutex_script [OF s(1)]] by blast
qed

text \<open>The uncontended mutex. A task that locks a free mutex and is not interrupted gets it in the fast path: the count
  is 0 and the task is the owner; and its unlock gives back the state before, without owner.\<close>

lemma mutex_uncontended:
  assumes "mpc s (cur s) = MIdle" and "mcount s = 1"
  shows "\<exists>s1. mutex_acts False [ALock, AExec, AExec] s = Some s1 \<and> mpc s1 (cur s) = MHeld \<and> mcount s1 = 0 \<and>
    owner s1 = Some (cur s) \<and> mutex_acts False [AUnlock, AExec, AExec] s1 = Some (s\<lparr>owner := None\<rparr>)"
  using assms by (simp add: run_script fun_upd_idem)

text \<open>C36: a contended mutex is never free again. Once a task has found the lock taken, it never gets it: in every run of
  \<open>MutexLock\<close> and \<open>MutexUnlock\<close> from there on, it stays on the slow path, and no task that does not hold
  the lock already ever holds it. For the counter is then at most -1, the unlock of the holder makes it at
  most 0, \<open>__MutexUnlock\<close> repairs the counter only when it is above 1, and the woken task takes the lock
  only when its exchange finds 1.\<close>

theorem mutex_contention_deadlocks:
  assumes "mutex_reach False c s" and "t \<in> waiters s" and "(mutex_step False)\<^sup>*\<^sup>* s s'"
  shows "t \<in> waiters s' \<and> holders s' \<subseteq> holders s \<and> MutexIsLocked s' = 1"
proof -
  have un: "unavailable s" using contended_unavailable [OF mutex_inv_reach [OF assms(1)]] assms(2) by blast
  show ?thesis using unavailable_run [OF assms(3) un] assms(2) by (auto simp: unavailable_def MutexIsLocked_def)
qed

theorem mutex_contention_deadlocks_witness:
  "\<exists>s s'. (mutex_step False)\<^sup>*\<^sup>* s s' \<and> mpc s' 1 = MIdle \<and> 2 \<in> waiters s' \<and> MutexIsLocked s' = 1"
proof -
  let ?as = "[ALock, AExec, AExec, APreempt 2, ALock, AExec]"
  let ?bs = "[AExec, AExec, AExec, AExec, AExec, AExec, ASched 1, AUnlock, AExec, AExec, AExec, AExec, AExec, AExec, AExec]"
  obtain s s' where s: "mutex_acts False ?as (MutexInit 1) = Some s" "mpc s 2 = ML_spin"
      and s': "mutex_acts False ?bs s = Some s'" "mpc s' 1 = MIdle"
    by (simp add: run_script)
  have "2 \<in> waiters s" using s(2) by (simp add: holder_iff)
  then show ?thesis
    using mutex_contention_deadlocks [OF mutex_script [OF s(1)] _ mutex_acts_run [OF s'(1)]] mutex_acts_run [OF s'(1)] s'(2)
    by blast
qed

text \<open>a failed \<open>MutexTryLock\<close> locks the mutex for good. \<open>MutexTryLock\<close> does not give back its decrement: after a
  task has locked, another has tried and failed, and the first has unlocked, every task is idle, yet
  \<open>MutexIsLocked\<close> answers 1 and no later \<open>MutexLock\<close> of any task ever succeeds.\<close>

theorem trylock_leaks:
  assumes "t \<noteq> u"
  shows "\<exists>s. mutex_reach True t s \<and> (\<forall>x. mpc s x = MIdle) \<and> MutexIsLocked s = 1 \<and>
    (\<forall>s'. (mutex_step False)\<^sup>*\<^sup>* s s' \<longrightarrow> holders s' = {})"
proof -
  let ?as = "[ALock, AExec, AExec, APreempt u, ATry, AExec, AExec, APreempt t, AUnlock, AExec, AExec, AExec, AExec, AExec, AExec, AExec]"
  obtain s where s: "mutex_acts True ?as (MutexInit t) = Some s" and idle: "\<forall>x. mpc s x = MIdle" and c: "mcount s = 0"
    using assms by (simp add: run_script)
  have h: "holders s = {}" using idle by (auto simp: holders_def)
  have "unavailable s" using idle c h by (simp add: unavailable_def)
  then have "holders s' = {}" if "(mutex_step False)\<^sup>*\<^sup>* s s'" for s' using unavailable_run [OF that] h by blast
  then show ?thesis using mutex_script [OF s] idle c by (auto simp: MutexIsLocked_def)
qed

end
