(* ===== verification/Synclock.thy ===== *)
theory Synclock
  imports Task
begin

text \<open>
  The recursive lock \<open>Synclock\<close> of \<open>kernel/synclock.c\<close> on the counting semaphore of \<open>book/semaphore.h\<close>
  (the configuration \<open>CONFIG_SEMAPHORE_M\<close> of \<open>book/config.h\<close>).

  The lock is a step relation, as the mutex of \<open>Locks\<close> is: a task has a program counter with one value for every statement
  that reads or writes shared data, \<open>sync_exec\<close> is those statements, \<open>running\<close> is the running task, and
  \<open>off\<close> holds the tasks whose status is \<open>TASK_BLOCKED\<close>, which are on no ready list once they have
  left the processor. \<open>depth\<close> is not in the code: it counts, for each task, how often it has locked and not
  yet unlocked. A failing \<open>ASSERT\<close> stops the kernel (\<open>stopped\<close>). Nothing in these functions disables interrupts; runs
  with \<open>pre = False\<close> are those in which the clock does not take the processor from a task inside them,
  and runs with \<open>pre = True\<close> are all runs. Counts are unbounded: a task does not nest \<open>2 ^ 32\<close> locks.
\<close>

section \<open>States and statements\<close>

datatype spc = Out
  | L_test | L_again | D_test | D_dec | D_block | D_add | D_sched | L_own | L_assert | L_set
  | U_assert | U_more | U_dec | U_one | U_clear | U_zero | S_test | S_inc | S_del | S_wake tid

record synclock =
  holder :: "tid option"
  reapt :: nat
  counter :: int
  waiting :: "tid list"
  off :: "tid set"
  running :: tid
  spc :: "tid \<Rightarrow> spc"
  depth :: "tid \<Rightarrow> nat"
  stopped :: bool

definition SynclockInit :: "tid \<Rightarrow> synclock" where
  "SynclockInit c = \<lparr>holder = None, reapt = 0, counter = 1, waiting = [], off = {}, running = c,
     spc = (\<lambda>_. Out), depth = (\<lambda>_. 0), stopped = False\<rparr>"

definition jump :: "spc \<Rightarrow> synclock \<Rightarrow> synclock" where
  "jump p s = s\<lparr>spc := (spc s)(running s := p)\<rparr>"

definition nest :: "nat \<Rightarrow> synclock \<Rightarrow> synclock" where
  "nest n s = s\<lparr>depth := (depth s)(running s := n)\<rparr>"

definition check_or_stop :: "bool \<Rightarrow> synclock \<Rightarrow> synclock" where
  "check_or_stop b s = (if b then s else s\<lparr>stopped := True\<rparr>)"

text \<open>
  \<open>S_del\<close> takes the first waiter off the list; \<open>S_wake w\<close> makes \<open>w\<close> ready and puts it on the ready list,
  on which it is not: it is in \<open>off\<close>, and \<open>S_wake\<close> is what takes it out.
\<close>

fun sync_exec :: "synclock \<Rightarrow> synclock" where
  "sync_exec s =
     (let t = running s in case spc s t of
        L_test \<Rightarrow> jump (if holder s \<noteq> Some t then D_test else L_again) s
      | L_again \<Rightarrow> jump Out (nest (depth s t + 1) (s\<lparr>reapt := reapt s + 1\<rparr>))
      | D_test \<Rightarrow> jump (if counter s > 0 then D_dec else D_block) s
      | D_dec \<Rightarrow> jump L_own (s\<lparr>counter := counter s - 1\<rparr>)
      | D_block \<Rightarrow> jump D_add (s\<lparr>off := insert t (off s)\<rparr>)
      | D_add \<Rightarrow> jump D_sched (s\<lparr>waiting := waiting s @ [t]\<rparr>)
      | L_own \<Rightarrow> jump L_assert (s\<lparr>holder := Some t\<rparr>)
      | L_assert \<Rightarrow> jump L_set (check_or_stop (reapt s = 0) s)
      | L_set \<Rightarrow> jump Out (nest 1 (s\<lparr>reapt := 1\<rparr>))
      | U_assert \<Rightarrow> jump U_more (check_or_stop (holder s = Some t) s)
      | U_more \<Rightarrow> jump (if reapt s > 1 then U_dec else U_one) s
      | U_dec \<Rightarrow> jump Out (nest (depth s t - 1) (s\<lparr>reapt := reapt s - 1\<rparr>))
      | U_one \<Rightarrow> jump U_clear (check_or_stop (reapt s = 1) s)
      | U_clear \<Rightarrow> jump U_zero (nest (depth s t - 1) (s\<lparr>holder := None\<rparr>))
      | U_zero \<Rightarrow> jump S_test (s\<lparr>reapt := 0\<rparr>)
      | S_test \<Rightarrow> jump (if waiting s = [] then S_inc else S_del) s
      | S_inc \<Rightarrow> jump Out (s\<lparr>counter := counter s + 1\<rparr>)
      | S_del \<Rightarrow> (case waiting s of [] \<Rightarrow> s | w # ws \<Rightarrow> jump (S_wake w) (s\<lparr>waiting := ws\<rparr>))
      | S_wake w \<Rightarrow> jump Out (s\<lparr>off := off s - {w}\<rparr>)
      | _ \<Rightarrow> s)"

declare sync_exec.simps [simp del]

inductive sync_step :: "bool \<Rightarrow> synclock \<Rightarrow> synclock \<Rightarrow> bool" for pre where
  lock: "\<not> stopped s \<Longrightarrow> spc s (running s) = Out \<Longrightarrow> sync_step pre s (jump L_test s)"
| unlock: "\<not> stopped s \<Longrightarrow> spc s (running s) = Out \<Longrightarrow> 0 < depth s (running s) \<Longrightarrow> sync_step pre s (jump U_assert s)"
| exec: "\<not> stopped s \<Longrightarrow> spc s (running s) \<notin> {Out, D_sched} \<Longrightarrow> sync_step pre s (sync_exec s)"
| sched: "\<not> stopped s \<Longrightarrow> spc s (running s) = D_sched \<Longrightarrow> u \<notin> off s \<Longrightarrow>
    sync_step pre s ((jump L_own s)\<lparr>running := u\<rparr>)"
| preempt: "\<not> stopped s \<Longrightarrow> pre \<or> spc s (running s) = Out \<Longrightarrow> u \<notin> off s \<Longrightarrow> sync_step pre s (s\<lparr>running := u\<rparr>)"

abbreviation sync_reach :: "bool \<Rightarrow> tid \<Rightarrow> synclock \<Rightarrow> bool" where
  "sync_reach pre c \<equiv> (sync_step pre)\<^sup>*\<^sup>* (SynclockInit c)"

text \<open>The task that has, takes or hands over the lock.\<close>

fun token :: "synclock \<Rightarrow> tid \<Rightarrow> bool" where
  "token s t \<longleftrightarrow> 0 < depth s t \<or> spc s t = L_own \<and> t \<notin> off s \<or>
     (case spc s t of L_assert \<Rightarrow> True | L_set \<Rightarrow> True | U_zero \<Rightarrow> True | S_test \<Rightarrow> True | S_inc \<Rightarrow> True
      | S_del \<Rightarrow> True | S_wake w \<Rightarrow> True | _ \<Rightarrow> False)"

declare token.simps [simp del]

text \<open>What the statement the running task is at relies on.\<close>

fun at :: "synclock \<Rightarrow> tid \<Rightarrow> spc \<Rightarrow> bool" where
  "at s t Out \<longleftrightarrow> off s = set (waiting s)"
| "at s t L_test \<longleftrightarrow> off s = set (waiting s)"
| "at s t L_again \<longleftrightarrow> off s = set (waiting s) \<and> 0 < depth s t"
| "at s t D_test \<longleftrightarrow> off s = set (waiting s) \<and> depth s t = 0"
| "at s t D_dec \<longleftrightarrow> off s = set (waiting s) \<and> depth s t = 0 \<and> 0 < counter s"
| "at s t D_block \<longleftrightarrow> off s = set (waiting s) \<and> depth s t = 0 \<and> counter s \<le> 0"
| "at s t D_add \<longleftrightarrow> off s = insert t (set (waiting s)) \<and> t \<notin> set (waiting s) \<and> depth s t = 0 \<and> counter s \<le> 0"
| "at s t D_sched \<longleftrightarrow> off s = set (waiting s) \<and> t \<in> off s \<and> depth s t = 0"
| "at s t L_own \<longleftrightarrow> off s = set (waiting s) \<and> depth s t = 0"
| "at s t L_assert \<longleftrightarrow> off s = set (waiting s) \<and> depth s t = 0"
| "at s t L_set \<longleftrightarrow> off s = set (waiting s) \<and> depth s t = 0"
| "at s t U_assert \<longleftrightarrow> off s = set (waiting s) \<and> 0 < depth s t"
| "at s t U_more \<longleftrightarrow> off s = set (waiting s) \<and> 0 < depth s t"
| "at s t U_dec \<longleftrightarrow> off s = set (waiting s) \<and> 1 < depth s t"
| "at s t U_one \<longleftrightarrow> off s = set (waiting s) \<and> depth s t = 1"
| "at s t U_clear \<longleftrightarrow> off s = set (waiting s) \<and> depth s t = 1"
| "at s t U_zero \<longleftrightarrow> off s = set (waiting s) \<and> depth s t = 0"
| "at s t S_test \<longleftrightarrow> off s = set (waiting s) \<and> depth s t = 0"
| "at s t S_inc \<longleftrightarrow> off s = set (waiting s) \<and> depth s t = 0 \<and> waiting s = []"
| "at s t S_del \<longleftrightarrow> off s = set (waiting s) \<and> depth s t = 0 \<and> waiting s \<noteq> []"
| "at s t (S_wake w) \<longleftrightarrow> off s = insert w (set (waiting s)) \<and> w \<notin> set (waiting s) \<and> w \<noteq> t \<and> spc s w = L_own \<and> depth s t = 0"

definition entering :: "synclock \<Rightarrow> tid \<Rightarrow> bool" where
  "entering s t \<longleftrightarrow> spc s t \<in> {L_assert, L_set}"

text \<open>
  The invariant: the tasks that do not run are outside or wait for their turn; one task has the lock or the
  counter is 1 and no task waits; the holder field names the task that has the lock; and its count is
  the depth of that task.
\<close>

definition shape :: "synclock \<Rightarrow> bool" where
  "shape s \<longleftrightarrow> \<not> stopped s \<and> distinct (waiting s) \<and>
     (running s \<in> off s \<longrightarrow> spc s (running s) \<in> {D_add, D_sched}) \<and>
     (\<forall>t. t \<noteq> running s \<longrightarrow> spc s t = Out \<or> spc s t = L_own \<and> depth s t = 0) \<and>
     (\<forall>t \<in> set (waiting s). t \<noteq> running s \<longrightarrow> spc s t = L_own) \<and>
     at s (running s) (spc s (running s))"

definition one_token :: "synclock \<Rightarrow> bool" where
  "one_token s \<longleftrightarrow> counter s = 1 \<and> waiting s = [] \<and> (\<forall>t. \<not> token s t) \<or> counter s = 0 \<and> (\<exists>!t. token s t)"

definition owner_ok :: "synclock \<Rightarrow> bool" where
  "owner_ok s \<longleftrightarrow> (\<forall>t. holder s = Some t \<longleftrightarrow> 0 < depth s t \<or> entering s t)"

definition count_ok :: "synclock \<Rightarrow> bool" where
  "count_ok s \<longleftrightarrow> reapt s = (case holder s of Some t \<Rightarrow> depth s t
     | None \<Rightarrow> if spc s (running s) = U_zero then 1 else 0)"

definition sync_inv :: "synclock \<Rightarrow> bool" where
  "sync_inv s \<longleftrightarrow> shape s \<and> one_token s \<and> owner_ok s \<and> count_ok s"

section \<open>The statements keep the invariant\<close>

lemma jump_sel [simp]:
  "spc (jump p s) = (spc s)(running s := p)" "running (jump p s) = running s" "holder (jump p s) = holder s"
  "reapt (jump p s) = reapt s" "counter (jump p s) = counter s" "waiting (jump p s) = waiting s" "off (jump p s) = off s"
  "depth (jump p s) = depth s" "stopped (jump p s) = stopped s"
  by (simp_all add: jump_def)

lemma nest_sel [simp]:
  "depth (nest n s) = (depth s)(running s := n)" "running (nest n s) = running s" "holder (nest n s) = holder s"
  "reapt (nest n s) = reapt s" "counter (nest n s) = counter s" "waiting (nest n s) = waiting s" "off (nest n s) = off s"
  "spc (nest n s) = spc s" "stopped (nest n s) = stopped s"
  by (simp_all add: nest_def)

lemma check_or_stop_True [simp]: "check_or_stop True s = s"
  by (simp add: check_or_stop_def)

text \<open>Frame facts of a statement of task \<open>t\<close> that moves it to \<open>q\<close> with depth \<open>n\<close>.\<close>

definition moves :: "synclock \<Rightarrow> tid \<Rightarrow> spc \<Rightarrow> nat \<Rightarrow> synclock \<Rightarrow> bool" where
  "moves s t q n s' \<longleftrightarrow> running s = t \<and> running s' = t \<and> spc s' = (spc s)(t := q) \<and> depth s' = (depth s)(t := n)"

lemma shapeI:
  assumes "shape s" and m: "moves s t q n s'" and "\<not> stopped s'" "distinct (waiting s')"
    "set (waiting s') \<subseteq> insert t (set (waiting s))" "t \<in> off s' \<longrightarrow> q \<in> {D_add, D_sched}" "at s' t q"
  shows "shape s'"
  using assms unfolding shape_def moves_def by auto

lemma one_tokenI:
  assumes one: "one_token s" and m: "moves s t q n s'" and off: "off s' - {t} = off s - {t}"
    and c: "token s' t = token s t \<and> counter s' = counter s \<and> (counter s = 1 \<longrightarrow> waiting s' = []) \<or>
      token s' t \<and> \<not> token s t \<and> 0 < counter s \<and> counter s' = counter s - 1 \<or>
      \<not> token s' t \<and> token s t \<and> counter s' = counter s + 1 \<and> waiting s' = []"
  shows "one_token s'"
proof -
  have other: "token s' x = token s x" if "x \<noteq> t" for x
  proof -
    have "x \<in> off s' \<longleftrightarrow> x \<in> off s" using off that by blast
    then show ?thesis using m that by (simp add: token.simps moves_def)
  qed
  from c show ?thesis
  proof (elim disjE conjE)
    assume "token s' t = token s t" and c: "counter s' = counter s" "counter s = 1 \<longrightarrow> waiting s' = []"
    then have "\<And>x. token s' x = token s x" using other by metis
    then show ?thesis using one c unfolding one_token_def by auto
  next
    assume "token s' t" "\<not> token s t" "0 < counter s" "counter s' = counter s - 1"
    moreover from this have "counter s = 1" "\<And>x. \<not> token s x" using one unfolding one_token_def by auto
    ultimately show ?thesis using other unfolding one_token_def by (metis diff_self)
  next
    assume "\<not> token s' t" "token s t" "counter s' = counter s + 1" "waiting s' = []"
    moreover from this have "counter s = 0" "\<And>x. x \<noteq> t \<Longrightarrow> \<not> token s x" using one unfolding one_token_def by auto
    ultimately show ?thesis using other unfolding one_token_def by (metis add_0)
  qed
qed

lemma owner_okI:
  assumes "owner_ok s" and m: "moves s t q n s'"
    and "holder s' = holder s \<and> (0 < n \<or> q \<in> {L_assert, L_set}) = (0 < depth s t \<or> entering s t) \<or>
      holder s' = Some t \<and> (0 < n \<or> q \<in> {L_assert, L_set}) \<and> holder s = None \<or>
      holder s' = None \<and> \<not> (0 < n \<or> q \<in> {L_assert, L_set}) \<and> holder s = Some t"
  shows "owner_ok s'"
proof -
  have e: "entering s' x = (if x = t then q \<in> {L_assert, L_set} else entering s x)" for x
    using m by (simp add: entering_def moves_def)
  have d: "depth s' x = (if x = t then n else depth s x)" for x using m by (simp add: moves_def)
  show ?thesis unfolding owner_ok_def e d
    using assms(1,3) unfolding owner_ok_def
    by (metis option.distinct(1) option.inject)
qed

lemma free_lock: "one_token s \<Longrightarrow> owner_ok s \<Longrightarrow> token s t \<Longrightarrow> depth s t = 0 \<Longrightarrow> \<not> entering s t \<Longrightarrow> holder s = None"
proof (rule ccontr)
  assume one: "one_token s" and own: "owner_ok s" and t: "token s t" "depth s t = 0" "\<not> entering s t" and "holder s \<noteq> None"
  then obtain x where x: "0 < depth s x \<or> entering s x" by (auto simp: owner_ok_def)
  then have "token s x" by (auto simp: token.simps entering_def)
  then have "x = t" using one t(1) by (auto simp: one_token_def)
  then show False using x t by simp
qed

lemma owner_here: "owner_ok s \<Longrightarrow> 0 < depth s t \<or> entering s t \<Longrightarrow> holder s = Some t"
  by (simp add: owner_ok_def)


lemmas exec_unf = sync_exec.simps Let_def

lemma sync_inv_exec:
  assumes inv: "sync_inv s" and pc: "spc s (running s) \<notin> {Out, D_sched}"
    and nowake: "\<And>w. spc s (running s) \<noteq> S_wake w"
  shows "sync_inv (sync_exec s)"
proof -
  define t where "t = running s"
  define q where "q = spc (sync_exec s) t"
  define n where "n = depth (sync_exec s) t"
  have sh: "shape s" and one: "one_token s" and own: "owner_ok s" and cnt: "count_ok s"
    using inv by (simp_all add: sync_inv_def)
  have at: "at s t (spc s t)" and ns: "\<not> stopped s" and dw: "distinct (waiting s)"
    and notoff: "t \<in> off s \<longrightarrow> spc s t \<in> {D_add, D_sched}" using sh by (simp_all add: shape_def t_def)
  have le: "counter s = 0 \<or> counter s = 1" "counter s = 1 \<longrightarrow> waiting s = []" using one by (auto simp: one_token_def)
  have m: "moves s t q n (sync_exec s)"
    by (cases "spc s t")
      (simp_all add: moves_def exec_unf t_def [symmetric] q_def n_def fun_eq_iff check_or_stop_def split: list.splits)
  have h: "holder s = Some t \<and> reapt s = depth s t" if "0 < depth s t \<or> spc s t = L_assert \<or> spc s t = L_set"
    using that owner_here [OF own, of t] cnt by (auto simp: entering_def count_ok_def)
  have free: "holder s = None \<and> reapt s = 0 \<and> token s t" if "spc s t = L_own"
  proof -
    have tok: "token s t" using that notoff by (simp add: token.simps)
    have "holder s = None" using free_lock [OF one own tok] that at by (simp add: entering_def)
    then show ?thesis using tok cnt that by (simp add: count_ok_def t_def)
  qed
  have z: "holder s = None" if "spc s t = U_zero"
    using free_lock [OF one own, of t] at that by (simp add: entering_def token.simps)
  have h': "0 < depth s t" if "holder s = Some t" "spc s t = L_test"
  proof -
    have "0 < depth s t \<or> entering s t" using own that(1) unfolding owner_ok_def by blast
    then show ?thesis using that(2) by (simp add: entering_def)
  qed
  have w: "x \<noteq> t \<longrightarrow> spc s x = L_own" if "x \<in> set (waiting s)" for x using that sh by (auto simp: shape_def t_def)
  have run: "running s = t" by (simp add: t_def)
  have pcs: "spc s t \<notin> {Out, D_sched} \<and> (\<forall>w. spc s t \<noteq> S_wake w)" using pc nowake by (simp add: t_def)
  have "shape (sync_exec s)"
  proof (rule shapeI [OF sh m])
    show "\<not> stopped (sync_exec s)" using at ns h pcs
      by (cases "spc s t") (simp_all add: exec_unf run split: list.splits)
    show "distinct (waiting (sync_exec s))" using at dw pcs
      by (cases "spc s t") (auto simp add: exec_unf run check_or_stop_def split: list.splits)
    show "set (waiting (sync_exec s)) \<subseteq> insert t (set (waiting s))" using pcs
      by (cases "spc s t") (auto simp add: exec_unf run check_or_stop_def split: list.splits)
    show "t \<in> off (sync_exec s) \<longrightarrow> q \<in> {D_add, D_sched}" using at notoff pcs
      by (cases "spc s t") (auto simp add: exec_unf run check_or_stop_def q_def split: list.splits)
    show "at (sync_exec s) t q" using at notoff pcs h h' w dw
      by (cases "spc s t") (auto simp add: exec_unf run check_or_stop_def q_def split: list.splits)
  qed
  moreover have "one_token (sync_exec s)"
  proof (rule one_tokenI [OF one m])
    show "off (sync_exec s) - {t} = off s - {t}" using pcs
      by (cases "spc s t") (auto simp add: exec_unf run check_or_stop_def split: list.splits)
    show "token (sync_exec s) t = token s t \<and> counter (sync_exec s) = counter s \<and> (counter s = 1 \<longrightarrow> waiting (sync_exec s) = []) \<or>
      token (sync_exec s) t \<and> \<not> token s t \<and> 0 < counter s \<and> counter (sync_exec s) = counter s - 1 \<or>
      \<not> token (sync_exec s) t \<and> token s t \<and> counter (sync_exec s) = counter s + 1 \<and> waiting (sync_exec s) = []"
      using pcs at le notoff h
      by (cases "spc s t") (simp_all add: exec_unf run check_or_stop_def token.simps split: list.splits)
  qed
  moreover have "owner_ok (sync_exec s)"
    using pcs at h free
    by (intro owner_okI [OF own m]; cases "spc s t") (simp_all add: exec_unf run check_or_stop_def q_def n_def entering_def split: list.splits)
  moreover have "count_ok (sync_exec s)"
    using pcs at h free cnt z
    by (cases "spc s t") (auto simp add: exec_unf run check_or_stop_def count_ok_def split: list.splits option.splits)
  ultimately show ?thesis by (simp add: sync_inv_def)
qed


lemma sync_inv_wake:
  assumes inv: "sync_inv s" and pc: "spc s (running s) = S_wake w"
  shows "sync_inv (sync_exec s)"
proof -
  let ?t = "running s" and ?s = "sync_exec s"
  have sh: "shape s" and one: "one_token s" and own: "owner_ok s" and cnt: "count_ok s"
    using inv by (simp_all add: sync_inv_def)
  have w: "off s = insert w (set (waiting s))" "w \<notin> set (waiting s)" "w \<noteq> ?t" "spc s w = L_own" "depth s ?t = 0" "?t \<notin> off s"
    using sh pc by (auto simp: shape_def)
  have dw: "depth s w = 0" using sh w(3,4) by (auto simp: shape_def)
  have m: "moves s ?t Out (depth s ?t) ?s" by (simp add: moves_def exec_unf pc)
  have tok: "token s ?t" by (simp add: token.simps pc)
  then have c: "counter s = 0" "\<And>x. token s x \<Longrightarrow> x = ?t" using one by (auto simp: one_token_def)
  have "token ?s x \<longleftrightarrow> x = w" for x
  proof (cases "x = ?t \<or> x = w")
    case True
    then show ?thesis using w dw pc by (auto simp: token.simps exec_unf)
  next
    case False
    then have "token ?s x \<longleftrightarrow> token s x" by (simp add: token.simps exec_unf pc)
    then show ?thesis using False c(2) by blast
  qed
  then have "one_token ?s" using c(1) by (simp add: one_token_def exec_unf pc)
  moreover have "shape ?s"
    using sh w pc by (intro shapeI [OF sh m]) (auto simp: shape_def exec_unf)
  moreover have "owner_ok ?s"
    by (intro owner_okI [OF own m]) (simp add: exec_unf pc entering_def)
  moreover have "holder s = None" using free_lock [OF one own tok] w(5) pc by (simp add: entering_def)
  then have "count_ok ?s" using cnt by (simp add: count_ok_def exec_unf pc)
  ultimately show ?thesis by (simp add: sync_inv_def)
qed

lemma sync_inv_enter:
  assumes inv: "sync_inv s" and pc: "spc s (running s) = Out" and q: "q = L_test \<or> q = U_assert \<and> 0 < depth s (running s)"
  shows "sync_inv (jump q s)"
proof -
  let ?t = "running s"
  have sh: "shape s" and one: "one_token s" and own: "owner_ok s" and cnt: "count_ok s"
    using inv by (simp_all add: sync_inv_def)
  have m: "moves s ?t q (depth s ?t) (jump q s)" by (simp add: moves_def)
  have at: "off s = set (waiting s)" and toff: "?t \<notin> off s" using sh pc by (auto simp: shape_def)
  have le: "counter s = 1 \<longrightarrow> waiting s = []" using one by (auto simp: one_token_def)
  have "shape (jump q s)"
    using sh pc q at toff by (intro shapeI [OF sh m]) (auto simp: shape_def)
  moreover have "one_token (jump q s)"
    using pc q le by (intro one_tokenI [OF one m]) (auto simp: token.simps)
  moreover have "owner_ok (jump q s)"
    using pc q by (intro owner_okI [OF own m]) (auto simp: entering_def)
  moreover have "count_ok (jump q s)" using cnt pc q by (auto simp: count_ok_def split: option.splits)
  ultimately show ?thesis by (simp add: sync_inv_def)
qed

text \<open>Another task gets the processor: inside \<open>Schedule\<close>, or outside the functions of the lock.\<close>

lemma sync_inv_switch:
  assumes inv: "sync_inv s" and pc: "spc s (running s) = Out \<and> q = Out \<or> spc s (running s) = D_sched \<and> q = L_own" and u: "u \<notin> off s"
  shows "sync_inv ((jump q s)\<lparr>running := u\<rparr>)"
proof -
  let ?t = "running s" and ?s = "(jump q s)\<lparr>running := u\<rparr>"
  have sh: "shape s" and one: "one_token s" and own: "owner_ok s" and cnt: "count_ok s"
    using inv by (simp_all add: sync_inv_def)
  have at: "off s = set (waiting s)" "spc s ?t = D_sched \<longrightarrow> ?t \<in> off s \<and> depth s ?t = 0" "spc s ?t = Out \<longrightarrow> ?t \<notin> off s"
    using sh pc by (auto simp: shape_def)
  have spc: "spc ?s x = spc s x \<or> x = ?t \<and> spc s x = D_sched \<and> spc ?s x = L_own" for x using pc by auto
  have rest: "spc s x = Out \<or> spc s x = L_own \<and> depth s x = 0" if "x \<noteq> ?t" for x using sh that by (auto simp: shape_def)
  have "shape ?s"
  proof -
    have "spc ?s x = Out \<or> spc ?s x = L_own \<and> depth s x = 0" for x
      using rest [of x] pc at(2) by (cases "x = ?t") auto
    moreover have "at ?s u p" if "p = Out \<or> p = L_own \<and> depth s u = 0" for p using that at(1) by auto
    ultimately have "at ?s u (spc ?s u)" "\<forall>x. spc ?s x = Out \<or> spc ?s x = L_own \<and> depth s x = 0" by blast+
    moreover have "spc ?s x = L_own" if "x \<in> set (waiting s)" for x
    proof (cases "x = ?t")
      case True
      then show ?thesis using pc at that by auto
    next
      case False
      then show ?thesis using sh that by (simp add: shape_def)
    qed
    moreover have "\<not> stopped ?s" "distinct (waiting ?s)" using sh by (simp_all add: shape_def)
    ultimately show ?thesis using u unfolding shape_def by (simp del: at.simps fun_upd_apply)
  qed
  moreover have "token ?s x = token s x" for x using spc [of x] at(2) by (auto simp: token.simps)
  then have "one_token ?s" using one by (simp add: one_token_def)
  moreover have "entering ?s x = entering s x" for x using spc [of x] by (auto simp: entering_def)
  then have "owner_ok ?s" using own by (simp add: owner_ok_def)
  moreover have "spc ?s u \<noteq> U_zero" using rest [of u] pc by (cases "u = ?t") auto
  then have "count_ok ?s" using cnt pc by (auto simp: count_ok_def split: option.splits)
  ultimately show ?thesis by (simp add: sync_inv_def)
qed

lemma sync_inv_step: "sync_step False s s' \<Longrightarrow> sync_inv s \<Longrightarrow> sync_inv s'"
proof (induction rule: sync_step.induct)
  case (lock s)
  then show ?case by (simp add: sync_inv_enter)
next
  case (unlock s)
  then show ?case by (simp add: sync_inv_enter)
next
  case (exec s)
  then show ?case using sync_inv_exec [of s] sync_inv_wake [of s] by blast
next
  case (sched s u)
  then show ?case by (simp add: sync_inv_switch)
next
  case (preempt s u)
  have "jump Out s = s" if "spc s (running s) = Out" using that by (simp add: jump_def fun_upd_idem)
  then show ?case using preempt sync_inv_switch [of s Out u] by simp
qed

lemma sync_inv_init: "sync_inv (SynclockInit c)"
  by (simp add: sync_inv_def shape_def one_token_def owner_ok_def count_ok_def SynclockInit_def token.simps entering_def)

lemma sync_inv_reach: "sync_reach False c s \<Longrightarrow> sync_inv s"
  by (induction rule: rtranclp_induct) (auto intro: sync_inv_init sync_inv_step)

section \<open>Runs by script\<close>

datatype sact = SLock | SUnlock | SExec | SSched tid | SPreempt tid

fun sync_act :: "bool \<Rightarrow> sact \<Rightarrow> synclock \<Rightarrow> synclock option" where
  "sync_act pre SLock s = (if \<not> stopped s \<and> spc s (running s) = Out then Some (jump L_test s) else None)"
| "sync_act pre SUnlock s =
     (if \<not> stopped s \<and> spc s (running s) = Out \<and> 0 < depth s (running s) then Some (jump U_assert s) else None)"
| "sync_act pre SExec s =
     (if \<not> stopped s \<and> spc s (running s) \<noteq> Out \<and> spc s (running s) \<noteq> D_sched then Some (sync_exec s) else None)"
| "sync_act pre (SSched u) s =
     (if \<not> stopped s \<and> spc s (running s) = D_sched \<and> u \<notin> off s then Some ((jump L_own s)\<lparr>running := u\<rparr>) else None)"
| "sync_act pre (SPreempt u) s =
     (if \<not> stopped s \<and> (pre \<or> spc s (running s) = Out) \<and> u \<notin> off s then Some (s\<lparr>running := u\<rparr>) else None)"

fun sync_acts :: "bool \<Rightarrow> sact list \<Rightarrow> synclock \<Rightarrow> synclock option" where
  "sync_acts pre [] s = Some s"
| "sync_acts pre (a # as) s = sync_act pre a s \<bind> sync_acts pre as"

lemma sync_act_step: "sync_act pre a s = Some s' \<Longrightarrow> sync_step pre s s'"
  by (cases a) (auto intro: sync_step.intros split: if_splits)

lemma sync_acts_run: "sync_acts pre as s = Some s' \<Longrightarrow> (sync_step pre)\<^sup>*\<^sup>* s s'"
  by (induction as arbitrary: s)
    (auto split: Option.bind_splits dest!: sync_act_step intro: converse_rtranclp_into_rtranclp)

lemmas sync_script = sync_acts.simps sync_act.simps exec_unf SynclockInit_def jump_def nest_def check_or_stop_def Option.bind.bind_lunit

section \<open>Properties\<close>

text \<open>C8: mutual exclusion of the recursive lock. As long as the clock does not take the processor away inside the
  functions of the lock, no assertion of \<open>SyncLock\<close> and \<open>SyncUnlock\<close> fails, at most one task has the lock, it is the
  holder, \<open>holderReaptCount\<close> is how often it has locked without unlocking, and tasks wait only while some task has
  the semaphore.\<close>

theorem synclock_exclusion:
  assumes "sync_reach False c s"
  shows "\<not> stopped s \<and> (\<forall>t u. 0 < depth s t \<longrightarrow> 0 < depth s u \<longrightarrow> t = u) \<and>
    (\<forall>t. 0 < depth s t \<longrightarrow> holder s = Some t \<and> reapt s = depth s t) \<and> (waiting s \<noteq> [] \<longrightarrow> counter s = 0)"
proof -
  have inv: "shape s" "one_token s" "owner_ok s" "count_ok s" using sync_inv_reach [OF assms] by (simp_all add: sync_inv_def)
  have h: "holder s = Some t" if "0 < depth s t" for t using owner_here [OF inv(3)] that by blast
  have "t = u" if "0 < depth s t" "0 < depth s u" for t u using h [OF that(1)] h [OF that(2)] by simp
  moreover have "reapt s = depth s t" if "0 < depth s t" for t using inv(4) h [OF that] by (simp add: count_ok_def)
  ultimately show ?thesis using h inv(1,2) by (auto simp: shape_def one_token_def)
qed

theorem synclock_exclusion_witness:
  "\<exists>s. sync_reach False 1 s \<and> depth s 1 = 2 \<and> depth s 2 = 0 \<and> holder s = Some 1 \<and> reapt s = 2 \<and> waiting s = [2] \<and> counter s = 0"
proof -
  let ?as = "[SLock, SExec, SExec, SExec, SExec, SExec, SExec, SLock, SExec, SExec, SPreempt 2,
    SLock, SExec, SExec, SExec, SExec, SSched 1]"
  obtain s where s: "sync_acts False ?as (SynclockInit 1) = Some s" "depth s 1 = 2" "depth s 2 = 0" "waiting s = [2]"
    by (simp add: sync_script)
  have r: "sync_reach False 1 s" using sync_acts_run [OF s(1)] .
  show ?thesis using synclock_exclusion [OF r] r s(2-) by (metis list.distinct(1) zero_less_numeral)
qed

text \<open>C9: hand-over in order. A \<open>SyncUnlock\<close> of the last nesting level, run without preemption, gives the lock to the task
  that has waited longest: it leaves the list of waiters, can run again, and gets the lock as soon as it runs,
  while the counter stays 0, so no task that locks in between can overtake it.\<close>

theorem synclock_handover:
  assumes "sync_reach False c s" and "spc s (running s) = Out" and "depth s (running s) = 1" and "waiting s = w # ws"
  shows "\<exists>s1 s2. sync_acts False (SUnlock # replicate 8 SExec) s = Some s1 \<and> waiting s1 = ws \<and> counter s1 = 0 \<and>
    holder s1 = None \<and> w \<notin> off s1 \<and> sync_acts False [SPreempt w, SExec, SExec, SExec] s1 = Some s2 \<and>
    holder s2 = Some w \<and> depth s2 w = 1 \<and> waiting s2 = ws"
proof -
  let ?t = "running s"
  have sh: "shape s" and one: "one_token s" and own: "owner_ok s" and cnt: "count_ok s"
    using sync_inv_reach [OF assms(1)] by (simp_all add: sync_inv_def)
  have h: "holder s = Some ?t" using owner_here [OF own] assms(3) by simp
  have st: "reapt s = 1" "\<not> stopped s" "off s = set (waiting s)" "?t \<notin> off s" "distinct (w # ws)" "counter s = 0"
    using cnt h assms sh one by (auto simp: count_ok_def shape_def one_token_def)
  have wt: "w \<noteq> ?t" "spc s w = L_own" using st assms(4) sh by (auto simp: shape_def)
  show ?thesis using assms(2-) h st wt by (simp add: sync_script numeral_nat)
qed

theorem synclock_handover_witness:
  "\<exists>s s1. sync_reach False 1 s \<and> waiting s = [2, 3] \<and> sync_acts False (SUnlock # replicate 8 SExec) s = Some s1 \<and> waiting s1 = [3] \<and> 2 \<notin> off s1"
proof -
  let ?as = "[SLock, SExec, SExec, SExec, SExec, SExec, SExec, SPreempt 2, SLock, SExec, SExec, SExec, SExec, SSched 3,
    SLock, SExec, SExec, SExec, SExec, SSched 1]"
  obtain s where s: "sync_acts False ?as (SynclockInit 1) = Some s" "spc s (running s) = Out" "depth s (running s) = 1" "waiting s = [2, 3]"
    by (simp add: sync_script)
  have r: "sync_reach False 1 s" using sync_acts_run [OF s(1)] .
  show ?thesis using synclock_handover [OF r s(2-)] r s(4) by blast
qed

text \<open>C38: a clock tick at the wrong place stops the kernel. \<open>SemaphoreDown\<close> tests and decrements the counter in two
  statements; when the clock takes the processor in between, two tasks get the semaphore, and the second one
  fails the assertion of \<open>SyncLock\<close> that the lock is not held.\<close>

theorem synclock_race_stops:
  assumes "t \<noteq> u"
  shows "\<exists>s. sync_reach True t s \<and> depth s u = 1 \<and> stopped s"
proof -
  let ?as = "[SLock, SExec, SExec, SPreempt u, SLock, SExec, SExec, SExec, SExec, SExec, SExec, SPreempt t, SExec, SExec, SExec]"
  obtain s where s: "sync_acts True ?as (SynclockInit t) = Some s" "depth s u = 1" "stopped s"
    using assms by (simp add: sync_script)
  show ?thesis using sync_acts_run [OF s(1)] s(2,3) by blast
qed

theorem synclock_race_stops_witness: "\<exists>s. sync_reach True 1 s \<and> depth s 2 = 1 \<and> stopped s"
  by (rule synclock_race_stops) simp

text \<open>A task that is off the processor, blocked, on no list and not being woken stays so.\<close>

definition lost :: "synclock \<Rightarrow> tid \<Rightarrow> bool" where
  "lost s u \<longleftrightarrow> u \<in> off s \<and> u \<notin> set (waiting s) \<and> running s \<noteq> u \<and> (\<forall>t. spc s t \<noteq> S_wake u)"

lemma lost_exec: "lost s u \<Longrightarrow> lost (sync_exec s) u"
  by (cases "spc s (running s)") (auto simp: lost_def exec_unf check_or_stop_def split: list.splits)

lemma lost_step: "sync_step pre s s' \<Longrightarrow> lost s u \<Longrightarrow> lost s' u"
  by (induction rule: sync_step.induct) (auto simp: lost_exec, auto simp: lost_def)

lemma lost_run: "(sync_step pre)\<^sup>*\<^sup>* s s' \<Longrightarrow> lost s u \<Longrightarrow> lost s' u"
  by (induction rule: rtranclp_induct) (auto intro: lost_step)

text \<open>a clock tick at another place loses a task. \<open>__SemaphoreDown\<close> sets the status of the task to
  \<open>TASK_BLOCKED\<close> before it is on the list of waiters; when the clock takes the processor in between, the task is never
  scheduled again, even though the lock becomes free.\<close>

theorem synclock_lost_waiter:
  assumes "t \<noteq> u"
  shows "\<exists>s. sync_reach True t s \<and> holder s = None \<and> counter s = 1 \<and> spc s u = D_add \<and>
    (\<forall>s'. (sync_step True)\<^sup>*\<^sup>* s s' \<longrightarrow> u \<in> off s' \<and> u \<notin> set (waiting s') \<and> running s' \<noteq> u)"
proof -
  let ?as = "[SLock, SExec, SExec, SExec, SExec, SExec, SExec, SPreempt u, SLock, SExec, SExec, SExec, SPreempt t,
    SUnlock, SExec, SExec, SExec, SExec, SExec, SExec, SExec]"
  obtain s where s: "sync_acts True ?as (SynclockInit t) = Some s" "holder s = None" "counter s = 1" "spc s u = D_add"
      "lost s u"
    using assms by (simp add: sync_script lost_def)
  have "u \<in> off s' \<and> u \<notin> set (waiting s') \<and> running s' \<noteq> u" if "(sync_step True)\<^sup>*\<^sup>* s s'" for s'
    using lost_run [OF that s(5)] by (simp add: lost_def)
  then show ?thesis using sync_acts_run [OF s(1)] s(2-4) by blast
qed

end
