(* ===== verification/Bofs.thy ===== *)
theory Bofs
  imports Bitmap CType
begin

text \<open>
  The BOFS file system, first part: the super block and the block and inode bitmaps (\<open>fs/bofs/bitmap.c\<close>,
  \<open>fs/bofs/super_block.c\<close>), the inode table and the map from the blocks of a file to blocks of the
  disk (\<open>fs/bofs/inode.c\<close>).

  The state \<open>bofs\<close> has the kernel memory, in which the bitmaps lie, and the blocks of the device, each a function
  from byte offsets. \<open>BlockRead\<close> and \<open>BlockWrite\<close> are those of the block cache seen from above: the last
  written contents of a block. \<open>faults\<close> tells which of the coming calls of \<open>kmalloc\<close>, \<open>BlockRead\<close>
  and \<open>BlockWrite\<close> succeed, in order; once it is empty, all do. I/O buffers are values; \<open>kfree\<close> of one has no effect
  here. \<open>xfsz\<close> counts the \<open>SIGXFSZ\<close> signals sent to the caller, and \<open>now\<close> is \<open>SystemDateToData()\<close>.
  \<open>None\<close> is a NULL dereference. A device has fewer than \<open>2 ^ 32\<close> blocks.
\<close>

section \<open>Blocks\<close>

type_synonym block = "nat \<Rightarrow> u8"

definition SECTOR_SIZE :: nat where
  "SECTOR_SIZE = 512"

definition BLOCK_SIZE :: nat where
  "BLOCK_SIZE = 1024"

definition zero_block :: block where
  "zero_block = (\<lambda>_. 0)"

text \<open>A block as an array of 32-bit words, lowest byte first.\<close>

definition get32 :: "block \<Rightarrow> nat \<Rightarrow> u32" where
  "get32 b i = ucast (b (4 * i)) OR push_bit 8 (ucast (b (4 * i + 1))) OR
     push_bit 16 (ucast (b (4 * i + 2))) OR push_bit 24 (ucast (b (4 * i + 3)))"

definition put32 :: "block \<Rightarrow> nat \<Rightarrow> u32 \<Rightarrow> block" where
  "put32 b i v = wr_bytes b (4 * i) (le32 v)"

fun put32s :: "block \<Rightarrow> nat \<Rightarrow> u32 list \<Rightarrow> block" where
  "put32s b i [] = b"
| "put32s b i (v # vs) = put32s (put32 b i v) (i + 1) vs"

record BOFS_Inode =
  i_devno :: u32
  i_id :: u32
  i_mode :: u16
  i_links :: u16
  i_size :: u32
  i_crttime :: u32
  i_mdftime :: u32
  i_acstime :: u32
  i_flags :: u32
  i_blocks :: "nat \<Rightarrow> u32"
  i_reserved :: "nat \<Rightarrow> u32"

text \<open>A directory entry; \<open>d_name\<close> is the whole array of 250 bytes.\<close>

record BOFS_DirEntry =
  d_inode :: u32
  d_type :: u16
  d_name :: "u8 list"

text \<open>\<open>junk_inode\<close> and \<open>junk_lba\<close> are what uninitialised local variables of these types hold.\<close>

record bofs =
  kmem :: mem
  blk :: "u32 \<Rightarrow> block"
  faults :: "bool list"
  xfsz :: nat
  now :: u32
  junk_inode :: BOFS_Inode
  junk_lba :: u32

definition attempt :: "bofs \<Rightarrow> bool \<times> bofs" where
  "attempt s = (case faults s of [] \<Rightarrow> (True, s) | b # bs \<Rightarrow> (b, s\<lparr>faults := bs\<rparr>))"

definition BlockRead :: "u32 \<Rightarrow> bofs \<Rightarrow> block option \<times> bofs" where
  "BlockRead lba s = (let (ok, s) = attempt s in (if ok then Some (blk s lba) else None, s))"

definition BlockWrite :: "u32 \<Rightarrow> block \<Rightarrow> bofs \<Rightarrow> bool \<times> bofs" where
  "BlockWrite lba b s = (let (ok, s) = attempt s in (ok, if ok then s\<lparr>blk := (blk s)(lba := b)\<rparr> else s))"

section \<open>The super block and the bitmaps\<close>

record BOFS_SuperBlock =
  magic :: u32
  devno :: u32
  totalSectors :: u32
  superBlockLba :: u32
  sectorBitmapLba :: u32
  sectorBitmapSectors :: u32
  inodeBitmapLba :: u32
  inodeBitmapSectors :: u32
  inodeTableLba :: u32
  inodeTableSectors :: u32
  dataStartLba :: u32
  rootInodeId :: u32
  inodeNrInSector :: u32
  direntryNrInSector :: u32
  maxInodes :: u32
  blockSize :: u32
  sectorBitmap :: bitmap
  inodeBitmap :: bitmap
  rootDir :: BOFS_DirEntry

datatype BOFS_BM_TYPE = BOFS_BMT_SECTOR | BOFS_BMT_INODE

definition bitmap_of :: "BOFS_SuperBlock \<Rightarrow> BOFS_BM_TYPE \<Rightarrow> bitmap" where
  "bitmap_of sb t = (case t of BOFS_BMT_SECTOR \<Rightarrow> sectorBitmap sb | BOFS_BMT_INODE \<Rightarrow> inodeBitmap sb)"

fun set_bits :: "mem \<Rightarrow> bitmap \<Rightarrow> nat \<Rightarrow> nat \<Rightarrow> mem" where
  "set_bits m b idx 0 = m"
| "set_bits m b idx (Suc n) = set_bits (BitmapSet m b idx True) b (idx + 1) n"

definition BOFS_AllocBitmap :: "BOFS_SuperBlock \<Rightarrow> BOFS_BM_TYPE \<Rightarrow> nat \<Rightarrow> bofs \<Rightarrow> int \<times> bofs" where
  "BOFS_AllocBitmap sb bmType counts s =
     (let b = bitmap_of sb bmType; idx = BitmapScan (kmem s) b counts
      in if idx = -1 then (-1, s) else (idx, s\<lparr>kmem := set_bits (kmem s) b (nat idx) counts\<rparr>))"

definition BOFS_FreeBitmap :: "BOFS_SuperBlock \<Rightarrow> BOFS_BM_TYPE \<Rightarrow> u32 \<Rightarrow> bofs \<Rightarrow> int \<times> bofs" where
  "BOFS_FreeBitmap sb bmType idx s =
     (if idx = -1 then (-1, s)
      else (sint idx, s\<lparr>kmem := BitmapSet (kmem s) (bitmap_of sb bmType) (unat idx) False\<rparr>))"

text \<open>The byte offset in the bitmap and the block number are both computed with \<open>SECTOR_SIZE\<close>.\<close>

definition BOFS_SyncBitmap :: "BOFS_SuperBlock \<Rightarrow> BOFS_BM_TYPE \<Rightarrow> u32 \<Rightarrow> bofs \<Rightarrow> int \<times> bofs" where
  "BOFS_SyncBitmap sb bmType idx s =
     (let offsetSector = unat idx div (8 * SECTOR_SIZE);
          offsetSize = offsetSector * SECTOR_SIZE;
          lba = (case bmType of BOFS_BMT_SECTOR \<Rightarrow> sectorBitmapLba sb | BOFS_BMT_INODE \<Rightarrow> inodeBitmapLba sb);
          (ok, s) = BlockWrite (lba + word_of_nat offsetSector)
            (\<lambda>i. kmem s (bits (bitmap_of sb bmType) + offsetSize + i)) s
      in (if ok then 1 else -1, s))"

definition BOFS_IDX_TO_LBA :: "BOFS_SuperBlock \<Rightarrow> u32 \<Rightarrow> u32" where
  "BOFS_IDX_TO_LBA sb idx = dataStartLba sb + idx"

definition BOFS_LBA_TO_IDX :: "BOFS_SuperBlock \<Rightarrow> u32 \<Rightarrow> u32" where
  "BOFS_LBA_TO_IDX sb lba = lba - dataStartLba sb"

text \<open>\<open>a\<close> is where \<open>kmalloc\<close> or \<open>vmalloc\<close> put the bits, 0 when they fail.\<close>

fun load_bits :: "BOFS_SuperBlock \<Rightarrow> u32 \<Rightarrow> addr \<Rightarrow> nat \<Rightarrow> nat \<Rightarrow> bofs \<Rightarrow> bool \<times> bofs" where
  "load_bits sb lba a i 0 s = (True, s)"
| "load_bits sb lba a i (Suc n) s =
     (case BlockRead (lba + word_of_nat i) s of
        (None, s) \<Rightarrow> (False, s)
      | (Some b, s) \<Rightarrow> load_bits sb lba a (i + 1) n
          (s\<lparr>kmem := wr_bytes (kmem s) (a + i * unat (blockSize sb)) (map b [0..<unat (blockSize sb)])\<rparr>))"

definition load_bitmap :: "BOFS_SuperBlock \<Rightarrow> bitmap \<Rightarrow> u32 \<Rightarrow> u32 \<Rightarrow> bofs \<Rightarrow> bool \<times> bofs" where
  "load_bitmap sb b lba sectors s =
     (if bits b = 0 then (False, s)
      else load_bits sb lba (bits b) 0 (unat sectors) (s\<lparr>kmem := BitmapInit (kmem s) b\<rparr>))"

definition BOFS_LoadBitmap :: "BOFS_SuperBlock \<Rightarrow> addr \<Rightarrow> addr \<Rightarrow> bofs \<Rightarrow> int \<times> BOFS_SuperBlock \<times> bofs" where
  "BOFS_LoadBitmap sb a1 a2 s =
     (let sb = sb\<lparr>sectorBitmap := sectorBitmap sb\<lparr>bits := a1\<rparr>\<rparr>;
          (ok, s) = load_bitmap sb (sectorBitmap sb) (sectorBitmapLba sb) (sectorBitmapSectors sb) s
      in if \<not> ok then (-1, sb, s)
         else let sb = sb\<lparr>inodeBitmap := inodeBitmap sb\<lparr>bits := a2\<rparr>\<rparr>;
                  (ok, s) = load_bitmap sb (inodeBitmap sb) (inodeBitmapLba sb) (inodeBitmapSectors sb) s
              in (if ok then 0 else -1, sb, s))"

definition BOFS_UnloadBitmap :: "BOFS_SuperBlock \<Rightarrow> int" where
  "BOFS_UnloadBitmap sb = (if bits (sectorBitmap sb) = 0 \<or> bits (inodeBitmap sb) = 0 then -1 else 0)"

section \<open>Inodes\<close>

definition BOFS_BLOCK_NR :: nat where
  "BOFS_BLOCK_NR = 15"

text \<open>The 128 bytes of an inode as 32 words; an array of inodes in a block.\<close>

definition inode_words :: "BOFS_Inode \<Rightarrow> u32 list" where
  "inode_words n = [i_devno n, i_id n, ucast (i_mode n) OR push_bit 16 (ucast (i_links n)), i_size n,
     i_crttime n, i_mdftime n, i_acstime n, i_flags n] @ map (i_blocks n) [0..<15] @ map (i_reserved n) [0..<9]"

definition get_inode :: "block \<Rightarrow> nat \<Rightarrow> BOFS_Inode" where
  "get_inode b k = (let w = (\<lambda>j. get32 b (32 * k + j)) in
     \<lparr>i_devno = w 0, i_id = w 1, i_mode = ucast (w 2), i_links = ucast (drop_bit 16 (w 2)), i_size = w 3,
      i_crttime = w 4, i_mdftime = w 5, i_acstime = w 6, i_flags = w 7,
      i_blocks = (\<lambda>i. if i < 15 then w (8 + i) else 0), i_reserved = (\<lambda>i. if i < 9 then w (23 + i) else 0)\<rparr>)"

definition put_inode :: "block \<Rightarrow> nat \<Rightarrow> BOFS_Inode \<Rightarrow> block" where
  "put_inode b k n = put32s b (32 * k) (inode_words n)"

definition zero_inode :: BOFS_Inode where
  "zero_inode = \<lparr>i_devno = 0, i_id = 0, i_mode = 0, i_links = 0, i_size = 0, i_crttime = 0, i_mdftime = 0,
     i_acstime = 0, i_flags = 0, i_blocks = (\<lambda>_. 0), i_reserved = (\<lambda>_. 0)\<rparr>"

definition BOFS_CreateInode :: "u32 \<Rightarrow> u32 \<Rightarrow> u32 \<Rightarrow> u32 \<Rightarrow> bofs \<Rightarrow> BOFS_Inode" where
  "BOFS_CreateInode nr mode flags dev s =
     zero_inode\<lparr>i_id := nr, i_mode := ucast mode, i_crttime := now s, i_mdftime := now s, i_acstime := now s,
       i_flags := flags, i_devno := dev\<rparr>"

definition BOFS_CopyInode :: "BOFS_Inode \<Rightarrow> BOFS_Inode" where
  "BOFS_CopyInode src =
     zero_inode\<lparr>i_id := i_id src, i_mode := i_mode src, i_links := i_links src, i_size := i_size src,
       i_crttime := i_crttime src, i_mdftime := i_mdftime src, i_acstime := i_acstime src, i_flags := i_flags src\<rparr>"

definition inode_lba :: "BOFS_SuperBlock \<Rightarrow> u32 \<Rightarrow> u32" where
  "inode_lba sb nr = inodeTableLba sb + nr div inodeNrInSector sb"

definition inode_slot :: "BOFS_SuperBlock \<Rightarrow> u32 \<Rightarrow> nat" where
  "inode_slot sb nr = unat (nr mod inodeNrInSector sb)"

definition edit_inode_block :: "BOFS_SuperBlock \<Rightarrow> u32 \<Rightarrow> BOFS_Inode \<Rightarrow> bofs \<Rightarrow> int \<times> bofs" where
  "edit_inode_block sb nr n s =
     (let (ok, s) = attempt s in
      if \<not> ok then (-1, s)
      else case BlockRead (inode_lba sb nr) s of
             (None, s) \<Rightarrow> (-1, s)
           | (Some iobuf, s) \<Rightarrow>
               (let (ok, s) = BlockWrite (inode_lba sb nr) (put_inode iobuf (inode_slot sb nr) n) s
                in (if ok then 0 else -1, s)))"

definition BOFS_SyncInode :: "BOFS_SuperBlock \<Rightarrow> BOFS_Inode \<Rightarrow> bofs \<Rightarrow> int \<times> bofs" where
  "BOFS_SyncInode sb n s = edit_inode_block sb (i_id n) n s"

definition BOFS_EmptyInode :: "BOFS_SuperBlock \<Rightarrow> BOFS_Inode \<Rightarrow> bofs \<Rightarrow> int \<times> bofs" where
  "BOFS_EmptyInode sb n s = edit_inode_block sb (i_id n) zero_inode s"

text \<open>On failure the caller's inode keeps its contents \<open>old\<close>.\<close>

definition BOFS_LoadInodeByID :: "BOFS_SuperBlock \<Rightarrow> u32 \<Rightarrow> BOFS_Inode \<Rightarrow> bofs \<Rightarrow> int \<times> BOFS_Inode \<times> bofs" where
  "BOFS_LoadInodeByID sb nr old s =
     (let (ok, s) = attempt s in
      if \<not> ok then (-1, old, s)
      else case BlockRead (inode_lba sb nr) s of
             (None, s) \<Rightarrow> (-1, old, s)
           | (Some iobuf, s) \<Rightarrow> (0, get_inode iobuf (inode_slot sb nr), s))"

section \<open>The blocks of a file\<close>

text \<open>
  \<open>AllocOneSector\<close> returns its result and the value left in \<open>*data\<close>, which is set even when a later step fails.
  The results of \<open>BOFS_SyncBitmap\<close> are not tested by the code.
\<close>

definition AllocOneSector :: "BOFS_SuperBlock \<Rightarrow> u32 \<Rightarrow> bofs \<Rightarrow> int \<times> u32 \<times> bofs" where
  "AllocOneSector sb data s =
     (let (idx, s) = BOFS_AllocBitmap sb BOFS_BMT_SECTOR 1 s in
      if idx = -1 then (-1, data, s)
      else let (_, s) = BOFS_SyncBitmap sb BOFS_BMT_SECTOR (word_of_int idx) s;
               data = BOFS_IDX_TO_LBA sb (word_of_int idx);
               (ok, s) = attempt s
           in if \<not> ok then (-1, data, s)
              else let (ok, s) = BlockWrite data zero_block s in (if ok then 0 else -1, data, s))"

definition FreeOneSector :: "BOFS_SuperBlock \<Rightarrow> u32 \<Rightarrow> bofs \<Rightarrow> bofs" where
  "FreeOneSector sb lba s =
     (let idx = BOFS_LBA_TO_IDX sb lba in
      snd (BOFS_SyncBitmap sb BOFS_BMT_SECTOR idx (snd (BOFS_FreeBitmap sb BOFS_BMT_SECTOR idx s))))"

definition BLOCK_LV0 :: nat where
  "BLOCK_LV0 = 12"

definition BLOCK_LV1 :: nat where
  "BLOCK_LV1 = BLOCK_LV0 + 256"

definition BLOCK_LV2 :: nat where
  "BLOCK_LV2 = BLOCK_LV1 + 256 * 256"

definition BLOCK_LV3 :: nat where
  "BLOCK_LV3 = BLOCK_LV2 + 256 * 256 * 256"

text \<open>
  The two steps the functions for the three levels share. \<open>inode_cell\<close>: the pointer \<open>blocks[k]\<close> of the inode, with a block
  allocated when it is 0, after which the inode is written back. \<open>block_cell\<close>: the pointer at index \<open>i\<close> of block
  \<open>lba\<close>, which is read into a buffer, and written back when a block had to be allocated.
\<close>

definition inode_cell :: "BOFS_SuperBlock \<Rightarrow> nat \<Rightarrow> BOFS_Inode \<Rightarrow> bofs \<Rightarrow> bool \<times> BOFS_Inode \<times> bofs" where
  "inode_cell sb k n s =
     (if i_blocks n k \<noteq> 0 then (True, n, s)
      else let (r, p, s) = AllocOneSector sb 0 s; n = n\<lparr>i_blocks := (i_blocks n)(k := p)\<rparr>
           in if r \<noteq> 0 then (False, n, s) else (True, n, snd (BOFS_SyncInode sb n s)))"

definition block_cell :: "BOFS_SuperBlock \<Rightarrow> u32 \<Rightarrow> nat \<Rightarrow> bofs \<Rightarrow> u32 option \<times> bofs" where
  "block_cell sb lba i s =
     (case BlockRead lba s of
        (None, s) \<Rightarrow> (None, s)
      | (Some buffer, s) \<Rightarrow>
          if get32 buffer i \<noteq> 0 then (Some (get32 buffer i), s)
          else let (r, p, s) = AllocOneSector sb 0 s in
               if r \<noteq> 0 then (None, s)
               else let (ok, s) = BlockWrite lba (put32 buffer i p) s in (if ok then Some p else None, s))"

text \<open>
  The result, the value left in \<open>*block\<close> (\<open>old\<close> on failure), the inode and the state.
\<close>

type_synonym get_result = "int \<times> u32 \<times> BOFS_Inode \<times> bofs"

definition GetBlockInInderect1 :: "BOFS_SuperBlock \<Rightarrow> BOFS_Inode \<Rightarrow> nat \<Rightarrow> u32 \<Rightarrow> bofs \<Rightarrow> get_result" where
  "GetBlockInInderect1 sb n base old s =
     (let (ok, s) = attempt s in if \<not> ok then (-1, old, n, s) else
      let (ok, n, s) = inode_cell sb 12 n s in if \<not> ok then (-1, old, n, s) else
      case block_cell sb (i_blocks n 12) base s of
        (None, s) \<Rightarrow> (-1, old, n, s)
      | (Some derect, s) \<Rightarrow> (0, derect, n, s))"

definition GetBlockInInderect2 :: "BOFS_SuperBlock \<Rightarrow> BOFS_Inode \<Rightarrow> nat \<Rightarrow> u32 \<Rightarrow> bofs \<Rightarrow> get_result" where
  "GetBlockInInderect2 sb n base old s =
     (let idx1 = base div 256; idx2 = base mod 256;
          (ok, s) = attempt s in if \<not> ok then (-1, old, n, s) else
      let (ok, s) = attempt s in if \<not> ok then (-1, old, n, s) else
      let (ok, n, s) = inode_cell sb 13 n s in if \<not> ok then (-1, old, n, s) else
      case block_cell sb (i_blocks n 13) idx1 s of
        (None, s) \<Rightarrow> (-1, old, n, s)
      | (Some inderect2, s) \<Rightarrow>
          (case block_cell sb inderect2 idx2 s of
             (None, s) \<Rightarrow> (-1, old, n, s)
           | (Some derect, s) \<Rightarrow> (0, derect, n, s)))"

text \<open>The indices at level 3, and the test of the wrong pointer after the third \<open>kmalloc\<close>.\<close>

definition lv3_indices :: "nat \<Rightarrow> nat \<times> nat \<times> nat" where
  "lv3_indices base =
     (if base < 256 then (0, 0, base)
      else if base < 256 * 256 then (0, base div 256, base mod 256)
      else if base < 256 * 256 * 256 then
        (let i1 = base div (256 * 256); base = base - i1 * (256 * 256) in (i1, base div 256, base mod 256))
      else (0, 0, 0))"

definition GetBlockInInderect3 :: "BOFS_SuperBlock \<Rightarrow> BOFS_Inode \<Rightarrow> nat \<Rightarrow> u32 \<Rightarrow> bofs \<Rightarrow> get_result option" where
  "GetBlockInInderect3 sb n base old s =
     (let (idx1, idx2, idx3) = lv3_indices base;
          (ok, s) = attempt s in if \<not> ok then Some (-1, old, n, s) else
      let (ok, s) = attempt s in if \<not> ok then Some (-1, old, n, s) else
      let (buffer3, s) = attempt s;
          (ok, n, s) = inode_cell sb 14 n s in if \<not> ok then Some (-1, old, n, s) else
      case block_cell sb (i_blocks n 14) idx1 s of
        (None, s) \<Rightarrow> Some (-1, old, n, s)
      | (Some inderect2, s) \<Rightarrow>
          (case block_cell sb inderect2 idx2 s of
             (None, s) \<Rightarrow> Some (-1, old, n, s)
           | (Some inderect3, s) \<Rightarrow>
               if \<not> buffer3 then None else
               (case block_cell sb inderect3 idx3 s of
                  (None, s) \<Rightarrow> Some (-1, old, n, s)
                | (Some derect, s) \<Rightarrow> Some (0, derect, n, s))))"

definition BOFS_GetInodeData :: "BOFS_SuperBlock \<Rightarrow> BOFS_Inode \<Rightarrow> nat \<Rightarrow> u32 \<Rightarrow> bofs \<Rightarrow> get_result option" where
  "BOFS_GetInodeData sb n index old s =
     (if index < BLOCK_LV0 then
        (if i_blocks n index \<noteq> 0 then Some (0, i_blocks n index, n, s)
         else let (r, p, s) = AllocOneSector sb 0 s; n = n\<lparr>i_blocks := (i_blocks n)(index := p)\<rparr>
              in if r \<noteq> 0 then Some (-1, old, n, s)
                 else Some (0, p, n, snd (BOFS_SyncInode sb n s)))
      else if index < BLOCK_LV1 then Some (GetBlockInInderect1 sb n (index - BLOCK_LV0) old s)
      else if index < BLOCK_LV2 then Some (GetBlockInInderect2 sb n (index - BLOCK_LV1) old s)
      else if index < BLOCK_LV3 then GetBlockInInderect3 sb n (index - BLOCK_LV2) old s
      else Some (-1, old, n, s\<lparr>xfsz := xfsz s + 1\<rparr>))"

section \<open>Releasing blocks\<close>

definition IsEmprtyBlock :: "block \<Rightarrow> u32 \<Rightarrow> bool" where
  "IsEmprtyBlock b sz \<longleftrightarrow> (\<forall>i \<in> set [0..<unat sz div 4]. get32 b i = 0)"

text \<open>
  The end of a release inside a block: the pointer at \<open>i\<close> of \<open>buffer\<close> becomes 0. \<open>release_up\<close>: an
  empty block is freed itself, which the result \<open>True\<close> tells; otherwise it is written back, and \<open>None\<close> tells that this failed.
\<close>

definition release_up :: "BOFS_SuperBlock \<Rightarrow> u32 \<Rightarrow> block \<Rightarrow> nat \<Rightarrow> bofs \<Rightarrow> bool option \<times> bofs" where
  "release_up sb lba buffer i s =
     (let buffer = put32 buffer i 0 in
      if IsEmprtyBlock buffer (blockSize sb) then (Some True, FreeOneSector sb lba s)
      else let (ok, s) = BlockWrite lba buffer s in (if ok then Some False else None, s))"

type_synonym put_result = "int \<times> BOFS_Inode \<times> bofs"

definition clear_cell :: "BOFS_SuperBlock \<Rightarrow> nat \<Rightarrow> BOFS_Inode \<Rightarrow> bofs \<Rightarrow> BOFS_Inode \<times> bofs" where
  "clear_cell sb k n s = (let n = n\<lparr>i_blocks := (i_blocks n)(k := 0)\<rparr> in (n, snd (BOFS_SyncInode sb n s)))"

definition PutBlockInInderect1 :: "BOFS_SuperBlock \<Rightarrow> BOFS_Inode \<Rightarrow> nat \<Rightarrow> bofs \<Rightarrow> put_result" where
  "PutBlockInInderect1 sb n base s =
     (let (ok, s) = attempt s; p1 = i_blocks n 12 in
      if \<not> ok then (-1, n, s) else if p1 = 0 then (0, n, s) else
      case BlockRead p1 s of
        (None, s) \<Rightarrow> (-1, n, s)
      | (Some buffer1, s) \<Rightarrow>
          if get32 buffer1 base = 0 then (0, n, s) else
          (case release_up sb p1 buffer1 base (FreeOneSector sb (get32 buffer1 base) s) of
             (None, s) \<Rightarrow> (-1, n, s)
           | (Some False, s) \<Rightarrow> (0, n, s)
           | (Some True, s) \<Rightarrow> (0, clear_cell sb 12 n s)))"

text \<open>At level 2 the function returns as soon as it has freed the block, before the pointer to it is cleared on disk.\<close>

definition PutBlockInInderect2 :: "BOFS_SuperBlock \<Rightarrow> BOFS_Inode \<Rightarrow> nat \<Rightarrow> bofs \<Rightarrow> put_result" where
  "PutBlockInInderect2 sb n base s =
     (let idx1 = base div 256; idx2 = base mod 256; p1 = i_blocks n 13;
          (ok, s) = attempt s in if \<not> ok then (-1, n, s) else
      let (ok, s) = attempt s in if \<not> ok then (-1, n, s) else
      if p1 = 0 then (0, n, s) else
      case BlockRead p1 s of
        (None, s) \<Rightarrow> (-1, n, s)
      | (Some buffer1, s) \<Rightarrow>
          let p2 = get32 buffer1 idx1 in
          if p2 = 0 then (0, n, s) else
          (case BlockRead p2 s of
             (None, s) \<Rightarrow> (-1, n, s)
           | (Some buffer2, s) \<Rightarrow>
               let d = get32 buffer2 idx2 in
               if d = 0 then (0, n, s) else (0, n, FreeOneSector sb d s)))"

definition PutBlockInInderect3 :: "BOFS_SuperBlock \<Rightarrow> BOFS_Inode \<Rightarrow> nat \<Rightarrow> bofs \<Rightarrow> put_result" where
  "PutBlockInInderect3 sb n base s =
     (let (idx1, idx2, idx3) = lv3_indices base; p1 = i_blocks n 14;
          (ok, s) = attempt s in if \<not> ok then (-1, n, s) else
      let (ok, s) = attempt s in if \<not> ok then (-1, n, s) else
      let (ok, s) = attempt s in if \<not> ok then (-1, n, s) else
      if p1 = 0 then (0, n, s) else
      case BlockRead p1 s of
        (None, s) \<Rightarrow> (-1, n, s)
      | (Some buffer1, s) \<Rightarrow>
          let p2 = get32 buffer1 idx1 in
          if p2 = 0 then (0, n, s) else
          (case BlockRead p2 s of
             (None, s) \<Rightarrow> (-1, n, s)
           | (Some buffer2, s) \<Rightarrow>
               let p3 = get32 buffer2 idx2 in
               if p3 = 0 then (0, n, s) else
               (case BlockRead p3 s of
                  (None, s) \<Rightarrow> (-1, n, s)
                | (Some buffer3, s) \<Rightarrow>
                    let d = get32 buffer3 idx3 in
                    if d = 0 then (0, n, s) else
                    (case release_up sb p3 buffer3 idx3 (FreeOneSector sb d s) of
                       (None, s) \<Rightarrow> (-1, n, s)
                     | (Some False, s) \<Rightarrow> (0, n, s)
                     | (Some True, s) \<Rightarrow>
                         (case release_up sb p2 buffer2 idx2 s of
                            (None, s) \<Rightarrow> (-1, n, s)
                          | (Some False, s) \<Rightarrow> (0, n, s)
                          | (Some True, s) \<Rightarrow>
                              (case release_up sb p1 buffer1 idx1 s of
                                 (None, s) \<Rightarrow> (-1, n, s)
                               | (Some False, s) \<Rightarrow> (0, n, s)
                               | (Some True, s) \<Rightarrow> (0, clear_cell sb 14 n s)))))))"

definition PutBlockByBlockIndex :: "BOFS_SuperBlock \<Rightarrow> BOFS_Inode \<Rightarrow> nat \<Rightarrow> bofs \<Rightarrow> put_result" where
  "PutBlockByBlockIndex sb n index s =
     (if index < BLOCK_LV0 then
        (if i_blocks n index = 0 then (0, n, s)
         else (0, clear_cell sb index n (FreeOneSector sb (i_blocks n index) s)))
      else if index < BLOCK_LV1 then PutBlockInInderect1 sb n (index - BLOCK_LV0) s
      else if index < BLOCK_LV2 then PutBlockInInderect2 sb n (index - BLOCK_LV1) s
      else if index < BLOCK_LV3 then PutBlockInInderect3 sb n (index - BLOCK_LV2) s
      else (-1, n, s\<lparr>xfsz := xfsz s + 1\<rparr>))"

fun release_loop :: "BOFS_SuperBlock \<Rightarrow> BOFS_Inode \<Rightarrow> nat \<Rightarrow> nat \<Rightarrow> bofs \<Rightarrow> put_result" where
  "release_loop sb n index 0 s = (0, n, s)"
| "release_loop sb n index (Suc k) s =
     (case PutBlockByBlockIndex sb n index s of
        (r, n, s) \<Rightarrow> if r \<noteq> 0 then (-1, n, s) else release_loop sb n (index + 1) k s)"

definition BOFS_ReleaseInodeData :: "BOFS_SuperBlock \<Rightarrow> BOFS_Inode \<Rightarrow> bofs \<Rightarrow> put_result" where
  "BOFS_ReleaseInodeData sb n s =
     (if i_size n = 0 then (0, n, s)
      else release_loop sb n 0 (unat (DIV_ROUND_UP (i_size n) (blockSize sb))) s)"

section \<open>Copying the data of a file\<close>

text \<open>The results of \<open>BOFS_GetInodeData\<close> are not tested: on failure the block number of the last round is used again.\<close>

fun copy_data_loop :: "BOFS_SuperBlock \<Rightarrow> BOFS_Inode \<Rightarrow> BOFS_Inode \<Rightarrow> u32 \<Rightarrow> u32 \<Rightarrow> nat \<Rightarrow> nat \<Rightarrow> bofs \<Rightarrow>
    (int \<times> BOFS_Inode \<times> BOFS_Inode \<times> bofs) option" where
  "copy_data_loop sb dst src dstLba srcLba blockID 0 s = Some (0, dst, src, s)"
| "copy_data_loop sb dst src dstLba srcLba blockID (Suc k) s =
     do { (_, srcLba, src, s) \<leftarrow> BOFS_GetInodeData sb src blockID srcLba s;
          case BlockRead srcLba s of
            (None, s) \<Rightarrow> Some (-1, dst, src, s)
          | (Some iobuf, s) \<Rightarrow>
              do { (_, dstLba, dst, s) \<leftarrow> BOFS_GetInodeData sb dst blockID dstLba s;
                   let (ok, s) = BlockWrite dstLba iobuf s in
                   if ok then copy_data_loop sb dst src dstLba srcLba (blockID + 1) k s
                   else Some (-1, dst, src, s) } }"

definition BOFS_CopyInodeData :: "BOFS_SuperBlock \<Rightarrow> BOFS_Inode \<Rightarrow> BOFS_Inode \<Rightarrow> bofs \<Rightarrow>
    (int \<times> BOFS_Inode \<times> BOFS_Inode \<times> bofs) option" where
  "BOFS_CopyInodeData sb dst src s =
     (if i_size src = 0 then Some (-1, dst, src, s)
      else let (ok, s) = attempt s in
           if \<not> ok then Some (-1, dst, src, s)
           else copy_data_loop sb dst src (junk_lba s) (junk_lba s) 0 (unat (DIV_ROUND_UP (i_size src) (blockSize sb))) s)"

end
