(* ===== verification/BofsProofs.thy ===== *)
theory BofsProofs
  imports Bofs
begin

text \<open>
  The block map of BOFS files. The pointers of a file form a tree: \<open>node\<close> gives the block at a path, which begins with an index
  into the inode and goes on with indices into indirect blocks. \<open>file_ok\<close> is the invariant: different paths lead to different
  blocks, all of them allocated. \<open>BOFS_GetInodeData\<close> extends the map and keeps the contents of the file.
  All lemmas suppose \<open>faults s = []\<close>: memory for the buffers and the device do not fail.
\<close>

section \<open>Words in blocks\<close>

lemma le32_nth: "(le32 v ! 0 = ucast v) \<and> (le32 v ! 1 = ucast (drop_bit 8 v)) \<and> (le32 v ! 2 = ucast (drop_bit 16 v)) \<and>
    (le32 v ! 3 = ucast (drop_bit 24 v))"
  by (simp add: le32_def numeral_nat)

lemma le32_join: "ucast (ucast v :: u8) OR push_bit 8 (ucast (ucast (drop_bit 8 v) :: u8)) OR
    push_bit 16 (ucast (ucast (drop_bit 16 v) :: u8)) OR push_bit 24 (ucast (ucast (drop_bit 24 v) :: u8)) = (v :: u32)"
proof (rule bit_word_eqI)
  fix k assume "k < LENGTH(32)"
  then consider "k < 8" | "8 \<le> k" "k < 16" | "16 \<le> k" "k < 24" | "24 \<le> k" "k < 32" by force
  then show "bit (ucast (ucast v :: u8) OR push_bit 8 (ucast (ucast (drop_bit 8 v) :: u8)) OR
    push_bit 16 (ucast (ucast (drop_bit 16 v) :: u8)) OR push_bit 24 (ucast (ucast (drop_bit 24 v) :: u8)) :: u32) k = bit v k"
    by cases (auto simp: bit_simps)
qed

lemma get32_put32 [simp]: "get32 (put32 b i v) j = (if j = i then v else get32 b j)"
proof (cases "j = i")
  case True
  have "wr_bytes b (4 * i) (le32 v) (4 * i) = ucast v" "wr_bytes b (4 * i) (le32 v) (4 * i + 1) = ucast (drop_bit 8 v)"
    "wr_bytes b (4 * i) (le32 v) (4 * i + 2) = ucast (drop_bit 16 v)" "wr_bytes b (4 * i) (le32 v) (4 * i + 3) = ucast (drop_bit 24 v)"
    using wr_bytes_inside [of 0 "le32 v" b "4 * i"] wr_bytes_inside [of 1 "le32 v" b "4 * i"]
      wr_bytes_inside [of 2 "le32 v" b "4 * i"] wr_bytes_inside [of 3 "le32 v" b "4 * i"] by (simp_all add: le32_nth [of v, simplified] del: wr_bytes_inside)
  then show ?thesis using True by (simp add: get32_def put32_def le32_join)
next
  case False
  then have "4 * j + 4 \<le> 4 * i \<or> 4 * i + 4 \<le> 4 * j" by (cases "j < i") auto
  then have "wr_bytes b (4 * i) (le32 v) (4 * j + k) = b (4 * j + k)" if "k < 4" for k
    using that by (intro wr_bytes_outside) auto
  from this [of 0] this [of 1] this [of 2] this [of 3] show ?thesis using False by (simp add: get32_def put32_def)
qed

lemma get32_zero [simp]: "get32 zero_block i = 0"
  by (simp add: get32_def zero_block_def)

section \<open>Allocation\<close>

lemma no_faults [simp]: "faults s = [] \<Longrightarrow> attempt s = (True, s)" "faults s = [] \<Longrightarrow> BlockRead lba s = (Some (blk s lba), s)"
    "faults s = [] \<Longrightarrow> BlockWrite lba b s = (True, s\<lparr>blk := (blk s)(lba := b)\<rparr>)"
  by (simp_all add: attempt_def BlockRead_def BlockWrite_def)

abbreviation sector_bit :: "BOFS_SuperBlock \<Rightarrow> bofs \<Rightarrow> nat \<Rightarrow> bool" where
  "sector_bit sb s \<equiv> BitmapScanTest (kmem s) (sectorBitmap sb)"

abbreviation sector_bits :: "BOFS_SuperBlock \<Rightarrow> nat" where
  "sector_bits sb \<equiv> 8 * btmpBytesLen (sectorBitmap sb)"

text \<open>A data block that is allocated.\<close>

definition used :: "BOFS_SuperBlock \<Rightarrow> bofs \<Rightarrow> u32 \<Rightarrow> bool" where
  "used sb s b \<longleftrightarrow> unat (dataStartLba sb) \<le> unat b \<and> unat b - unat (dataStartLba sb) < sector_bits sb \<and>
     sector_bit sb s (unat b - unat (dataStartLba sb))"

text \<open>What the geometry must satisfy: block numbers do not wrap, and the blocks to which the bitmap is written lie before the data.\<close>

definition volume_ok :: "BOFS_SuperBlock \<Rightarrow> bool" where
  "volume_ok sb \<longleftrightarrow> 0 < unat (dataStartLba sb) \<and> unat (dataStartLba sb) + sector_bits sb < 2 ^ 31 \<and>
     unat (sectorBitmapLba sb) + btmpBytesLen (sectorBitmap sb) div SECTOR_SIZE < unat (dataStartLba sb) \<and> blockSize sb = 1024"

definition has_free :: "BOFS_SuperBlock \<Rightarrow> bofs \<Rightarrow> bool" where
  "has_free sb s \<longleftrightarrow> (\<exists>j < sector_bits sb. \<not> sector_bit sb s j)"

text \<open>What all steps keep: everything but the blocks and the bytes of the sector bitmap.\<close>

definition kept :: "BOFS_SuperBlock \<Rightarrow> bofs \<Rightarrow> bofs \<Rightarrow> bool" where
  "kept sb s s' \<longleftrightarrow> faults s' = faults s \<and> xfsz s' = xfsz s \<and> now s' = now s \<and> junk_inode s' = junk_inode s \<and>
     junk_lba s' = junk_lba s \<and>
     (\<forall>a. a < bits (sectorBitmap sb) \<or> bits (sectorBitmap sb) + btmpBytesLen (sectorBitmap sb) \<le> a \<longrightarrow> kmem s' a = kmem s a)"

lemma kept_refl [simp]: "kept sb s s"
  by (simp add: kept_def)

lemma kept_trans: "kept sb s s1 \<Longrightarrow> kept sb s1 s2 \<Longrightarrow> kept sb s s2"
  by (simp add: kept_def)

lemma kept_blk [simp]: "kept sb s (t\<lparr>blk := f\<rparr>) = kept sb s t"
  by (simp add: kept_def)

lemma free_bit:
  assumes "BitmapScan (kmem s) (sectorBitmap sb) 1 \<noteq> -1"
  obtains r where "BitmapScan (kmem s) (sectorBitmap sb) 1 = int r" "\<not> sector_bit sb s r" "r < sector_bits sb" "\<forall>j < r. sector_bit sb s j"
proof -
  obtain r where r: "BitmapScan (kmem s) (sectorBitmap sb) 1 = int r" "clear_run (kmem s) (sectorBitmap sb) r 1"
      "r + 1 \<le> sector_bits sb" "\<forall>j < r. \<not> clear_run (kmem s) (sectorBitmap sb) j 1"
    using BitmapScan_spec [of 1 "kmem s" "sectorBitmap sb"] assms by auto
  have one: "clear_run m b j 1 \<longleftrightarrow> \<not> BitmapScanTest m b j" for m b j
    by (auto simp: clear_run_def less_Suc_eq_le le_antisym)
  show ?thesis using that [of r] r one by auto
qed

lemma scan_clear_run_one: "clear_run m b j (Suc 0) \<longleftrightarrow> \<not> BitmapScanTest m b j"
  by (auto simp: clear_run_def less_Suc_eq_le le_antisym)

lemma scan_full: "BitmapScan (kmem s) (sectorBitmap sb) 1 = -1 \<longleftrightarrow> \<not> has_free sb s"
proof
  assume "BitmapScan (kmem s) (sectorBitmap sb) 1 = -1"
  then show "\<not> has_free sb s" using BitmapScan_spec [of 1 "kmem s" "sectorBitmap sb"]
    by (fastforce simp: has_free_def scan_clear_run_one Suc_le_eq)
next
  assume full: "\<not> has_free sb s"
  show "BitmapScan (kmem s) (sectorBitmap sb) 1 = -1"
  proof (rule ccontr)
    assume "BitmapScan (kmem s) (sectorBitmap sb) 1 \<noteq> -1"
    from free_bit [OF this] full show False by (metis has_free_def)
  qed
qed

lemma data_lba:
  assumes "volume_ok sb" "r < sector_bits sb"
  shows "unat (BOFS_IDX_TO_LBA sb (word_of_int (int r))) = unat (dataStartLba sb) + r"
proof -
  have "unat (word_of_nat r :: u32) = r" using assms by (simp add: volume_ok_def unat_of_nat)
  then show ?thesis using assms unat_add_less [of "dataStartLba sb" "word_of_nat r"]
    by (simp add: BOFS_IDX_TO_LBA_def volume_ok_def)
qed

lemma used_iff:
  assumes "volume_ok sb" "r < sector_bits sb" "b = BOFS_IDX_TO_LBA sb (word_of_int (int r))"
  shows "used sb s b \<longleftrightarrow> sector_bit sb s r"
  using data_lba [OF assms(1,2)] assms(2,3) by (simp add: used_def)

text \<open>The block that \<open>BOFS_SyncBitmap\<close> writes lies before the data.\<close>

lemma sync_bitmap_block:
  assumes "volume_ok sb" "r < sector_bits sb"
  shows "unat (sectorBitmapLba sb + word_of_nat (r div (8 * SECTOR_SIZE))) < unat (dataStartLba sb)"
proof -
  have "r div (8 * SECTOR_SIZE) \<le> btmpBytesLen (sectorBitmap sb) div SECTOR_SIZE"
    using assms(2) by (simp add: div_mult2_eq div_le_mono)
  moreover have "unat (word_of_nat (r div (8 * SECTOR_SIZE)) :: u32) \<le> r div (8 * SECTOR_SIZE)" by (simp add: unat_of_nat)
  moreover have "unat (a + b) \<le> unat a + unat b" for a b :: u32 by (simp add: unat_word_ariths)
  ultimately show ?thesis using assms(1)
    by (meson add_le_mono le_less_trans le_refl order_trans volume_ok_def)
qed

text \<open>
  \<open>AllocOneSector\<close> takes a block that was not used, zeroes it and marks it in the bitmap; no other data block changes. On a full
  disk it fails and changes nothing.
\<close>

lemma AllocOneSector_full: "\<not> has_free sb s \<Longrightarrow> AllocOneSector sb d s = (-1, d, s)"
  by (simp add: AllocOneSector_def BOFS_AllocBitmap_def bitmap_of_def scan_full [simplified] Let_def)

lemma AllocOneSector_spec:
  assumes ok: "volume_ok sb" "faults s = []" "has_free sb s"
  obtains p s' where "AllocOneSector sb d s = (0, p, s')" "\<not> used sb s p" "\<forall>b. used sb s' b \<longleftrightarrow> used sb s b \<or> b = p"
    "blk s' p = zero_block" "\<forall>b. b \<noteq> p \<and> unat (dataStartLba sb) \<le> unat b \<longrightarrow> blk s' b = blk s b" "kept sb s s'"
proof -
  let ?B = "sectorBitmap sb"
  have "BitmapScan (kmem s) ?B 1 \<noteq> -1" using ok(3) scan_full by blast
  from free_bit [OF this] obtain r where r: "BitmapScan (kmem s) ?B 1 = int r" "\<not> sector_bit sb s r" "r < sector_bits sb" by metis
  define p where "p = BOFS_IDX_TO_LBA sb (word_of_int (int r))"
  define m where "m = BitmapSet (kmem s) ?B r True"
  define s' where "s' = s\<lparr>kmem := m, blk := (blk s)(sectorBitmapLba sb + word_of_nat (r div (8 * SECTOR_SIZE)) :=
    (\<lambda>i. m (bits ?B + r div (8 * SECTOR_SIZE) * SECTOR_SIZE + i)), p := zero_block)\<rparr>"
  have unr: "unat (word_of_nat r :: u32) = r" using ok(1) r(3) by (simp add: volume_ok_def unat_of_nat)
  have "AllocOneSector sb d s = (0, p, s')"
    using r(1) [simplified] ok(2) unr by (simp add: AllocOneSector_def BOFS_AllocBitmap_def BOFS_SyncBitmap_def bitmap_of_def Let_def s'_def m_def p_def numeral_eq_Suc)
  moreover have "\<not> used sb s p" using used_iff [OF ok(1) r(3) p_def] r(2) by simp
  moreover have "used sb s' b \<longleftrightarrow> used sb s b \<or> b = p" for b
  proof -
    have "b = p \<longleftrightarrow> unat (dataStartLba sb) \<le> unat b \<and> unat b - unat (dataStartLba sb) = r"
      using data_lba [OF ok(1) r(3)] by (auto simp: p_def word_unat_eq_iff)
    then show ?thesis using r(3) by (auto simp: used_def s'_def m_def bm.test_upd)
  qed
  moreover have "blk s' b = blk s b" if "b \<noteq> p" "unat (dataStartLba sb) \<le> unat b" for b
    using that sync_bitmap_block [OF ok(1) r(3)] by (auto simp: s'_def)
  moreover have "kept sb s s'" using r(3) by (auto simp: kept_def s'_def m_def BitmapSet_def Let_def)
  moreover have "blk s' p = zero_block" by (simp add: s'_def)
  ultimately show ?thesis using that by blast
qed

section \<open>The tree of a file\<close>

text \<open>
  A path lists the indices from the last to the first: \<open>[i, j, 13]\<close> is entry \<open>i\<close> of the block at entry \<open>j\<close> of the block
  \<open>blocks[13]\<close>. Below \<open>blocks[k]\<close> there are \<open>hgt k\<close> levels.
\<close>

definition hgt :: "nat \<Rightarrow> nat" where
  "hgt k = k - 11"

definition vpath :: "nat list \<Rightarrow> bool" where
  "vpath p \<longleftrightarrow> p \<noteq> [] \<and> last p < 15 \<and> length p \<le> hgt (last p) + 1 \<and> (\<forall>i \<in> set (butlast p). i < 256)"

definition leaf :: "nat list \<Rightarrow> bool" where
  "leaf p \<longleftrightarrow> vpath p \<and> length p = hgt (last p) + 1"

fun node :: "BOFS_Inode \<Rightarrow> bofs \<Rightarrow> nat list \<Rightarrow> u32" where
  "node n s [] = 0"
| "node n s [k] = i_blocks n k"
| "node n s (i # j # p) = (if node n s (j # p) = 0 then 0 else get32 (blk s (node n s (j # p))) i)"

lemma node_Cons: "p \<noteq> [] \<Longrightarrow> node n s (i # p) = (if node n s p = 0 then 0 else get32 (blk s (node n s p)) i)"
  by (cases p) auto

lemma vpath_tail: "vpath (i # p) \<Longrightarrow> p \<noteq> [] \<Longrightarrow> vpath p"
  by (auto simp: vpath_def)

lemma vpath_parent: "vpath (i # p) \<Longrightarrow> \<not> leaf p"
  by (auto simp: vpath_def leaf_def)

definition file_ok :: "BOFS_SuperBlock \<Rightarrow> BOFS_Inode \<Rightarrow> bofs \<Rightarrow> bool" where
  "file_ok sb n s \<longleftrightarrow> (\<forall>p. vpath p \<and> node n s p \<noteq> 0 \<longrightarrow> used sb s (node n s p)) \<and>
     (\<forall>p q. vpath p \<and> vpath q \<and> node n s p \<noteq> 0 \<and> node n s p = node n s q \<longrightarrow> p = q)"

text \<open>The data of a file, by block of the file; a block that is not mapped reads as zeros.\<close>

definition leaf_data :: "BOFS_Inode \<Rightarrow> bofs \<Rightarrow> nat list \<Rightarrow> block" where
  "leaf_data n s p = (if node n s p = 0 then zero_block else blk s (node n s p))"

definition belongs :: "BOFS_Inode \<Rightarrow> bofs \<Rightarrow> u32 \<Rightarrow> bool" where
  "belongs n s b \<longleftrightarrow> b \<noteq> 0 \<and> (\<exists>p. vpath p \<and> node n s p = b)"

text \<open>
  \<open>frame\<close>: the map has more entries, with blocks that were free, and the blocks of other files are the same. \<open>grows\<close>:
  also the file has the same data.
\<close>

definition frame :: "BOFS_SuperBlock \<Rightarrow> BOFS_Inode \<Rightarrow> bofs \<Rightarrow> BOFS_Inode \<Rightarrow> bofs \<Rightarrow> bool" where
  "frame sb n s n' s' \<longleftrightarrow> kept sb s s' \<and> (\<forall>k \<ge> 15. i_blocks n' k = i_blocks n k) \<and>
     (\<forall>p. vpath p \<and> node n s p \<noteq> 0 \<longrightarrow> node n' s' p = node n s p) \<and>
     (\<forall>p. vpath p \<and> node n s p = 0 \<and> node n' s' p \<noteq> 0 \<longrightarrow> \<not> used sb s (node n' s' p)) \<and>
     (\<forall>b. used sb s b \<longrightarrow> used sb s' b) \<and>
     (\<forall>b. used sb s b \<and> \<not> belongs n s b \<longrightarrow> blk s' b = blk s b)"

definition grows :: "BOFS_SuperBlock \<Rightarrow> BOFS_Inode \<Rightarrow> bofs \<Rightarrow> BOFS_Inode \<Rightarrow> bofs \<Rightarrow> bool" where
  "grows sb n s n' s' \<longleftrightarrow> file_ok sb n' s' \<and> n' = n\<lparr>i_blocks := i_blocks n'\<rparr> \<and> frame sb n s n' s' \<and>
     (\<forall>p. leaf p \<longrightarrow> leaf_data n' s' p = leaf_data n s p)"

lemma frame_refl: "frame sb n s n s"
  by (simp add: frame_def)

lemma frame_trans:
  assumes a: "frame sb n s n1 s1" and b: "frame sb n1 s1 n2 s2"
  shows "frame sb n s n2 s2"
proof -
  have "node n2 s2 p = node n s p" if "vpath p" "node n s p \<noteq> 0" for p using that a b unfolding frame_def by metis
  moreover have "\<not> used sb s (node n2 s2 p)" if "vpath p" "node n s p = 0" "node n2 s2 p \<noteq> 0" for p
    using that a b unfolding frame_def by metis
  moreover have "blk s2 x = blk s x" if x: "used sb s x" "\<not> belongs n s x" for x
  proof -
    have "\<not> belongs n1 s1 x"
    proof
      assume "belongs n1 s1 x"
      then obtain p where p: "vpath p" "node n1 s1 p = x" "x \<noteq> 0" by (auto simp: belongs_def)
      then show False using x a unfolding frame_def belongs_def by metis
    qed
    then show ?thesis using x a b unfolding frame_def by metis
  qed
  moreover have "kept sb s s2" "\<forall>k \<ge> 15. i_blocks n2 k = i_blocks n k" using a b kept_trans [of sb s s1 s2] by (simp_all add: frame_def)
  moreover have "\<forall>x. used sb s x \<longrightarrow> used sb s2 x" using a b by (simp add: frame_def)
  ultimately show ?thesis unfolding frame_def by blast
qed

lemma grows_refl: "file_ok sb n s \<Longrightarrow> grows sb n s n s"
  by (simp add: grows_def frame_refl)

lemma grows_trans:
  assumes a: "grows sb n s n1 s1" and b: "grows sb n1 s1 n2 s2"
  shows "grows sb n s n2 s2"
proof -
  have "n2 = n\<lparr>i_blocks := i_blocks n2\<rparr>" using a b unfolding grows_def by (metis BOFS_Inode.surjective BOFS_Inode.update_convs(10))
  then show ?thesis using a b frame_trans [of sb n s n1 s1 n2 s2] by (simp add: grows_def)
qed

text \<open>
  One new entry: \<open>c\<close> is a block that was not used and is zeroed, and the entry \<open>i\<close> below the path \<open>p\<close>, which was 0,
  becomes \<open>c\<close>.
\<close>

definition linked :: "BOFS_SuperBlock \<Rightarrow> BOFS_Inode \<Rightarrow> bofs \<Rightarrow> BOFS_Inode \<Rightarrow> bofs \<Rightarrow> nat \<Rightarrow> nat list \<Rightarrow> u32 \<Rightarrow> bool" where
  "linked sb n s n' s' i p c \<longleftrightarrow> c \<noteq> 0 \<and> \<not> used sb s c \<and> (\<forall>b. used sb s' b \<longleftrightarrow> used sb s b \<or> b = c) \<and>
     blk s' c = zero_block \<and> kept sb s s' \<and> n' = n\<lparr>i_blocks := i_blocks n'\<rparr> \<and> vpath (i # p) \<and> node n s (i # p) = 0 \<and>
     (p \<noteq> [] \<longrightarrow> node n s p \<noteq> 0) \<and>
     (\<forall>k. i_blocks n' k = (if p = [] \<and> k = i then c else i_blocks n k)) \<and>
     (\<forall>b. used sb s b \<and> (p = [] \<or> b \<noteq> node n s p) \<longrightarrow> blk s' b = blk s b) \<and>
     (p \<noteq> [] \<longrightarrow> (\<forall>j. get32 (blk s' (node n s p)) j = (if j = i then c else get32 (blk s (node n s p)) j)))"

lemma file_okD:
  assumes "file_ok sb n s"
  shows "vpath p \<Longrightarrow> node n s p \<noteq> 0 \<Longrightarrow> used sb s (node n s p)"
    and "vpath p \<Longrightarrow> vpath q \<Longrightarrow> node n s p \<noteq> 0 \<Longrightarrow> node n s p = node n s q \<Longrightarrow> p = q"
  using assms unfolding file_ok_def by blast+

lemma linked_node:
  assumes ok: "file_ok sb n s" and l: "linked sb n s n' s' i p c"
  shows "vpath q \<Longrightarrow> node n' s' q = (if q = i # p then c else node n s q)"
proof (induction q rule: list.induct)
  case Nil
  then show ?case by simp
next
  case (Cons j r)
  show ?case
  proof (cases "r = []")
    case True
    then show ?thesis using l by (simp add: linked_def)
  next
    case r: False
    have vr: "vpath r" using Cons.prems r by (rule vpath_tail)
    have IH: "node n' s' r = (if r = i # p then c else node n s r)" using Cons.IH [OF vr] .
    consider "r = i # p" | "r \<noteq> i # p" "node n s r = 0" | "r \<noteq> i # p" "node n s r \<noteq> 0" "r = p" | "r \<noteq> i # p" "node n s r \<noteq> 0" "r \<noteq> p" by blast
    then show ?thesis
    proof cases
      case 1
      then have "node n' s' (j # r) = 0" using IH r l by (simp add: node_Cons linked_def)
      moreover have "node n s (j # r) = 0" using 1 r l by (simp add: node_Cons linked_def)
      ultimately show ?thesis using 1 by simp
    next
      case 2
      then have "node n' s' (j # r) = 0" "node n s (j # r) = 0" using IH r by (simp_all add: node_Cons)
      moreover have "r \<noteq> p" using 2 r l by (auto simp: linked_def)
      ultimately show ?thesis by simp
    next
      case 3
      then show ?thesis using IH r l by (simp add: node_Cons linked_def)
    next
      case 4
      have "node n s p \<noteq> node n s r" if "p \<noteq> []"
      proof -
        have "vpath p" using l that vpath_tail [of i p] by (simp add: linked_def)
        then show ?thesis using 4 vr file_okD(2) [OF ok, of r p] by metis
      qed
      then have "blk s' (node n s r) = blk s (node n s r)"
        using l file_okD(1) [OF ok vr 4(2)] unfolding linked_def by metis
      then show ?thesis using IH r 4 by (simp add: node_Cons)
    qed
  qed
qed

lemma linked_grows:
  assumes ok: "file_ok sb n s" and l: "linked sb n s n' s' i p c"
  shows "grows sb n s n' s' \<and> node n' s' (i # p) = c"
proof -
  note nd = linked_node [OF ok l]
  have c: "c \<noteq> 0" "\<not> used sb s c" "\<forall>b. used sb s' b \<longleftrightarrow> used sb s b \<or> b = c" "vpath (i # p)" "node n s (i # p) = 0" "blk s' c = zero_block"
    using l unfolding linked_def by blast+
  have ok': "file_ok sb n' s'"
    unfolding file_ok_def
  proof (intro conjI allI impI)
    fix q assume "vpath q \<and> node n' s' q \<noteq> 0"
    then show "used sb s' (node n' s' q)" using nd [of q] c(3) file_okD(1) [OF ok, of q] by metis
  next
    fix q r assume a: "vpath q \<and> vpath r \<and> node n' s' q \<noteq> 0 \<and> node n' s' q = node n' s' r"
    have "node n s q \<noteq> c" if "vpath q" for q using file_okD(1) [OF ok that] c(1,2) by metis
    then show "q = r" using a nd [of q] nd [of r] file_okD(2) [OF ok, of q r] by metis
  qed
  have leaves: "leaf_data n' s' q = leaf_data n s q" if q: "leaf q" for q
  proof -
    have vq: "vpath q" using q by (simp add: leaf_def)
    show ?thesis
    proof (cases "q = i # p \<or> node n s q = 0")
      case True
      then show ?thesis using nd [OF vq] c by (auto simp: leaf_data_def)
    next
      case False
      have "node n s q \<noteq> node n s p" if "p \<noteq> []"
      proof
        assume "node n s q = node n s p"
        moreover have "vpath p" using c(4) that by (rule vpath_tail)
        ultimately have "q = p" using file_okD(2) [OF ok vq] False by blast
        then show False using q vpath_parent [OF c(4)] by simp
      qed
      then have "blk s' (node n s q) = blk s (node n s q)" using l file_okD(1) [OF ok vq] False unfolding linked_def by metis
      then show ?thesis using nd [OF vq] False by (simp add: leaf_data_def)
    qed
  qed
  have others: "blk s' b = blk s b" if "used sb s b" "\<not> belongs n s b" for b
  proof -
    have "b \<noteq> node n s p" if "p \<noteq> []" using \<open>\<not> belongs n s b\<close> vpath_tail [OF c(4) that] l that by (auto simp: belongs_def linked_def)
    then show ?thesis using that(1) l unfolding linked_def by metis
  qed
  have "node n' s' q = node n s q" if "vpath q" "node n s q \<noteq> 0" for q using nd [OF that(1)] that c by auto
  moreover have "\<not> used sb s (node n' s' q)" if "vpath q" "node n s q = 0" "node n' s' q \<noteq> 0" for q
    using nd [OF that(1)] that c by (auto split: if_splits)
  moreover have "kept sb s s'" "n' = n\<lparr>i_blocks := i_blocks n'\<rparr>" using l unfolding linked_def by blast+
  moreover have "\<forall>k \<ge> 15. i_blocks n' k = i_blocks n k"
  proof (intro allI impI)
    fix k :: nat assume "15 \<le> k"
    then have "\<not> (p = [] \<and> k = i)" using c(4) by (auto simp: vpath_def)
    then show "i_blocks n' k = i_blocks n k" using l unfolding linked_def by metis
  qed
  ultimately show ?thesis using ok' leaves others nd [OF c(4)] c(3) unfolding grows_def frame_def by simp
qed

section \<open>Mapping a block of a file\<close>

definition inode_ok :: "BOFS_SuperBlock \<Rightarrow> BOFS_Inode \<Rightarrow> bool" where
  "inode_ok sb n \<longleftrightarrow> unat (inode_lba sb (i_id n)) < unat (dataStartLba sb)"

lemma SyncInode_ok: "faults s = [] \<Longrightarrow> BOFS_SyncInode sb n s =
    (0, s\<lparr>blk := (blk s)(inode_lba sb (i_id n) := put_inode (blk s (inode_lba sb (i_id n))) (inode_slot sb (i_id n)) n)\<rparr>)"
  by (simp add: BOFS_SyncInode_def edit_inode_block_def)

lemma used_data: "used sb s b \<Longrightarrow> unat (dataStartLba sb) \<le> unat b"
  by (simp add: used_def)

lemma used_blk [simp]: "used sb (s\<lparr>blk := f\<rparr>) = used sb s"
  by (simp add: used_def fun_eq_iff)

lemma grows_keeps:
  assumes "grows sb n s n' s'"
  shows "file_ok sb n' s'" "faults s = [] \<Longrightarrow> faults s' = []" "i_id n' = i_id n" "inode_ok sb n' = inode_ok sb n"
    "vpath p \<Longrightarrow> node n s p \<noteq> 0 \<Longrightarrow> node n' s' p = node n s p" "i_size n' = i_size n"
proof -
  have n': "n' = n\<lparr>i_blocks := i_blocks n'\<rparr>" using assms by (simp add: grows_def)
  show i: "i_id n' = i_id n" by (subst n') simp
  show "i_size n' = i_size n" by (subst n') simp
  show "inode_ok sb n' = inode_ok sb n" by (simp add: inode_ok_def i)
qed (use assms in \<open>auto simp: grows_def frame_def kept_def\<close>)

lemma inode_cell_spec:
  assumes ok: "volume_ok sb" "faults s = []" "file_ok sb n s" "inode_ok sb n" "k < 15"
  obtains n' s' where "inode_cell sb k n s = (True, n', s')" "grows sb n s n' s'" "node n' s' [k] \<noteq> 0"
  | "inode_cell sb k n s = (False, n, s)" "\<not> has_free sb s" "i_blocks n k = 0"
proof (cases "i_blocks n k = 0")
  case False
  then show ?thesis using that(1) [of n s] grows_refl [OF ok(3)] by (simp add: inode_cell_def)
next
  case zero: True
  show ?thesis
  proof (cases "has_free sb s")
    case False
    have "n\<lparr>i_blocks := (i_blocks n)(k := 0)\<rparr> = n" using fun_upd_triv [of "i_blocks n" k] zero by simp
    then show ?thesis using that(2) False zero AllocOneSector_full [OF False] by (simp add: inode_cell_def)
  next
    case True
    from AllocOneSector_spec [OF ok(1,2) True, of 0] obtain c s1
      where a: "AllocOneSector sb 0 s = (0, c, s1)" "\<not> used sb s c" "\<forall>b. used sb s1 b \<longleftrightarrow> used sb s b \<or> b = c"
        "blk s1 c = zero_block" "\<forall>b. b \<noteq> c \<and> unat (dataStartLba sb) \<le> unat b \<longrightarrow> blk s1 b = blk s b" "kept sb s s1" by blast
    define n' where "n' = n\<lparr>i_blocks := (i_blocks n)(k := c)\<rparr>"
    define s' where "s' = snd (BOFS_SyncInode sb n' s1)"
    have s1: "faults s1 = []" using a(6) ok(2) by (simp add: kept_def)
    have id: "inode_lba sb (i_id n') = inode_lba sb (i_id n)" by (simp add: n'_def)
    have s': "s' = s1\<lparr>blk := (blk s1)(inode_lba sb (i_id n) := blk s' (inode_lba sb (i_id n)))\<rparr>"
      unfolding s'_def SyncInode_ok [OF s1] id by simp
    have c: "c \<noteq> inode_lba sb (i_id n)" "c \<noteq> 0"
      using a(3) used_data [of sb s1 c] ok(1,4) by (auto simp: inode_ok_def volume_ok_def)
    have "used sb s' b \<longleftrightarrow> used sb s1 b" for b by (subst s') simp
    moreover have "blk s' b = blk s1 b" if "used sb s1 b" for b
    proof -
      have "b \<noteq> inode_lba sb (i_id n)" using used_data [OF that] ok(4) by (auto simp: inode_ok_def)
      then show ?thesis by (subst s') simp
    qed
    moreover have "kept sb s s'" by (subst s') (simp add: a(6))
    moreover have "vpath [k]" using ok(5) by (simp add: vpath_def hgt_def)
    moreover have "blk s1 b = blk s b" if "used sb s b" for b using that a(2,5) used_data [OF that] by metis
    moreover have "n' = n\<lparr>i_blocks := i_blocks n'\<rparr>" "\<forall>j. i_blocks n' j = (if j = k then c else i_blocks n j)" by (simp_all add: n'_def)
    ultimately have "linked sb n s n' s' k [] c" using a c zero by (simp add: linked_def)
    from linked_grows [OF ok(3) this] show ?thesis
      using that(1) [of n' s'] a(1) zero c(2) by (simp add: inode_cell_def n'_def [symmetric] s'_def)
  qed
qed

lemma block_cell_spec:
  assumes ok: "volume_ok sb" "faults s = []" "file_ok sb n s" "vpath (i # p)" "p \<noteq> []" "node n s p \<noteq> 0"
  obtains c s' where "block_cell sb (node n s p) i s = (Some c, s')" "grows sb n s n s'" "node n s' (i # p) = c" "c \<noteq> 0"
  | "block_cell sb (node n s p) i s = (None, s)" "\<not> has_free sb s" "node n s (i # p) = 0"
proof (cases "node n s (i # p) = 0")
  case False
  then show ?thesis using that(1) [of "node n s (i # p)" s] grows_refl [OF ok(3)] ok(2,5,6) by (simp add: block_cell_def node_Cons)
next
  case zero: True
  have get0: "get32 (blk s (node n s p)) i = 0" using zero ok(5,6) by (simp add: node_Cons)
  show ?thesis
  proof (cases "has_free sb s")
    case False
    then show ?thesis using that(2) zero get0 ok(2) AllocOneSector_full [OF False] by (simp add: block_cell_def)
  next
    case True
    from AllocOneSector_spec [OF ok(1,2) True, of 0] obtain c s1
      where a: "AllocOneSector sb 0 s = (0, c, s1)" "\<not> used sb s c" "\<forall>b. used sb s1 b \<longleftrightarrow> used sb s b \<or> b = c"
        "blk s1 c = zero_block" "\<forall>b. b \<noteq> c \<and> unat (dataStartLba sb) \<le> unat b \<longrightarrow> blk s1 b = blk s b" "kept sb s s1" by blast
    let ?l = "node n s p"
    define s' where "s' = s1\<lparr>blk := (blk s1)(?l := put32 (blk s ?l) i c)\<rparr>"
    have s1: "faults s1 = []" using a(6) ok(2) by (simp add: kept_def)
    have ul: "used sb s ?l" using file_okD(1) [OF ok(3) vpath_tail [OF ok(4,5)] ok(6)] .
    have c: "c \<noteq> ?l" "c \<noteq> 0" using ul a(2,3) used_data [of sb s1 c] ok(1) by (auto simp: volume_ok_def)
    have "blk s1 b = blk s b" if "used sb s b" for b using that a(2,5) used_data [OF that] by metis
    then have "linked sb n s n s' i p c" using a c zero ok by (simp add: linked_def s'_def)
    from linked_grows [OF ok(3) this] show ?thesis
      using that(1) [of c s'] a(1) get0 c(2) ok(2) s1 by (simp add: block_cell_def s'_def)
  qed
qed

text \<open>The two outcomes of mapping a path: it leads to block \<open>b\<close>, or the disk is full.\<close>

definition mapped :: "BOFS_SuperBlock \<Rightarrow> BOFS_Inode \<Rightarrow> bofs \<Rightarrow> nat list \<Rightarrow> BOFS_Inode \<Rightarrow> bofs \<Rightarrow> u32 \<Rightarrow> bool" where
  "mapped sb n s p n' s' b \<longleftrightarrow> grows sb n s n' s' \<and> node n' s' p = b \<and> b \<noteq> 0"

definition no_room :: "BOFS_SuperBlock \<Rightarrow> BOFS_Inode \<Rightarrow> bofs \<Rightarrow> nat list \<Rightarrow> BOFS_Inode \<Rightarrow> bofs \<Rightarrow> bool" where
  "no_room sb n s p n' s' \<longleftrightarrow> grows sb n s n' s' \<and> \<not> has_free sb s' \<and> node n s p = 0"

lemma no_room_below: "no_room sb n s p n' s' \<Longrightarrow> p \<noteq> [] \<Longrightarrow> no_room sb n s (i # p) n' s'"
  by (simp add: no_room_def node_Cons)

lemma inode_cell_mapped:
  assumes ok: "volume_ok sb" "faults s = []" "file_ok sb n s" "inode_ok sb n" "k < 15"
  obtains n' s' where "inode_cell sb k n s = (True, n', s')" "mapped sb n s [k] n' s' (i_blocks n' k)"
  | "inode_cell sb k n s = (False, n, s)" "no_room sb n s [k] n s"
  by (rule inode_cell_spec [OF ok]) (use grows_refl [OF ok(3)] in \<open>auto simp: mapped_def no_room_def\<close>)

lemma block_cell_mapped:
  assumes ok: "volume_ok sb" "faults s = []" and m: "mapped sb n s p n1 s1 b" and p: "vpath (i # p)" "p \<noteq> []"
  obtains c s2 where "block_cell sb b i s1 = (Some c, s2)" "mapped sb n s (i # p) n1 s2 c"
  | "block_cell sb b i s1 = (None, s1)" "no_room sb n s (i # p) n1 s1"
proof -
  have g: "grows sb n s n1 s1" "node n1 s1 p = b" "b \<noteq> 0" using m by (simp_all add: mapped_def)
  have f: "faults s1 = []" "file_ok sb n1 s1" using grows_keeps [OF g(1)] ok(2) by simp_all
  have b0: "node n1 s1 p \<noteq> 0" using g by simp
  show ?thesis
  proof (rule block_cell_spec [OF ok(1) f p b0], goal_cases)
    case (1 c s2)
    then show ?case using that(1) [of c s2] grows_trans [OF g(1)] by (simp add: mapped_def g(2))
  next
    case 2
    have "node n s (i # p) = 0" using grows_keeps(5) [OF g(1) p(1)] 2(3) by metis
    then show ?case using that(2) 2 g(1) by (simp add: no_room_def g(2))
  qed
qed

definition file_path :: "nat \<Rightarrow> nat list" where
  "file_path index =
     (if index < BLOCK_LV0 then [index]
      else if index < BLOCK_LV1 then [index - BLOCK_LV0, 12]
      else if index < BLOCK_LV2 then [(index - BLOCK_LV1) mod 256, (index - BLOCK_LV1) div 256, 13]
      else [(index - BLOCK_LV2) mod 256, (index - BLOCK_LV2) div 256 mod 256, (index - BLOCK_LV2) div 65536, 14])"

lemmas block_levels = BLOCK_LV0_def BLOCK_LV1_def BLOCK_LV2_def BLOCK_LV3_def

lemma split_index: "b = b div 65536 * 65536 + b div 256 mod 256 * 256 + b mod (256 :: nat)"
proof -
  have "b = b div 256 * 256 + b mod 256" by simp
  moreover have "b div 256 = b div 65536 * 256 + b div 256 mod 256"
    using div_mult_mod_eq [of "b div 256" 256] div_mult2_eq [of b 256 256] by simp
  ultimately show ?thesis by linarith
qed

lemma lv3_path: "base < 256 * 256 * 256 \<Longrightarrow> lv3_indices base = (base div 65536, base div 256 mod 256, base mod 256)"
proof -
  assume base: "base < 256 * 256 * 256"
  have r: "base - base div 65536 * 65536 = base div 256 mod 256 * 256 + base mod 256" using split_index [of base] by linarith
  show ?thesis using base r by (auto simp: lv3_indices_def Let_def less_mult_imp_div_less)
qed

lemma leaf_file_path: "index < BLOCK_LV3 \<Longrightarrow> leaf (file_path index)"
  by (auto simp: leaf_def vpath_def file_path_def hgt_def block_levels less_mult_imp_div_less)

lemma level_cases:
  fixes i j a b c :: nat
  assumes "(if i < a then 1 else if i < b then 2 else if i < c then 3 else 4 :: nat) =
    (if j < a then 1 else if j < b then 2 else if j < c then 3 else 4)"
  shows "i < a \<and> j < a \<or> \<not> i < a \<and> i < b \<and> \<not> j < a \<and> j < b \<or>
    \<not> i < a \<and> \<not> i < b \<and> i < c \<and> \<not> j < a \<and> \<not> j < b \<and> j < c \<or>
    \<not> i < a \<and> \<not> i < b \<and> \<not> i < c \<and> \<not> j < a \<and> \<not> j < b \<and> \<not> j < c"
  using assms by (cases "i < a"; cases "i < b"; cases "i < c"; cases "j < a"; cases "j < b"; cases "j < c") simp_all

lemma file_path_inj:
  assumes "index < BLOCK_LV3" "index' < BLOCK_LV3" "file_path index = file_path index'"
  shows "index = index'"
proof -
  have r2: "a = b" if "a mod 256 = b mod 256" "a div 256 = b div 256" for a b :: nat using that by (metis div_mult_mod_eq)
  have r3: "a = b" if "a mod 256 = b mod 256" "a div 256 mod 256 = b div 256 mod 256" "a div 65536 = b div 65536" for a b :: nat
    using that split_index [of a] split_index [of b] by metis
  have len: "length (file_path i) = (if i < BLOCK_LV0 then 1 else if i < BLOCK_LV1 then 2 else if i < BLOCK_LV2 then 3 else 4)" for i
    by (simp add: file_path_def)
  have eq: "(if index < BLOCK_LV0 then 1 else if index < BLOCK_LV1 then 2 else if index < BLOCK_LV2 then 3 else 4 :: nat) =
      (if index' < BLOCK_LV0 then 1 else if index' < BLOCK_LV1 then 2 else if index' < BLOCK_LV2 then 3 else 4)"
    unfolding len [symmetric] using assms(3) by simp
  show ?thesis
  proof (rule disjE [OF level_cases [OF eq]])
    assume "index < BLOCK_LV0 \<and> index' < BLOCK_LV0"
    then show ?thesis using assms(3) by (simp add: file_path_def)
  next
    assume rest: "\<not> index < BLOCK_LV0 \<and> index < BLOCK_LV1 \<and> \<not> index' < BLOCK_LV0 \<and> index' < BLOCK_LV1 \<or>
      \<not> index < BLOCK_LV0 \<and> \<not> index < BLOCK_LV1 \<and> index < BLOCK_LV2 \<and> \<not> index' < BLOCK_LV0 \<and> \<not> index' < BLOCK_LV1 \<and> index' < BLOCK_LV2 \<or>
      \<not> index < BLOCK_LV0 \<and> \<not> index < BLOCK_LV1 \<and> \<not> index < BLOCK_LV2 \<and> \<not> index' < BLOCK_LV0 \<and> \<not> index' < BLOCK_LV1 \<and> \<not> index' < BLOCK_LV2"
    have shift: "a \<le> index \<Longrightarrow> a \<le> index' \<Longrightarrow> index - a = index' - a \<Longrightarrow> index = index'" for a by linarith
    show ?thesis using rest assms(3) shift [of BLOCK_LV0]
        shift [of BLOCK_LV1, OF _ _ r2] shift [of BLOCK_LV2, OF _ _ r3]
      by (elim disjE) (simp_all add: file_path_def)
  qed
qed

text \<open>The result of a function that maps path \<open>p\<close>.\<close>

definition get_ok :: "BOFS_SuperBlock \<Rightarrow> BOFS_Inode \<Rightarrow> bofs \<Rightarrow> nat list \<Rightarrow> u32 \<Rightarrow> get_result \<Rightarrow> bool" where
  "get_ok sb n s p old x \<longleftrightarrow> (case x of (r, b, n', s') \<Rightarrow>
     r = 0 \<and> mapped sb n s p n' s' b \<or> r = -1 \<and> b = old \<and> no_room sb n s p n' s')"

lemma get_ok_intros:
  "mapped sb n s p n' s' b \<Longrightarrow> get_ok sb n s p old (0, b, n', s')"
  "no_room sb n s p n' s' \<Longrightarrow> get_ok sb n s p old (-1, old, n', s')"
  by (simp_all add: get_ok_def)

definition ready :: "BOFS_SuperBlock \<Rightarrow> BOFS_Inode \<Rightarrow> bofs \<Rightarrow> bool" where
  "ready sb n s \<longleftrightarrow> volume_ok sb \<and> faults s = [] \<and> file_ok sb n s \<and> inode_ok sb n"

lemma readyD: "ready sb n s \<Longrightarrow> volume_ok sb" "ready sb n s \<Longrightarrow> faults s = []" "ready sb n s \<Longrightarrow> file_ok sb n s"
    "ready sb n s \<Longrightarrow> inode_ok sb n"
  by (simp_all add: ready_def)

lemma ready_grows: "ready sb n s \<Longrightarrow> grows sb n s n' s' \<Longrightarrow> ready sb n' s'"
  by (simp add: ready_def grows_keeps)

lemma get0:
  assumes ok: "ready sb n s" and k: "k < 12"
  shows "\<exists>x. BOFS_GetInodeData sb n k old s = Some x \<and> get_ok sb n s [k] old x"
proof -
  have g: "BOFS_GetInodeData sb n k old s =
      (case inode_cell sb k n s of (ok, n, s) \<Rightarrow> Some (if ok then 0 else -1, if ok then i_blocks n k else old, n, s))"
    using k by (auto simp: BOFS_GetInodeData_def inode_cell_def BLOCK_LV0_def Let_def split: prod.splits)
  have "k < 15" using k by simp
  then show ?thesis
    by (rule inode_cell_mapped [OF readyD [OF ok]]) (simp_all add: g get_ok_intros)
qed

lemma get1:
  assumes ok: "ready sb n s" and i: "i < 256"
  shows "get_ok sb n s [i, 12] old (GetBlockInInderect1 sb n i old s)"
proof (rule inode_cell_mapped [OF readyD [OF ok], of 12], simp, goal_cases)
  case (1 n1 s1)
  show ?case
    by (rule block_cell_mapped [OF readyD(1,2) [OF ok] 1(2), of i])
      (use 1(1) readyD(2) [OF ok] i in \<open>auto simp: GetBlockInInderect1_def vpath_def hgt_def intro: get_ok_intros\<close>)
next
  case 2
  then show ?case using readyD(2) [OF ok] no_room_below [OF 2(2)] by (simp add: GetBlockInInderect1_def get_ok_intros)
qed

lemma get2:
  assumes ok: "ready sb n s" and i: "i < 256 * 256"
  shows "get_ok sb n s [i mod 256, i div 256, 13] old (GetBlockInInderect2 sb n i old s)"
proof (rule inode_cell_mapped [OF readyD [OF ok], of 13], simp, goal_cases)
  case (1 n1 s1)
  have v: "vpath [i mod 256, i div 256, 13]" "vpath [i div 256, 13]" using i by (auto simp: vpath_def hgt_def)
  show ?case
  proof (rule block_cell_mapped [OF readyD(1,2) [OF ok] 1(2) v(2)], simp, goal_cases)
    case a: (1 c s2)
    show ?case
      by (rule block_cell_mapped [OF readyD(1,2) [OF ok] a(2) v(1)])
        (use 1(1) a(1) readyD(2) [OF ok] in \<open>auto simp: GetBlockInInderect2_def intro: get_ok_intros\<close>)
  next
    case 2
    then show ?case using 1(1) readyD(2) [OF ok] no_room_below [OF 2(2)] by (simp add: GetBlockInInderect2_def get_ok_intros)
  qed
next
  case 2
  then show ?case using readyD(2) [OF ok] no_room_below [OF no_room_below [OF 2(2)]] by (simp add: GetBlockInInderect2_def get_ok_intros)
qed

lemma get3:
  assumes ok: "ready sb n s" and i: "i < 256 * 256 * 256"
  shows "\<exists>x. GetBlockInInderect3 sb n i old s = Some x \<and>
    get_ok sb n s [i mod 256, i div 256 mod 256, i div 65536, 14] old x"
proof -
  let ?p = "[i mod 256, i div 256 mod 256, i div 65536, 14]"
  have v: "vpath [i div 65536, 14]" "vpath [i div 256 mod 256, i div 65536, 14]" "vpath ?p"
    using i by (auto simp: vpath_def hgt_def)
  note defs = GetBlockInInderect3_def lv3_path [OF i] readyD(2) [OF ok]
  show ?thesis
  proof (rule inode_cell_mapped [OF readyD [OF ok], of 14], simp, goal_cases)
    case (1 n1 s1)
    show ?case
    proof (rule block_cell_mapped [OF readyD(1,2) [OF ok] 1(2) v(1)], simp, goal_cases)
      case a: (1 c s2)
      show ?case
      proof (rule block_cell_mapped [OF readyD(1,2) [OF ok] a(2) v(2)], simp, goal_cases)
        case b: (1 d s3)
        show ?case
          by (rule block_cell_mapped [OF readyD(1,2) [OF ok] b(2) v(3)])
            (use 1(1) a(1) b(1) in \<open>auto simp: defs intro: get_ok_intros\<close>)
      next
        case 2
        then show ?case using 1(1) a(1) no_room_below [OF 2(2)] by (simp add: defs get_ok_intros)
      qed
    next
      case 2
      then show ?case using 1(1) no_room_below [OF no_room_below [OF 2(2)]] by (simp add: defs get_ok_intros)
    qed
  next
    case 2
    then show ?case using no_room_below [OF no_room_below [OF no_room_below [OF 2(2)]]] by (simp add: defs get_ok_intros)
  qed
qed

lemma GetInodeData_ok:
  assumes ok: "ready sb n s" and i: "index < BLOCK_LV3"
  shows "\<exists>x. BOFS_GetInodeData sb n index old s = Some x \<and> get_ok sb n s (file_path index) old x"
proof -
  consider "index < 12" | "12 \<le> index" "index < 268" | "268 \<le> index" "index < 65804" | "65804 \<le> index" by linarith
  then show ?thesis
  proof cases
    case 1
    then show ?thesis using get0 [OF ok] by (simp add: file_path_def BLOCK_LV0_def)
  next
    case 2
    then show ?thesis using get1 [OF ok, of "index - 12"] by (simp add: file_path_def BOFS_GetInodeData_def block_levels)
  next
    case 3
    then show ?thesis using get2 [OF ok, of "index - 268"] by (simp add: file_path_def BOFS_GetInodeData_def block_levels)
  next
    case 4
    then show ?thesis using get3 [OF ok, of "index - 65804"] i by (simp add: file_path_def BOFS_GetInodeData_def block_levels)
  qed
qed

end
