(* ===== verification/BofsDir.thy ===== *)
theory BofsDir
  imports Bofs
begin

text \<open>
  The directories of BOFS: \<open>fs/bofs/dir_entry.c\<close>, \<open>fs/bofs/dir.c\<close>, and the creation of a file system
  (\<open>BOFS_MakeFS\<close> of \<open>fs/bofs/super_block.c\<close>), which writes the root directory.

  A directory is a file of 256-byte entries. An entry whose name begins with NUL is free, one with the type \<open>INVALID\<close>
  was deleted. \<open>strcmp\<close> of two names compares their bytes up to NUL (\<open>CString\<close>), which is \<open>cname\<close> here; names are shorter
  than the array. Entries allocated with \<open>kmalloc\<close> are values.
\<close>

section \<open>Directory entries\<close>

definition BOFS_NAME_LEN :: nat where
  "BOFS_NAME_LEN = 250"

definition BOFS_FILE_TYPE_NORMAL :: u16 where
  "BOFS_FILE_TYPE_NORMAL = 0x01"

definition BOFS_FILE_TYPE_DIRECTORY :: u16 where
  "BOFS_FILE_TYPE_DIRECTORY = 0x02"

definition BOFS_FILE_TYPE_BLOCK :: u16 where
  "BOFS_FILE_TYPE_BLOCK = 0x08"

definition BOFS_FILE_TYPE_CHAR :: u16 where
  "BOFS_FILE_TYPE_CHAR = 0x10"

definition BOFS_FILE_TYPE_FIFO :: u16 where
  "BOFS_FILE_TYPE_FIFO = 0x40"

definition BOFS_FILE_TYPE_INVALID :: u16 where
  "BOFS_FILE_TYPE_INVALID = 0x8000"

definition BOFS_SIZEOF_DIR_ENTRY :: nat where
  "BOFS_SIZEOF_DIR_ENTRY = 256"

definition get_dirent :: "block \<Rightarrow> nat \<Rightarrow> BOFS_DirEntry" where
  "get_dirent b i = \<lparr>d_inode = get32 b (64 * i),
     d_type = ucast (b (256 * i + 4)) OR push_bit 8 (ucast (b (256 * i + 5))),
     d_name = map b [256 * i + 6..<256 * i + 256]\<rparr>"

definition put_dirent :: "block \<Rightarrow> nat \<Rightarrow> BOFS_DirEntry \<Rightarrow> block" where
  "put_dirent b i e = wr_bytes b (256 * i) (le32 (d_inode e) @ le16 (d_type e) @ d_name e)"

definition cname :: "u8 list \<Rightarrow> u8 list" where
  "cname xs = takeWhile (\<lambda>c. c \<noteq> 0) xs"

definition no_entry :: BOFS_DirEntry where
  "no_entry = \<lparr>d_inode = 0, d_type = 0, d_name = replicate BOFS_NAME_LEN 0\<rparr>"

text \<open>\<open>strcpy\<close> of a name into the zeroed array.\<close>

definition name_array :: "u8 list \<Rightarrow> u8 list" where
  "name_array nm = take BOFS_NAME_LEN (cname nm @ replicate BOFS_NAME_LEN 0)"

definition BOFS_CreateDirEntry :: "u32 \<Rightarrow> u16 \<Rightarrow> u8 list \<Rightarrow> BOFS_DirEntry" where
  "BOFS_CreateDirEntry inode type nm = \<lparr>d_inode = inode, d_type = type, d_name = name_array nm\<rparr>"

text \<open>The inode number \<open>-1\<close> of a failed allocation is stored in an unsigned field and compared with it.\<close>

definition BOFS_CopyDirEntry :: "BOFS_SuperBlock \<Rightarrow> BOFS_DirEntry \<Rightarrow> bool \<Rightarrow> bofs \<Rightarrow> int \<times> BOFS_DirEntry \<times> bofs" where
  "BOFS_CopyDirEntry sb src copyInode s =
     (if \<not> copyInode then (0, src, s)
      else let (_, inodeB, s) = BOFS_LoadInodeByID sb (d_inode src) (junk_inode s) s;
               (idx, s) = BOFS_AllocBitmap sb BOFS_BMT_INODE 1 s;
               inodeA = BOFS_CopyInode inodeB\<lparr>i_id := word_of_int idx\<rparr>
           in if idx = -1 then (-1, src, s)
              else let (_, s) = BOFS_SyncBitmap sb BOFS_BMT_INODE (word_of_int idx) s;
                       (_, s) = BOFS_SyncInode sb inodeA s
                   in (0, src\<lparr>d_inode := word_of_int idx\<rparr>, s))"

section \<open>Searching a directory\<close>

text \<open>One block: \<open>None\<close> to go on with the next, \<open>Some None\<close> at a free entry, \<open>Some (Some e)\<close> when found.\<close>

fun search_scan :: "block \<Rightarrow> u8 list \<Rightarrow> nat \<Rightarrow> nat \<Rightarrow> BOFS_DirEntry option option" where
  "search_scan b nm i 0 = None"
| "search_scan b nm i (Suc k) =
     (let e = get_dirent b i in
      if d_name e ! 0 \<noteq> 0 then
        (if cname (d_name e) = cname nm \<and> d_type e \<noteq> BOFS_FILE_TYPE_INVALID then Some (Some e)
         else search_scan b nm (i + 1) k)
      else Some None)"

fun search_loop :: "BOFS_SuperBlock \<Rightarrow> BOFS_Inode \<Rightarrow> u8 list \<Rightarrow> u32 \<Rightarrow> nat \<Rightarrow> nat \<Rightarrow> bofs \<Rightarrow> (BOFS_DirEntry option \<times> bofs) option" where
  "search_loop sb n nm lba blockID 0 s = Some (None, s)"
| "search_loop sb n nm lba blockID (Suc k) s =
     do { (_, lba, n, s) \<leftarrow> BOFS_GetInodeData sb n blockID lba s;
          case BlockRead lba s of
            (None, s) \<Rightarrow> Some (None, s)
          | (Some iobuf, s) \<Rightarrow>
              (case search_scan iobuf nm 0 (unat (direntryNrInSector sb)) of
                 None \<Rightarrow> search_loop sb n nm lba (blockID + 1) k s
               | Some r \<Rightarrow> Some (r, s)) }"

text \<open>The result is the entry found, in \<open>*childDir\<close>, or \<open>None\<close> for \<open>false\<close>.\<close>

definition BOFS_SearchDirEntry :: "BOFS_SuperBlock \<Rightarrow> BOFS_DirEntry \<Rightarrow> u8 list \<Rightarrow> bofs \<Rightarrow> (BOFS_DirEntry option \<times> bofs) option" where
  "BOFS_SearchDirEntry sb parentDir nm s =
     (let (ok, s) = attempt s in
      if \<not> ok then Some (None, s)
      else let (_, n, s) = BOFS_LoadInodeByID sb (d_inode parentDir) (junk_inode s) s
           in search_loop sb n nm (junk_lba s) 0 (unat (DIV_ROUND_UP (i_size n) (blockSize sb))) s)"

text \<open>\<open>BOFS_LoadDirEntry\<close> does not stop at a free entry, and notes the time of access when it finds the name.\<close>

fun load_scan :: "block \<Rightarrow> u8 list \<Rightarrow> nat \<Rightarrow> nat \<Rightarrow> BOFS_DirEntry option" where
  "load_scan b nm i 0 = None"
| "load_scan b nm i (Suc k) =
     (let e = get_dirent b i in
      if cname (d_name e) = cname nm \<and> d_type e \<noteq> BOFS_FILE_TYPE_INVALID then Some e else load_scan b nm (i + 1) k)"

fun load_loop :: "BOFS_SuperBlock \<Rightarrow> BOFS_Inode \<Rightarrow> u8 list \<Rightarrow> u32 \<Rightarrow> nat \<Rightarrow> nat \<Rightarrow> bofs \<Rightarrow> (BOFS_DirEntry option \<times> bofs) option" where
  "load_loop sb n nm lba blockID 0 s = Some (None, s)"
| "load_loop sb n nm lba blockID (Suc k) s =
     do { (_, lba, n, s) \<leftarrow> BOFS_GetInodeData sb n blockID lba s;
          case BlockRead lba s of
            (None, s) \<Rightarrow> Some (None, s)
          | (Some iobuf, s) \<Rightarrow>
              (case load_scan iobuf nm 0 (unat (direntryNrInSector sb)) of
                 None \<Rightarrow> load_loop sb n nm lba (blockID + 1) k s
               | Some e \<Rightarrow> Some (Some e, snd (BOFS_SyncInode sb (n\<lparr>i_acstime := now s\<rparr>) s))) }"

definition BOFS_LoadDirEntry :: "BOFS_SuperBlock \<Rightarrow> BOFS_DirEntry \<Rightarrow> u8 list \<Rightarrow> bofs \<Rightarrow> (BOFS_DirEntry option \<times> bofs) option" where
  "BOFS_LoadDirEntry sb parentDir nm s =
     (let (_, n, s) = BOFS_LoadInodeByID sb (d_inode parentDir) (junk_inode s) s;
          (ok, s) = attempt s
      in if \<not> ok then Some (None, s)
         else load_loop sb n nm (junk_lba s) 0 (unat (DIV_ROUND_UP (i_size n) (blockSize sb))) s)"

section \<open>Writing a directory entry\<close>

text \<open>
  The entry of a block that \<open>childDir\<close> is written to and the result then returned: the first that has its name and is valid,
  or is deleted, or has its inode (a renamed file), or is free.
\<close>

fun sync_scan :: "block \<Rightarrow> BOFS_DirEntry \<Rightarrow> nat \<Rightarrow> nat \<Rightarrow> (nat \<times> int) option" where
  "sync_scan b c i 0 = None"
| "sync_scan b c i (Suc k) =
     (let e = get_dirent b i in
      if cname (d_name e) = cname (d_name c) \<and> d_type e \<noteq> BOFS_FILE_TYPE_INVALID then Some (i, 1)
      else if d_type e = BOFS_FILE_TYPE_INVALID then Some (i, 2)
      else if d_name e ! 0 \<noteq> 0 \<and> d_inode e = d_inode c \<and> d_type c \<noteq> BOFS_FILE_TYPE_INVALID then Some (i, 1)
      else if d_name e ! 0 = 0 then Some (i, 1)
      else sync_scan b c (i + 1) k)"

fun sync_loop :: "BOFS_SuperBlock \<Rightarrow> BOFS_Inode \<Rightarrow> BOFS_DirEntry \<Rightarrow> u32 \<Rightarrow> nat \<Rightarrow> nat \<Rightarrow> bofs \<Rightarrow> (int \<times> bofs) option" where
  "sync_loop sb n c lba blockID 0 s = Some (0, s)"
| "sync_loop sb n c lba blockID (Suc k) s =
     do { (_, lba, n, s) \<leftarrow> BOFS_GetInodeData sb n blockID lba s;
          case BlockRead lba s of
            (None, s) \<Rightarrow> Some (0, s)
          | (Some iobuf, s) \<Rightarrow>
              (case sync_scan iobuf c 0 (unat (direntryNrInSector sb)) of
                 None \<Rightarrow> sync_loop sb n c lba (blockID + 1) k s
               | Some (i, r) \<Rightarrow>
                   (let (ok, s) = BlockWrite lba (put_dirent iobuf i c) s in Some (if ok then r else 0, s))) }"

text \<open>One block more than the directory has is tried.\<close>

definition BOFS_SyncDirEntry :: "BOFS_SuperBlock \<Rightarrow> BOFS_DirEntry \<Rightarrow> BOFS_DirEntry \<Rightarrow> bofs \<Rightarrow> (int \<times> bofs) option" where
  "BOFS_SyncDirEntry sb parentDir childDir s =
     (let (ok, s) = attempt s in
      if \<not> ok then Some (0, s)
      else let (_, n, s) = BOFS_LoadInodeByID sb (d_inode parentDir) (junk_inode s) s
           in sync_loop sb n childDir (junk_lba s) 0 (unat (DIV_ROUND_UP (i_size n) (blockSize sb) + 1)) s)"

text \<open>A named pipe's buffers, which the code frees here, are memory that this state does not have.\<close>

definition BOFS_ReleaseDirEntry :: "BOFS_SuperBlock \<Rightarrow> BOFS_DirEntry \<Rightarrow> bofs \<Rightarrow> BOFS_DirEntry \<times> bofs" where
  "BOFS_ReleaseDirEntry sb childDir s =
     (let (_, n, s) = BOFS_LoadInodeByID sb (d_inode childDir) (junk_inode s) s;
          s = (if d_type childDir = BOFS_FILE_TYPE_NORMAL then snd (snd (BOFS_ReleaseInodeData sb n s)) else s);
          (_, s) = BOFS_FreeBitmap sb BOFS_BMT_INODE (d_inode childDir) s;
          (_, s) = BOFS_SyncBitmap sb BOFS_BMT_INODE (d_inode childDir) s
      in (childDir\<lparr>d_type := BOFS_FILE_TYPE_INVALID\<rparr>, s))"

section \<open>Paths\<close>

text \<open>
  A path is a C string in memory. \<open>depth\<close>, a signed \<open>char\<close>, counts its slashes. \<open>take_name\<close> reads a component: up to the next
  slash, and past the NUL that ends the path, for at most 250 bytes.
\<close>

partial_function (option) depth_loop :: "mem \<Rightarrow> addr \<Rightarrow> u8 \<Rightarrow> u8 option" where
  "depth_loop m p depth =
     (if m p = 0 then Some depth else depth_loop m (p + 1) (if m p = 47 then depth + 1 else depth))"

fun take_name :: "mem \<Rightarrow> addr \<Rightarrow> nat \<Rightarrow> u8 list \<times> addr" where
  "take_name m p 0 = ([], p)"
| "take_name m p (Suc k) = (if m p = 47 then ([], p) else let (nm, q) = take_name m (p + 1) k in (m p # nm, q))"

definition nat_depth :: "u8 \<Rightarrow> nat" where
  "nat_depth depth = nat (chr depth)"

text \<open>The name a path ends with; \<open>None\<close> is the result -1.\<close>

fun path_name_loop :: "mem \<Rightarrow> addr \<Rightarrow> nat \<Rightarrow> u8 list option" where
  "path_name_loop m p 0 = None"
| "path_name_loop m p (Suc k) =
     (let (nm, p) = take_name m (p + 1) BOFS_NAME_LEN in
      if cname nm = [] then None else if k = 0 then Some (cname nm) else path_name_loop m p k)"

definition BOFS_PathToName :: "mem \<Rightarrow> addr \<Rightarrow> u8 list option option" where
  "BOFS_PathToName m pathname =
     (if m pathname \<noteq> 47 then Some None
      else do { depth \<leftarrow> depth_loop m pathname 0; Some (path_name_loop m pathname (nat_depth depth)) })"

text \<open>
  \<open>BOFS_SearchDir\<close> fills a record with the parent, the child (\<open>None\<close> is NULL), and the super block, which is always \<open>sb\<close>.
  The two allocations are not tested.
\<close>

record BOFS_DirSearchRecord =
  parentDir :: BOFS_DirEntry
  childDir :: "BOFS_DirEntry option"

fun search_path :: "BOFS_SuperBlock \<Rightarrow> addr \<Rightarrow> addr \<Rightarrow> nat \<Rightarrow> nat \<Rightarrow> BOFS_DirEntry \<Rightarrow> BOFS_DirEntry \<Rightarrow> bofs \<Rightarrow>
    (int \<times> BOFS_DirSearchRecord \<times> bofs) option" where
  "search_path sb pathname p i 0 parent child s = Some (-1, \<lparr>parentDir = parent, childDir = Some child\<rparr>, s)"
| "search_path sb pathname p i (Suc k) parent child s =
     (let (nm, p) = take_name (kmem s) (p + 1) BOFS_NAME_LEN in
      if i = 0 \<and> k = 0 \<and> kmem s pathname = 47 \<and> kmem s (pathname + 1) = 0
      then Some (0, \<lparr>parentDir = parent, childDir = Some (rootDir sb)\<rparr>, s)
      else let parent = (if i = 0 then rootDir sb else parent) in
        do { (found, s) \<leftarrow> BOFS_SearchDirEntry sb parent nm s;
             case found of
               None \<Rightarrow> Some (-1, \<lparr>parentDir = parent, childDir = None\<rparr>, s)
             | Some e \<Rightarrow> if k = 0 then Some (0, \<lparr>parentDir = parent, childDir = Some e\<rparr>, s)
                         else search_path sb pathname p (i + 1) k e e s })"

definition BOFS_SearchDir :: "BOFS_SuperBlock \<Rightarrow> addr \<Rightarrow> bofs \<Rightarrow> (int \<times> BOFS_DirSearchRecord \<times> bofs) option" where
  "BOFS_SearchDir sb pathname s =
     (let (ok1, s) = attempt s; (ok2, s) = attempt s in
      if \<not> ok1 \<or> \<not> ok2 then None
      else if kmem s pathname \<noteq> 47 then Some (-1, \<lparr>parentDir = no_entry, childDir = Some no_entry\<rparr>, s)
      else do { depth \<leftarrow> depth_loop (kmem s) pathname 0;
                search_path sb pathname pathname 0 (nat_depth depth) no_entry no_entry s })"

section \<open>Making and removing directories\<close>

definition BOFS_IMODE_R :: u32 where
  "BOFS_IMODE_R = 1"

definition BOFS_IMODE_W :: u32 where
  "BOFS_IMODE_W = 2"

definition BOFS_IMODE_X :: u32 where
  "BOFS_IMODE_X = 4"

definition BOFS_IMODE_D :: u32 where
  "BOFS_IMODE_D = 0x20"

text \<open>A new entry took a place that was not a deleted one: the parent grows. The result of loading it is not tested.\<close>

definition grow_parent :: "BOFS_SuperBlock \<Rightarrow> BOFS_DirEntry \<Rightarrow> BOFS_Inode \<Rightarrow> bofs \<Rightarrow> bofs" where
  "grow_parent sb parent n s =
     (let (_, n, s) = BOFS_LoadInodeByID sb (d_inode parent) n s
      in snd (BOFS_SyncInode sb (n\<lparr>i_size := i_size n + of_nat BOFS_SIZEOF_DIR_ENTRY\<rparr>) s))"

definition BOFS_CreateNewDirEntry :: "BOFS_SuperBlock \<Rightarrow> BOFS_DirEntry \<Rightarrow> u8 list \<Rightarrow> bofs \<Rightarrow> (int \<times> bofs) option" where
  "BOFS_CreateNewDirEntry sb parent nm s =
     (let (idx, s) = BOFS_AllocBitmap sb BOFS_BMT_INODE 1 s in
      if idx = -1 then Some (-1, s)
      else let inodeID = word_of_int idx;
               (_, s) = BOFS_SyncBitmap sb BOFS_BMT_INODE inodeID s;
               n = BOFS_CreateInode inodeID (BOFS_IMODE_R OR BOFS_IMODE_W) 0 (devno sb) s;
               child = BOFS_CreateDirEntry inodeID BOFS_FILE_TYPE_DIRECTORY nm;
               n = n\<lparr>i_size := of_nat BOFS_SIZEOF_DIR_ENTRY * 2\<rparr>;
               (_, s) = BOFS_SyncInode sb n s;
               (_, dir0, s) = BOFS_CopyDirEntry sb child False s;
               dir0 = dir0\<lparr>d_name := name_array [46]\<rparr>;
               (_, dir1, s) = BOFS_CopyDirEntry sb parent False s;
               dir1 = dir1\<lparr>d_name := name_array [46, 46]\<rparr>
           in do { (r, s) \<leftarrow> BOFS_SyncDirEntry sb child dir0 s;
                   if r = 0 then Some (-1, s)
                   else do { (r, s) \<leftarrow> BOFS_SyncDirEntry sb child dir1 s;
                             if r = 0 then Some (-1, s)
                             else do { (r, s) \<leftarrow> BOFS_SyncDirEntry sb parent child s;
                                       if r > 0 then Some (0, if r = 1 then grow_parent sb parent n s else s)
                                       else Some (-1, s) } } })"

fun make_dir_loop :: "BOFS_SuperBlock \<Rightarrow> addr \<Rightarrow> nat \<Rightarrow> BOFS_DirEntry \<Rightarrow> bofs \<Rightarrow> (int \<times> bofs) option" where
  "make_dir_loop sb p 0 parent s = Some (0, s)"
| "make_dir_loop sb p (Suc k) parent s =
     (let (nm, p) = take_name (kmem s) (p + 1) BOFS_NAME_LEN in
      if cname nm = [] then Some (-1, s)
      else do { (found, s) \<leftarrow> BOFS_SearchDirEntry sb parent nm s;
                case found of
                  Some e \<Rightarrow> if k = 0 then Some (-1, s) else make_dir_loop sb p k e s
                | None \<Rightarrow>
                    if k = 0 then
                      do { (r, s) \<leftarrow> BOFS_CreateNewDirEntry sb parent nm s;
                           if r \<noteq> 0 then Some (-1, s) else make_dir_loop sb p k parent s }
                    else Some (-1, s) })"

definition BOFS_MakeDir :: "BOFS_SuperBlock \<Rightarrow> addr \<Rightarrow> bofs \<Rightarrow> (int \<times> bofs) option" where
  "BOFS_MakeDir sb pathname s =
     (if kmem s pathname \<noteq> 47 then Some (-1, s)
      else do { depth \<leftarrow> depth_loop (kmem s) pathname 0;
                make_dir_loop sb pathname (nat_depth depth) (rootDir sb) s })"

text \<open>The loop goes on after a component that is not found, with the same parent.\<close>

fun remove_dir_loop :: "BOFS_SuperBlock \<Rightarrow> addr \<Rightarrow> nat \<Rightarrow> BOFS_DirEntry \<Rightarrow> bofs \<Rightarrow> (int \<times> bofs) option" where
  "remove_dir_loop sb p 0 parent s = Some (-1, s)"
| "remove_dir_loop sb p (Suc k) parent s =
     (let (nm, p) = take_name (kmem s) (p + 1) BOFS_NAME_LEN in
      if cname nm = [] then Some (-1, s)
      else do { (found, s) \<leftarrow> BOFS_SearchDirEntry sb parent nm s;
                case found of
                  None \<Rightarrow> remove_dir_loop sb p k parent s
                | Some e \<Rightarrow>
                    if k = 0 then
                      (let (e, s) = BOFS_ReleaseDirEntry sb e s in
                       do { (r, s) \<leftarrow> BOFS_SyncDirEntry sb parent e s;
                            if r \<noteq> 0 then Some (0, s) else remove_dir_loop sb p k parent s })
                    else remove_dir_loop sb p k e s })"

definition BOFS_RemoveDir :: "BOFS_SuperBlock \<Rightarrow> addr \<Rightarrow> bofs \<Rightarrow> (int \<times> bofs) option" where
  "BOFS_RemoveDir sb pathname s =
     (if kmem s pathname \<noteq> 47 then Some (-1, s)
      else do { depth \<leftarrow> depth_loop (kmem s) pathname 0;
                remove_dir_loop sb pathname (nat_depth depth) (rootDir sb) s })"

text \<open>
  Renaming. The code also builds the new path in a local array, which it does not use; \<open>nm\<close> is the new name. A search
  that fails finds no child.
\<close>

definition BOFS_ResetName :: "BOFS_SuperBlock \<Rightarrow> addr \<Rightarrow> u8 list \<Rightarrow> bofs \<Rightarrow> (int \<times> bofs) option" where
  "BOFS_ResetName sb pathname nm s =
     (if kmem s pathname = 47 \<and> kmem s (pathname + 1) = 0 then Some (-1, s)
      else do { (r, rec, s) \<leftarrow> BOFS_SearchDir sb pathname s;
                if r \<noteq> 0 then Some (-1, s)
                else do { child \<leftarrow> childDir rec;
                          (r, s) \<leftarrow> BOFS_SyncDirEntry sb (parentDir rec) (child\<lparr>d_name := name_array nm\<rparr>) s;
                          Some (if r \<noteq> 0 then 0 else -1, s) } })"

section \<open>Reading directories\<close>

record BOFS_Dir =
  dirEntry :: BOFS_DirEntry
  pos :: u32
  dsize :: u32
  buf :: block

definition BOFS_ReadDir :: "BOFS_Dir \<Rightarrow> BOFS_DirEntry option \<times> BOFS_Dir" where
  "BOFS_ReadDir d =
     (if pos d \<ge> dsize d then (None, d)
      else (Some (get_dirent (\<lambda>i. buf d (unat (pos d) + i)) 0), d\<lparr>pos := pos d + of_nat BOFS_SIZEOF_DIR_ENTRY\<rparr>))"

definition BOFS_RewindDir :: "BOFS_Dir \<Rightarrow> BOFS_Dir" where
  "BOFS_RewindDir d = d\<lparr>pos := 0\<rparr>"

fun open_dir_loop :: "BOFS_SuperBlock \<Rightarrow> BOFS_Inode \<Rightarrow> block \<Rightarrow> u32 \<Rightarrow> nat \<Rightarrow> nat \<Rightarrow> bofs \<Rightarrow> (block option \<times> bofs) option" where
  "open_dir_loop sb n bf lba blockID 0 s = Some (Some bf, s)"
| "open_dir_loop sb n bf lba blockID (Suc k) s =
     do { (_, lba, n, s) \<leftarrow> BOFS_GetInodeData sb n blockID lba s;
          case BlockRead lba s of
            (None, s) \<Rightarrow> Some (None, s)
          | (Some b, s) \<Rightarrow>
              open_dir_loop sb n (wr_bytes bf (blockID * unat (blockSize sb)) (map b [0..<unat (blockSize sb)]))
                lba (blockID + 1) k s }"

definition BOFS_OpenDirSub :: "BOFS_SuperBlock \<Rightarrow> BOFS_DirEntry \<Rightarrow> block \<Rightarrow> bofs \<Rightarrow> (BOFS_Dir option \<times> bofs) option" where
  "BOFS_OpenDirSub sb e junk s =
     (let (ok, s) = attempt s in
      if \<not> ok then Some (None, s)
      else let (r, n, s) = BOFS_LoadInodeByID sb (d_inode e) (junk_inode s) s in
           if r \<noteq> 0 then Some (None, s)
           else let (ok, s) = attempt s in
                if \<not> ok then Some (None, s)
                else do { (bf, s) \<leftarrow> open_dir_loop sb n junk (junk_lba s) 0 (unat (DIV_ROUND_UP (i_size n) (blockSize sb))) s;
                          Some (map_option (\<lambda>bf. \<lparr>dirEntry = e, pos = 0, dsize = i_size n, buf = bf\<rparr>) bf, s) })"

definition BOFS_OpenRootDir :: "BOFS_SuperBlock \<Rightarrow> bofs \<Rightarrow> int \<times> BOFS_SuperBlock \<times> bofs" where
  "BOFS_OpenRootDir sb s =
     (let (ok1, s) = attempt s in if \<not> ok1 then (-1, sb, s) else
      let (ok2, s) = attempt s in if \<not> ok2 then (-1, sb, s) else
      let (ok3, s) = attempt s in if \<not> ok3 then (-1, sb, s) else
      case BlockRead (dataStartLba sb) s of
        (None, s) \<Rightarrow> (-1, sb, s)
      | (Some iobuf, s) \<Rightarrow> (0, sb\<lparr>rootDir := get_dirent iobuf 0\<rparr>, s))"

section \<open>Making a file system\<close>

definition BOFS_SUPER_BLOCK_MAGIC :: u32 where
  "BOFS_SUPER_BLOCK_MAGIC = 0x19980325"

definition sb_block :: "BOFS_SuperBlock \<Rightarrow> block" where
  "sb_block sb = put32s zero_block 0
     [magic sb, devno sb, totalSectors sb, superBlockLba sb, sectorBitmapLba sb, sectorBitmapSectors sb,
      inodeBitmapLba sb, inodeBitmapSectors sb, inodeTableLba sb, inodeTableSectors sb, dataStartLba sb,
      rootInodeId sb, inodeNrInSector sb, direntryNrInSector sb, maxInodes sb, blockSize sb,
      of_nat (btmpBytesLen (sectorBitmap sb)), of_nat (bits (sectorBitmap sb)),
      of_nat (btmpBytesLen (inodeBitmap sb)), of_nat (bits (inodeBitmap sb))]"

text \<open>The layout that \<open>BOFS_MakeFS\<close> computes, all in unsigned arithmetic.\<close>

definition make_layout :: "u32 \<Rightarrow> u32 \<Rightarrow> u32 \<Rightarrow> u32 \<Rightarrow> u32 \<Rightarrow> BOFS_SuperBlock" where
  "make_layout dev startSector sectors bs inodeNr =
     (let sbl = startSector + 1; secBytes = sectors div 8; inoBytes = inodeNr div 8;
          sbm = sbl + 1; sbmN = DIV_ROUND_UP secBytes bs;
          ibm = sbm + sbmN; ibmN = DIV_ROUND_UP inoBytes bs;
          it = ibm + ibmN; itN = DIV_ROUND_UP (inodeNr * 128) bs
      in \<lparr>magic = BOFS_SUPER_BLOCK_MAGIC, devno = dev, totalSectors = sectors, superBlockLba = sbl,
          sectorBitmapLba = sbm, sectorBitmapSectors = sbmN, inodeBitmapLba = ibm, inodeBitmapSectors = ibmN,
          inodeTableLba = it, inodeTableSectors = itN, dataStartLba = it + itN, rootInodeId = 0,
          inodeNrInSector = bs div 128, direntryNrInSector = bs div of_nat BOFS_SIZEOF_DIR_ENTRY,
          maxInodes = inodeNr, blockSize = bs,
          sectorBitmap = \<lparr>btmpBytesLen = unat secBytes, bits = 0\<rparr>,
          inodeBitmap = \<lparr>btmpBytesLen = unat inoBytes, bits = 0\<rparr>, rootDir = no_entry\<rparr>)"

text \<open>The buffer with the bits of the first \<open>usedBlocks\<close> blocks set.\<close>

definition used_bits :: "nat \<Rightarrow> nat \<Rightarrow> u8" where
  "used_bits usedBlocks i =
     (if i < usedBlocks div 8 then 0xff
      else if i = usedBlocks div 8 then push_bit (usedBlocks mod 8) 1 - 1 else 0)"

fun write_used :: "BOFS_SuperBlock \<Rightarrow> u32 \<Rightarrow> nat \<Rightarrow> nat \<Rightarrow> nat \<Rightarrow> bofs \<Rightarrow> bool \<times> bofs" where
  "write_used sb p usedBlocks i 0 s = (True, s)"
| "write_used sb p usedBlocks i (Suc k) s =
     (let (ok, s) = BlockWrite p (\<lambda>j. used_bits usedBlocks (i * unat (blockSize sb) + j)) s
      in if ok then write_used sb (p + 1) usedBlocks (i + 1) k s else (False, s))"

definition BOFS_MakeFS :: "u32 \<Rightarrow> u32 \<Rightarrow> u32 \<Rightarrow> u32 \<Rightarrow> u32 \<Rightarrow> bofs \<Rightarrow> int \<times> BOFS_SuperBlock \<times> bofs" where
  "BOFS_MakeFS dev startSector sectors bs inodeNr s =
     (let sb = make_layout dev startSector sectors bs inodeNr;
          (ok, s) = attempt s in if \<not> ok then (-1, sb, s) else
      let (ok, s) = BlockWrite (inodeBitmapLba sb) (zero_block(0 := 1)) s in if \<not> ok then (-1, sb, s) else
      let root = (BOFS_CreateInode 0 (BOFS_IMODE_D OR BOFS_IMODE_R OR BOFS_IMODE_W) 0 dev s)
            \<lparr>i_blocks := (\<lambda>_. 0)(0 := dataStartLba sb), i_size := of_nat BOFS_SIZEOF_DIR_ENTRY\<rparr>;
          (ok, s) = BlockWrite (inodeTableLba sb) (put_inode zero_block 0 root) s in if \<not> ok then (-1, sb, s) else
      let (ok, s) = BlockWrite (dataStartLba sb)
            (put_dirent zero_block 0 (BOFS_CreateDirEntry 0 BOFS_FILE_TYPE_DIRECTORY [46])) s in if \<not> ok then (-1, sb, s) else
      let usedBlocks = unat (dataStartLba sb - startSector + 1);
          bufBlocks = unat (DIV_ROUND_UP (of_nat (usedBlocks div 8) + 1) bs);
          (ok, s) = attempt s in if \<not> ok then (-1, sb, s) else
      let (ok, s) = write_used sb (sectorBitmapLba sb) usedBlocks 0 bufBlocks s in if \<not> ok then (-1, sb, s) else
      let (ok, s) = BlockWrite (superBlockLba sb) (sb_block sb) s
      in (if ok then 0 else -1, sb, s))"

definition BOFS_MountFS :: "BOFS_SuperBlock \<Rightarrow> addr \<Rightarrow> addr \<Rightarrow> bofs \<Rightarrow> int \<times> BOFS_SuperBlock \<times> bofs" where
  "BOFS_MountFS sb a1 a2 s = (let (r, sb, s) = BOFS_LoadBitmap sb a1 a2 s in (if r \<noteq> 0 then -1 else 0, sb, s))"

definition BOFS_UnmountFS :: "BOFS_SuperBlock \<Rightarrow> int" where
  "BOFS_UnmountFS sb = (if BOFS_UnloadBitmap sb \<noteq> 0 then -1 else 0)"

definition BOFS_MountFileSystem :: "BOFS_SuperBlock \<Rightarrow> addr \<Rightarrow> addr \<Rightarrow> bofs \<Rightarrow> int \<times> BOFS_SuperBlock \<times> bofs" where
  "BOFS_MountFileSystem sb a1 a2 s =
     (let (r, sb, s) = BOFS_MountFS sb a1 a2 s in
      if r \<noteq> 0 then (-1, sb, s)
      else let (r, sb, s) = BOFS_OpenRootDir sb s in (if r \<noteq> 0 then -1 else 0, sb, s))"

end
