(* ===== verification/BofsFile.thy ===== *)
theory BofsFile
  imports BofsDir
begin

text \<open>
  The files of BOFS (\<open>fs/bofs/file.c\<close>): the table of open files, creating, opening, reading, writing, seeking, closing
  and removing normal files.

  The state \<open>files\<close> has the file system, the global table of file descriptors, whose inodes and directory
  entries are copies of each descriptor's own, and the descriptor table of the current task. Pipes and devices are other
  components: \<open>other\<close> is the result of the call that handles them. \<open>BlockSync\<close>, which writes the cached blocks to the
  device, changes nothing here. \<open>None\<close> is a failed \<open>ASSERT\<close> or an access outside a table.
\<close>

section \<open>File descriptors\<close>

definition BOFS_MAX_FD_NR :: nat where
  "BOFS_MAX_FD_NR = 128"

definition MAX_OPEN_FILES :: nat where
  "MAX_OPEN_FILES = 32"

definition BOFS_O_RDONLY :: u32 where
  "BOFS_O_RDONLY = 0x01"

definition BOFS_O_WRONLY :: u32 where
  "BOFS_O_WRONLY = 0x02"

definition BOFS_O_RDWR :: u32 where
  "BOFS_O_RDWR = 0x04"

definition BOFS_O_CREAT :: u32 where
  "BOFS_O_CREAT = 0x08"

definition BOFS_O_APPEDN :: u32 where
  "BOFS_O_APPEDN = 0x20"

definition BOFS_O_EXEC :: u32 where
  "BOFS_O_EXEC = 0x80"

definition BOFS_FLAGS_PIPE :: u32 where
  "BOFS_FLAGS_PIPE = 0x100"

definition BOFS_FD_FREE :: u32 where
  "BOFS_FD_FREE = 0"

definition BOFS_FD_USING :: u32 where
  "BOFS_FD_USING = 0x80000000"

record BOFS_FileDescriptor =
  f_pos :: u32
  f_flags :: u32
  f_reference :: int
  f_dirEntry :: "BOFS_DirEntry option"
  f_parentEntry :: "BOFS_DirEntry option"
  f_inode :: "BOFS_Inode option"

record files =
  fs :: bofs
  fdtab :: "nat \<Rightarrow> BOFS_FileDescriptor"
  fdTable :: "nat \<Rightarrow> int"

definition upd_fd :: "nat \<Rightarrow> (BOFS_FileDescriptor \<Rightarrow> BOFS_FileDescriptor) \<Rightarrow> files \<Rightarrow> files" where
  "upd_fd i f s = s\<lparr>fdtab := (fdtab s)(i := f (fdtab s i))\<rparr>"

definition free_fd :: BOFS_FileDescriptor where
  "free_fd = \<lparr>f_pos = 0, f_flags = BOFS_FD_FREE, f_reference = 0, f_dirEntry = None, f_parentEntry = None, f_inode = None\<rparr>"

definition BOFS_InitFdTable :: "files \<Rightarrow> files" where
  "BOFS_InitFdTable s = s\<lparr>fdtab := (\<lambda>i. if i < BOFS_MAX_FD_NR
     then free_fd\<lparr>f_reference := f_reference (fdtab s i)\<rparr> else fdtab s i)\<rparr>"

fun alloc_fd_loop :: "nat \<Rightarrow> nat \<Rightarrow> files \<Rightarrow> int \<times> files" where
  "alloc_fd_loop i 0 s = (-1, s)"
| "alloc_fd_loop i (Suc k) s =
     (if f_flags (fdtab s i) = BOFS_FD_FREE then (int i, upd_fd i (\<lambda>f. f\<lparr>f_flags := BOFS_FD_USING\<rparr>) s)
      else alloc_fd_loop (i + 1) k s)"

definition BOFS_AllocFdGlobal :: "files \<Rightarrow> int \<times> files" where
  "BOFS_AllocFdGlobal s = alloc_fd_loop 0 BOFS_MAX_FD_NR s"

definition BOFS_FreeFdGlobal :: "int \<Rightarrow> files \<Rightarrow> files" where
  "BOFS_FreeFdGlobal fd s =
     (if fd < 0 \<or> fd \<ge> int BOFS_MAX_FD_NR then s
      else upd_fd (nat fd) (\<lambda>f. free_fd\<lparr>f_reference := f_reference f\<rparr>) s)"

definition FdLocal2Global :: "nat \<Rightarrow> files \<Rightarrow> int" where
  "FdLocal2Global localFD s = fdTable s localFD"

fun install_loop :: "int \<Rightarrow> nat \<Rightarrow> nat \<Rightarrow> files \<Rightarrow> int \<times> files" where
  "install_loop g i 0 s = (-1, s)"
| "install_loop g i (Suc k) s =
     (if fdTable s i = -1 then (int i, s\<lparr>fdTable := (fdTable s)(i := g)\<rparr>) else install_loop g (i + 1) k s)"

definition TaskInstallFD :: "int \<Rightarrow> files \<Rightarrow> int \<times> files" where
  "TaskInstallFD g s = install_loop g 0 MAX_OPEN_FILES s"

text \<open>The global descriptor of a local one, with the check of \<open>BOFS_IsPipe\<close>; \<open>None\<close> when it lies outside the table.\<close>

definition global_fd :: "int \<Rightarrow> files \<Rightarrow> nat option" where
  "global_fd fd s = (let g = FdLocal2Global (nat fd) s in
     if 0 \<le> g \<and> g < int BOFS_MAX_FD_NR then Some (nat g) else None)"

definition is_pipe :: "BOFS_FileDescriptor \<Rightarrow> bool" where
  "is_pipe f \<longleftrightarrow> f_flags f AND BOFS_FLAGS_PIPE \<noteq> 0"

section \<open>Creating and opening\<close>

text \<open>The fields of a descriptor that was just allocated. The last assignment replaces \<open>BOFS_FD_USING\<close>.\<close>

definition fill_fd :: "nat \<Rightarrow> BOFS_DirEntry \<Rightarrow> BOFS_DirEntry \<Rightarrow> BOFS_Inode \<Rightarrow> u32 \<Rightarrow> files \<Rightarrow> files" where
  "fill_fd fd parent e n flags = upd_fd fd (\<lambda>f. f\<lparr>f_parentEntry := Some parent, f_dirEntry := Some e,
     f_inode := Some n, f_pos := 0, f_reference := 1, f_flags := flags\<rparr>)"

definition BOFS_CreateFile :: "BOFS_SuperBlock \<Rightarrow> BOFS_DirEntry \<Rightarrow> u8 list \<Rightarrow> u32 \<Rightarrow> u32 \<Rightarrow> files \<Rightarrow> (int \<times> files) option" where
  "BOFS_CreateFile sb parent nm mode flags S =
     (let s = fs S; (ok1, s) = attempt s in if \<not> ok1 then Some (-1, S\<lparr>fs := s\<rparr>) else
      let (ok2, s) = attempt s in if \<not> ok2 then Some (-1, S\<lparr>fs := s\<rparr>) else
      let (idx, s) = BOFS_AllocBitmap sb BOFS_BMT_INODE 1 s in if idx = -1 then Some (-1, S\<lparr>fs := s\<rparr>) else
      let inodeID = word_of_int idx;
          (_, s) = BOFS_SyncBitmap sb BOFS_BMT_INODE inodeID s;
          n = BOFS_CreateInode inodeID mode 0 (devno sb) s;
          e = BOFS_CreateDirEntry inodeID BOFS_FILE_TYPE_NORMAL nm;
          (_, s) = BOFS_SyncInode sb n s
      in do { (r, s) \<leftarrow> BOFS_SyncDirEntry sb parent e s;
              if r > 0 then
                let s = (if r = 1 then grow_parent sb parent (junk_inode s) s else s);
                    (fd, S) = BOFS_AllocFdGlobal (S\<lparr>fs := s\<rparr>)
                in if fd = -1 then Some (-1, S)
                   else Some (TaskInstallFD fd (fill_fd (nat fd) parent e n flags S))
              else Some (-1, S\<lparr>fs := s\<rparr>) })"

definition BOFS_OpenFile :: "BOFS_SuperBlock \<Rightarrow> BOFS_DirEntry \<Rightarrow> u8 list \<Rightarrow> u32 \<Rightarrow> files \<Rightarrow> (int \<times> files) option" where
  "BOFS_OpenFile sb parent nm flags S =
     (let s = fs S; (ok1, s) = attempt s in if \<not> ok1 then Some (-1, S\<lparr>fs := s\<rparr>) else
      let (ok2, s) = attempt s in if \<not> ok2 then Some (-1, S\<lparr>fs := s\<rparr>) else
      do { (found, s) \<leftarrow> BOFS_LoadDirEntry sb parent nm s;
           case found of
             None \<Rightarrow> Some (-1, S\<lparr>fs := s\<rparr>)
           | Some e \<Rightarrow>
               (let (fd, S) = BOFS_AllocFdGlobal (S\<lparr>fs := s\<rparr>) in
                if fd = -1 then Some (-1, S)
                else let (_, n, s) = BOFS_LoadInodeByID sb (d_inode e) (junk_inode s) (fs S)
                     in Some (TaskInstallFD fd (fill_fd (nat fd) parent e n flags (S\<lparr>fs := s\<rparr>)))) })"

section \<open>Seeking\<close>

definition BOFS_SEEK_SET :: nat where
  "BOFS_SEEK_SET = 1"

definition BOFS_SEEK_CUR :: nat where
  "BOFS_SEEK_CUR = 2"

definition BOFS_SEEK_END :: nat where
  "BOFS_SEEK_END = 3"

definition BOFS_Lseek :: "int \<Rightarrow> int \<Rightarrow> nat \<Rightarrow> files \<Rightarrow> (int \<times> files) option" where
  "BOFS_Lseek fd offset whence S =
     (if fd < 0 \<or> fd \<ge> int MAX_OPEN_FILES then Some (-1, S)
      else do { g \<leftarrow> global_fd fd S;
                let f = fdtab S g in
                if is_pipe f then Some (-1, S)
                else do { n \<leftarrow> f_inode f;
                          e \<leftarrow> f_dirEntry f;
                          let fileSize = sint (i_size n);
                              newPos = (if whence = BOFS_SEEK_SET then offset
                                        else if whence = BOFS_SEEK_CUR then i32 (sint (f_pos f) + offset)
                                        else if whence = BOFS_SEEK_END then i32 (fileSize + offset) else 0)
                          in if d_type e = BOFS_FILE_TYPE_NORMAL \<and> (newPos < 0 \<or> newPos > fileSize) then Some (-1, S)
                             else Some (newPos, upd_fd g (\<lambda>f. f\<lparr>f_pos := word_of_int newPos\<rparr>) S) } })"

section \<open>Writing and reading\<close>

lemma unat_mod_less: "d \<noteq> 0 \<Longrightarrow> unat (p mod d) < unat (d :: u32)"
  by (simp add: unat_mod unat_gt_0)

text \<open>
  The loop of \<open>BOFS_FileWrite\<close>. \<open>change\<close> is \<open>changeFileSize\<close>, \<open>first\<close> is \<open>firstWriteSector\<close>: only the first
  block is read before the new bytes are put into it. The result of \<open>BOFS_GetInodeData\<close> is not tested. The boolean result
  tells whether the loop has come to its end.
\<close>

function write_loop :: "BOFS_SuperBlock \<Rightarrow> bool \<Rightarrow> bool \<Rightarrow> nat \<Rightarrow> u32 \<Rightarrow> u32 \<Rightarrow> u8 list \<Rightarrow> BOFS_Inode \<Rightarrow> bofs \<Rightarrow>
    (bool \<times> u32 \<times> BOFS_Inode \<times> bofs) option" where
  "write_loop sb change first blockID lba p src n s =
     (if src = [] then Some (True, p, n, s)
      else if blockSize sb = 0 then None
      else do { (_, lba, n, s) \<leftarrow> BOFS_GetInodeData sb n blockID lba s;
                let off = unat (p mod blockSize sb);
                    chunk = min (length src) (unat (blockSize sb) - off);
                    (old, s) = (if first then BlockRead lba s else (Some zero_block, s))
                in case old of
                     None \<Rightarrow> Some (False, p, n, s)
                   | Some iobuf \<Rightarrow>
                       (let (ok, s) = BlockWrite lba (wr_bytes iobuf off (take chunk src)) s in
                        if \<not> ok then Some (False, p, n, s)
                        else let p' = p + of_nat chunk
                             in write_loop sb change False (blockID + 1) lba p' (drop chunk src)
                                  (if change then n\<lparr>i_size := p'\<rparr> else n) s) })"
  by pat_completeness auto

termination
  by (relation "measure (\<lambda>(_, _, _, _, _, _, src, _, _). length src)") (use unat_mod_less in auto)

declare write_loop.simps [simp del]

definition BOFS_FileWrite :: "BOFS_SuperBlock \<Rightarrow> BOFS_FileDescriptor \<Rightarrow> u8 list \<Rightarrow> bofs \<Rightarrow> (int \<times> BOFS_FileDescriptor \<times> bofs) option" where
  "BOFS_FileWrite sb f src s =
     do { n \<leftarrow> f_inode f;
          let p = (if f_pos f > i_size n then i_size n else f_pos f);
              change = p + of_nat (length src) > i_size n;
              (ok, s) = attempt s
          in if \<not> ok then Some (-1, f\<lparr>f_pos := p\<rparr>, s)
             else do { (done, q, n, s) \<leftarrow> write_loop sb change True (unat (p div blockSize sb)) (junk_lba s) p src n s;
                       if done then Some (int (length src), f\<lparr>f_pos := q, f_inode := Some n\<rparr>, snd (BOFS_SyncInode sb n s))
                       else Some (-1, f\<lparr>f_pos := q, f_inode := Some n\<rparr>, s) } }"

function read_loop :: "BOFS_SuperBlock \<Rightarrow> nat \<Rightarrow> u32 \<Rightarrow> u32 \<Rightarrow> nat \<Rightarrow> u8 list \<Rightarrow> BOFS_Inode \<Rightarrow> bofs \<Rightarrow>
    (u8 list option \<times> u32 \<times> BOFS_Inode \<times> bofs) option" where
  "read_loop sb blockID lba p left dst n s =
     (if left = 0 then Some (Some dst, p, n, s)
      else if blockSize sb = 0 then None
      else do { (_, lba, n, s) \<leftarrow> BOFS_GetInodeData sb n blockID lba s;
                let off = unat (p mod blockSize sb); chunk = min left (unat (blockSize sb) - off) in
                case BlockRead lba s of
                  (None, s) \<Rightarrow> Some (None, p, n, s)
                | (Some iobuf, s) \<Rightarrow>
                    read_loop sb (blockID + 1) lba (p + of_nat chunk) (left - chunk) (dst @ rd_bytes iobuf off chunk) n s })"
  by pat_completeness auto

termination
  by (relation "measure (\<lambda>(_, _, _, _, left, _, _, _). left)") (use unat_mod_less in auto)

declare read_loop.simps [simp del]

text \<open>The bytes read, or \<open>None\<close> for the result -1, which is also the result at the end of the file.\<close>

definition BOFS_FileRead :: "BOFS_SuperBlock \<Rightarrow> BOFS_FileDescriptor \<Rightarrow> u32 \<Rightarrow> bofs \<Rightarrow> (u8 list option \<times> BOFS_FileDescriptor \<times> bofs) option" where
  "BOFS_FileRead sb f cnt s =
     do { n \<leftarrow> f_inode f;
          let p = f_pos f; sz = (if p + cnt > i_size n then i_size n - p else cnt) in
          if p + cnt > i_size n \<and> sz = 0 then Some (None, f, s)
          else let (ok, s) = attempt s in
               if \<not> ok then Some (None, f, s)
               else do { (r, q, n, s) \<leftarrow> read_loop sb (unat (p div blockSize sb)) (junk_lba s) p (unat sz) [] n s;
                         Some (r, f\<lparr>f_pos := q, f_inode := Some n\<rparr>, s) } }"

text \<open>The calls, with their checks of the flags of the descriptor and the mode of the inode.\<close>

definition BOFS_Write :: "BOFS_SuperBlock \<Rightarrow> int \<Rightarrow> u8 list \<Rightarrow> int \<Rightarrow> files \<Rightarrow> (int \<times> files) option" where
  "BOFS_Write sb fd src other S =
     (if src = [] then Some (0, S)
      else if fd < 0 \<or> fd \<ge> int MAX_OPEN_FILES then Some (-1, S)
      else do { g \<leftarrow> global_fd fd S;
                let f = fdtab S g in
                if is_pipe f then Some (other, S)
                else if f_flags f AND BOFS_O_WRONLY = 0 \<and> f_flags f AND BOFS_O_RDWR = 0 then Some (-1, S)
                else do { n \<leftarrow> f_inode f;
                          if i_mode n AND ucast BOFS_IMODE_W = 0 then Some (-1, S)
                          else do { e \<leftarrow> f_dirEntry f;
                                    if d_type e = BOFS_FILE_TYPE_NORMAL then
                                      do { (r, f, s) \<leftarrow> BOFS_FileWrite sb f src (fs S);
                                           Some (r, upd_fd g (\<lambda>_. f) (S\<lparr>fs := s\<rparr>)) }
                                    else Some (other, S) } } })"

definition BOFS_Read :: "BOFS_SuperBlock \<Rightarrow> int \<Rightarrow> u32 \<Rightarrow> u8 list option \<Rightarrow> files \<Rightarrow> (u8 list option \<times> files) option" where
  "BOFS_Read sb fd cnt other S =
     (if fd < 0 \<or> fd \<ge> int MAX_OPEN_FILES \<or> cnt = 0 then Some (None, S)
      else do { g \<leftarrow> global_fd fd S;
                let f = fdtab S g in
                if is_pipe f then Some (other, S)
                else if f_flags f AND BOFS_O_RDONLY = 0 \<and> f_flags f AND BOFS_O_RDWR = 0 then Some (None, S)
                else do { n \<leftarrow> f_inode f;
                          if i_mode n AND ucast BOFS_IMODE_R = 0 then Some (None, S)
                          else do { e \<leftarrow> f_dirEntry f;
                                    if d_type e = BOFS_FILE_TYPE_NORMAL then
                                      do { (r, f, s) \<leftarrow> BOFS_FileRead sb f cnt (fs S);
                                           Some (r, upd_fd g (\<lambda>_. f) (S\<lparr>fs := s\<rparr>)) }
                                    else Some (other, S) } } })"

section \<open>Closing and removing\<close>

definition BOFS_Close :: "int \<Rightarrow> files \<Rightarrow> (int \<times> files) option" where
  "BOFS_Close fd S =
     (if fd < 0 \<or> fd \<ge> int MAX_OPEN_FILES then Some (-1, S)
      else if FdLocal2Global (nat fd) S = -1 then Some (-1, S)
      else do { g \<leftarrow> global_fd fd S;
                let f = fdtab S g in
                if is_pipe f then Some (-1, S\<lparr>fdTable := (fdTable S)(nat fd := -1)\<rparr>)
                else do { e \<leftarrow> f_dirEntry f;
                          let S = upd_fd g (\<lambda>f. f\<lparr>f_reference := f_reference f - 1\<rparr>) S;
                              S = (if f_reference (fdtab S g) \<le> 0 then BOFS_FreeFdGlobal (int g) S else S)
                          in Some (0, S\<lparr>fdTable := (fdTable S)(nat fd := -1)\<rparr>) } })"

text \<open>Whether a descriptor in use has the entry open; a descriptor in use without entry (a pipe) is a NULL dereference.\<close>

fun in_use :: "BOFS_DirEntry \<Rightarrow> nat \<Rightarrow> nat \<Rightarrow> files \<Rightarrow> bool option" where
  "in_use e i 0 S = Some False"
| "in_use e i (Suc k) S =
     (if f_flags (fdtab S i) AND BOFS_FD_USING = 0 then in_use e (i + 1) k S
      else do { d \<leftarrow> f_dirEntry (fdtab S i);
                if d_inode e = d_inode d \<and> cname (d_name e) = cname (d_name d) \<and> d_type e = d_type d then Some True
                else in_use e (i + 1) k S })"

definition BOFS_Remove :: "BOFS_SuperBlock \<Rightarrow> addr \<Rightarrow> files \<Rightarrow> (int \<times> files) option" where
  "BOFS_Remove sb pathname S =
     (let m = kmem (fs S) in
      if m pathname = 47 \<and> m (pathname + 1) = 0 then Some (-1, S)
      else do { nm \<leftarrow> BOFS_PathToName m pathname;
                if nm = None then Some (-1, S)
                else do { (r, rec, s) \<leftarrow> BOFS_SearchDir sb pathname (fs S);
                          if r \<noteq> 0 then Some (-1, S\<lparr>fs := s\<rparr>)
                          else do { e \<leftarrow> childDir rec;
                                    if d_type e = BOFS_FILE_TYPE_DIRECTORY then Some (-1, S\<lparr>fs := s\<rparr>)
                                    else do { used \<leftarrow> in_use e 0 BOFS_MAX_FD_NR S;
                                              if used then Some (-1, S\<lparr>fs := s\<rparr>)
                                              else let (e, s) = BOFS_ReleaseDirEntry sb e s in
                                                do { (r, s) \<leftarrow> BOFS_SyncDirEntry sb (parentDir rec) e s;
                                                     Some (if r \<noteq> 0 then 0 else -1, S\<lparr>fs := s\<rparr>) } } } } })"

section \<open>Opening by path\<close>

definition open_mode :: "u32 \<Rightarrow> u32" where
  "open_mode flags =
     (if flags AND BOFS_O_RDONLY \<noteq> 0 then BOFS_IMODE_R
      else if flags AND BOFS_O_WRONLY \<noteq> 0 then BOFS_IMODE_W
      else if flags AND BOFS_O_RDWR \<noteq> 0 then BOFS_IMODE_R OR BOFS_IMODE_W else 0) OR
     (if flags AND BOFS_O_EXEC \<noteq> 0 then BOFS_IMODE_X else 0)"

definition wants_access :: "u32 \<Rightarrow> bool" where
  "wants_access flags \<longleftrightarrow> flags AND BOFS_O_RDONLY \<noteq> 0 \<or> flags AND BOFS_O_WRONLY \<noteq> 0 \<or> flags AND BOFS_O_RDWR \<noteq> 0"

definition append_pos :: "u32 \<Rightarrow> int \<Rightarrow> files \<Rightarrow> (int \<times> files) option" where
  "append_pos flags fd S =
     (if fd \<noteq> -1 \<and> flags AND BOFS_O_APPEDN \<noteq> 0 then do { (_, S) \<leftarrow> BOFS_Lseek fd 0 BOFS_SEEK_END S; Some (fd, S) }
      else Some (fd, S))"

text \<open>
  A file that exists is opened again when the flags ask for access. A path that is not found has no child entry; when it is
  to be created it is created in the last directory that the search has reached.
\<close>

definition BOFS_Open :: "BOFS_SuperBlock \<Rightarrow> addr \<Rightarrow> u32 \<Rightarrow> files \<Rightarrow> (int \<times> files) option" where
  "BOFS_Open sb pathname flags S =
     do { nm \<leftarrow> BOFS_PathToName (kmem (fs S)) pathname;
          case nm of
            None \<Rightarrow> Some (-1, S)
          | Some nm \<Rightarrow>
              do { (found, rec, s) \<leftarrow> BOFS_SearchDir sb pathname (fs S);
                   let S = S\<lparr>fs := s\<rparr>; creat = (flags AND BOFS_O_CREAT \<noteq> 0) in
                   if found \<noteq> 0 then
                     (if \<not> creat then Some (-1, S)
                      else do { (fd, S) \<leftarrow> BOFS_CreateFile sb (parentDir rec) nm (open_mode flags) flags S;
                                append_pos flags fd S })
                   else
                     do { e \<leftarrow> childDir rec;
                          if d_type e = BOFS_FILE_TYPE_DIRECTORY then Some (-1, S)
                          else if creat \<and> d_type e = BOFS_FILE_TYPE_NORMAL \<and> \<not> wants_access flags then Some (-1, S)
                          else if creat \<and> d_type e \<noteq> BOFS_FILE_TYPE_NORMAL then
                            do { (fd, S) \<leftarrow> BOFS_CreateFile sb (parentDir rec) nm (open_mode flags) flags S;
                                 append_pos flags fd S }
                          else if \<not> wants_access flags then Some (-1, S)
                          else if d_type e = BOFS_FILE_TYPE_NORMAL \<or> d_type e = BOFS_FILE_TYPE_FIFO \<or>
                                  d_type e = BOFS_FILE_TYPE_BLOCK \<or> d_type e = BOFS_FILE_TYPE_CHAR then
                            do { (fd, S) \<leftarrow> BOFS_OpenFile sb (parentDir rec) nm flags S;
                                 append_pos flags fd S }
                          else Some (-1, S) } } }"

section \<open>Modes\<close>

text \<open>\<open>int\<close> results of the queries; \<open>strcmp (path, "/")\<close> is the first test.\<close>

definition is_root_path :: "mem \<Rightarrow> addr \<Rightarrow> bool" where
  "is_root_path m p \<longleftrightarrow> m p = 47 \<and> m (p + 1) = 0"

definition BOFS_IsPathExist :: "BOFS_SuperBlock \<Rightarrow> addr \<Rightarrow> bofs \<Rightarrow> (int \<times> bofs) option" where
  "BOFS_IsPathExist sb path s =
     (if is_root_path (kmem s) path then Some (0, s)
      else do { (r, _, s) \<leftarrow> BOFS_SearchDir sb path s; Some (if r = 0 then 0 else -1, s) })"

definition path_inode :: "BOFS_SuperBlock \<Rightarrow> addr \<Rightarrow> bofs \<Rightarrow> ((BOFS_DirEntry \<times> BOFS_Inode) option \<times> bofs) option" where
  "path_inode sb path s =
     do { (r, rec, s) \<leftarrow> BOFS_SearchDir sb path s;
          if r \<noteq> 0 then Some (None, s)
          else do { e \<leftarrow> childDir rec;
                    let (_, n, s) = BOFS_LoadInodeByID sb (d_inode e) (junk_inode s) s in Some (Some (e, n), s) } }"

definition BOFS_IsPathModeTrue :: "BOFS_SuperBlock \<Rightarrow> addr \<Rightarrow> u32 \<Rightarrow> bofs \<Rightarrow> (int \<times> bofs) option" where
  "BOFS_IsPathModeTrue sb path mode s =
     (if is_root_path (kmem s) path then Some (0, s)
      else do { (r, s) \<leftarrow> path_inode sb path s;
                Some (case r of None \<Rightarrow> -1 | Some (_, n) \<Rightarrow> if ucast (i_mode n) AND mode \<noteq> 0 then 0 else -1, s) })"

text \<open>\<open>BOFS_F_OK\<close> is 1, \<open>BOFS_X_OK\<close> 2, \<open>BOFS_R_OK\<close> 3 and \<open>BOFS_W_OK\<close> 4; the first test is of bit 0.\<close>

definition BOFS_Access :: "BOFS_SuperBlock \<Rightarrow> addr \<Rightarrow> u8 \<Rightarrow> bofs \<Rightarrow> (int \<times> bofs) option" where
  "BOFS_Access sb path mode s =
     do { (r, s) \<leftarrow> (if mode AND 1 \<noteq> 0 then BOFS_IsPathExist sb path s else Some (-1, s));
          if r = 0 then Some (0, s)
          else let m = (if mode = 2 then BOFS_IMODE_X else if mode = 3 then BOFS_IMODE_R
                        else if mode = 4 then BOFS_IMODE_W else 0)
               in do { (r, s) \<leftarrow> BOFS_IsPathModeTrue sb path m s; Some (if r = 0 then 0 else -1, s) } }"

definition BOFS_GetMode :: "BOFS_SuperBlock \<Rightarrow> addr \<Rightarrow> bofs \<Rightarrow> (int \<times> bofs) option" where
  "BOFS_GetMode sb path s =
     (if is_root_path (kmem s) path then Some (0, s)
      else do { (r, s) \<leftarrow> path_inode sb path s; Some (case r of None \<Rightarrow> 0 | Some (_, n) \<Rightarrow> uint (i_mode n), s) })"

text \<open>The first descriptor in use with the same inode number gets the new mode as well.\<close>

fun update_mode :: "u32 \<Rightarrow> u16 \<Rightarrow> nat \<Rightarrow> nat \<Rightarrow> files \<Rightarrow> files option" where
  "update_mode ino mode i 0 S = Some S"
| "update_mode ino mode i (Suc k) S =
     (if f_flags (fdtab S i) AND BOFS_FD_USING = 0 then update_mode ino mode (i + 1) k S
      else do { d \<leftarrow> f_dirEntry (fdtab S i);
                if d_inode d = ino then
                  do { n \<leftarrow> f_inode (fdtab S i); Some (upd_fd i (\<lambda>f. f\<lparr>f_inode := Some (n\<lparr>i_mode := mode\<rparr>)\<rparr>) S) }
                else update_mode ino mode (i + 1) k S })"

definition BOFS_ChangeMode :: "BOFS_SuperBlock \<Rightarrow> addr \<Rightarrow> u8 \<Rightarrow> files \<Rightarrow> (int \<times> files) option" where
  "BOFS_ChangeMode sb path mode S =
     (if is_root_path (kmem (fs S)) path then Some (0, S)
      else do { (r, s) \<leftarrow> path_inode sb path (fs S);
                case r of
                  None \<Rightarrow> Some (-1, S\<lparr>fs := s\<rparr>)
                | Some (e, n) \<Rightarrow>
                    do { S \<leftarrow> update_mode (d_inode e) (ucast mode) 0 BOFS_MAX_FD_NR
                           (S\<lparr>fs := snd (BOFS_SyncInode sb (n\<lparr>i_mode := ucast mode\<rparr>) s)\<rparr>);
                         Some (0, S) } })"

end
