(* ===== verification/BofsData.thy ===== *)
theory BofsData
  imports BofsProofs BofsFile
begin

text \<open>
  The contents of BOFS files. \<open>fbyte n s x\<close> is byte \<open>x\<close> of the file with inode \<open>n\<close>: an abstraction in which
  blocks that are not mapped read as zeros. Mapping a block keeps it; \<open>BOFS_FileWrite\<close> puts the new bytes
  into it, and \<open>BOFS_FileRead\<close> reads it.
\<close>

section \<open>Steps that return\<close>

text \<open>\<open>quiet\<close>: no faults to come, and the bits of the sector bitmap that were set still are.\<close>

definition quiet :: "BOFS_SuperBlock \<Rightarrow> bofs \<Rightarrow> bofs \<Rightarrow> bool" where
  "quiet sb s s' \<longleftrightarrow> faults s' = [] \<and> (\<forall>j. sector_bit sb s j \<longrightarrow> sector_bit sb s' j)"

lemma quiet_free: "quiet sb s s' \<Longrightarrow> has_free sb s' \<Longrightarrow> has_free sb s"
  by (auto simp: quiet_def has_free_def)

lemma quiet_trans: "quiet sb s s1 \<Longrightarrow> quiet sb s1 s2 \<Longrightarrow> quiet sb s s2"
  by (simp add: quiet_def)

lemma quiet_refl: "faults s = [] \<Longrightarrow> quiet sb s s"
  by (simp add: quiet_def)

lemma quiet_blk [simp]: "quiet sb s (t\<lparr>blk := f\<rparr>) = quiet sb s t"
  by (simp add: quiet_def)

lemma quiet_faults: "quiet sb s s' \<Longrightarrow> faults s' = []"
  by (simp add: quiet_def)

lemma AllocOneSector_quiet:
  assumes "faults s = []" shows "quiet sb s (snd (snd (AllocOneSector sb d s)))"
proof (cases "BitmapScan (kmem s) (sectorBitmap sb) (Suc 0) = -1")
  case True
  then show ?thesis using assms by (simp add: AllocOneSector_def BOFS_AllocBitmap_def bitmap_of_def Let_def quiet_refl)
next
  case False
  then show ?thesis using assms
    by (simp add: AllocOneSector_def BOFS_AllocBitmap_def bitmap_of_def Let_def BOFS_SyncBitmap_def quiet_def bm.test_upd numeral_eq_Suc)
qed

lemma SyncInode_quiet: "faults s = [] \<Longrightarrow> quiet sb s (snd (BOFS_SyncInode sb' n s))"
  by (simp add: SyncInode_ok quiet_refl)

lemma inode_cell_quiet:
  assumes "faults s = []" shows "quiet sb s (snd (snd (inode_cell sb k n s)))"
proof -
  obtain r p s1 where a: "AllocOneSector sb 0 s = (r, p, s1)" by (metis prod_cases3)
  then have "quiet sb s s1" using AllocOneSector_quiet [OF assms, of sb 0] by simp
  then have "quiet sb s (snd (BOFS_SyncInode sb m s1))" for m
    using quiet_trans [OF _ SyncInode_quiet [OF quiet_faults]] by blast
  then show ?thesis using a assms \<open>quiet sb s s1\<close> by (simp add: inode_cell_def quiet_refl Let_def)
qed

lemma block_cell_quiet:
  assumes "faults s = []" shows "quiet sb s (snd (block_cell sb lba i s))"
proof -
  obtain r p s1 where a: "AllocOneSector sb 0 s = (r, p, s1)" by (metis prod_cases3)
  then have q: "quiet sb s s1" using AllocOneSector_quiet [OF assms, of sb 0] by simp
  then show ?thesis using a assms by (simp add: block_cell_def quiet_refl quiet_faults [OF q])
qed

text \<open>Mapping a block always returns, on any contents of the disk.\<close>

definition returns_quiet :: "BOFS_SuperBlock \<Rightarrow> bofs \<Rightarrow> get_result \<Rightarrow> bool" where
  "returns_quiet sb s x \<longleftrightarrow> quiet sb s (snd (snd (snd x)))"

lemma inode_cellE:
  assumes "faults s = []" obtains b n' s' where "inode_cell sb k n s = (b, n', s')" "quiet sb s s'" "faults s' = []"
proof -
  obtain b n' s' where "inode_cell sb k n s = (b, n', s')" by (metis prod_cases3)
  then show ?thesis using that inode_cell_quiet [OF assms, of sb k n] quiet_faults by fastforce
qed

lemma block_cellE:
  assumes "quiet sb s t" obtains b s' where "block_cell sb lba i t = (b, s')" "quiet sb s s'" "faults s' = []"
proof -
  obtain b s' where b: "block_cell sb lba i t = (b, s')" by (metis prod.exhaust)
  have "quiet sb t s'" using block_cell_quiet [OF quiet_faults [OF assms], of sb lba i] b by simp
  then show ?thesis using that [OF b] quiet_trans [OF assms] quiet_faults by blast
qed

lemma get1_returns:
  assumes f: "faults s = []" shows "returns_quiet sb s (GetBlockInInderect1 sb n i old s)"
proof -
  obtain b n1 s1 where a: "inode_cell sb 12 n s = (b, n1, s1)" "quiet sb s s1" "faults s1 = []" using inode_cellE [OF f] by metis
  obtain c s2 where c: "block_cell sb (i_blocks n1 12) i s1 = (c, s2)" "quiet sb s s2" "faults s2 = []" using block_cellE [OF a(2)] by metis
  show ?thesis using a c f by (cases c) (simp_all add: GetBlockInInderect1_def returns_quiet_def)
qed

lemma get2_returns:
  assumes f: "faults s = []" shows "returns_quiet sb s (GetBlockInInderect2 sb n i old s)"
proof -
  obtain b n1 s1 where a: "inode_cell sb 13 n s = (b, n1, s1)" "quiet sb s s1" "faults s1 = []" using inode_cellE [OF f] by metis
  obtain c s2 where c: "block_cell sb (i_blocks n1 13) (i div 256) s1 = (c, s2)" "quiet sb s s2" "faults s2 = []"
    using block_cellE [OF a(2)] by metis
  obtain d s3 where d: "block_cell sb (the c) (i mod 256) s2 = (d, s3)" "quiet sb s s3" "faults s3 = []"
    using block_cellE [OF c(2)] by metis
  show ?thesis using a c d f by (cases c; cases d) (simp_all add: GetBlockInInderect2_def returns_quiet_def)
qed

lemma get3_returns:
  assumes f: "faults s = []" shows "\<exists>x. GetBlockInInderect3 sb n i old s = Some x \<and> returns_quiet sb s x"
proof -
  obtain j1 j2 j3 where j: "lv3_indices i = (j1, j2, j3)" by (metis prod_cases3)
  obtain b n1 s1 where a: "inode_cell sb 14 n s = (b, n1, s1)" "quiet sb s s1" "faults s1 = []" using inode_cellE [OF f] by metis
  obtain c s2 where c: "block_cell sb (i_blocks n1 14) j1 s1 = (c, s2)" "quiet sb s s2" "faults s2 = []"
    using block_cellE [OF a(2)] by metis
  obtain d s3 where d: "block_cell sb (the c) j2 s2 = (d, s3)" "quiet sb s s3" "faults s3 = []" using block_cellE [OF c(2)] by metis
  obtain e s4 where e: "block_cell sb (the d) j3 s3 = (e, s4)" "quiet sb s s4" "faults s4 = []" using block_cellE [OF d(2)] by metis
  show ?thesis using a c d e f j by (cases c; cases d; cases e) (simp_all add: GetBlockInInderect3_def returns_quiet_def)
qed

lemma GetInodeData_returns:
  assumes f: "faults s = []"
  obtains r b n' s' where "BOFS_GetInodeData sb n index old s = Some (r, b, n', s')" "quiet sb s s'"
proof -
  have zero: "\<exists>x. BOFS_GetInodeData sb n index old s = Some x \<and> returns_quiet sb s x" if "index < BLOCK_LV0"
  proof -
    have "BOFS_GetInodeData sb n index old s = (case inode_cell sb index n s of (ok, n, s) \<Rightarrow>
        Some (if ok then 0 else -1, if ok then i_blocks n index else old, n, s))"
      using that by (auto simp: BOFS_GetInodeData_def inode_cell_def Let_def split: prod.splits)
    moreover obtain b n1 s1 where "inode_cell sb index n s = (b, n1, s1)" "quiet sb s s1" using inode_cellE [OF f] by metis
    ultimately show ?thesis by (simp add: returns_quiet_def)
  qed
  have "\<exists>x. BOFS_GetInodeData sb n index old s = Some x \<and> returns_quiet sb s x"
  proof (cases "index < BLOCK_LV0")
    case False
    moreover have "returns_quiet sb s (-1, old, n, s\<lparr>xfsz := xfsz s + 1\<rparr>)" using f by (simp add: returns_quiet_def quiet_def)
    ultimately show ?thesis using get1_returns [OF f] get2_returns [OF f] get3_returns [OF f]
      by (simp add: BOFS_GetInodeData_def del: split_paired_Ex)
  qed (rule zero)
  then show ?thesis using that by (auto simp: returns_quiet_def)
qed

section \<open>The contents of a file\<close>

definition fbyte :: "BOFS_Inode \<Rightarrow> bofs \<Rightarrow> nat \<Rightarrow> u8" where
  "fbyte n s x = leaf_data n s (file_path (x div 1024)) (x mod 1024)"

lemma block_index: "x < 2 ^ 32 \<Longrightarrow> x div 1024 < BLOCK_LV3"
  by (simp add: block_levels less_mult_imp_div_less)

lemma fbyte_grows: "grows sb n s n' s' \<Longrightarrow> x < 2 ^ 32 \<Longrightarrow> fbyte n' s' x = fbyte n s x"
  using leaf_file_path [OF block_index] by (simp add: fbyte_def grows_def)

lemma node_i_size [simp]: "node (n\<lparr>i_size := z\<rparr>) s p = node n s p"
proof (induction p rule: list.induct)
  case (Cons i r)
  then show ?case by (cases "r = []") (simp_all add: node_Cons)
qed simp

lemma i_size_same [simp]: "file_ok sb (n\<lparr>i_size := z\<rparr>) s = file_ok sb n s" "inode_ok sb (n\<lparr>i_size := z\<rparr>) = inode_ok sb n"
    "ready sb (n\<lparr>i_size := z\<rparr>) s = ready sb n s" "leaf_data (n\<lparr>i_size := z\<rparr>) s = leaf_data n s"
    "fbyte (n\<lparr>i_size := z\<rparr>) s = fbyte n s" "belongs (n\<lparr>i_size := z\<rparr>) s = belongs n s"
    "frame sb (n\<lparr>i_size := z\<rparr>) s n' s' = frame sb n s n' s'" "frame sb n' s' (n\<lparr>i_size := z\<rparr>) s = frame sb n' s' n s"
  by (simp_all add: file_ok_def inode_ok_def ready_def leaf_data_def fun_eq_iff fbyte_def belongs_def frame_def)

text \<open>Writing one block of the data.\<close>

lemma write_leaf:
  fixes d :: block
  assumes ok: "ready sb n s" and p: "leaf p" "node n s p \<noteq> 0"
  defines "s' \<equiv> s\<lparr>blk := (blk s)(node n s p := d)\<rparr>"
  shows "vpath q \<Longrightarrow> node n s' q = node n s q" "ready sb n s'" "frame sb n s n s'"
    "leaf q \<Longrightarrow> leaf_data n s' q = (if q = p then d else leaf_data n s q)"
proof -
  have vp: "vpath p" using p(1) by (simp add: leaf_def)
  note fk = readyD(3) [OF ok]
  have nd: "vpath q \<Longrightarrow> node n s' q = node n s q" for q
  proof (induction q rule: list.induct)
    case (Cons i r)
    show ?case
    proof (cases "r = []")
      case False
      have vr: "vpath r" using Cons.prems False by (rule vpath_tail)
      have "node n s r \<noteq> node n s p" if "node n s r \<noteq> 0"
        using file_okD(2) [OF fk vr vp that] vpath_parent [OF Cons.prems] p(1) by metis
      then show ?thesis using Cons.IH [OF vr] False by (simp add: node_Cons s'_def)
    qed simp
  qed simp
  show "vpath q \<Longrightarrow> node n s' q = node n s q" by (rule nd)
  have us: "used sb s' = used sb s" by (simp add: s'_def)
  have "file_ok sb n s'" unfolding file_ok_def us
  proof (intro conjI allI impI)
    fix q assume q: "vpath q \<and> node n s' q \<noteq> 0"
    then show "used sb s (node n s' q)" using nd [of q] file_okD(1) [OF fk, of q] by metis
  next
    fix q r assume "vpath q \<and> vpath r \<and> node n s' q \<noteq> 0 \<and> node n s' q = node n s' r"
    then show "q = r" using nd [of q] nd [of r] file_okD(2) [OF fk, of q r] by metis
  qed
  then show "ready sb n s'" using ok by (simp add: ready_def s'_def)
  have "blk s' b = blk s b" if "\<not> belongs n s b" for b using that vp p(2) by (auto simp: s'_def belongs_def)
  moreover have "kept sb s s'" by (simp add: s'_def)
  moreover have "node n s' q \<noteq> 0 \<Longrightarrow> vpath q \<Longrightarrow> node n s q = 0 \<Longrightarrow> False" for q using nd [of q] by metis
  ultimately show "frame sb n s n s'" using nd unfolding frame_def us by blast
  show "leaf_data n s' q = (if q = p then d else leaf_data n s q)" if "leaf q"
  proof -
    have vq: "vpath q" using that by (simp add: leaf_def)
    show ?thesis using nd [OF vq] p(2) file_okD(2) [OF fk vq vp] by (auto simp: leaf_data_def s'_def)
  qed
qed

lemma fbyte_write:
  assumes "ready sb n s" "index < BLOCK_LV3" "node n s (file_path index) \<noteq> 0" "x < 2 ^ 32"
  shows "fbyte n (s\<lparr>blk := (blk s)(node n s (file_path index) := d)\<rparr>) x = (if x div 1024 = index then d (x mod 1024) else fbyte n s x)"
  using write_leaf(4) [OF assms(1) leaf_file_path [OF assms(2)] assms(3) leaf_file_path [OF block_index [OF assms(4)]], of d]
    file_path_inj [OF block_index [OF assms(4)] assms(2)] by (auto simp: fbyte_def)

text \<open>
  The contents after a write of \<open>src\<close> at \<open>p\<close>. Behind the new bytes the rest of the last block becomes 0 unless it is also the
  first block, which \<open>first\<close> tells was read before.
\<close>

definition written :: "bool \<Rightarrow> nat \<Rightarrow> u8 list \<Rightarrow> (nat \<Rightarrow> u8) \<Rightarrow> nat \<Rightarrow> u8" where
  "written first p src old x =
     (if p \<le> x \<and> x < p + length src then src ! (x - p)
      else if src \<noteq> [] \<and> p + length src \<le> x \<and> x div 1024 = (p + length src - 1) div 1024 \<and> \<not> (first \<and> p div 1024 = x div 1024)
      then 0 else old x)"

lemma next_block: "(p :: nat) + (1024 - p mod 1024) = (p div 1024 + 1) * 1024"
proof -
  have "a = q * 1024 + r \<Longrightarrow> r < 1024 \<Longrightarrow> a + (1024 - r) = (q + 1) * 1024" for a q r :: nat by simp
  from this [of p "p div 1024" "p mod 1024"] show ?thesis by simp
qed

lemma written_step:
  fixes p x :: nat
  assumes ne: "src \<noteq> []" and al: "first \<or> p mod 1024 = 0"
    and chunk: "chunk = min (length src) (1024 - p mod 1024)"
    and old': "old' x = (if x div 1024 = p div 1024 then wr_bytes base (p mod 1024) (take chunk src) (x mod 1024) else old x)"
    and base: "x div 1024 = p div 1024 \<Longrightarrow> base (x mod 1024) = (if first then old x else 0)"
  shows "written False (p + chunk) (drop chunk src) old' x = written first p src old x"
proof -
  let ?o = "p mod 1024"
  have px: "p = 1024 * (p div 1024) + ?o" "x = 1024 * (x div 1024) + x mod 1024" by simp_all
  have len: "length (take chunk src) = chunk" using chunk by simp
  have inblock: "wr_bytes base ?o (take chunk src) (x mod 1024) = (if p \<le> x \<and> x < p + chunk then src ! (x - p) else base (x mod 1024))"
    if b: "x div 1024 = p div 1024"
  proof (cases "?o \<le> x mod 1024 \<and> x mod 1024 < ?o + chunk")
    case True
    then have "wr_bytes base ?o (take chunk src) (?o + (x mod 1024 - ?o)) = take chunk src ! (x mod 1024 - ?o)"
      by (intro wr_bytes_inside) (use True len in linarith)
    moreover have "?o + (x mod 1024 - ?o) = x mod 1024" using True by simp
    moreover have "x mod 1024 - ?o = x - p" using px b by linarith
    moreover have "p \<le> x \<and> x < p + chunk" using True px b by linarith
    ultimately show ?thesis by (metis add_diff_inverse_nat le_add_diff_inverse nat_add_left_cancel_less not_less nth_take)
  next
    case False
    then have nt: "\<not> (p \<le> x \<and> x < p + chunk)" using px b by linarith
    show ?thesis unfolding if_not_P [OF nt] by (intro wr_bytes_outside) (use False len in linarith)
  qed
  show ?thesis
  proof (cases "length src \<le> 1024 - ?o")
    case True
    then have c: "chunk = length src" using chunk by simp
    have last: "(p + length src - 1) div 1024 = p div 1024"
    proof -
      have "p + length src - 1 = 1024 * (p div 1024) + (?o + length src - 1)" using px ne by (cases src) auto
      moreover have "?o + length src - 1 < 1024" using True ne by (cases src) auto
      ultimately show ?thesis by simp
    qed
    show ?thesis
      using inblock base old' c last ne al px by (auto simp: written_def)
  next
    case False
    then have c: "chunk = 1024 - ?o" using chunk by simp
    have pc: "p + chunk = 1024 * (p div 1024 + 1)" unfolding c using next_block [of p] by simp
    have tot: "p + chunk + length (drop chunk src) = p + length src" "drop chunk src \<noteq> []" using c False by auto
    consider "p + length src \<le> x" | "p + chunk \<le> x" "x < p + length src" | "p \<le> x" "x < p + chunk" | "x < p" by linarith
    then show ?thesis
    proof cases
      case 1
      then have "p div 1024 < x div 1024" using pc False c div_le_mono [of "p + chunk" x 1024] by simp
      then show ?thesis using 1 old' ne tot by (simp add: written_def)
    next
      case 2
      then have px: "p \<le> x" by linarith
      have "written False (p + chunk) (drop chunk src) old' x = drop chunk src ! (x - (p + chunk))"
        unfolding written_def tot(1) using 2 by simp
      also have "\<dots> = src ! (x - p)" using 2 False c by (simp add: px)
      also have "\<dots> = written first p src old x" unfolding written_def using 2 px by simp
      finally show ?thesis .
    next
      case 3
      then have "x div 1024 = p div 1024" using pc div_le_mono [of p x 1024] less_mult_imp_div_less [of x "p div 1024 + 1" 1024] by simp
      moreover have "x < p + length src" using 3 False c by linarith
      ultimately show ?thesis using 3 inblock old' tot by (simp add: written_def)
    next
      case 4
      have "x div 1024 = p div 1024 \<Longrightarrow> first" using al px 4 by auto
      then show ?thesis using 4 inblock old' base by (auto simp: written_def)
    qed
  qed
qed

section \<open>The loop of a write\<close>

definition put_block :: "u32 \<Rightarrow> block \<Rightarrow> bofs \<Rightarrow> bofs" where
  "put_block b d s = s\<lparr>blk := (blk s)(b := d)\<rparr>"

lemma put_block_simps [simp]: "quiet sb s (put_block b d t) = quiet sb s t" "faults (put_block b d t) = faults t"
    "has_free sb (put_block b d t) = has_free sb t"
  by (simp_all add: put_block_def quiet_def has_free_def)

lemma write_loop_step:
  assumes "src \<noteq> []" "blockSize sb = 1024" "faults s1 = []" "BOFS_GetInodeData sb n bid lba s = Some (r, b, n1, s1)"
    "off = unat p mod 1024" "chunk = min (length src) (1024 - off)"
  shows "write_loop sb change first bid lba p src n s =
    write_loop sb change False (bid + 1) b (p + of_nat chunk) (drop chunk src)
      (if change then n1\<lparr>i_size := p + of_nat chunk\<rparr> else n1)
      (put_block b (wr_bytes (if first then blk s1 b else zero_block) off (take chunk src)) s1)"
  using assms by (subst write_loop.simps) (simp add: Let_def unat_mod put_block_def)

text \<open>A write always comes to its end, even when the disk is full or its pointers are damaged.\<close>

lemma write_loop_returns:
  assumes "faults s = []" "blockSize sb = 1024"
  shows "\<exists>n' s'. write_loop sb change first bid lba p src n s = Some (True, p + of_nat (length src), n', s') \<and> quiet sb s s'"
  using assms(1)
proof (induction "length src" arbitrary: first bid lba p src n s rule: less_induct)
  case less
  show ?case
  proof (cases "src = []")
    case True
    then show ?thesis using less.prems by (subst write_loop.simps) (simp add: quiet_refl)
  next
    case False
    obtain r b n1 s1 where g: "BOFS_GetInodeData sb n bid lba s = Some (r, b, n1, s1)" "quiet sb s s1"
      using GetInodeData_returns [OF less.prems] by metis
    define chunk where "chunk = min (length src) (1024 - unat p mod 1024)"
    have c: "0 < chunk" "chunk \<le> length src" using False by (auto simp: chunk_def)
    define s2 where "s2 = put_block b (wr_bytes (if first then blk s1 b else zero_block) (unat p mod 1024) (take chunk src)) s1"
    have q: "quiet sb s s2" using g(2) by (simp add: s2_def)
    have "length (drop chunk src) < length src" using c False by auto
    from less.hyps [OF this quiet_faults [OF q], of False "bid + 1" b "p + of_nat chunk" "if change then n1\<lparr>i_size := p + of_nat chunk\<rparr> else n1"]
    obtain n' s' where r: "write_loop sb change False (bid + 1) b (p + of_nat chunk) (drop chunk src)
        (if change then n1\<lparr>i_size := p + of_nat chunk\<rparr> else n1) s2 =
        Some (True, p + of_nat chunk + of_nat (length (drop chunk src)), n', s')" "quiet sb s2 s'" by blast
    have "p + of_nat chunk + of_nat (length (drop chunk src)) = p + of_nat (length src)"
      using c(2) by (simp add: of_nat_diff)
    then show ?thesis
      using r quiet_trans [OF q r(2)] write_loop_step [OF False assms(2) quiet_faults [OF g(2)] g(1) refl chunk_def, of change first]
      by (simp add: s2_def)
  qed
qed

text \<open>A block of the range can be mapped, or is.\<close>

definition room :: "BOFS_SuperBlock \<Rightarrow> BOFS_Inode \<Rightarrow> bofs \<Rightarrow> bofs \<Rightarrow> nat \<Rightarrow> nat \<Rightarrow> bool" where
  "room sb n s s' p len \<longleftrightarrow> has_free sb s' \<or> (\<forall>i. p div 1024 \<le> i \<and> i * 1024 < p + len \<longrightarrow> node n s (file_path i) \<noteq> 0)"

lemma GetInodeData_room:
  assumes ok: "ready sb n s" "index < BLOCK_LV3" and g: "BOFS_GetInodeData sb n index old s = Some (r, b, n', s')"
    and room: "has_free sb s' \<or> node n s (file_path index) \<noteq> 0"
  shows "grows sb n s n' s'" "node n' s' (file_path index) = b" "b \<noteq> 0" "r = 0"
  using GetInodeData_ok [OF ok, of old] g room by (auto simp: get_ok_def mapped_def no_room_def)

definition write_ok :: "BOFS_SuperBlock \<Rightarrow> bool \<Rightarrow> bool \<Rightarrow> BOFS_Inode \<Rightarrow> bofs \<Rightarrow> u32 \<Rightarrow> u8 list \<Rightarrow> BOFS_Inode \<Rightarrow> bofs \<Rightarrow> bool" where
  "write_ok sb change first n s p src n' s' \<longleftrightarrow> ready sb n' s' \<and> frame sb n s n' s' \<and>
     (\<forall>x < 2 ^ 32. fbyte n' s' x = written first (unat p) src (fbyte n s) x) \<and>
     (\<forall>i. src \<noteq> [] \<and> unat p div 1024 \<le> i \<and> i * 1024 < unat p + length src \<longrightarrow> node n' s' (file_path i) \<noteq> 0) \<and>
     n' = n\<lparr>i_size := (if change \<and> src \<noteq> [] then p + of_nat (length src) else i_size n), i_blocks := i_blocks n'\<rparr>"

lemma written_Nil: "written first p [] old x = old x"
  by (auto simp: written_def)

lemma unat_plus_nat: "unat (p :: u32) + k < 2 ^ 32 \<Longrightarrow> unat (p + of_nat k) = unat p + k"
  by (subst unat_add_less) (simp_all add: unat_of_nat)

lemma frame_node: "frame sb n s n' s' \<Longrightarrow> leaf p \<Longrightarrow> node n s p \<noteq> 0 \<Longrightarrow> node n' s' p \<noteq> 0"
  by (simp add: frame_def leaf_def)

lemma write_loop_spec:
  assumes "ready sb n s" "write_loop sb change first bid lba p src n s = Some (True, q, n', s')"
    "room sb n s s' (unat p) (length src)" "unat p + length src < 2 ^ 32"
    "src \<noteq> [] \<longrightarrow> bid = unat p div 1024 \<and> (first \<or> unat p mod 1024 = 0)"
  shows "write_ok sb change first n s p src n' s'"
  using assms
proof (induction "length src" arbitrary: first bid lba p src n s rule: less_induct)
  case less
  show ?case
  proof (cases "src = []")
    case True
    then show ?thesis using less.prems(1,2)
      by (subst (asm) write_loop.simps) (simp add: write_ok_def written_Nil frame_refl)
  next
    case False
    note ok = less.prems(1) and fits = less.prems(4)
    define i where "i = unat p div 1024"
    define off where "off = unat p mod 1024"
    define chunk where "chunk = min (length src) (1024 - off)"
    have bid: "bid = i" and al: "first \<or> off = 0" using less.prems(5) False by (simp_all add: i_def off_def)
    have size: "blockSize sb = 1024" using readyD(1) [OF ok] by (simp add: volume_ok_def)
    have off: "off < 1024" by (simp add: off_def)
    then have c: "0 < chunk" "chunk \<le> length src" using False by (auto simp: chunk_def)
    obtain r b n1 s1 where g: "BOFS_GetInodeData sb n bid lba s = Some (r, b, n1, s1)" "quiet sb s s1"
      using GetInodeData_returns [OF readyD(2) [OF ok]] by metis
    define d where "d = wr_bytes (if first then blk s1 b else zero_block) off (take chunk src)"
    define s2 where "s2 = put_block b d s1"
    define m where "m = (if change then n1\<lparr>i_size := p + of_nat chunk\<rparr> else n1)"
    have rest: "write_loop sb change False (bid + 1) b (p + of_nat chunk) (drop chunk src) m s2 = Some (True, q, n', s')"
      using write_loop_step [OF False size quiet_faults [OF g(2)] g(1) off_def chunk_def, of change first] less.prems(2)
      by (simp add: m_def s2_def d_def)
    have f2: "faults s2 = []" using quiet_faults [OF g(2)] by (simp add: s2_def)
    have hf: "has_free sb s' \<Longrightarrow> has_free sb s1"
      using write_loop_returns [OF f2 size, of change False "bid + 1" b "p + of_nat chunk" "drop chunk src" m] rest quiet_free [of sb s2 s']
      by (auto simp: s2_def)
    have il: "i < BLOCK_LV3" using fits by (simp add: i_def block_index)
    have "i * 1024 < unat p + length src" using False div_times_less_eq_dividend [of "unat p" 1024] length_greater_0_conv [of src]
      unfolding i_def by (metis le_less_trans less_add_same_cancel1)
    then have "has_free sb s1 \<or> node n s (file_path i) \<noteq> 0" using less.prems(3) hf by (auto simp: room_def i_def)
    from GetInodeData_room [OF ok il g(1) [unfolded bid] this] have gr: "grows sb n s n1 s1" "node n1 s1 (file_path i) = b" "b \<noteq> 0" by blast+
    have r1: "ready sb n1 s1" using ready_grows [OF ok gr(1)] .
    have b0: "node n1 s1 (file_path i) \<noteq> 0" using gr by simp
    have s2: "s2 = s1\<lparr>blk := (blk s1)(node n1 s1 (file_path i) := d)\<rparr>" by (simp add: s2_def put_block_def gr(2))
    note wl = write_leaf [OF r1 leaf_file_path [OF il] b0, where d = d, folded s2]
    have fr: "frame sb n s m s2" using frame_trans [of sb n s n1 s1 n1 s2] gr(1) wl(3) by (simp add: grows_def m_def)
    have rm: "ready sb m s2" using wl(2) by (simp add: m_def)
    let ?p' = "p + of_nat chunk" and ?r = "drop chunk src"
    have p': "unat ?p' = unat p + chunk" using fits c by (intro unat_plus_nat) linarith
    have tot: "unat ?p' + length ?r = unat p + length src" using c(2) by (simp add: p')
    have next_i: "i + 1 = unat ?p' div 1024" "unat ?p' mod 1024 = 0" if "?r \<noteq> []"
    proof -
      have "chunk = 1024 - off" using that by (auto simp: chunk_def)
      then have "unat ?p' = (i + 1) * 1024" unfolding p' off_def i_def using next_block [of "unat p"] by simp
      then show "i + 1 = unat ?p' div 1024" "unat ?p' mod 1024 = 0" by simp_all
    qed
    have rm2: "room sb m s2 s' (unat ?p') (length ?r)"
    proof (cases "has_free sb s'")
      case False
      have "node m s2 (file_path j) \<noteq> 0" if "unat ?p' div 1024 \<le> j" "j * 1024 < unat ?p' + length ?r" for j
      proof -
        have "unat p div 1024 \<le> j" using that(1) div_le_mono [of "unat p" "unat ?p'" 1024] p' by linarith
        moreover have "j < BLOCK_LV3" using that(2) fits unfolding tot by (simp add: block_levels)
        ultimately show ?thesis using less.prems(3) that(2) False frame_node [OF fr leaf_file_path] unfolding room_def tot by blast
      qed
      then show ?thesis by (simp add: room_def)
    qed (simp add: room_def)
    have "length ?r < length src" "unat ?p' + length ?r < 2 ^ 32" using c fits tot by simp_all
    from less.hyps [OF this(1) rm rest rm2 this(2)] have IH: "write_ok sb change False m s2 ?p' ?r n' s'"
      using next_i bid by simp
    have data: "fbyte n' s' x = written first (unat p) src (fbyte n s) x" if x: "x < 2 ^ 32" for x
    proof -
      have 1: "fbyte n1 s1 x = fbyte n s x" by (rule fbyte_grows [OF gr(1) x])
      have 2: "fbyte m s2 x = (if x div 1024 = i then d (x mod 1024) else fbyte n1 s1 x)"
        using fbyte_write [OF r1 il b0 x, of d] by (simp add: m_def s2)
      have 3: "(if first then blk s1 b else zero_block) (x mod 1024) = (if first then fbyte n s x else 0)" if "x div 1024 = i"
        using 1 that gr(2,3) by (simp add: fbyte_def leaf_data_def zero_block_def)
      have "written False (unat p + chunk) ?r (fbyte m s2) x = written first (unat p) src (fbyte n s) x"
        by (rule written_step [OF False, where base = "if first then blk s1 b else zero_block"])
          (use al 1 2 3 in \<open>simp_all add: off_def i_def chunk_def d_def\<close>)
      then show ?thesis using IH x by (simp add: write_ok_def p')
    qed
    have maps: "node n' s' (file_path j) \<noteq> 0" if j: "i \<le> j" "j * 1024 < unat p + length src" for j
    proof (cases "j = i")
      case True
      have "node m s2 (file_path i) \<noteq> 0" using wl(1) leaf_file_path [OF il] b0 by (simp add: m_def leaf_def)
      then show ?thesis using frame_node [of sb m s2 n' s'] IH leaf_file_path [OF il] True by (simp add: write_ok_def)
    next
      case False
      have "(i + 1) * 1024 \<le> j * 1024" using False j(1) by (intro mult_le_mono1) simp
      moreover have "unat p + (1024 - off) = (i + 1) * 1024" unfolding off_def i_def by (rule next_block)
      ultimately have "1024 - off < length src" using j(2) by linarith
      then have "?r \<noteq> []" "unat ?p' div 1024 = i + 1" using next_i by (auto simp: chunk_def)
      then show ?thesis using IH j False tot by (simp add: write_ok_def)
    qed
    have "n1 = n\<lparr>i_blocks := i_blocks n1\<rparr>" using gr(1) by (simp add: grows_def)
    then obtain f where "n1 = n\<lparr>i_blocks := f\<rparr>" ..
    moreover have "?p' + of_nat (length ?r) = p + of_nat (length src)" using c(2) by (simp add: of_nat_diff)
    moreover have "?r = [] \<Longrightarrow> ?p' = p + of_nat (length src)" using c(2) by simp
    ultimately have "n' = n\<lparr>i_size := (if change \<and> src \<noteq> [] then p + of_nat (length src) else i_size n), i_blocks := i_blocks n'\<rparr>"
      using IH False by (cases "?r = []") (auto simp: write_ok_def m_def)
    then show ?thesis
      using IH data maps frame_trans [OF fr] by (simp add: write_ok_def i_def)
  qed
qed

section \<open>Inodes on disk\<close>

lemma get32_put32s: "get32 (put32s b i vs) j = (if i \<le> j \<and> j < i + length vs then vs ! (j - i) else get32 b j)"
  by (induction vs arbitrary: b i) (auto simp: nth_Cons')

text \<open>An inode has 15 block pointers and 9 reserved words.\<close>

definition wf_inode :: "BOFS_Inode \<Rightarrow> bool" where
  "wf_inode n \<longleftrightarrow> (\<forall>k. \<not> k < 15 \<longrightarrow> i_blocks n k = 0) \<and> (\<forall>k. \<not> k < 9 \<longrightarrow> i_reserved n k = 0)"

lemma mode_links: "ucast (ucast m OR push_bit 16 (ucast l) :: u32) = (m :: u16)"
    "ucast (drop_bit 16 (ucast m OR push_bit 16 (ucast l) :: u32)) = (l :: u16)"
  by (rule bit_word_eqI, auto simp: bit_simps dest: bit_imp_le_length)+

lemma length_inode_words: "length (inode_words n) = 32"
  by (simp add: inode_words_def)

lemma get_put_inode:
  assumes "wf_inode n" shows "get_inode (put_inode b k n) k = n"
proof -
  have w: "get32 (put_inode b k n) (32 * k + j) = inode_words n ! j" if "j < 32" for j
    using that by (simp add: put_inode_def get32_put32s length_inode_words)
  have blocks: "get32 (put_inode b k n) (32 * k + (8 + i)) = i_blocks n i" if "i < 15" for i
    using w [of "8 + i"] that by (simp add: inode_words_def nth_append)
  have reserved: "get32 (put_inode b k n) (32 * k + (23 + i)) = i_reserved n i" if "i < 9" for i
    using w [of "23 + i"] that by (simp add: inode_words_def nth_append)
  have "(\<lambda>i. if i < 15 then get32 (put_inode b k n) (32 * k + (8 + i)) else 0) = i_blocks n"
    using blocks assms by (auto simp: wf_inode_def fun_eq_iff)
  moreover have "(\<lambda>i. if i < 9 then get32 (put_inode b k n) (32 * k + (23 + i)) else 0) = i_reserved n"
    using reserved assms by (auto simp: wf_inode_def fun_eq_iff)
  ultimately show ?thesis
    using w [of 0] w [of 1] w [of 2] w [of 3] w [of 4] w [of 5] w [of 6] w [of 7]
    unfolding get_inode_def Let_def
    by (cases n) (simp add: inode_words_def nth_append mode_links mode_links(2) [unfolded drop_bit_or])
qed

lemma get_put_inode_other: "j \<noteq> k \<Longrightarrow> get_inode (put_inode b k n) j = get_inode b j"
proof -
  assume "j \<noteq> k"
  then have w: "get32 (put_inode b k n) (32 * j + i) = get32 b (32 * j + i)" if "i < 32" for i
    using that by (cases "j < k") (auto simp: put_inode_def get32_put32s length_inode_words)
  have "(if i < 15 then get32 (put_inode b k n) (32 * j + (8 + i)) else 0) = (if i < 15 then get32 b (32 * j + (8 + i)) else 0)"
    "(if i < 9 then get32 (put_inode b k n) (32 * j + (23 + i)) else 0) = (if i < 9 then get32 b (32 * j + (23 + i)) else 0)" for i
    using w [of "8 + i"] w [of "23 + i"] by auto
  then show ?thesis using w [of 0] w [of 1] w [of 2] w [of 3] w [of 4] w [of 5] w [of 6] w [of 7]
    unfolding get_inode_def Let_def by simp
qed

text \<open>Writing a block that lies before the data does not concern the file.\<close>

lemma write_meta:
  fixes d :: block
  assumes ok: "ready sb n s" and b: "unat b < unat (dataStartLba sb)"
  shows "vpath q \<Longrightarrow> node n (put_block b d s) q = node n s q" "ready sb n (put_block b d s)" "frame sb n s n (put_block b d s)"
    "leaf q \<Longrightarrow> leaf_data n (put_block b d s) q = leaf_data n s q"
proof -
  let ?s = "put_block b d s"
  note fk = readyD(3) [OF ok]
  have nb: "x \<noteq> b" if "used sb s x" for x using used_data [OF that] b by auto
  have us: "used sb ?s = used sb s" by (simp add: put_block_def)
  have nd: "vpath q \<Longrightarrow> node n ?s q = node n s q" for q
  proof (induction q rule: list.induct)
    case (Cons i r)
    show ?case
    proof (cases "r = []")
      case False
      have vr: "vpath r" using Cons.prems False by (rule vpath_tail)
      show ?thesis using Cons.IH [OF vr] False nb [OF file_okD(1) [OF fk vr]] by (simp add: node_Cons put_block_def)
    qed simp
  qed simp
  show "vpath q \<Longrightarrow> node n ?s q = node n s q" by (rule nd)
  have "file_ok sb n ?s" unfolding file_ok_def us
  proof (intro conjI allI impI)
    fix q assume "vpath q \<and> node n ?s q \<noteq> 0"
    then show "used sb s (node n ?s q)" using nd [of q] file_okD(1) [OF fk, of q] by metis
  next
    fix q r assume "vpath q \<and> vpath r \<and> node n ?s q \<noteq> 0 \<and> node n ?s q = node n ?s r"
    then show "q = r" using nd [of q] nd [of r] file_okD(2) [OF fk, of q r] by metis
  qed
  then show "ready sb n ?s" using ok by (simp add: ready_def)
  have "blk ?s x = blk s x" if "used sb s x" for x using nb [OF that] by (simp add: put_block_def)
  moreover have "kept sb s ?s" by (simp add: put_block_def)
  moreover have "node n ?s q \<noteq> 0 \<Longrightarrow> vpath q \<Longrightarrow> node n s q = 0 \<Longrightarrow> False" for q using nd [of q] by metis
  ultimately show "frame sb n s n ?s" using nd unfolding frame_def us by blast
  show "leaf_data n ?s q = leaf_data n s q" if "leaf q"
  proof -
    have vq: "vpath q" using that by (simp add: leaf_def)
    show ?thesis using nd [OF vq] nb [OF file_okD(1) [OF fk vq]] by (simp add: leaf_data_def put_block_def)
  qed
qed

lemma wf_frame: "frame sb n s n' s' \<Longrightarrow> wf_inode n \<Longrightarrow> i_reserved n' = i_reserved n \<Longrightarrow> wf_inode n'"
  by (simp add: wf_inode_def frame_def)

section \<open>Writing a file\<close>

definition start_pos :: "BOFS_FileDescriptor \<Rightarrow> BOFS_Inode \<Rightarrow> u32" where
  "start_pos f n = (if f_pos f > i_size n then i_size n else f_pos f)"

lemma FileWrite_spec:
  assumes ok: "ready sb n s" and wf: "wf_inode n" and f: "f_inode f = Some n" and fits: "unat (start_pos f n) + length src < 2 ^ 32"
    and ne: "src \<noteq> []"
  defines "p \<equiv> start_pos f n"
  obtains n' s' where "BOFS_FileWrite sb f src s = Some (int (length src), f\<lparr>f_pos := p + of_nat (length src), f_inode := Some n'\<rparr>, s')"
    "faults s' = []"
    "room sb n s s' (unat p) (length src) \<Longrightarrow> write_ok sb (p + of_nat (length src) > i_size n) True n s p src n' s' \<and>
       (\<forall>old. BOFS_LoadInodeByID sb (i_id n) old s' = (0, n', s'))"
proof -
  have size: "blockSize sb = 1024" using readyD(1) [OF ok] by (simp add: volume_ok_def)
  let ?ch = "p + of_nat (length src) > i_size n"
  obtain n' s1 where w: "write_loop sb ?ch True (unat p div 1024) (junk_lba s) p src n s = Some (True, p + of_nat (length src), n', s1)"
    "quiet sb s s1" using write_loop_returns [OF readyD(2) [OF ok] size] by blast
  define s' where "s' = snd (BOFS_SyncInode sb n' s1)"
  have f1: "faults s1 = []" using quiet_faults [OF w(2)] .
  have s': "s' = put_block (inode_lba sb (i_id n')) (put_inode (blk s1 (inode_lba sb (i_id n'))) (inode_slot sb (i_id n')) n') s1"
    by (simp add: s'_def SyncInode_ok [OF f1] put_block_def)
  have run: "BOFS_FileWrite sb f src s = Some (int (length src), f\<lparr>f_pos := p + of_nat (length src), f_inode := Some n'\<rparr>, s')"
    using f w(1) readyD(2) [OF ok] size
    by (cases "f_pos f > i_size n") (simp_all add: BOFS_FileWrite_def p_def start_pos_def s'_def unat_div Let_def)
  show ?thesis
  proof (rule that [OF run])
    show "faults s' = []" using f1 by (simp add: s')
    assume r: "room sb n s s' (unat p) (length src)"
    have "has_free sb s' = has_free sb s1" by (simp add: s')
    then have "room sb n s s1 (unat p) (length src)" using r by (simp add: room_def)
    from write_loop_spec [OF ok w(1) this] fits have ok1: "write_ok sb ?ch True n s p src n' s1" by (simp add: p_def)
    then have r1: "ready sb n' s1" and n': "n' = n\<lparr>i_size := (if ?ch \<and> src \<noteq> [] then p + of_nat (length src) else i_size n), i_blocks := i_blocks n'\<rparr>"
      and fr: "frame sb n s n' s1" unfolding write_ok_def by blast+
    have id: "i_id n' = i_id n" "i_reserved n' = i_reserved n" by (subst n', simp)+
    have lba: "unat (inode_lba sb (i_id n')) < unat (dataStartLba sb)" using readyD(4) [OF r1] by (simp add: inode_ok_def)
    note m = write_meta [OF r1 lba, where d = "put_inode (blk s1 (inode_lba sb (i_id n'))) (inode_slot sb (i_id n')) n'", folded s']
    have leaf: "leaf_data n' s' (file_path i) = leaf_data n' s1 (file_path i)" "node n' s' (file_path i) = node n' s1 (file_path i)"
      if "i < BLOCK_LV3" for i using m leaf_file_path [OF that] by (simp_all add: leaf_def)
    have "write_ok sb ?ch True n s p src n' s'"
      unfolding write_ok_def
    proof (intro conjI allI impI)
      fix x :: nat assume "x < 2 ^ 32"
      then show "fbyte n' s' x = written True (unat p) src (fbyte n s) x"
        using ok1 leaf [OF block_index] by (simp add: write_ok_def fbyte_def)
    next
      fix i assume i: "src \<noteq> [] \<and> unat p div 1024 \<le> i \<and> i * 1024 < unat p + length src"
      then have "i < BLOCK_LV3" using fits by (simp add: p_def block_levels)
      then show "node n' s' (file_path i) \<noteq> 0" using ok1 i leaf by (simp add: write_ok_def)
    qed (use m frame_trans [OF fr] n' in blast)+
    moreover have "get_inode (blk s' (inode_lba sb (i_id n))) (inode_slot sb (i_id n)) = n'"
      using get_put_inode [OF wf_frame [OF fr wf id(2)]] by (simp add: s' put_block_def id)
    then have "BOFS_LoadInodeByID sb (i_id n) old s' = (0, n', s')" for old
      using f1 by (simp add: BOFS_LoadInodeByID_def s')
    ultimately show "write_ok sb ?ch True n s p src n' s' \<and> (\<forall>old. BOFS_LoadInodeByID sb (i_id n) old s' = (0, n', s'))" by blast
  qed
qed

section \<open>Reading a file\<close>

lemma read_loop_step:
  assumes "left \<noteq> 0" "blockSize sb = 1024" "faults s1 = []" "BOFS_GetInodeData sb n bid lba s = Some (r, b, n1, s1)"
    "off = unat p mod 1024" "chunk = min left (1024 - off)"
  shows "read_loop sb bid lba p left dst n s =
    read_loop sb (bid + 1) b (p + of_nat chunk) (left - chunk) (dst @ rd_bytes (blk s1 b) off chunk) n1 s1"
  using assms by (subst read_loop.simps) (simp add: Let_def unat_mod)

lemma read_loop_returns:
  assumes "faults s = []" "blockSize sb = 1024"
  shows "\<exists>bs n' s'. read_loop sb bid lba p left dst n s = Some (Some (dst @ bs), p + of_nat left, n', s') \<and> length bs = left \<and> quiet sb s s'"
  using assms(1)
proof (induction left arbitrary: bid lba p dst n s rule: less_induct)
  case (less left)
  show ?case
  proof (cases "left = 0")
    case True
    then show ?thesis using less.prems by (subst read_loop.simps) (simp add: quiet_refl)
  next
    case False
    obtain r b n1 s1 where g: "BOFS_GetInodeData sb n bid lba s = Some (r, b, n1, s1)" "quiet sb s s1"
      using GetInodeData_returns [OF less.prems] by metis
    define chunk where "chunk = min left (1024 - unat p mod 1024)"
    have c: "chunk \<le> left" "left - chunk < left" using False by (auto simp: chunk_def)
    let ?d = "rd_bytes (blk s1 b) (unat p mod 1024) chunk"
    from less.IH [OF c(2) quiet_faults [OF g(2)], of "bid + 1" b "p + of_nat chunk" "dst @ ?d" n1]
    obtain bs n' s' where r: "read_loop sb (bid + 1) b (p + of_nat chunk) (left - chunk) (dst @ ?d) n1 s1 =
        Some (Some ((dst @ ?d) @ bs), p + of_nat chunk + of_nat (left - chunk), n', s')" "length bs = left - chunk" "quiet sb s1 s'" by blast
    have "p + of_nat chunk + of_nat (left - chunk) = p + of_nat left" using c(1) by (simp add: of_nat_diff)
    then have "read_loop sb bid lba p left dst n s = Some (Some (dst @ (?d @ bs)), p + of_nat left, n', s')"
      using r(1) read_loop_step [OF False assms(2) quiet_faults [OF g(2)] g(1) refl chunk_def, of dst] by simp
    moreover have "length (?d @ bs) = left" using r(2) c(1) by simp
    ultimately show ?thesis using quiet_trans [OF g(2) r(3)] by blast
  qed
qed

lemma block_offset: "p mod 1024 + k < (1024 :: nat) \<Longrightarrow> (p + k) div 1024 = p div 1024 \<and> (p + k) mod 1024 = p mod 1024 + k"
proof -
  assume k: "p mod 1024 + k < 1024"
  have "a = q * 1024 + r \<Longrightarrow> r + k < 1024 \<Longrightarrow> (a + k) div 1024 = q \<and> (a + k) mod 1024 = r + k" for a q r :: nat
    using div_mult_self3 [of 1024 q "r + k"] mod_mult_self3 [of q 1024 "r + k"] by (simp add: add.assoc)
  from this [of p "p div 1024" "p mod 1024"] k show ?thesis by simp
qed

lemma map_upt_split: "(a :: nat) \<le> b \<Longrightarrow> b \<le> c \<Longrightarrow> map f [a..<c] = map f [a..<b] @ map f [b..<c]"
  by (metis map_append upt_add_eq_append le_add_diff_inverse)

lemma read_loop_spec:
  assumes "ready sb n s" "read_loop sb bid lba p left dst n s = Some (Some out, q, n', s')"
    "room sb n s s' (unat p) left" "unat p + left < 2 ^ 32" "left \<noteq> 0 \<longrightarrow> bid = unat p div 1024"
  shows "out = dst @ map (fbyte n s) [unat p..<unat p + left] \<and> grows sb n s n' s'"
  using assms
proof (induction left arbitrary: bid lba p dst n s rule: less_induct)
  case (less left)
  show ?case
  proof (cases "left = 0")
    case True
    then show ?thesis using less.prems(1,2) readyD(3)
      by (subst (asm) read_loop.simps) (simp add: grows_refl)
  next
    case False
    note ok = less.prems(1) and fits = less.prems(4)
    define i where "i = unat p div 1024"
    define off where "off = unat p mod 1024"
    define chunk where "chunk = min left (1024 - off)"
    have bid: "bid = i" using less.prems(5) False by (simp add: i_def)
    have size: "blockSize sb = 1024" using readyD(1) [OF ok] by (simp add: volume_ok_def)
    have off: "off < 1024" by (simp add: off_def)
    then have c: "0 < chunk" "chunk \<le> left" "chunk \<le> 1024 - off" "left - chunk < left" using False by (auto simp: chunk_def)
    obtain r b n1 s1 where g: "BOFS_GetInodeData sb n bid lba s = Some (r, b, n1, s1)" "quiet sb s s1"
      using GetInodeData_returns [OF readyD(2) [OF ok]] by metis
    let ?d = "rd_bytes (blk s1 b) off chunk" and ?p' = "p + of_nat chunk"
    have rest: "read_loop sb (bid + 1) b ?p' (left - chunk) (dst @ ?d) n1 s1 = Some (Some out, q, n', s')"
      using read_loop_step [OF False size quiet_faults [OF g(2)] g(1) off_def chunk_def, of dst] less.prems(2) by simp
    have hf: "has_free sb s' \<Longrightarrow> has_free sb s1"
      using read_loop_returns [OF quiet_faults [OF g(2)] size, of "bid + 1" b ?p' "left - chunk" "dst @ ?d" n1] rest quiet_free [of sb s1 s']
      by auto
    have il: "i < BLOCK_LV3" using fits by (simp add: i_def block_index)
    have "i * 1024 < unat p + left" using False div_times_less_eq_dividend [of "unat p" 1024]
      unfolding i_def by (metis le_less_trans less_add_same_cancel1 neq0_conv)
    then have "has_free sb s1 \<or> node n s (file_path i) \<noteq> 0" using less.prems(3) hf by (auto simp: room_def i_def)
    from GetInodeData_room [OF ok il g(1) [unfolded bid] this] have gr: "grows sb n s n1 s1" "node n1 s1 (file_path i) = b" "b \<noteq> 0" by blast+
    have p': "unat ?p' = unat p + chunk" using fits c by (intro unat_plus_nat) linarith
    have tot: "unat ?p' + (left - chunk) = unat p + left" using c(2) by (simp add: p')
    have next_i: "i + 1 = unat ?p' div 1024" if "left - chunk \<noteq> 0"
    proof -
      have "chunk = 1024 - off" using that by (auto simp: chunk_def)
      then have "unat ?p' = (i + 1) * 1024" unfolding p' off_def i_def using next_block [of "unat p"] by simp
      then show "i + 1 = unat ?p' div 1024" by simp
    qed
    have rm2: "room sb n1 s1 s' (unat ?p') (left - chunk)"
    proof (cases "has_free sb s'")
      case False
      have "node n1 s1 (file_path j) \<noteq> 0" if "unat ?p' div 1024 \<le> j" "j * 1024 < unat ?p' + (left - chunk)" for j
      proof -
        have "unat p div 1024 \<le> j" using that(1) div_le_mono [of "unat p" "unat ?p'" 1024] p' by linarith
        moreover have "j < BLOCK_LV3" using that(2) fits unfolding tot by (simp add: block_levels)
        ultimately show ?thesis using less.prems(3) that(2) False gr(1) frame_node [OF _ leaf_file_path, of sb n s n1 s1 j]
          unfolding room_def tot grows_def by blast
      qed
      then show ?thesis by (simp add: room_def)
    qed (simp add: room_def)
    have fits': "unat ?p' + (left - chunk) < 2 ^ 32" using fits tot by simp
    have IH: "out = (dst @ ?d) @ map (fbyte n1 s1) [unat ?p'..<unat ?p' + (left - chunk)] \<and> grows sb n1 s1 n' s'"
      using less.IH [OF c(4) ready_grows [OF ok gr(1)] rest rm2 fits'] next_i bid by simp
    have same: "fbyte n1 s1 x = fbyte n s x" if "x < unat p + left" for x by (rule fbyte_grows [OF gr(1)]) (use that fits in linarith)
    have "?d = map (fbyte n s) [unat p..<unat p + chunk]"
    proof (rule nth_equalityI)
      fix k assume "k < length ?d"
      then have k: "k < chunk" by simp
      then have "off + k < 1024" using c(3) by linarith
      then have "(unat p + k) div 1024 = i \<and> (unat p + k) mod 1024 = off + k"
        unfolding i_def off_def by (rule block_offset)
      then have "fbyte n1 s1 (unat p + k) = blk s1 b (off + k)" using gr(2,3) by (simp add: fbyte_def leaf_data_def)
      then show "?d ! k = map (fbyte n s) [unat p..<unat p + chunk] ! k" using same [of "unat p + k"] k c(2) by simp
    qed simp
    moreover have "map (fbyte n1 s1) [unat ?p'..<unat ?p' + (left - chunk)] = map (fbyte n s) [unat p + chunk..<unat p + left]"
      using tot same c(2) by (simp add: p')
    ultimately show ?thesis using IH grows_trans [OF gr(1)] map_upt_split [of "unat p" "unat p + chunk" "unat p + left" "fbyte n s"] c(2) by simp
  qed
qed

lemma FileRead_spec:
  assumes ok: "ready sb n s" and f: "f_inode f = Some n" and fits: "unat (f_pos f) + unat cnt < 2 ^ 32"
    and len: "len = min (unat cnt) (unat (i_size n) - unat (f_pos f))" "len \<noteq> 0"
  obtains bs n' s' where "BOFS_FileRead sb f cnt s = Some (Some bs, f\<lparr>f_pos := f_pos f + of_nat len, f_inode := Some n'\<rparr>, s')"
    "faults s' = []" "length bs = len"
    "room sb n s s' (unat (f_pos f)) len \<Longrightarrow>
       bs = map (fbyte n s) [unat (f_pos f)..<unat (f_pos f) + len] \<and> grows sb n s n' s'"
proof -
  let ?p = "f_pos f"
  have size: "blockSize sb = 1024" using readyD(1) [OF ok] by (simp add: volume_ok_def)
  obtain bs n' s' where r: "read_loop sb (unat ?p div 1024) (junk_lba s) ?p len [] n s = Some (Some bs, ?p + of_nat len, n', s')"
    "length bs = len" "quiet sb s s'" using read_loop_returns [OF readyD(2) [OF ok] size, of "unat ?p div 1024" "junk_lba s" ?p len "[]" n] by auto
  have sum: "unat (?p + cnt) = unat ?p + unat cnt" using fits by (rule unat_add_less)
  have "unat (if ?p + cnt > i_size n then i_size n - ?p else cnt) = len \<and> \<not> (?p + cnt > i_size n \<and> i_size n = ?p)"
    using len sum by (auto simp: word_less_nat_alt unat_sub word_le_nat_alt)
  then have "BOFS_FileRead sb f cnt s = Some (Some bs, f\<lparr>f_pos := ?p + of_nat len, f_inode := Some n'\<rparr>, s')"
    using f r(1) readyD(2) [OF ok] size by (simp add: BOFS_FileRead_def Let_def unat_div)
  then show ?thesis
    using that [of bs n' s'] r read_loop_spec [OF ok r(1)] fits len quiet_faults [OF r(3)] by auto
qed

section \<open>The calls\<close>

text \<open>An open descriptor of a normal file, for reading and writing.\<close>

definition open_file :: "BOFS_SuperBlock \<Rightarrow> int \<Rightarrow> nat \<Rightarrow> BOFS_Inode \<Rightarrow> files \<Rightarrow> bool" where
  "open_file sb fd g n S \<longleftrightarrow> 0 \<le> fd \<and> fd < 32 \<and> fdTable S (nat fd) = int g \<and> g < BOFS_MAX_FD_NR \<and>
     f_inode (fdtab S g) = Some n \<and> map_option d_type (f_dirEntry (fdtab S g)) = Some BOFS_FILE_TYPE_NORMAL \<and>
     f_flags (fdtab S g) AND BOFS_FLAGS_PIPE = 0 \<and> f_flags (fdtab S g) AND BOFS_O_RDWR \<noteq> 0 \<and>
     i_mode n AND ucast BOFS_IMODE_W \<noteq> 0 \<and> i_mode n AND ucast BOFS_IMODE_R \<noteq> 0 \<and> wf_inode n"

definition set_file :: "nat \<Rightarrow> BOFS_FileDescriptor \<Rightarrow> bofs \<Rightarrow> files \<Rightarrow> files" where
  "set_file g f s S = upd_fd g (\<lambda>_. f) (S\<lparr>fs := s\<rparr>)"

lemma set_file_simps [simp]: "fs (set_file g f s S) = s" "fdtab (set_file g f s S) = (fdtab S)(g := f)" "fdTable (set_file g f s S) = fdTable S"
  by (simp_all add: set_file_def upd_fd_def)

lemma open_file_calls:
  assumes o: "open_file sb fd g n S"
  shows "src \<noteq> [] \<Longrightarrow> BOFS_FileWrite sb (fdtab S g) src (fs S) = Some (r, f, s) \<Longrightarrow>
      BOFS_Write sb fd src other S = Some (r, set_file g f s S)"
    and "cnt \<noteq> 0 \<Longrightarrow> BOFS_FileRead sb (fdtab S g) cnt (fs S) = Some (b, f, s) \<Longrightarrow>
      BOFS_Read sb fd cnt other' S = Some (b, set_file g f s S)"
    and "0 \<le> off \<Longrightarrow> off \<le> sint (i_size n) \<Longrightarrow>
      BOFS_Lseek fd off BOFS_SEEK_SET S = Some (off, set_file g ((fdtab S g)\<lparr>f_pos := word_of_int off\<rparr>) (fs S) S)"
proof -
  from o obtain e where e: "f_dirEntry (fdtab S g) = Some e" "d_type e = BOFS_FILE_TYPE_NORMAL" by (auto simp: open_file_def)
  have gfd: "global_fd fd S = Some g" using o by (simp add: open_file_def global_fd_def FdLocal2Global_def)
  note facts = o [unfolded open_file_def] e gfd
  show "src \<noteq> [] \<Longrightarrow> BOFS_FileWrite sb (fdtab S g) src (fs S) = Some (r, f, s) \<Longrightarrow>
      BOFS_Write sb fd src other S = Some (r, set_file g f s S)"
    using facts by (simp add: BOFS_Write_def MAX_OPEN_FILES_def is_pipe_def set_file_def)
  show "cnt \<noteq> 0 \<Longrightarrow> BOFS_FileRead sb (fdtab S g) cnt (fs S) = Some (b, f, s) \<Longrightarrow>
      BOFS_Read sb fd cnt other' S = Some (b, set_file g f s S)"
    using facts by (simp add: BOFS_Read_def MAX_OPEN_FILES_def is_pipe_def set_file_def)
  show "0 \<le> off \<Longrightarrow> off \<le> sint (i_size n) \<Longrightarrow>
      BOFS_Lseek fd off BOFS_SEEK_SET S = Some (off, set_file g ((fdtab S g)\<lparr>f_pos := word_of_int off\<rparr>) (fs S) S)"
    using facts by (simp add: BOFS_Lseek_def MAX_OPEN_FILES_def is_pipe_def set_file_def upd_fd_def)
qed

lemma open_file_set:
  assumes "open_file sb fd g n S" "f_inode f = Some n'" "f_dirEntry f = f_dirEntry (fdtab S g)" "f_flags f = f_flags (fdtab S g)"
    "i_mode n' = i_mode n" "wf_inode n'"
  shows "open_file sb fd g n' (set_file g f s S)"
  using assms by (simp add: open_file_def)

end
