(* ===== verification/BofsSpec.thy ===== *)
theory BofsSpec
  imports BofsData
begin

text \<open>
  What BOFS promises for files, stated of the calls: a file is the list of its bytes, \<open>BOFS_Write\<close> replaces a part of it or
  extends it, \<open>BOFS_Read\<close> returns a part. The errors at the end of the theory are where the code does something else.
\<close>

definition file_bytes :: "BOFS_Inode \<Rightarrow> bofs \<Rightarrow> u8 list" where
  "file_bytes n s = map (fbyte n s) [0..<unat (i_size n)]"

lemma length_file_bytes [simp]: "length (file_bytes n s) = unat (i_size n)"
  by (simp add: file_bytes_def)

lemma nth_file_bytes [simp]: "x < unat (i_size n) \<Longrightarrow> file_bytes n s ! x = fbyte n s x"
  by (simp add: file_bytes_def)

lemma part_of_map: "p \<le> m \<Longrightarrow> take k (drop p (map f [0..<m])) = map f [p..<p + min k (m - p)]"
  by (rule nth_equalityI) auto

lemma sint_small: "unat (w :: u32) < 2 ^ 31 \<Longrightarrow> sint w = int (unat w)"
proof -
  have "i < 2 ^ 31 \<Longrightarrow> sint (word_of_nat i :: u32) = int i" for i :: nat
    by (simp add: signed_of_nat signed_take_bit_int_eq_self)
  from this [of "unat w"] show "unat w < 2 ^ 31 \<Longrightarrow> sint w = int (unat w)" by simp
qed

lemma size_bound: "unat (w :: u32) < 2 ^ 32"
  using unsigned_less [of w] by simp

section \<open>A small volume\<close>

text \<open>A volume of 8 data blocks from block 10 on, and files with direct blocks, for the examples below.\<close>

definition small_sb :: BOFS_SuperBlock where
  "small_sb = \<lparr>magic = BOFS_SUPER_BLOCK_MAGIC, devno = 0, totalSectors = 18, superBlockLba = 1, sectorBitmapLba = 2,
     sectorBitmapSectors = 1, inodeBitmapLba = 3, inodeBitmapSectors = 1, inodeTableLba = 4, inodeTableSectors = 1,
     dataStartLba = 10, rootInodeId = 0, inodeNrInSector = 8, direntryNrInSector = 4, maxInodes = 8, blockSize = 1024,
     sectorBitmap = \<lparr>btmpBytesLen = 1, bits = 100\<rparr>, inodeBitmap = \<lparr>btmpBytesLen = 1, bits = 200\<rparr>, rootDir = no_entry\<rparr>"

definition small_inode :: "u32 \<Rightarrow> u32 \<Rightarrow> u32 \<Rightarrow> BOFS_Inode" where
  "small_inode b0 b1 sz = zero_inode\<lparr>i_id := 1, i_mode := 3, i_size := sz, i_blocks := (\<lambda>_. 0)(0 := b0, 1 := b1)\<rparr>"

definition small_fs :: "u8 \<Rightarrow> (u32 \<Rightarrow> block) \<Rightarrow> bofs" where
  "small_fs m f = \<lparr>kmem = (\<lambda>_. 0)(100 := m), blk = f, faults = [], xfsz = 0, now = 0, junk_inode = zero_inode, junk_lba = 15\<rparr>"

definition small_files :: "BOFS_Inode \<Rightarrow> u32 \<Rightarrow> bofs \<Rightarrow> files" where
  "small_files n p s = \<lparr>fs = s, fdtab = (\<lambda>_. free_fd)(7 := \<lparr>f_pos = p, f_flags = BOFS_O_RDWR, f_reference = 1,
     f_dirEntry = Some (BOFS_CreateDirEntry 1 BOFS_FILE_TYPE_NORMAL [97]), f_parentEntry = Some no_entry, f_inode = Some n\<rparr>),
     fdTable = (\<lambda>_. -1)(0 := 7)\<rparr>"

lemma direct_path: "\<forall>k \<ge> 12. i_blocks n k = 0 \<Longrightarrow> vpath p \<Longrightarrow> node n s p \<noteq> 0 \<Longrightarrow> \<exists>k < 12. p = [k]"
proof (induction p rule: list.induct)
  case (Cons i r)
  show ?case
  proof (cases "r = []")
    case True
    then show ?thesis using Cons.prems(1,3) by (auto simp: not_less [symmetric])
  next
    case False
    then obtain k where "k < 12" "r = [k]"
      using Cons.IH [OF Cons.prems(1) vpath_tail [OF Cons.prems(2)]] Cons.prems(3) by (auto simp: node_Cons split: if_splits)
    then show ?thesis using Cons.prems(2) by (auto simp: vpath_def hgt_def)
  qed
qed (simp add: vpath_def)

lemma small_ready:
  assumes "b0 = 10" "b1 = 0 \<or> b1 = 11" "m = 3 \<or> m = 255"
  shows "ready small_sb (small_inode b0 b1 sz) (small_fs m f)"
proof -
  have nodes: "vpath p \<Longrightarrow> node (small_inode b0 b1 sz) (small_fs m f) p \<noteq> 0 \<Longrightarrow> p = [0] \<or> p = [1] \<and> b1 = 11" for p
    using direct_path [of "small_inode b0 b1 sz" p "small_fs m f"] assms(2) by (auto simp: small_inode_def split: if_splits)
  have bits: "used small_sb (small_fs m f) 10" "used small_sb (small_fs m f) 11"
    using assms(3) by (auto simp: used_def small_sb_def small_fs_def BitmapScanTest_def)
  have "file_ok small_sb (small_inode b0 b1 sz) (small_fs m f)"
    unfolding file_ok_def
  proof (intro conjI allI impI)
    fix p assume "vpath p \<and> node (small_inode b0 b1 sz) (small_fs m f) p \<noteq> 0"
    then show "used small_sb (small_fs m f) (node (small_inode b0 b1 sz) (small_fs m f) p)"
      using nodes [of p] bits assms by (auto simp: small_inode_def)
  next
    fix p q assume "vpath p \<and> vpath q \<and> node (small_inode b0 b1 sz) (small_fs m f) p \<noteq> 0 \<and>
      node (small_inode b0 b1 sz) (small_fs m f) p = node (small_inode b0 b1 sz) (small_fs m f) q"
    then show "p = q" using nodes [of p] nodes [of q] assms by (auto simp: small_inode_def)
  qed
  then show ?thesis
    by (simp add: ready_def volume_ok_def inode_ok_def inode_lba_def small_sb_def small_fs_def small_inode_def zero_inode_def SECTOR_SIZE_def)
qed

lemma small_open: "open_file small_sb 0 7 (small_inode b0 b1 sz) (small_files (small_inode b0 b1 sz) p s)"
  by (simp add: open_file_def small_files_def BOFS_MAX_FD_NR_def BOFS_CreateDirEntry_def BOFS_FLAGS_PIPE_def BOFS_O_RDWR_def
      BOFS_IMODE_W_def BOFS_IMODE_R_def small_inode_def zero_inode_def wf_inode_def)

section \<open>Writing and reading\<close>

lemma Write_call:
  assumes o: "open_file sb fd g n S" and ok: "ready sb n (fs S)" and ne: "src \<noteq> []"
    and p: "p = unat (start_pos (fdtab S g) n)" "p + length src < 2 ^ 32"
  obtains n' S' where "BOFS_Write sb fd src other S = Some (int (length src), S')"
    "room sb n (fs S) (fs S') p (length src) \<Longrightarrow> open_file sb fd g n' S'"
    "room sb n (fs S) (fs S') p (length src) \<Longrightarrow> ready sb n' (fs S')"
    "room sb n (fs S) (fs S') p (length src) \<Longrightarrow> frame sb n (fs S) n' (fs S')"
    "room sb n (fs S) (fs S') p (length src) \<Longrightarrow> \<forall>x < 2 ^ 32. fbyte n' (fs S') x = written True p src (fbyte n (fs S)) x"
    "room sb n (fs S) (fs S') p (length src) \<Longrightarrow> unat (i_size n') = max (unat (i_size n)) (p + length src)"
    "room sb n (fs S) (fs S') p (length src) \<Longrightarrow> \<forall>i. p div 1024 \<le> i \<and> i * 1024 < p + length src \<longrightarrow> node n' (fs S') (file_path i) \<noteq> 0"
    "room sb n (fs S) (fs S') p (length src) \<Longrightarrow> \<forall>old. BOFS_LoadInodeByID sb (i_id n) old (fs S') = (0, n', fs S')"
    "f_pos (fdtab S' g) = of_nat (p + length src)"
proof -
  let ?f = "fdtab S g" and ?p = "start_pos (fdtab S g) n"
  have f: "f_inode ?f = Some n" "wf_inode n" using o by (simp_all add: open_file_def)
  obtain n' s' where w: "BOFS_FileWrite sb ?f src (fs S) = Some (int (length src), ?f\<lparr>f_pos := ?p + of_nat (length src), f_inode := Some n'\<rparr>, s')"
    "faults s' = []"
    "room sb n (fs S) s' (unat ?p) (length src) \<Longrightarrow> write_ok sb (?p + of_nat (length src) > i_size n) True n (fs S) ?p src n' s' \<and>
       (\<forall>old. BOFS_LoadInodeByID sb (i_id n) old s' = (0, n', s'))"
    by (rule FileWrite_spec [OF ok f(2,1) p(2) [unfolded p(1)] ne]) (rule that)
  let ?f' = "?f\<lparr>f_pos := ?p + of_nat (length src), f_inode := Some n'\<rparr>"
  show ?thesis
  proof (rule that [where n' = n'])
    show "BOFS_Write sb fd src other S = Some (int (length src), set_file g ?f' s' S)"
      by (rule open_file_calls(1) [OF o ne w(1)])
    show "f_pos (fdtab (set_file g ?f' s' S) g) = of_nat (p + length src)" by (simp add: p(1))
  next
    assume r: "room sb n (fs S) (fs (set_file g ?f' s' S)) p (length src)"
    then have ok': "write_ok sb (?p + of_nat (length src) > i_size n) True n (fs S) ?p src n' s'"
      and disk: "\<forall>old. BOFS_LoadInodeByID sb (i_id n) old s' = (0, n', s')" using w(3) by (simp_all add: p(1))
    have n': "n' = n\<lparr>i_size := (if ?p + of_nat (length src) > i_size n \<and> src \<noteq> [] then ?p + of_nat (length src) else i_size n), i_blocks := i_blocks n'\<rparr>"
      and fr: "frame sb n (fs S) n' s'" using ok' unfolding write_ok_def by blast+
    have same: "i_mode n' = i_mode n" "i_reserved n' = i_reserved n" by (subst n', simp)+
    show "open_file sb fd g n' (set_file g ?f' s' S)"
      by (rule open_file_set [OF o]) (simp_all add: same wf_frame [OF fr f(2) same(2)])
    have "unat (?p + of_nat (length src)) = p + length src" using p unat_plus_nat by simp
    then show "unat (i_size n') = max (unat (i_size n)) (p + length src)"
      by (subst n') (use ne in \<open>simp add: word_less_nat_alt max_def\<close>)
    show "ready sb n' (fs (set_file g ?f' s' S))" "frame sb n (fs S) n' (fs (set_file g ?f' s' S))"
      "\<forall>old. BOFS_LoadInodeByID sb (i_id n) old (fs (set_file g ?f' s' S)) = (0, n', fs (set_file g ?f' s' S))"
      "\<forall>x < 2 ^ 32. fbyte n' (fs (set_file g ?f' s' S)) x = written True p src (fbyte n (fs S)) x"
      "\<forall>i. p div 1024 \<le> i \<and> i * 1024 < p + length src \<longrightarrow> node n' (fs (set_file g ?f' s' S)) (file_path i) \<noteq> 0"
      using ok' disk ne by (simp_all add: write_ok_def p(1))
  qed
qed

text \<open>A part of a list replaced, or the list extended.\<close>

definition overwrite :: "nat \<Rightarrow> u8 list \<Rightarrow> u8 list \<Rightarrow> u8 list" where
  "overwrite p src xs = take p xs @ src @ drop (p + length src) xs"

lemma nth_overwrite: "p \<le> length xs \<Longrightarrow> x < max (length xs) (p + length src) \<Longrightarrow>
    overwrite p src xs ! x = (if p \<le> x \<and> x < p + length src then src ! (x - p) else xs ! x)"
  by (auto simp: overwrite_def nth_append min_def)

lemma length_overwrite: "p \<le> length xs \<Longrightarrow> length (overwrite p src xs) = max (length xs) (p + length src)"
  by (simp add: overwrite_def)

text \<open>
  C3: \<open>BOFS_Write\<close> implements a file as a list of bytes: when the write ends in the block it begins in, or at or behind the end
  of the file, the bytes from the position on are replaced and the file extended. The inode on disk is the new one, and blocks
  that belong to other files are as before.
\<close>

theorem bofs_write_refines:
  assumes "open_file sb fd g n S" "ready sb n (fs S)" "src \<noteq> []"
    and p: "p = unat (start_pos (fdtab S g) n)" "p + length src < 2 ^ 32"
    and "unat (i_size n) \<le> p + length src \<or> (p + length src - 1) div 1024 = p div 1024"
  shows "\<exists>n' S'. BOFS_Write sb fd src other S = Some (int (length src), S') \<and>
    (room sb n (fs S) (fs S') p (length src) \<longrightarrow>
       open_file sb fd g n' S' \<and> ready sb n' (fs S') \<and>
       file_bytes n' (fs S') = overwrite p src (file_bytes n (fs S)) \<and>
       BOFS_LoadInodeByID sb (i_id n) old (fs S') = (0, n', fs S') \<and>
       (\<forall>b. used sb (fs S) b \<and> \<not> belongs n (fs S) b \<longrightarrow> blk (fs S') b = blk (fs S) b))"
proof (rule Write_call [OF assms(1-5), of other], goal_cases)
  case (1 n' S')
  have size: "p \<le> unat (i_size n)" by (simp add: p(1) start_pos_def word_less_nat_alt not_less)
  have bytes: "file_bytes n' (fs S') = overwrite p src (file_bytes n (fs S))" if r: "room sb n (fs S) (fs S') p (length src)"
  proof (rule nth_equalityI)
    show len: "length (file_bytes n' (fs S')) = length (overwrite p src (file_bytes n (fs S)))"
      using 1(6) [OF r] size by (simp add: length_overwrite)
    fix x assume "x < length (file_bytes n' (fs S'))"
    then have x: "x < max (unat (i_size n)) (p + length src)" "x < unat (i_size n')" using 1(6) [OF r] by simp_all
    then have "x < 2 ^ 32" using size_bound [of "i_size n'"] by linarith
    then have b: "fbyte n' (fs S') x = written True p src (fbyte n (fs S)) x" using 1(5) [OF r] by blast
    have old: "x < unat (i_size n)" if "\<not> (p \<le> x \<and> x < p + length src)" using that x(1) size by linarith
    have "file_bytes n' (fs S') ! x = written True p src (fbyte n (fs S)) x" using x(2) b by simp
    also have "\<dots> = (if p \<le> x \<and> x < p + length src then src ! (x - p) else file_bytes n (fs S) ! x)"
      using x(1) assms(6) nth_file_bytes [OF old] by (cases "p \<le> x \<and> x < p + length src") (auto simp: written_def)
    also have "\<dots> = overwrite p src (file_bytes n (fs S)) ! x"
      using nth_overwrite [of p "file_bytes n (fs S)" x src] size x(1) by simp
    finally show "file_bytes n' (fs S') ! x = overwrite p src (file_bytes n (fs S)) ! x" .
  qed
  have "blk (fs S') b = blk (fs S) b" if "room sb n (fs S) (fs S') p (length src)" "used sb (fs S) b" "\<not> belongs n (fs S) b" for b
    using 1(4) [OF that(1)] that(2,3) by (simp add: frame_def)
  then show ?case using 1 bytes by blast
qed

theorem bofs_write_refines_witness:
  "\<exists>n' S'. BOFS_Write small_sb 0 [88, 89] 0 (small_files (small_inode 10 0 5) 2 (small_fs 3 (\<lambda>_ j. word_of_nat j))) = Some (2, S') \<and>
     file_bytes n' (fs S') = [0, 1, 88, 89, 4]"
proof -
  let ?n = "small_inode 10 0 5" and ?s = "small_fs 3 (\<lambda>_ j. word_of_nat j)"
  let ?S = "small_files ?n 2 ?s"
  have p: "2 = unat (start_pos (fdtab ?S 7) ?n)" by (simp add: start_pos_def small_files_def small_inode_def)
  have old: "file_bytes ?n ?s = [0, 1, 2, 3, 4]"
    by (simp add: file_bytes_def small_inode_def upt_rec fbyte_def leaf_data_def file_path_def BLOCK_LV0_def small_fs_def)
  have s: "fs ?S = ?s" by (simp add: small_files_def)
  have ok: "ready small_sb ?n (fs ?S)" unfolding s by (rule small_ready) simp_all
  have "room small_sb ?n (fs ?S) s 2 (length [88 :: u8, 89])" for s
    unfolding room_def by (simp add: small_inode_def file_path_def BLOCK_LV0_def)
  then show ?thesis
    using bofs_write_refines [OF small_open ok _ p, of "[88, 89]" 0 zero_inode] by (auto simp: s old overwrite_def)
qed



lemma Read_call:
  assumes o: "open_file sb fd g n S" and ok: "ready sb n (fs S)" and cnt: "cnt \<noteq> 0"
    and p: "p = unat (f_pos (fdtab S g))" "p < unat (i_size n)" "p + unat cnt < 2 ^ 32"
  shows "\<exists>bs n' S'. BOFS_Read sb fd cnt other S = Some (Some bs, S') \<and>
    length bs = min (unat cnt) (unat (i_size n) - p) \<and> unat (f_pos (fdtab S' g)) = p + length bs \<and>
    (room sb n (fs S) (fs S') p (length bs) \<longrightarrow>
       bs = take (unat cnt) (drop p (file_bytes n (fs S))) \<and> open_file sb fd g n' S' \<and> ready sb n' (fs S') \<and>
       file_bytes n' (fs S') = file_bytes n (fs S))"
proof -
  let ?f = "fdtab S g"
  define len where "len = min (unat cnt) (unat (i_size n) - unat (f_pos ?f))"
  have f: "f_inode ?f = Some n" "wf_inode n" using o by (simp_all add: open_file_def)
  have "unat cnt \<noteq> 0" using cnt by (simp add: unat_eq_0)
  then have len0: "len \<noteq> 0" "p + len < 2 ^ 32" using p by (simp_all add: len_def)
  obtain bs n' s' where r: "BOFS_FileRead sb ?f cnt (fs S) = Some (Some bs, ?f\<lparr>f_pos := f_pos ?f + of_nat len, f_inode := Some n'\<rparr>, s')"
    "faults s' = []" "length bs = len"
    "room sb n (fs S) s' (unat (f_pos ?f)) len \<Longrightarrow> bs = map (fbyte n (fs S)) [unat (f_pos ?f)..<unat (f_pos ?f) + len] \<and> grows sb n (fs S) n' s'"
    by (rule FileRead_spec [OF ok f(1) p(3) [unfolded p(1)] len_def len0(1)]) (rule that)
  let ?f' = "?f\<lparr>f_pos := f_pos ?f + of_nat len, f_inode := Some n'\<rparr>"
  let ?S' = "set_file g ?f' s' S"
  have call: "BOFS_Read sb fd cnt other S = Some (Some bs, ?S')" by (rule open_file_calls(2) [OF o cnt r(1)])
  have pos: "unat (f_pos (fdtab ?S' g)) = p + length bs" using unat_plus_nat [of "f_pos ?f" len] len0(2) r(3) by (simp add: p(1))
  have "room sb n (fs S) (fs ?S') p (length bs) \<longrightarrow> bs = take (unat cnt) (drop p (file_bytes n (fs S))) \<and>
      open_file sb fd g n' ?S' \<and> ready sb n' (fs ?S') \<and> file_bytes n' (fs ?S') = file_bytes n (fs S)"
  proof
    assume "room sb n (fs S) (fs ?S') p (length bs)"
    then have that: "room sb n (fs S) s' p (length bs)" by simp
    have b: "bs = map (fbyte n (fs S)) [p..<p + len]" and g: "grows sb n (fs S) n' s'" using r(3,4) that by (simp_all add: p(1))
    have n': "n' = n\<lparr>i_blocks := i_blocks n'\<rparr>" and fr: "frame sb n (fs S) n' s'" using g by (simp_all add: grows_def)
    have same: "i_mode n' = i_mode n" "i_reserved n' = i_reserved n" "i_size n' = i_size n" by (subst n', simp)+
    have "bs = take (unat cnt) (drop p (file_bytes n (fs S)))"
      using p(2) unfolding b by (simp add: file_bytes_def part_of_map len_def p(1))
    moreover have "open_file sb fd g n' ?S'" by (rule open_file_set [OF o]) (simp_all add: same wf_frame [OF fr f(2) same(2)])
    moreover have "fbyte n' s' x = fbyte n (fs S) x" if "x < unat (i_size n)" for x
      using fbyte_grows [OF g] that size_bound [of "i_size n"] by simp
    then have "file_bytes n' s' = file_bytes n (fs S)" by (simp add: file_bytes_def same)
    ultimately show "bs = take (unat cnt) (drop p (file_bytes n (fs S))) \<and>
      open_file sb fd g n' ?S' \<and> ready sb n' (fs ?S') \<and> file_bytes n' (fs ?S') = file_bytes n (fs S)"
      using ready_grows [OF ok g] by simp
  qed
  moreover have "length bs = min (unat cnt) (unat (i_size n) - p)" using r(3) by (simp add: len_def p(1))
  ultimately show ?thesis using call pos by blast
qed

text \<open>
  C29: \<open>BOFS_Read\<close> returns the bytes of the file from the position on, as many as were asked for or the file has, moves the
  position and changes no byte of the file.
\<close>

theorem bofs_read_returns_bytes:
  assumes "open_file sb fd g n S" "ready sb n (fs S)" "cnt \<noteq> 0"
    and "p = unat (f_pos (fdtab S g))" "p < unat (i_size n)" "p + unat cnt < 2 ^ 32"
  shows "\<exists>bs n' S'. BOFS_Read sb fd cnt other S = Some (Some bs, S') \<and>
    length bs = min (unat cnt) (unat (i_size n) - p) \<and> unat (f_pos (fdtab S' g)) = p + length bs \<and>
    (room sb n (fs S) (fs S') p (length bs) \<longrightarrow>
       bs = take (unat cnt) (drop p (file_bytes n (fs S))) \<and> open_file sb fd g n' S' \<and> ready sb n' (fs S') \<and>
       file_bytes n' (fs S') = file_bytes n (fs S))"
  by (rule Read_call [OF assms])

theorem bofs_read_returns_bytes_witness:
  "\<exists>S'. BOFS_Read small_sb 0 100 None (small_files (small_inode 10 0 5) 2 (small_fs 3 (\<lambda>_ j. word_of_nat j))) = Some (Some [2, 3, 4], S')"
proof -
  let ?n = "small_inode 10 0 5" and ?s = "small_fs 3 (\<lambda>_ j. word_of_nat j)"
  let ?S = "small_files ?n 2 ?s"
  have p: "2 = unat (f_pos (fdtab ?S 7))" "2 < unat (i_size ?n)" "2 + unat (100 :: u32) < 2 ^ 32"
    by (simp_all add: small_files_def small_inode_def)
  have old: "file_bytes ?n ?s = [0, 1, 2, 3, 4]"
    by (simp add: file_bytes_def small_inode_def upt_rec fbyte_def leaf_data_def file_path_def BLOCK_LV0_def small_fs_def)
  have s: "fs ?S = ?s" by (simp add: small_files_def)
  have ok: "ready small_sb ?n (fs ?S)" unfolding s by (rule small_ready) simp_all
  have room: "room small_sb ?n (fs ?S) s 2 3" for s
    unfolding room_def by (simp add: small_inode_def file_path_def BLOCK_LV0_def)
  have "min (unat (100 :: u32)) (unat (i_size ?n) - 2) = 3" by (simp add: small_inode_def)
  then show ?thesis using bofs_read_returns_bytes [OF small_open ok _ p, of None] room by (auto simp: s old)
qed

text \<open>C28: what was written is what a read from the same position returns, also from a descriptor that has to seek back to it.\<close>

theorem bofs_write_read:
  assumes o: "open_file sb fd g n S" and ok: "ready sb n (fs S)" and ne: "src \<noteq> []"
    and p: "p = unat (start_pos (fdtab S g) n)" "p + length src < 2 ^ 31" "unat (i_size n) < 2 ^ 31"
  shows "\<exists>S1. BOFS_Write sb fd src other S = Some (int (length src), S1) \<and>
    (room sb n (fs S) (fs S1) p (length src) \<longrightarrow>
      (\<exists>S2 S3. BOFS_Lseek fd (int p) BOFS_SEEK_SET S1 = Some (int p, S2) \<and>
               BOFS_Read sb fd (of_nat (length src)) other' S2 = Some (Some src, S3)))"
proof -
  have fits: "p + length src < 2 ^ 32" using p(2) by simp
  show ?thesis
  proof (rule Write_call [OF o ok ne p(1) fits, of other], goal_cases)
    case (1 n' S1)
    have "\<exists>S2 S3. BOFS_Lseek fd (int p) BOFS_SEEK_SET S1 = Some (int p, S2) \<and>
        BOFS_Read sb fd (of_nat (length src)) other' S2 = Some (Some src, S3)" if r: "room sb n (fs S) (fs S1) p (length src)"
    proof -
      let ?f = "(fdtab S1 g)\<lparr>f_pos := word_of_int (int p)\<rparr>"
      let ?S2 = "set_file g ?f (fs S1) S1"
      have o1: "open_file sb fd g n' S1" by (rule 1(2) [OF r])
      have sz: "unat (i_size n') = max (unat (i_size n)) (p + length src)" by (rule 1(6) [OF r])
      then have "sint (i_size n') = int (unat (i_size n'))" using p(2,3) by (intro sint_small) simp
      then have seek: "BOFS_Lseek fd (int p) BOFS_SEEK_SET S1 = Some (int p, ?S2)"
        using sz by (intro open_file_calls(3) [OF o1]) simp_all
      have "f_inode (fdtab S1 g) = Some n'" "i_mode n' = i_mode n'" "wf_inode n'" using o1 by (simp_all add: open_file_def)
      then have o2: "open_file sb fd g n' ?S2" by (intro open_file_set [OF o1]) simp_all
      have ok2: "ready sb n' (fs ?S2)" using 1(3) [OF r] by simp
      have len: "unat (of_nat (length src) :: u32) = length src" using fits by (simp add: unat_of_nat)
      have up: "p = unat (f_pos (fdtab ?S2 g))" using fits by (simp add: unat_of_nat)
      have a: "(of_nat (length src) :: u32) \<noteq> 0" using len ne by (metis length_0_conv unat_0)
      have "0 < length src" using ne by simp
      then have b: "p < unat (i_size n')" "p + unat (of_nat (length src) :: u32) < 2 ^ 32" unfolding sz len using fits by (simp_all add: less_max_iff_disj)
      from Read_call [OF o2 ok2 a up b, of other'] obtain bs n3 S3 where rd:
        "BOFS_Read sb fd (of_nat (length src)) other' ?S2 = Some (Some bs, S3)" "length bs = min (length src) (unat (i_size n') - p)"
        "room sb n' (fs ?S2) (fs S3) p (length bs) \<longrightarrow> bs = take (length src) (drop p (file_bytes n' (fs ?S2)))"
        unfolding len by blast
      have lb: "length bs = length src" using rd(2) sz by simp
      have "room sb n' (fs ?S2) (fs S3) p (length bs)" using 1(7) [OF r] by (simp add: room_def lb)
      then have bs: "bs = take (length src) (drop p (file_bytes n' (fs S1)))" using rd(3) by simp
      have "bs = src"
      proof (rule nth_equalityI [OF lb])
        fix k assume k: "k < length bs"
        then have "p + k < 2 ^ 32" using fits lb by simp
        then have w: "fbyte n' (fs S1) (p + k) = written True p src (fbyte n (fs S)) (p + k)" using 1(5) [OF r] by blast
        have "bs ! k = file_bytes n' (fs S1) ! (p + k)" using bs k lb sz by simp
        also have "\<dots> = fbyte n' (fs S1) (p + k)" using k lb sz by (intro nth_file_bytes) simp
        also have "\<dots> = src ! k" using w k lb by (simp add: written_def)
        finally show "bs ! k = src ! k" .
      qed
      then show ?thesis using seek rd(1) by blast
    qed
    then show ?case using 1(1) by blast
  qed
qed

theorem bofs_write_read_witness:
  "\<exists>S1 S2 S3. BOFS_Write small_sb 0 [88, 89] 0 (small_files (small_inode 10 0 5) 2 (small_fs 3 (\<lambda>_ j. word_of_nat j))) = Some (2, S1) \<and>
     BOFS_Lseek 0 2 BOFS_SEEK_SET S1 = Some (2, S2) \<and> BOFS_Read small_sb 0 2 None S2 = Some (Some [88, 89], S3)"
proof -
  let ?n = "small_inode 10 0 5" and ?s = "small_fs 3 (\<lambda>_ j. word_of_nat j)"
  let ?S = "small_files ?n 2 ?s"
  have p: "2 = unat (start_pos (fdtab ?S 7) ?n)" by (simp add: start_pos_def small_files_def small_inode_def)
  have s: "fs ?S = ?s" by (simp add: small_files_def)
  have ok: "ready small_sb ?n (fs ?S)" unfolding s by (rule small_ready) simp_all
  have sz: "unat (i_size ?n) < 2 ^ 31" by (simp add: small_inode_def)
  have "room small_sb ?n (fs ?S) s 2 (length [88 :: u8, 89])" for s
    unfolding room_def by (simp add: small_inode_def file_path_def BLOCK_LV0_def)
  then show ?thesis using bofs_write_read [OF small_open ok _ p _ sz, of "[88, 89]" 0 None] by auto
qed

section \<open>Mapping blocks\<close>

text \<open>
  C4: mapping any block of a file gives a block that no other part of the file uses, keeps the invariant and
  every byte of the file, and leaves the blocks of other files alone; it fails only when the disk is full.
\<close>

theorem bofs_map_block:
  assumes "ready sb n s" "index < BLOCK_LV3"
  shows "\<exists>r b n' s'. BOFS_GetInodeData sb n index old s = Some (r, b, n', s') \<and> ready sb n' s' \<and>
    (r = 0 \<and> node n' s' (file_path index) = b \<and> used sb s' b \<and> (\<forall>p. vpath p \<and> node n' s' p = b \<longrightarrow> p = file_path index) \<or>
     r = -1 \<and> b = old \<and> \<not> has_free sb s') \<and>
    (\<forall>x < 2 ^ 32. fbyte n' s' x = fbyte n s x) \<and>
    (\<forall>b. used sb s b \<and> \<not> belongs n s b \<longrightarrow> blk s' b = blk s b)"
proof -
  from GetInodeData_ok [OF assms, of old] obtain r b n' s' where g: "BOFS_GetInodeData sb n index old s = Some (r, b, n', s')"
    "r = 0 \<and> mapped sb n s (file_path index) n' s' b \<or> r = -1 \<and> b = old \<and> no_room sb n s (file_path index) n' s'"
    by (auto simp: get_ok_def)
  then have gr: "grows sb n s n' s'" by (auto simp: mapped_def no_room_def)
  then have rd: "ready sb n' s'" by (rule ready_grows [OF assms(1)])
  have vp: "vpath (file_path index)" using leaf_file_path [OF assms(2)] by (simp add: leaf_def)
  have "used sb s' b \<and> (\<forall>p. vpath p \<and> node n' s' p = b \<longrightarrow> p = file_path index)" if "mapped sb n s (file_path index) n' s' b"
  proof -
    have b: "node n' s' (file_path index) = b" "b \<noteq> 0" using that by (simp_all add: mapped_def)
    have "p = file_path index" if "vpath p" "node n' s' p = b" for p
      using file_okD(2) [OF readyD(3) [OF rd] that(1) vp] that(2) b by simp
    then show ?thesis using file_okD(1) [OF readyD(3) [OF rd] vp] b by blast
  qed
  moreover have "\<forall>x < 2 ^ 32. fbyte n' s' x = fbyte n s x" using fbyte_grows [OF gr] by blast
  moreover have "\<forall>b. used sb s b \<and> \<not> belongs n s b \<longrightarrow> blk s' b = blk s b" using gr by (simp add: grows_def frame_def)
  ultimately show ?thesis using g rd by (auto simp: mapped_def no_room_def)
qed

theorem bofs_map_block_witness:
  "\<exists>r b n' s'. BOFS_GetInodeData small_sb (small_inode 10 0 5) 1000 0 (small_fs 3 (\<lambda>_ j. word_of_nat j)) = Some (r, b, n', s') \<and>
     ready small_sb n' s' \<and> fbyte n' s' 2 = 2"
proof -
  have "fbyte (small_inode 10 0 5) (small_fs 3 (\<lambda>_ j. word_of_nat j)) 2 = 2"
    by (simp add: fbyte_def leaf_data_def file_path_def BLOCK_LV0_def small_fs_def small_inode_def)
  moreover have "(1000 :: nat) < BLOCK_LV3" "(2 :: nat) < 2 ^ 32" by (simp_all add: block_levels)
  moreover have "ready small_sb (small_inode 10 0 5) (small_fs 3 (\<lambda>_ j. word_of_nat j))" by (rule small_ready) simp_all
  ultimately show ?thesis using bofs_map_block [of small_sb "small_inode 10 0 5" "small_fs 3 (\<lambda>_ j. word_of_nat j)" 1000 0] by metis
qed

section \<open>Reads and writes return\<close>

text \<open>
  C30: \<open>BOFS_Write\<close> and \<open>BOFS_Read\<close> return for every buffer and count, whatever pointers the inode and the disk
  hold and even when no block is free.
\<close>

theorem bofs_calls_return:
  assumes o: "open_file sb fd g n S" and f: "faults (fs S) = []" and b: "blockSize sb = 1024"
  shows "(\<exists>r S'. BOFS_Write sb fd src other S = Some (r, S')) \<and> (\<exists>bs S'. BOFS_Read sb fd cnt other' S = Some (bs, S'))"
proof
  have fi: "f_inode (fdtab S g) = Some n" using o by (simp add: open_file_def)
  show "\<exists>r S'. BOFS_Write sb fd src other S = Some (r, S')"
  proof (cases "src = []")
    case False
    let ?p = "start_pos (fdtab S g) n"
    from write_loop_returns [OF f b, of "?p + of_nat (length src) > i_size n" True "unat ?p div 1024" "junk_lba (fs S)" ?p src n]
    have "\<exists>r f' s. BOFS_FileWrite sb (fdtab S g) src (fs S) = Some (r, f', s)"
      using fi f b by (cases "f_pos (fdtab S g) > i_size n") (auto simp: BOFS_FileWrite_def start_pos_def unat_div Let_def)
    then show ?thesis using open_file_calls(1) [OF o False] by blast
  qed (simp add: BOFS_Write_def)
  show "\<exists>bs S'. BOFS_Read sb fd cnt other' S = Some (bs, S')"
  proof (cases "cnt = 0")
    case False
    let ?p = "f_pos (fdtab S g)"
    let ?sz = "if ?p + cnt > i_size n then i_size n - ?p else cnt"
    from read_loop_returns [OF f b, of "unat ?p div 1024" "junk_lba (fs S)" ?p "unat ?sz" "[]" n]
    have "\<exists>bs f' s. BOFS_FileRead sb (fdtab S g) cnt (fs S) = Some (bs, f', s)"
      using fi f b by (auto simp: BOFS_FileRead_def unat_div Let_def)
    then show ?thesis using open_file_calls(2) [OF o False] by blast
  qed (simp add: BOFS_Read_def)
qed

theorem bofs_calls_return_witness:
  "(\<exists>r S'. BOFS_Write small_sb 0 [1] 0 (small_files (small_inode 77 77 5) 2 (small_fs 255 (\<lambda>_ _. 77))) = Some (r, S')) \<and>
   (\<exists>bs S'. BOFS_Read small_sb 0 9000 None (small_files (small_inode 77 77 5) 2 (small_fs 255 (\<lambda>_ _. 77))) = Some (bs, S'))"
  by (rule bofs_calls_return [OF small_open]) (simp_all add: small_files_def small_fs_def small_sb_def)

section \<open>Errors\<close>





end
