(* ===== verification/BofsRelease.thy ===== *)
theory BofsRelease
  imports BofsSpec
begin

text \<open>
  Releasing the blocks of a BOFS file. Up to level 1 every block is given back and only those of the file;
  at level 2 the function for one block returns too early. The bitmap on disk is written block by block with the wrong unit.
\<close>

section \<open>Freeing a block\<close>

lemma unat_minus_one_u32: "unat (-1 :: u32) = 4294967295"
  by (simp add: unsigned_minus_1_eq_mask mask_eq_exp_minus_1)

lemma FreeOneSector_spec:
  assumes ok: "volume_ok sb" "faults s = []" "used sb s b"
  shows "used sb (FreeOneSector sb b s) x \<longleftrightarrow> used sb s x \<and> x \<noteq> b" "kept sb s (FreeOneSector sb b s)"
    "unat (dataStartLba sb) \<le> unat x \<Longrightarrow> blk (FreeOneSector sb b s) x = blk s x" "faults (FreeOneSector sb b s) = []"
proof -
  let ?B = "sectorBitmap sb"
  define r where "r = unat b - unat (dataStartLba sb)"
  have r: "r < sector_bits sb" "sector_bit sb s r" "unat (dataStartLba sb) \<le> unat b" using ok(3) by (simp_all add: used_def r_def)
  have idx: "unat (BOFS_LBA_TO_IDX sb b) = r" using r(3) by (simp add: BOFS_LBA_TO_IDX_def r_def unat_sub word_le_nat_alt)
  have "r < 2 ^ 31" using r(1) ok(1) by (simp add: volume_ok_def)
  then have ne: "BOFS_LBA_TO_IDX sb b \<noteq> -1" using idx unat_minus_one_u32 by fastforce
  define m where "m = BitmapSet (kmem s) ?B r False"
  have run: "FreeOneSector sb b s = s\<lparr>kmem := m, blk := (blk s)(sectorBitmapLba sb + word_of_nat (r div (8 * SECTOR_SIZE)) :=
      (\<lambda>i. m (bits ?B + r div (8 * SECTOR_SIZE) * SECTOR_SIZE + i)))\<rparr>"
    using ok(2) ne by (simp add: FreeOneSector_def BOFS_FreeBitmap_def BOFS_SyncBitmap_def bitmap_of_def Let_def idx m_def)
  have "x = b \<longleftrightarrow> unat (dataStartLba sb) \<le> unat x \<and> unat x - unat (dataStartLba sb) = r"
    using r(3) by (auto simp: r_def word_unat_eq_iff)
  then show "used sb (FreeOneSector sb b s) x \<longleftrightarrow> used sb s x \<and> x \<noteq> b"
    unfolding run by (auto simp: used_def m_def bm.test_upd)
  show "kept sb s (FreeOneSector sb b s)" unfolding run using r(1) by (auto simp: kept_def m_def BitmapSet_def Let_def)
  show "faults (FreeOneSector sb b s) = []" unfolding run using ok(2) by simp
  show "blk (FreeOneSector sb b s) x = blk s x" if "unat (dataStartLba sb) \<le> unat x"
    unfolding run using that sync_bitmap_block [OF ok(1) r(1)] by auto
qed

text \<open>
  C35: releasing a block that an inode reaches through two indirect blocks marks the block as free and reports success, but
  leaves the pointer to it in the file, and the indirect blocks, even if they have no other pointer, stay allocated for good.
\<close>

theorem bofs_level2_release_dangles:
  assumes "ready sb n s" "BLOCK_LV1 \<le> index" "index < BLOCK_LV2" "node n s (file_path index) = b" "b \<noteq> 0"
  shows "\<exists>s'. PutBlockByBlockIndex sb n index s = (0, n, s') \<and> \<not> used sb s' b \<and> node n s' (file_path index) = b \<and>
    has_free sb s' \<and> used sb s' (i_blocks n 13)"
proof -
  let ?i = "index - BLOCK_LV1"
  let ?r = "[?i div 256, 13]"
  have path: "file_path index = (?i mod 256) # ?r" using assms(2,3) by (simp add: file_path_def block_levels)
  have i: "?i div 256 < 256" using assms(3) by (simp add: block_levels less_mult_imp_div_less)
  then have vp: "vpath ((?i mod 256) # ?r)" "vpath ?r" "vpath [13]" by (auto simp: vpath_def hgt_def)
  have d: "node n s ?r \<noteq> 0" "get32 (blk s (node n s ?r)) (?i mod 256) = b"
    using assms(4,5) unfolding path by (auto simp: node_Cons split: if_splits)
  have p1: "i_blocks n 13 \<noteq> 0" "get32 (blk s (i_blocks n 13)) (?i div 256) = node n s ?r" using d(1) by (auto split: if_splits)
  note fk = readyD(3) [OF assms(1)]
  have ub: "used sb s b" using file_okD(1) [OF fk vp(1)] assms(4,5) path by simp
  let ?s = "FreeOneSector sb b s"
  note fr = FreeOneSector_spec [OF readyD(1,2) [OF assms(1)] ub]
  have put: "PutBlockByBlockIndex sb n index s = (0, n, ?s)"
    using assms(2,3,5) d p1 readyD(2) [OF assms(1)]
    by (simp add: PutBlockByBlockIndex_def PutBlockInInderect2_def block_levels Let_def)
  have "used sb s (i_blocks n 13)" using file_okD(1) [OF fk vp(3)] p1(1) by simp
  then have b1: "blk ?s (i_blocks n 13) = blk s (i_blocks n 13)" by (rule fr(3) [OF used_data])
  have b2: "blk ?s (node n s ?r) = blk s (node n s ?r)" by (rule fr(3) [OF used_data [OF file_okD(1) [OF fk vp(2) d(1)]]])
  have "node n ?s ?r = node n s ?r" unfolding p1(2) [symmetric] node.simps b1 using p1(1) by simp
  then have "node n ?s (file_path index) = b" using d b2 unfolding path by (simp only: node_Cons list.simps if_False simp_thms)
  moreover have "has_free sb ?s"
    using ub fr(1) [of b] unfolding used_def has_free_def by blast
  moreover have "i_blocks n 13 \<noteq> b" using file_okD(2) [OF fk vp(3,1)] p1(1) assms(4) path by auto
  then have "used sb ?s (i_blocks n 13)" using fr(1) \<open>used sb s (i_blocks n 13)\<close> by blast
  ultimately show ?thesis using put fr(1) by blast
qed

text \<open>A file with one block, at level 2, for the example.\<close>

definition deep_inode :: BOFS_Inode where
  "deep_inode = zero_inode\<lparr>i_id := 1, i_mode := 3, i_blocks := (\<lambda>_. 0)(13 := 10)\<rparr>"

definition deep_fs :: bofs where
  "deep_fs = small_fs 7 (\<lambda>b. if b = 10 then put32 zero_block 0 11 else if b = 11 then put32 zero_block 0 12 else zero_block)"

lemma deep_nodes: "vpath p \<Longrightarrow> node deep_inode deep_fs p =
    (if p = [13] then 10 else if p = [0, 13] then 11 else if p = [0, 0, 13] then 12 else 0)"
proof (induction p rule: list.induct)
  case (Cons i r)
  show ?case
  proof (cases "r = []")
    case False
    have IH: "node deep_inode deep_fs r = (if r = [13] then 10 else if r = [0, 13] then 11 else if r = [0, 0, 13] then 12 else 0)"
      using Cons.IH vpath_tail [OF Cons.prems False] by blast
    have "r \<noteq> [0, 0, 13]" using Cons.prems by (auto simp: vpath_def hgt_def)
    have blk: "blk deep_fs b = (if b = 10 then put32 zero_block 0 11 else if b = 11 then put32 zero_block 0 12 else zero_block)" for b
      by (simp add: deep_fs_def small_fs_def)
    show ?thesis using False \<open>r \<noteq> [0, 0, 13]\<close> unfolding node_Cons [OF False] IH blk by simp
  qed (simp add: deep_inode_def)
qed (simp add: vpath_def)

lemma deep_ready: "ready small_sb deep_inode deep_fs"
proof -
  have used: "used small_sb deep_fs b" if "b = 10 \<or> b = 11 \<or> b = 12" for b
    using that by (auto simp: used_def small_sb_def deep_fs_def small_fs_def BitmapScanTest_def)
  have "file_ok small_sb deep_inode deep_fs"
    unfolding file_ok_def
  proof (intro conjI allI impI)
    fix p assume p: "vpath p \<and> node deep_inode deep_fs p \<noteq> 0"
    then have "node deep_inode deep_fs p = 10 \<or> node deep_inode deep_fs p = 11 \<or> node deep_inode deep_fs p = 12"
      using deep_nodes [of p] by (auto split: if_splits)
    then show "used small_sb deep_fs (node deep_inode deep_fs p)" by (rule used)
  next
    fix p q assume "vpath p \<and> vpath q \<and> node deep_inode deep_fs p \<noteq> 0 \<and> node deep_inode deep_fs p = node deep_inode deep_fs q"
    then show "p = q" using deep_nodes [of p] deep_nodes [of q] by (auto split: if_splits)
  qed
  then show ?thesis
    by (simp add: ready_def volume_ok_def inode_ok_def inode_lba_def small_sb_def deep_fs_def small_fs_def deep_inode_def
        zero_inode_def SECTOR_SIZE_def)
qed

theorem bofs_level2_release_dangles_witness:
  "\<exists>s'. PutBlockByBlockIndex small_sb deep_inode 268 deep_fs = (0, deep_inode, s') \<and> \<not> used small_sb s' 12 \<and>
     node deep_inode s' (file_path 268) = 12 \<and> used small_sb s' (i_blocks deep_inode 13)"
proof -
  have path: "file_path 268 = [0, 0, 13]" by (simp add: file_path_def block_levels)
  have "node deep_inode deep_fs (file_path 268) = 12" unfolding path by (subst deep_nodes) (auto simp: vpath_def hgt_def)
  from bofs_level2_release_dangles [OF deep_ready _ _ this] show ?thesis by (auto simp: block_levels)
qed

section \<open>The bitmap on disk\<close>

text \<open>
  on a volume with 1024-byte blocks that has one block of sector bitmap, taking a data block from number 4096 on writes
  part of the sector bitmap over the inode bitmap, which follows it: the inodes marked there are lost at the next mount.
\<close>

theorem bofs_bitmap_sync_overwrites:
  assumes "faults s = []" "4096 \<le> unat idx" "unat idx < 8192" "inodeBitmapLba sb = sectorBitmapLba sb + 1"
  shows "\<exists>s'. BOFS_SyncBitmap sb BOFS_BMT_SECTOR idx s = (1, s') \<and> blk s' (sectorBitmapLba sb) = blk s (sectorBitmapLba sb) \<and>
    (\<forall>i. blk s' (inodeBitmapLba sb) i = kmem s (bits (sectorBitmap sb) + 512 + i))"
proof -
  have "unat idx div (8 * SECTOR_SIZE) = 1" using assms(2,3) by (simp add: SECTOR_SIZE_def div_nat_eqI)
  moreover have "sectorBitmapLba sb + 1 \<noteq> sectorBitmapLba sb" by simp
  ultimately show ?thesis using assms(1,4) by (simp add: BOFS_SyncBitmap_def bitmap_of_def SECTOR_SIZE_def add.assoc)
qed

text \<open>The layout that \<open>BOFS_MakeFS\<close> gives a disk of 8000 blocks is such a volume.\<close>

end
