(* ===== verification/BofsPath.thy ===== *)
theory BofsPath
  imports CString BofsDir
begin

text \<open>
  Path names: \<open>BOFS_PathToDrive\<close>, \<open>BOFS_ParsePathAfterward\<close>, \<open>BOFS_WashPath\<close>, \<open>BOFS_MakeAbsPath\<close>, \<open>BOFS_GetCWD\<close>,
  \<open>BOFS_GetDriveByPath\<close> of \<open>fs/bofs/dir.c\<close> and the table of drives of \<open>fs/bofs/drive.c\<close>.

  The functions work on the flat memory with the routines of \<open>CString\<close>. The buffers they keep on the stack are addresses
  given to them, so that a buffer that is too short is overrun in the model as in the code. A comparison with a literal is \<open>cstr\<close>,
  the literal read at the address. Characters: 46 is the dot, 47 the slash, 58 the colon.
\<close>

section \<open>Drive and working directory\<close>

definition BOFS_PATH_LEN :: u32 where
  "BOFS_PATH_LEN = 255"

definition BOFS_DRIVE_NAME_LEN :: u32 where
  "BOFS_DRIVE_NAME_LEN = 24"

definition BOFS_PathToDrive :: "mem \<Rightarrow> addr \<Rightarrow> addr \<Rightarrow> (mem \<times> int) option" where
  "BOFS_PathToDrive m pathname namebuf =
     do { c \<leftarrow> strchr m pathname 58;
          if c = 0 then Some (m, -1)
          else do { (m, len) \<leftarrow> strmet m pathname namebuf 58; Some (m, if len = 0 then -1 else 0) } }"

text \<open>\<open>cwd\<close> is the address of the array \<open>cwd\<close> of the running task.\<close>

definition BOFS_GetCWD :: "mem \<Rightarrow> addr \<Rightarrow> addr \<Rightarrow> u32 \<Rightarrow> mem" where
  "BOFS_GetCWD m cwd dst sz = memcpy m dst cwd (if sz > BOFS_PATH_LEN then BOFS_PATH_LEN else sz)"

text \<open>\<open>strcat\<close> with a literal.\<close>

definition strcat_lit :: "mem \<Rightarrow> addr \<Rightarrow> u8 list \<Rightarrow> mem option" where
  "strcat_lit m p lit = map_option (\<lambda>e. wr_bytes m e (lit @ [0])) (strend_loop m p)"

definition begin_abs :: "mem \<Rightarrow> addr \<Rightarrow> addr \<Rightarrow> mem option" where
  "begin_abs m cwd abspath =
     (let m = BOFS_GetCWD m cwd abspath BOFS_PATH_LEN in
      do { p \<leftarrow> strchr m abspath 47;
           if p \<noteq> 0 \<and> \<not> (m p = 47 \<and> m (p + 1) = 0) then strcat_lit m abspath [47] else Some m })"

definition BOFS_MakeAbsPath :: "mem \<Rightarrow> addr \<Rightarrow> addr \<Rightarrow> addr \<Rightarrow> addr \<Rightarrow> mem option" where
  "BOFS_MakeAbsPath m cwd driveName pathname abspath =
     do { let m = fst (memset m driveName 0 BOFS_DRIVE_NAME_LEN);
          (m, r) \<leftarrow> BOFS_PathToDrive m pathname driveName;
          m \<leftarrow> (if r \<noteq> 0 then begin_abs m cwd abspath else Some m);
          if m pathname = 47 \<and> m (pathname + 1) = 0 then
            do { q \<leftarrow> strchr m abspath 47; Some (if q \<noteq> 0 then m(q + 1 := 0) else m) }
          else
            do { (m, _) \<leftarrow> strcat m abspath pathname;
                 q \<leftarrow> strchr m abspath 47;
                 if q = 0 then strcat_lit m abspath [47] else Some m } }"

section \<open>Washing a path\<close>

partial_function (option) skip_slashes :: "mem \<Rightarrow> addr \<Rightarrow> addr option" where
  "skip_slashes m p = (if m p = 47 then skip_slashes m (p + 1) else Some p)"

partial_function (option) store_name :: "mem \<Rightarrow> addr \<Rightarrow> addr \<Rightarrow> (mem \<times> addr) option" where
  "store_name m p nameStore =
     (if m p \<noteq> 47 \<and> m p \<noteq> 0 then store_name (m(nameStore := m p)) (p + 1) (nameStore + 1) else Some (m, p))"

text \<open>The name is not terminated here: its buffer was cleared before. The result 0 is NULL, the end of the path.\<close>

definition BOFS_ParsePathAfterward :: "mem \<Rightarrow> addr \<Rightarrow> addr \<Rightarrow> (mem \<times> addr) option" where
  "BOFS_ParsePathAfterward m pathname nameStore =
     do { p \<leftarrow> (if m pathname = 47 then skip_slashes m (pathname + 1) else Some pathname);
          (m, p) \<leftarrow> store_name m p nameStore;
          Some (m, if m p = 0 then 0 else p) }"

text \<open>What one component does to the path built so far.\<close>

definition wash_step :: "mem \<Rightarrow> addr \<Rightarrow> addr \<Rightarrow> mem option" where
  "wash_step m newAbsPath nm =
     (if cstr m nm [46, 46] then
        do { slashPtr \<leftarrow> strrchr m newAbsPath 47;
             Some (if slashPtr \<noteq> newAbsPath then m(slashPtr := 0) else m(slashPtr + 1 := 0)) }
      else if \<not> cstr m nm [46] then
        do { m \<leftarrow> (if \<not> cstr m newAbsPath [47] then strcat_lit m newAbsPath [47] else Some m);
             (m, _) \<leftarrow> strcat m newAbsPath nm;
             Some m }
      else Some m)"

partial_function (option) wash_loop :: "mem \<Rightarrow> addr \<Rightarrow> addr \<Rightarrow> addr \<Rightarrow> mem option" where
  "wash_loop m newAbsPath nm subPath =
     (if m nm = 0 then Some m
      else do { m \<leftarrow> wash_step m newAbsPath nm;
                let m = fst (memset m nm 0 (word_of_nat BOFS_NAME_LEN));
                (m, subPath) \<leftarrow> (if subPath \<noteq> 0 then BOFS_ParsePathAfterward m subPath nm else Some (m, subPath));
                wash_loop m newAbsPath nm subPath })"

definition BOFS_WashPath :: "mem \<Rightarrow> addr \<Rightarrow> addr \<Rightarrow> addr \<Rightarrow> mem option" where
  "BOFS_WashPath m nm oldAbsPath newAbsPath =
     (if m oldAbsPath \<noteq> 47 then None
      else do { let m = fst (memset m nm 0 (word_of_nat BOFS_NAME_LEN));
                (m, subPath) \<leftarrow> BOFS_ParsePathAfterward m oldAbsPath nm;
                if m nm = 0 then Some (m(newAbsPath := 47, newAbsPath + 1 := 0))
                else do { m \<leftarrow> strcat_lit (m(newAbsPath := 0)) newAbsPath [47];
                          wash_loop m newAbsPath nm subPath } })"

section \<open>Drives\<close>

text \<open>
  The list \<open>driveListHead\<close> is the list of its drives from the head on. \<open>dr_name\<close> is the address of the array \<open>name\<close> of a drive.
  \<open>kmalloc\<close> for a new drive returned \<open>new\<close>, 0 being NULL.
\<close>

record BOFS_Drive =
  dr_name :: addr
  dr_sb :: BOFS_SuperBlock
  dr_blkdev :: addr

fun BOFS_GetDriveByName :: "mem \<Rightarrow> BOFS_Drive list \<Rightarrow> addr \<Rightarrow> BOFS_Drive option option" where
  "BOFS_GetDriveByName m [] nm = Some None"
| "BOFS_GetDriveByName m (d # ds) nm =
     do { c \<leftarrow> strcmp m (dr_name d) nm;
          if c = 0 then Some (Some d) else BOFS_GetDriveByName m ds nm }"

definition BOFS_AddDrive :: "mem \<Rightarrow> BOFS_Drive list \<Rightarrow> addr \<Rightarrow> BOFS_SuperBlock \<Rightarrow> addr \<Rightarrow> addr \<Rightarrow> (int \<times> BOFS_Drive list \<times> mem) option" where
  "BOFS_AddDrive m drives nm sb blkdev new =
     do { old \<leftarrow> BOFS_GetDriveByName m drives nm;
          if old \<noteq> None \<or> new = 0 then Some (-1, drives, m)
          else do { (m, _) \<leftarrow> strcpy (fst (memset m new 0 BOFS_DRIVE_NAME_LEN)) new nm;
                    Some (0, drives @ [\<lparr>dr_name = new, dr_sb = sb, dr_blkdev = blkdev\<rparr>], m) } }"

definition BOFS_DelDrive :: "mem \<Rightarrow> BOFS_Drive list \<Rightarrow> addr \<Rightarrow> (int \<times> BOFS_Drive list) option" where
  "BOFS_DelDrive m drives nm =
     do { old \<leftarrow> BOFS_GetDriveByName m drives nm;
          Some (case old of None \<Rightarrow> (-1, drives) | Some d \<Rightarrow> (0, remove1 d drives)) }"

definition BOFS_GetDriveByPath :: "mem \<Rightarrow> BOFS_Drive list \<Rightarrow> addr \<Rightarrow> addr \<Rightarrow> (BOFS_Drive option \<times> mem) option" where
  "BOFS_GetDriveByPath m drives driveName pathname =
     do { (m, r) \<leftarrow> BOFS_PathToDrive (fst (memset m driveName 0 BOFS_DRIVE_NAME_LEN)) pathname driveName;
          if r \<noteq> 0 then Some (None, m)
          else do { d \<leftarrow> BOFS_GetDriveByName m drives driveName; Some (d, m) } }"

end
