(* ===== verification/BofsCalls.thy ===== *)
theory BofsCalls
  imports BofsFile BofsPath
begin

text \<open>
  The system calls on files, \<open>fs/symphyses.c\<close>: a path name is completed to an absolute path, its drive is looked up, the
  path is washed, and the function of BOFS is called with the super block of the drive. Device files (\<open>fs/bofs/device.c\<close>),
  task files (\<open>fs/bofs/task.c\<close>), \<open>BOFS_OpenDir\<close>, \<open>BOFS_ChangeCWD\<close> and \<open>BOFS_Stat\<close> are here as well.

  \<open>locals\<close> are the addresses of the arrays that a call keeps on the stack. The calls that take a descriptor pass it on
  and have no definition of their own, except \<open>SysLseek\<close>.
\<close>

section \<open>Device and task files\<close>

definition BOFS_FILE_TYPE_UNKNOWN :: u16 where
  "BOFS_FILE_TYPE_UNKNOWN = 0"

definition BOFS_FILE_TYPE_TASK :: u16 where
  "BOFS_FILE_TYPE_TASK = 4"

datatype DEV_TYPE = DEV_TYPE_UNKNOWN | DEV_TYPE_BLOCK | DEV_TYPE_CHAR | DEV_TYPE_NET

text \<open>The number of the device or task is kept in the first block pointer.\<close>

definition device_dir_type :: "DEV_TYPE \<Rightarrow> u16" where
  "device_dir_type ty = (case ty of
     DEV_TYPE_BLOCK \<Rightarrow> BOFS_FILE_TYPE_BLOCK
   | DEV_TYPE_CHAR \<Rightarrow> BOFS_FILE_TYPE_CHAR
   | _ \<Rightarrow> BOFS_FILE_TYPE_UNKNOWN)"

definition add_special :: "BOFS_SuperBlock \<Rightarrow> BOFS_DirEntry \<Rightarrow> BOFS_DirEntry \<Rightarrow> BOFS_Inode \<Rightarrow> bofs \<Rightarrow> (int \<times> bofs) option" where
  "add_special sb parent child n s =
     (let (_, s) = BOFS_SyncInode sb n s in
      do { (r, s) \<leftarrow> BOFS_SyncDirEntry sb parent child s;
           if r > 0 then Some (0, if r = 1 then grow_parent sb parent n s else s) else Some (-1, s) })"

definition BOFS_CreateNewDevice :: "BOFS_SuperBlock \<Rightarrow> DEV_TYPE \<Rightarrow> u32 \<Rightarrow> u32 \<Rightarrow> BOFS_DirEntry \<Rightarrow> u8 list \<Rightarrow> bofs \<Rightarrow> (int \<times> bofs) option" where
  "BOFS_CreateNewDevice sb ty dev sz parent nm s =
     (let (idx, s) = BOFS_AllocBitmap sb BOFS_BMT_INODE 1 s in
      if idx = -1 then Some (-1, s)
      else let inodeID = word_of_int idx;
               (_, s) = BOFS_SyncBitmap sb BOFS_BMT_INODE inodeID s;
               n = BOFS_CreateInode inodeID (BOFS_IMODE_R OR BOFS_IMODE_W) 0 (devno sb) s;
               child = BOFS_CreateDirEntry inodeID (device_dir_type ty) nm
           in add_special sb parent child (n\<lparr>i_size := sz, i_blocks := (i_blocks n)(0 := dev)\<rparr>) s)"

definition BOFS_CreateNewTask :: "BOFS_SuperBlock \<Rightarrow> u32 \<Rightarrow> BOFS_DirEntry \<Rightarrow> u8 list \<Rightarrow> bofs \<Rightarrow> (int \<times> bofs) option" where
  "BOFS_CreateNewTask sb pid parent nm s =
     (let (idx, s) = BOFS_AllocBitmap sb BOFS_BMT_INODE 1 s in
      if idx = -1 then Some (-1, s)
      else let inodeID = word_of_int idx;
               (_, s) = BOFS_SyncBitmap sb BOFS_BMT_INODE inodeID s;
               n = BOFS_CreateInode inodeID (BOFS_IMODE_R OR BOFS_IMODE_W) 0 (devno sb) s;
               child = BOFS_CreateDirEntry inodeID BOFS_FILE_TYPE_TASK nm
           in add_special sb parent child (n\<lparr>i_blocks := (i_blocks n)(0 := pid)\<rparr>) s)"

text \<open>The walk to the parent, a copy in each function; \<open>create\<close> makes the last component.\<close>

fun make_file_loop :: "(BOFS_DirEntry \<Rightarrow> u8 list \<Rightarrow> bofs \<Rightarrow> (int \<times> bofs) option) \<Rightarrow> BOFS_SuperBlock \<Rightarrow> addr \<Rightarrow> nat \<Rightarrow>
    BOFS_DirEntry \<Rightarrow> bofs \<Rightarrow> (int \<times> bofs) option" where
  "make_file_loop create sb p 0 parent s = Some (0, s)"
| "make_file_loop create sb p (Suc k) parent s =
     (let (nm, p) = take_name (kmem s) (p + 1) BOFS_NAME_LEN in
      if cname nm = [] then Some (-1, s)
      else do { (found, s) \<leftarrow> BOFS_SearchDirEntry sb parent nm s;
                case found of
                  Some e \<Rightarrow> if k = 0 then Some (-1, s) else make_file_loop create sb p k e s
                | None \<Rightarrow>
                    if k = 0 then
                      do { (r, s) \<leftarrow> create parent nm s;
                           if r \<noteq> 0 then Some (-1, s) else make_file_loop create sb p k parent s }
                    else Some (-1, s) })"

definition make_file :: "(BOFS_DirEntry \<Rightarrow> u8 list \<Rightarrow> bofs \<Rightarrow> (int \<times> bofs) option) \<Rightarrow> BOFS_SuperBlock \<Rightarrow> addr \<Rightarrow> bofs \<Rightarrow> (int \<times> bofs) option" where
  "make_file create sb pathname s =
     (if kmem s pathname \<noteq> 47 then Some (-1, s)
      else do { depth \<leftarrow> depth_loop (kmem s) pathname 0;
                make_file_loop create sb pathname (nat_depth depth) (rootDir sb) s })"

definition BOFS_MakeDevice :: "BOFS_SuperBlock \<Rightarrow> DEV_TYPE \<Rightarrow> u32 \<Rightarrow> u32 \<Rightarrow> addr \<Rightarrow> bofs \<Rightarrow> (int \<times> bofs) option" where
  "BOFS_MakeDevice sb ty dev sz = make_file (BOFS_CreateNewDevice sb ty dev sz) sb"

definition BOFS_MakeTask :: "BOFS_SuperBlock \<Rightarrow> u32 \<Rightarrow> addr \<Rightarrow> bofs \<Rightarrow> (int \<times> bofs) option" where
  "BOFS_MakeTask sb pid = make_file (BOFS_CreateNewTask sb pid) sb"

section \<open>Directories and status\<close>

text \<open>An entry that is neither a directory nor a normal file gives NULL too.\<close>

definition BOFS_OpenDir :: "BOFS_SuperBlock \<Rightarrow> addr \<Rightarrow> block \<Rightarrow> bofs \<Rightarrow> (BOFS_Dir option \<times> bofs) option" where
  "BOFS_OpenDir sb pathname junk s =
     (if kmem s pathname = 47 \<and> kmem s (pathname + 1) = 0 then
        (let (ok, s) = attempt s in if \<not> ok then Some (None, s) else BOFS_OpenDirSub sb (rootDir sb) junk s)
      else do { (found, rec, s) \<leftarrow> BOFS_SearchDir sb pathname s;
                if found \<noteq> 0 then Some (None, s)
                else do { e \<leftarrow> childDir rec;
                          if d_type e = BOFS_FILE_TYPE_DIRECTORY then BOFS_OpenDirSub sb e junk s
                          else Some (None, s) } })"

text \<open>\<open>devno2\<close> keeps what was in the buffer unless the path is the root.\<close>

record stat_buf =
  bst_size :: u32
  bst_mode :: u8
  bst_devno :: u32
  bst_devno2 :: u32
  bst_inode :: u32
  bst_crttime :: u32
  bst_mdftime :: u32
  bst_acstime :: u32
  bst_blksize :: u32
  bst_blocks :: u32

definition fill_stat :: "BOFS_SuperBlock \<Rightarrow> BOFS_Inode \<Rightarrow> stat_buf \<Rightarrow> stat_buf" where
  "fill_stat sb n b = b\<lparr>bst_size := i_size n, bst_mode := ucast (i_mode n), bst_devno := i_devno n, bst_inode := i_id n,
     bst_crttime := i_crttime n, bst_mdftime := i_mdftime n, bst_acstime := i_acstime n,
     bst_blksize := blockSize sb, bst_blocks := DIV_ROUND_UP (i_size n) (blockSize sb)\<rparr>"

definition BOFS_Stat :: "BOFS_SuperBlock \<Rightarrow> addr \<Rightarrow> stat_buf \<Rightarrow> bofs \<Rightarrow> (int \<times> stat_buf \<times> bofs) option" where
  "BOFS_Stat sb pathname b s =
     (if is_root_path (kmem s) pathname then
        (let (_, n, s) = BOFS_LoadInodeByID sb (d_inode (rootDir sb)) (junk_inode s) s
         in Some (0, (fill_stat sb n b)\<lparr>bst_devno2 := 0\<rparr>, s))
      else do { (found, rec, s) \<leftarrow> BOFS_SearchDir sb pathname s;
                if found \<noteq> 0 then Some (-1, b, s)
                else do { e \<leftarrow> childDir rec;
                          let (_, n, s) = BOFS_LoadInodeByID sb (d_inode e) (junk_inode s) s
                          in Some (0, fill_stat sb n b, s) } })"

section \<open>The path of a call\<close>

record sysfs =
  fls :: files
  drives :: "BOFS_Drive list"
  cwd :: addr

record locals =
  absPath :: addr
  finalPath :: addr
  driveName :: addr
  washName :: addr

definition MAX_PATH_LEN :: u32 where
  "MAX_PATH_LEN = 256"

definition sys_mem :: "sysfs \<Rightarrow> mem" where
  "sys_mem S = kmem (fs (fls S))"

definition set_sys_mem :: "mem \<Rightarrow> sysfs \<Rightarrow> sysfs" where
  "set_sys_mem m S = S\<lparr>fls := (fls S)\<lparr>fs := (fs (fls S))\<lparr>kmem := m\<rparr>\<rparr>\<rparr>"

text \<open>The part that all calls with a path begin with; the washed path is left in \<open>finalPath\<close>.\<close>

definition call_path :: "locals \<Rightarrow> addr \<Rightarrow> BOFS_Drive list \<Rightarrow> addr \<Rightarrow> mem \<Rightarrow> (BOFS_Drive option \<times> mem) option" where
  "call_path L dir drs pathname m =
     do { m \<leftarrow> BOFS_MakeAbsPath (fst (memset m (absPath L) 0 MAX_PATH_LEN)) dir (driveName L) pathname (absPath L);
          (drive, m) \<leftarrow> BOFS_GetDriveByPath m drs (driveName L) (absPath L);
          if drive = None then Some (None, m)
          else do { let m = fst (memset m (finalPath L) 0 MAX_PATH_LEN);
                    path \<leftarrow> strchr m (absPath L) 47;
                    if path = 0 then None
                    else do { m \<leftarrow> BOFS_WashPath m (washName L) path (finalPath L); Some (drive, m) } } }"

definition with_path :: "locals \<Rightarrow> addr \<Rightarrow> 'a \<Rightarrow> (BOFS_Drive \<Rightarrow> sysfs \<Rightarrow> ('a \<times> sysfs) option) \<Rightarrow> sysfs \<Rightarrow> ('a \<times> sysfs) option" where
  "with_path L pathname failed f S =
     do { (drive, m) \<leftarrow> call_path L (cwd S) (drives S) pathname (sys_mem S);
          case drive of None \<Rightarrow> Some (failed, set_sys_mem m S) | Some d \<Rightarrow> f d (set_sys_mem m S) }"

definition on_files :: "(files \<Rightarrow> ('a \<times> files) option) \<Rightarrow> sysfs \<Rightarrow> ('a \<times> sysfs) option" where
  "on_files f S = do { (r, F) \<leftarrow> f (fls S); Some (r, S\<lparr>fls := F\<rparr>) }"

definition on_disk :: "(bofs \<Rightarrow> ('a \<times> bofs) option) \<Rightarrow> sysfs \<Rightarrow> ('a \<times> sysfs) option" where
  "on_disk f = on_files (\<lambda>F. do { (r, s) \<leftarrow> f (fs F); Some (r, F\<lparr>fs := s\<rparr>) })"

section \<open>Flags and modes of the interface\<close>

text \<open>Each call translates the constants of the interface into those of BOFS.\<close>

definition trans_bits :: "('a::len word \<times> 'b::len word) list \<Rightarrow> 'a word \<Rightarrow> 'b word" where
  "trans_bits tab x = fold (\<lambda>(a, b) y. if x AND a \<noteq> 0 then y OR b else y) tab 0"

definition O_RDONLY :: u32 where
  "O_RDONLY = 1"

definition O_WRONLY :: u32 where
  "O_WRONLY = 2"

definition O_RDWR :: u32 where
  "O_RDWR = 4"

definition O_CREAT :: u32 where
  "O_CREAT = 8"

definition O_TRUNC :: u32 where
  "O_TRUNC = 0x10"

definition O_APPEDN :: u32 where
  "O_APPEDN = 0x20"

definition O_EXEC :: u32 where
  "O_EXEC = 0x80"

definition BOFS_O_TRUNC :: u32 where
  "BOFS_O_TRUNC = 0x10"

definition open_flags :: "u32 \<Rightarrow> u32" where
  "open_flags = trans_bits [(O_RDONLY, BOFS_O_RDONLY), (O_WRONLY, BOFS_O_WRONLY), (O_RDWR, BOFS_O_RDWR),
     (O_CREAT, BOFS_O_CREAT), (O_TRUNC, BOFS_O_TRUNC), (O_APPEDN, BOFS_O_APPEDN), (O_EXEC, BOFS_O_EXEC)]"

definition S_IFDIR :: u8 where
  "S_IFDIR = 0x20"

definition S_IFREG :: u8 where
  "S_IFREG = 0x10"

definition S_IREAD :: u8 where
  "S_IREAD = 4"

definition S_IWRITE :: u8 where
  "S_IWRITE = 2"

definition S_IEXEC :: u8 where
  "S_IEXEC = 1"

definition BOFS_IMODE_F :: u32 where
  "BOFS_IMODE_F = 0x10"

definition mode_table :: "(u32 \<times> u8) list" where
  "mode_table = [(BOFS_IMODE_R, S_IREAD), (BOFS_IMODE_W, S_IWRITE), (BOFS_IMODE_X, S_IEXEC),
     (BOFS_IMODE_F, S_IFREG), (BOFS_IMODE_D, S_IFDIR)]"

text \<open>The mode that a call reports for the mode of an inode, and the one it sets.\<close>

definition sys_mode :: "u8 \<Rightarrow> u8" where
  "sys_mode mode = trans_bits mode_table (ucast mode)"

definition bofs_mode :: "u32 \<Rightarrow> u8" where
  "bofs_mode mode = ucast (trans_bits (map (\<lambda>(b, a). (ucast a :: u32, b)) mode_table) mode :: u32)"

text \<open>\<open>BOFS_F_OK\<close>, \<open>BOFS_X_OK\<close>, \<open>BOFS_R_OK\<close>, \<open>BOFS_W_OK\<close> are 1 to 4; \<open>F_OK\<close>, \<open>X_OK\<close>, \<open>W_OK\<close>, \<open>R_OK\<close> are 0, 1, 2, 4.\<close>

definition access_mode :: "u8 \<Rightarrow> u8" where
  "access_mode mode =
     (if mode = 0 then 1 else if mode = 1 then 2 else if mode = 2 then 4 else if mode = 4 then 3 else 0)"

datatype D_TYPE = D_UNKNOWN | D_BLOCK | D_CHAR | D_NET

definition dev_type :: "D_TYPE \<Rightarrow> DEV_TYPE" where
  "dev_type ty = (case ty of D_BLOCK \<Rightarrow> DEV_TYPE_BLOCK | D_CHAR \<Rightarrow> DEV_TYPE_CHAR | _ \<Rightarrow> DEV_TYPE_UNKNOWN)"

definition MKDEV :: "u32 \<Rightarrow> u32 \<Rightarrow> u32" where
  "MKDEV major minor = push_bit 20 major OR minor"

section \<open>The calls\<close>

definition SysMakeDev :: "locals \<Rightarrow> addr \<Rightarrow> D_TYPE \<Rightarrow> u32 \<Rightarrow> u32 \<Rightarrow> u32 \<Rightarrow> sysfs \<Rightarrow> (int \<times> sysfs) option" where
  "SysMakeDev L pathname ty major minor sz =
     with_path L pathname (-1)
       (\<lambda>d. on_disk (BOFS_MakeDevice (dr_sb d) (dev_type ty) (MKDEV major minor) sz (finalPath L)))"

definition SysMakeTsk :: "locals \<Rightarrow> addr \<Rightarrow> u32 \<Rightarrow> sysfs \<Rightarrow> (int \<times> sysfs) option" where
  "SysMakeTsk L pathname pid = with_path L pathname (-1) (\<lambda>d. on_disk (BOFS_MakeTask (dr_sb d) pid (finalPath L)))"

definition SysOpen :: "locals \<Rightarrow> addr \<Rightarrow> u32 \<Rightarrow> sysfs \<Rightarrow> (int \<times> sysfs) option" where
  "SysOpen L pathname flags =
     with_path L pathname (-1) (\<lambda>d. on_files (BOFS_Open (dr_sb d) (finalPath L) (open_flags flags)))"

definition SysRemove :: "locals \<Rightarrow> addr \<Rightarrow> sysfs \<Rightarrow> (int \<times> sysfs) option" where
  "SysRemove L pathname = with_path L pathname (-1) (\<lambda>d. on_files (BOFS_Remove (dr_sb d) (finalPath L)))"

definition SysAccess :: "locals \<Rightarrow> addr \<Rightarrow> u8 \<Rightarrow> sysfs \<Rightarrow> (int \<times> sysfs) option" where
  "SysAccess L pathname mode =
     with_path L pathname (-1) (\<lambda>d. on_disk (BOFS_Access (dr_sb d) (finalPath L) (access_mode mode)))"

definition SysGetMode :: "locals \<Rightarrow> addr \<Rightarrow> sysfs \<Rightarrow> (int \<times> sysfs) option" where
  "SysGetMode L pathname S =
     with_path L pathname (-1)
       (\<lambda>d S. do { (mode, S) \<leftarrow> on_disk (BOFS_GetMode (dr_sb d) (finalPath L)) S;
                   Some (uint (sys_mode (word_of_int mode)), S) }) S"

definition SysChangeMode :: "locals \<Rightarrow> addr \<Rightarrow> u32 \<Rightarrow> sysfs \<Rightarrow> (int \<times> sysfs) option" where
  "SysChangeMode L pathname mode =
     with_path L pathname (-1) (\<lambda>d. on_files (BOFS_ChangeMode (dr_sb d) (finalPath L) (bofs_mode mode)))"

definition SysMakeDir :: "locals \<Rightarrow> addr \<Rightarrow> sysfs \<Rightarrow> (int \<times> sysfs) option" where
  "SysMakeDir L pathname = with_path L pathname (-1) (\<lambda>d. on_disk (BOFS_MakeDir (dr_sb d) (finalPath L)))"

definition SysRemoveDir :: "locals \<Rightarrow> addr \<Rightarrow> sysfs \<Rightarrow> (int \<times> sysfs) option" where
  "SysRemoveDir L pathname = with_path L pathname (-1) (\<lambda>d. on_disk (BOFS_RemoveDir (dr_sb d) (finalPath L)))"

definition SysChangeName :: "locals \<Rightarrow> addr \<Rightarrow> u8 list \<Rightarrow> sysfs \<Rightarrow> (int \<times> sysfs) option" where
  "SysChangeName L pathname nm = with_path L pathname (-1) (\<lambda>d. on_disk (BOFS_ResetName (dr_sb d) (finalPath L) nm))"

definition SysOpenDir :: "locals \<Rightarrow> addr \<Rightarrow> block \<Rightarrow> sysfs \<Rightarrow> (BOFS_Dir option \<times> sysfs) option" where
  "SysOpenDir L pathname junk =
     with_path L pathname None (\<lambda>d. on_disk (BOFS_OpenDir (dr_sb d) (finalPath L) junk))"

definition SysLseek :: "int \<Rightarrow> u32 \<Rightarrow> nat \<Rightarrow> sysfs \<Rightarrow> (int \<times> sysfs) option" where
  "SysLseek fd offset flags =
     on_files (BOFS_Lseek fd (sint offset) (if flags \<in> {BOFS_SEEK_SET, BOFS_SEEK_CUR, BOFS_SEEK_END} then flags else 0))"

text \<open>\<open>struct stat\<close>, with the members in the order of the source, and what \<open>SysStat\<close> fills in.\<close>

record stat =
  st_size :: u32
  st_mode :: u8
  st_ino :: u32
  st_dev :: u32
  st_rdev :: u32
  st_ctime :: u32
  st_mtime :: u32
  st_atime :: u32
  st_blksize :: u32
  st_blocks :: u32

definition stat_of :: "stat_buf \<Rightarrow> stat" where
  "stat_of b = \<lparr>st_size = bst_size b, st_mode = sys_mode (bst_mode b), st_ino = bst_inode b, st_dev = bst_devno b,
     st_rdev = bst_devno2 b, st_ctime = bst_crttime b, st_mtime = bst_mdftime b, st_atime = bst_acstime b,
     st_blksize = bst_blksize b, st_blocks = bst_blocks b\<rparr>"

text \<open>\<open>junk\<close> is what the local \<open>bstat\<close> holds before, \<open>b\<close> what the caller's buffer holds.\<close>

definition SysStat :: "locals \<Rightarrow> addr \<Rightarrow> stat_buf \<Rightarrow> stat \<Rightarrow> sysfs \<Rightarrow> ((int \<times> stat) \<times> sysfs) option" where
  "SysStat L pathname junk b =
     with_path L pathname (-1, b)
       (\<lambda>d. on_disk (\<lambda>s. do { (r, bs, s) \<leftarrow> BOFS_Stat (dr_sb d) (finalPath L) junk s;
                              Some (if r \<noteq> 0 then (-1, b) else (0, stat_of bs), s) }))"

text \<open>An entry as a program reads it; \<open>off\<close> is the position of the entry.\<close>

record dirent =
  de_inode :: u32
  de_off :: u32
  de_type :: u16
  de_name :: "u8 list"

definition SysReadDir :: "BOFS_Dir \<Rightarrow> dirent \<Rightarrow> int \<times> dirent \<times> BOFS_Dir" where
  "SysReadDir bdir b =
     (case BOFS_ReadDir bdir of
        (None, bdir) \<Rightarrow> (-1, b, bdir)
      | (Some e, bdir') \<Rightarrow>
          (0, \<lparr>de_inode = d_inode e, de_off = pos bdir, de_type = d_type e, de_name = cname (d_name e)\<rparr>, bdir'))"

section \<open>The working directory and the files of tasks\<close>

definition set_cwd :: "mem \<Rightarrow> addr \<Rightarrow> addr \<Rightarrow> addr \<Rightarrow> mem option" where
  "set_cwd m dir nm pathname =
     do { (m, _) \<leftarrow> strcat (fst (memset m dir 0 BOFS_PATH_LEN)) dir nm;
          m \<leftarrow> strcat_lit m dir [58];
          (m, _) \<leftarrow> strcat m dir pathname;
          Some m }"

definition BOFS_ChangeCWD :: "BOFS_Drive \<Rightarrow> addr \<Rightarrow> sysfs \<Rightarrow> (int \<times> sysfs) option" where
  "BOFS_ChangeCWD d pathname S =
     (if sys_mem S pathname = 47 \<and> sys_mem S (pathname + 1) = 0 then
        do { m \<leftarrow> set_cwd (sys_mem S) (cwd S) (dr_name d) pathname; Some (0, set_sys_mem m S) }
      else
        do { (rec, S) \<leftarrow> on_disk (\<lambda>s. do { (r, rec, s) \<leftarrow> BOFS_SearchDir (dr_sb d) pathname s; Some ((r, rec), s) }) S;
             if fst rec \<noteq> 0 then Some (-1, S)
             else do { e \<leftarrow> childDir (snd rec);
                       if d_type e \<noteq> BOFS_FILE_TYPE_DIRECTORY then Some (-1, S)
                       else do { m \<leftarrow> set_cwd (sys_mem S) (cwd S) (dr_name d) pathname;
                                 Some (0, set_sys_mem m S) } } })"

definition SysChangeCWD :: "locals \<Rightarrow> addr \<Rightarrow> sysfs \<Rightarrow> (int \<times> sysfs) option" where
  "SysChangeCWD L pathname = with_path L pathname (-1) (\<lambda>d. BOFS_ChangeCWD d (finalPath L))"

text \<open>\<open>sys:/tsk/name\pid\<close>, built in the array \<open>taskpath\<close>; the digits of the pid are written to the array \<open>numstr\<close>.\<close>

definition task_path :: "addr \<Rightarrow> addr \<Rightarrow> addr \<Rightarrow> int \<Rightarrow> mem \<Rightarrow> mem option" where
  "task_path taskpath numstr nm pid m =
     do { m \<leftarrow> strcat_lit (fst (memset m taskpath 0 56)) taskpath [115, 121, 115, 58, 47, 116, 115, 107];
          m \<leftarrow> strcat_lit m taskpath [47];
          (m, _) \<leftarrow> strcat m taskpath nm;
          m \<leftarrow> strcat_lit m taskpath [92];
          (m, _) \<leftarrow> itoa (fst (memset m numstr 0 8)) numstr pid 10;
          (m, _) \<leftarrow> strcat m taskpath numstr;
          Some m }"

definition AddTaskToFS :: "locals \<Rightarrow> addr \<Rightarrow> addr \<Rightarrow> addr \<Rightarrow> int \<Rightarrow> sysfs \<Rightarrow> (int \<times> sysfs) option" where
  "AddTaskToFS L taskpath numstr nm pid S =
     do { m \<leftarrow> task_path taskpath numstr nm pid (sys_mem S);
          (r, S) \<leftarrow> SysMakeTsk L taskpath (word_of_int pid) (set_sys_mem m S);
          Some (if r \<noteq> 0 then -1 else 0, S) }"

definition DelTaskFromFS :: "locals \<Rightarrow> addr \<Rightarrow> addr \<Rightarrow> addr \<Rightarrow> int \<Rightarrow> sysfs \<Rightarrow> (int \<times> sysfs) option" where
  "DelTaskFromFS L taskpath numstr nm pid S =
     do { m \<leftarrow> task_path taskpath numstr nm pid (sys_mem S);
          (r, S) \<leftarrow> SysRemove L taskpath (set_sys_mem m S);
          Some (if r \<noteq> 0 then -1 else 0, S) }"

end
