(* ===== verification/PathProofs.thy ===== *)
theory PathProofs
  imports BofsCalls
begin

text \<open>
  What a path name means. A path is its list of components; \<open>walk\<close> applies one component to the list reached so far and
  \<open>render\<close> writes the list as a path. \<open>BOFS_WashPath\<close> and the path of a system call are shown to refine these.
\<close>

section \<open>Components\<close>

function components :: "u8 list \<Rightarrow> u8 list list" where
  "components s =
     (let u = dropWhile (\<lambda>x. x = 47) s in
      if u = [] then [] else takeWhile (\<lambda>x. x \<noteq> 47) u # components (dropWhile (\<lambda>x. x \<noteq> 47) u))"
  by auto
termination
proof (relation "measure length", simp)
  fix s u :: "u8 list"
  assume u: "u = dropWhile (\<lambda>x. x = 47) s" "u \<noteq> []"
  then have "hd u \<noteq> 47" using hd_dropWhile [of "\<lambda>x. x = 47" s] by simp
  with u(2) have "length (dropWhile (\<lambda>x. x \<noteq> 47) u) < length u"
    by (cases u) (auto simp: le_imp_less_Suc length_dropWhile_le)
  also have "\<dots> \<le> length s" using u(1) by (simp add: length_dropWhile_le)
  finally show "(dropWhile (\<lambda>x. x \<noteq> 47) u, s) \<in> measure length" by simp
qed

declare components.simps [simp del]

definition walk :: "u8 list list \<Rightarrow> u8 list \<Rightarrow> u8 list list" where
  "walk st c = (if c = [46, 46] then butlast st else if c = [46] then st else st @ [c])"

definition render :: "u8 list list \<Rightarrow> u8 list" where
  "render st = (if st = [] then [47] else concat (map (\<lambda>c. 47 # c) st))"

text \<open>A component: not empty, without slash and NUL. A canonical path has no dot components.\<close>

definition comp :: "u8 list \<Rightarrow> bool" where
  "comp c \<longleftrightarrow> c \<noteq> [] \<and> 47 \<notin> set c \<and> 0 \<notin> set c"

definition canonical :: "u8 list list \<Rightarrow> bool" where
  "canonical st \<longleftrightarrow> (\<forall>c \<in> set st. comp c \<and> c \<noteq> [46] \<and> c \<noteq> [46, 46])"

lemma components_Nil [simp]: "components [] = []"
  by (simp add: components.simps)

lemma components_first:
  "dropWhile (\<lambda>x. x = 47) s = u \<Longrightarrow> u \<noteq> [] \<Longrightarrow>
   components s = takeWhile (\<lambda>x. x \<noteq> 47) u # components (dropWhile (\<lambda>x. x \<noteq> 47) u)"
  by (subst components.simps) (simp only: Let_def if_False)

lemma components_slash [simp]: "components (47 # s) = components s"
  by (subst (1 2) components.simps) simp

lemma components_other:
  assumes "x \<noteq> 47"
  shows "components (x # s) = (x # takeWhile (\<lambda>x. x \<noteq> 47) s) # components (dropWhile (\<lambda>x. x \<noteq> 47) s)"
  using assms by (subst components.simps) simp

lemma components_comp: "0 \<notin> set s \<Longrightarrow> c \<in> set (components s) \<Longrightarrow> comp c"
proof (induction s rule: components.induct)
  case (1 s)
  let ?u = "dropWhile (\<lambda>x. x = 47) s"
  have *: "set ?u \<subseteq> set s" by (auto dest: set_dropWhileD)
  show ?case
  proof (cases "?u = []")
    case True
    then show ?thesis using "1.prems" by (subst (asm) components.simps) simp
  next
    case False
    have hd: "hd ?u \<noteq> 47" using hd_dropWhile [OF False] .
    have "comp (takeWhile (\<lambda>x. x \<noteq> 47) ?u)"
      using False hd "1.prems"(1) * by (cases ?u) (auto simp: comp_def dest: set_takeWhileD)
    moreover have "c = takeWhile (\<lambda>x. x \<noteq> 47) ?u \<or> c \<in> set (components (dropWhile (\<lambda>x. x \<noteq> 47) ?u))"
      using "1.prems"(2) False by (subst (asm) components.simps) (simp add: Let_def split: if_splits)
    moreover have "0 \<notin> set (dropWhile (\<lambda>x. x \<noteq> 47) ?u)" using "1.prems"(1) by (meson set_dropWhileD)
    ultimately show ?thesis using "1.IH" [OF refl False] by blast
  qed
qed

lemma until_slash:
  "takeWhile (\<lambda>x. x \<noteq> 47) (u @ 47 # y) = takeWhile (\<lambda>x. x \<noteq> 47) (u :: u8 list)"
  "dropWhile (\<lambda>x. x \<noteq> 47) (u @ 47 # y) = dropWhile (\<lambda>x. x \<noteq> 47) u @ 47 # y"
  by (induction u) auto

lemma components_append: "components (x @ 47 # y) = components x @ components y"
proof (induction x rule: components.induct)
  case (1 x)
  let ?u = "dropWhile (\<lambda>x. x = 47) x"
  show ?case
  proof (cases "?u = []")
    case True
    then have "dropWhile (\<lambda>x. x = 47) (x @ 47 # y) = dropWhile (\<lambda>x. x = 47) y"
      by (auto simp: dropWhile_append)
    then show ?thesis using True by (subst (1 2 3) components.simps) (simp add: Let_def)
  next
    case False
    have d: "dropWhile (\<lambda>x. x = 47) (x @ 47 # y) = ?u @ 47 # y"
      using False by (auto simp: dropWhile_append)
    have *: "components (x @ 47 # y) = takeWhile (\<lambda>x. x \<noteq> 47) ?u # components (dropWhile (\<lambda>x. x \<noteq> 47) ?u @ 47 # y)"
      using components_first [OF d] by (simp only: until_slash append_is_Nil_conv list.distinct simp_thms)
    show ?thesis
      unfolding * components_first [OF refl False] "1" [OF refl False] by simp
  qed
qed

lemma components_render: "\<forall>c \<in> set st. comp c \<Longrightarrow> components (render st) = st"
proof -
  have slash: "components (c @ r) = c # components r" if "comp c" "r = [] \<or> hd r = 47" for c r
  proof -
    from that(1) obtain x xs where c: "c = x # xs" "x \<noteq> 47" "47 \<notin> set xs" by (cases c) (auto simp: comp_def)
    have "takeWhile (\<lambda>x. x \<noteq> 47) (xs @ r) = xs" "dropWhile (\<lambda>x. x \<noteq> 47) (xs @ r) = r"
      using c(3) that(2) by (cases r; auto simp: takeWhile_append dropWhile_append takeWhile_eq_all_conv)+
    with c show ?thesis by (simp add: components_other)
  qed
  have "components (concat (map (\<lambda>c. 47 # c) st)) = st" if "\<forall>c \<in> set st. comp c" for st
    using that
  proof (induction st)
    case (Cons c st)
    have "concat (map (\<lambda>c. 47 # c) st) = [] \<or> hd (concat (map (\<lambda>c. 47 # c) st)) = (47 :: u8)"
      by (cases st) auto
    with Cons show ?case by (simp add: slash)
  qed simp
  then show "\<forall>c \<in> set st. comp c \<Longrightarrow> components (render st) = st" by (simp add: render_def)
qed

lemma walk_canonical: "canonical st \<Longrightarrow> comp c \<Longrightarrow> canonical (walk st c)"
  by (auto simp: canonical_def walk_def dest: in_set_butlastD)

lemma foldl_walk_canonical: "canonical st \<Longrightarrow> \<forall>c \<in> set cs. comp c \<Longrightarrow> canonical (foldl walk st cs)"
  by (induction cs arbitrary: st) (auto intro: walk_canonical)

lemma foldl_walk_id: "canonical (st @ cs) \<Longrightarrow> foldl walk st cs = st @ cs"
  by (induction cs arbitrary: st) (auto simp: canonical_def walk_def)

lemma render_Nil [simp]: "render [] = [47]"
  by (simp add: render_def)

lemma render_snoc: "render (st @ [c]) = (if st = [] then [] else render st) @ 47 # c"
  by (simp add: render_def)

lemma render_no_nul: "\<forall>c \<in> set st. comp c \<Longrightarrow> 0 \<notin> set (render st)"
  by (auto simp: render_def comp_def)

lemma render_hd: "\<exists>r. render st = 47 # r"
  by (cases st) (auto simp: render_def)

section \<open>Washing\<close>

text \<open>\<open>same_outside I m m'\<close>: the memories differ only at addresses of \<open>I\<close>.\<close>

definition same_outside :: "addr set \<Rightarrow> mem \<Rightarrow> mem \<Rightarrow> bool" where
  "same_outside I m m' \<longleftrightarrow> (\<forall>a. a \<notin> I \<longrightarrow> m' a = m a)"

lemma same_outsideI: "(\<And>a. a \<notin> I \<Longrightarrow> m' a = m a) \<Longrightarrow> same_outside I m m'"
  by (simp add: same_outside_def)

lemma same_outside_trans:
  "same_outside I m m' \<Longrightarrow> same_outside J m' m'' \<Longrightarrow> I \<subseteq> K \<Longrightarrow> J \<subseteq> K \<Longrightarrow> same_outside K m m''"
  unfolding same_outside_def by (metis subsetD)

lemma same_outside_mono: "same_outside I m m' \<Longrightarrow> I \<subseteq> K \<Longrightarrow> same_outside K m m'"
  by (auto simp: same_outside_def)

lemma same_outside_refl: "same_outside I m m"
  by (simp add: same_outside_def)

lemma cstr_same:
  "same_outside I m m' \<Longrightarrow> cstr m p s \<Longrightarrow> {p..p + length s} \<inter> I = {} \<Longrightarrow> cstr m' p s"
  by (subst cstr_cong [where m' = m]) (auto simp: same_outside_def disjoint_iff)

lemma wr_bytes_same: "same_outside {p..<p + length xs} m (wr_bytes m p xs)"
  by (rule same_outsideI) (auto simp: wr_bytes_def)

lemma memset_same: "same_outside {p..<p + unat n} m (fst (memset m p v n))"
  using wr_bytes_same [of p "replicate (unat n) v"] by (simp add: memset_def memset_loop_eq)

lemma memset_zeros: "p \<le> a \<Longrightarrow> a < p + unat n \<Longrightarrow> fst (memset m p 0 n) a = 0"
  by (simp add: memset_def memset_loop_eq wr_bytes_def)

lemma skip_slashes_cstr:
  "cstr m p s \<Longrightarrow> skip_slashes m p = Some (p + (length s - length (dropWhile (\<lambda>x. x = 47) s)))"
proof (induction s arbitrary: p)
  case (Cons x s)
  have "length (dropWhile (\<lambda>x. x = 47) s) \<le> length s" by (rule length_dropWhile_le)
  with Cons show ?case by (auto simp: skip_slashes.simps [of m p] Suc_diff_le)
qed (simp add: skip_slashes.simps)

lemma store_name_cstr:
  assumes "cstr m p u" "{p..p + length u} \<inter> {nm..<nm + length (takeWhile (\<lambda>x. x \<noteq> 47) u)} = {}"
  shows "store_name m p nm = Some (wr_bytes m nm (takeWhile (\<lambda>x. x \<noteq> 47) u), p + length (takeWhile (\<lambda>x. x \<noteq> 47) u))"
  using assms
proof (induction u arbitrary: m p nm)
  case Nil
  then show ?case by (simp add: store_name.simps)
next
  case (Cons x u)
  show ?case
  proof (cases "x = 47")
    case True
    then show ?thesis using Cons.prems by (simp add: store_name.simps)
  next
    case False
    let ?c = "takeWhile (\<lambda>x. x \<noteq> 47) u"
    have d: "{p..p + Suc (length u)} \<inter> {nm..<nm + Suc (length ?c)} = {}" using Cons.prems(2) False by simp
    then have "nm \<notin> {p..p + Suc (length u)}" by auto
    then have "nm < Suc p \<or> Suc p + length u < nm" by auto
    then have "cstr (m(nm := x)) (p + 1) u" using Cons.prems(1) by simp
    moreover have "{p + 1..p + 1 + length u} \<subseteq> {p..p + Suc (length u)}"
      "{nm + 1..<nm + 1 + length ?c} \<subseteq> {nm..<nm + Suc (length ?c)}" by auto
    then have "{p + 1..p + 1 + length u} \<inter> {nm + 1..<nm + 1 + length ?c} = {}" using d by blast
    ultimately have "store_name (m(nm := x)) (p + 1) (nm + 1)
        = Some (wr_bytes (m(nm := x)) (nm + 1) ?c, p + 1 + length ?c)"
      by (rule Cons.IH)
    then show ?thesis
      using False Cons.prems(1) by (simp add: store_name.simps [of m p] fun_upd_def [symmetric] mem_simps)
  qed
qed

text \<open>Parsing the next component into a cleared buffer of \<open>BOFS_NAME_LEN\<close> bytes.\<close>

definition name_room :: "addr \<Rightarrow> addr set" where
  "name_room nm = {nm..<nm + BOFS_NAME_LEN}"

definition first :: "u8 list \<Rightarrow> u8 list" where
  "first t = takeWhile (\<lambda>x. x \<noteq> 47) (dropWhile (\<lambda>x. x = 47) t)"

definition rest :: "u8 list \<Rightarrow> u8 list" where
  "rest t = dropWhile (\<lambda>x. x \<noteq> 47) (dropWhile (\<lambda>x. x = 47) t)"

lemma first_Nil: "first t = [] \<longleftrightarrow> dropWhile (\<lambda>x. x = 47) t = []"
proof (cases "dropWhile (\<lambda>x. x = 47) t")
  case (Cons x u)
  then have "x \<noteq> 47" using hd_dropWhile [of "\<lambda>x. x = 47" t] by simp
  with Cons show ?thesis unfolding first_def Cons by simp
qed (simp only: first_def takeWhile.simps)

lemma rest_Nil: "first t = [] \<Longrightarrow> rest t = []"
  unfolding first_Nil rest_def by (simp only: dropWhile.simps)

lemma components_first_rest: "components t = (if first t = [] then [] else first t # components (rest t))"
proof (cases "first t = []")
  case True
  then have "components t = []" unfolding first_Nil by (subst components.simps) (simp only: Let_def if_True simp_thms)
  with True show ?thesis by simp
next
  case False
  then show ?thesis
    using components_first [OF refl False [unfolded first_Nil]] by (simp only: first_def [symmetric] rest_def [symmetric] if_False)
qed

lemma length_first_rest: "length (first t) + length (rest t) \<le> length t"
proof -
  have "length (first t @ rest t) \<le> length t"
    unfolding first_def rest_def takeWhile_dropWhile_id by (rule length_dropWhile_le)
  then show ?thesis by simp
qed

lemma length_after_slash: "hd t = 47 \<Longrightarrow> t \<noteq> [] \<Longrightarrow> 1 + length (first t) + length (rest t) \<le> length t"
  using length_first_rest [of "List.tl t"] by (cases t) (simp_all add: first_def rest_def)

lemma rest_slash: "rest t = [] \<or> hd (rest t) = 47"
  using hd_dropWhile [of "\<lambda>x. x \<noteq> 47" "dropWhile (\<lambda>x. x = 47) t"] by (auto simp: rest_def)

lemma first_chars: "0 \<notin> set t \<Longrightarrow> 47 \<notin> set (first t) \<and> 0 \<notin> set (first t)"
  by (auto simp: first_def dest: set_takeWhileD set_dropWhileD)

lemma cstr_drop: "cstr m p (x @ y) \<Longrightarrow> cstr m (p + length x) y"
  by (simp add: cstr_append)

lemma parse_cstr:
  assumes t: "cstr m p t" and dis: "{p..p + length t} \<inter> name_room nm = {}" and len: "length (first t) \<le> BOFS_NAME_LEN"
  shows "BOFS_ParsePathAfterward m p nm = Some (wr_bytes m nm (first t),
     if rest t = [] then 0 else p + (length t - length (rest t)))"
proof -
  let ?u = "dropWhile (\<lambda>x. x = 47) t"
  let ?v = "takeWhile (\<lambda>x. x = 47) t"
  let ?q = "p + length ?v"
  have tv: "t = ?v @ ?u" by simp
  have lv: "length t = length ?v + length ?u" by (metis tv length_append)
  have u: "cstr m ?q ?u" using t by (subst (asm) tv) (rule cstr_drop)
  have skip: "(if m p = 47 then skip_slashes m (p + 1) else Some p) = Some ?q"
  proof (cases t)
    case (Cons x t')
    then have "length (dropWhile (\<lambda>x. x = 47) t') = length t' - length (takeWhile (\<lambda>x. x = 47) t')"
      by (metis add_diff_cancel_left' length_append takeWhile_dropWhile_id)
    moreover have "length (takeWhile (\<lambda>x. x = 47) t') \<le> length t'" by (rule length_takeWhile_le)
    ultimately show ?thesis using t Cons skip_slashes_cstr [of m "Suc p" t'] by simp
  qed (use t in simp)
  have uf: "?u = first t @ rest t" by (simp add: first_def rest_def)
  have sub: "{?q..?q + length ?u} \<subseteq> {p..p + length t}" using lv by auto
  have nm: "{nm..<nm + length (first t)} \<subseteq> name_room nm" using len by (auto simp: name_room_def)
  have store: "store_name m ?q nm = Some (wr_bytes m nm (first t), ?q + length (first t))"
  proof -
    have "{?q..?q + length ?u} \<inter> {nm..<nm + length (first t)} = {}" using dis sub nm by blast
    then show ?thesis unfolding first_def by (rule store_name_cstr [OF u])
  qed
  have "cstr m (?q + length (first t)) (rest t)" using u by (subst (asm) uf) (rule cstr_drop)
  moreover have "same_outside {nm..<nm + length (first t)} m (wr_bytes m nm (first t))" by (rule wr_bytes_same)
  moreover have "{?q + length (first t)..?q + length (first t) + length (rest t)} \<subseteq> {?q..?q + length ?u}"
    using uf by (auto dest: arg_cong [where f = length])
  ultimately have "cstr (wr_bytes m nm (first t)) (?q + length (first t)) (rest t)"
    using dis sub nm by (elim cstr_same) blast+
  then have z: "wr_bytes m nm (first t) (?q + length (first t)) = 0 \<longleftrightarrow> rest t = []" by (cases "rest t") auto
  have e: "?q + length (first t) = p + (length t - length (rest t))"
    using lv arg_cong [OF uf, of length] by simp
  show ?thesis
    using z store unfolding e by (simp add: BOFS_ParsePathAfterward_def skip)
qed

lemma ivl_disjoint: "{a..b} \<inter> {c..d} = {} \<Longrightarrow> a \<le> b \<Longrightarrow> c \<le> d \<Longrightarrow> b < c \<or> d < (a :: nat)"
  by (metis IntI atLeastAtMost_iff empty_iff le_cases not_less)

lemma strcat_same:
  assumes "cstr m dest d" "cstr m src t" "{dest..dest + length d + length t} \<inter> {src..src + length t} = {}"
  shows "\<exists>m'. strcat m dest src = Some (m', dest) \<and> cstr m' dest (d @ t) \<and>
    same_outside {dest + length d..dest + length d + length t} m m'"
proof -
  have "dest + length d + length t < src \<or> src + length t < dest"
    using ivl_disjoint [OF assms(3)] by simp
  from strcat_correct [OF assms(1,2) this] show ?thesis
    unfolding same_outside_def atLeastAtMost_iff not_le de_Morgan_conj by blast
qed

lemma strcat_lit_same:
  assumes "cstr m p d" "0 \<notin> set lit"
  shows "\<exists>m'. strcat_lit m p lit = Some m' \<and> cstr m' p (d @ lit) \<and> same_outside {p + length d..p + length d + length lit} m m'"
proof -
  let ?m = "wr_bytes m (p + length d) (lit @ [0])"
  have "same_outside {p + length d..p + length d + length lit} m ?m"
    by (rule same_outsideI) (auto simp: wr_bytes_def)
  moreover have "cstr ?m p (d @ lit)"
    using assms by (simp add: cstr_append rd_wr_bytes_disjoint) (simp add: cstr_def)
  ultimately show ?thesis using strend_loop_cstr [OF assms(1)] by (simp add: strcat_lit_def)
qed

lemma strrchr_loop_none: "c \<noteq> 0 \<Longrightarrow> cstr m p y \<Longrightarrow> c \<notin> set y \<Longrightarrow> strrchr_loop m p c q = Some q"
proof (induction y arbitrary: p)
  case Nil
  then show ?case by (subst strrchr_loop.simps) simp
next
  case (Cons a y)
  then show ?case by (subst strrchr_loop.simps) auto
qed

lemma strrchr_loop_last:
  "cstr m p (x @ c # y) \<Longrightarrow> c \<notin> set y \<Longrightarrow> strrchr_loop m p c r = Some (p + length x)"
proof (induction x arbitrary: p r)
  case Nil
  then show ?case by (subst strrchr_loop.simps) (auto intro: strrchr_loop_none)
next
  case (Cons a x)
  then show ?case by (simp add: strrchr_loop.simps [of m p])
qed

lemma cstr_cut: "cstr m p (x @ y) \<Longrightarrow> cstr (m(p + length x := 0)) p x"
  by (auto simp: cstr_append cstr_def [where s = x])

lemma cstr_iff: "cstr m p t \<Longrightarrow> cstr m p u \<longleftrightarrow> u = t"
  by (auto dest: cstr_unique)

text \<open>The bytes a list of components takes when each has a slash before it.\<close>

definition weight :: "u8 list list \<Rightarrow> nat" where
  "weight st = sum_list (map (\<lambda>c. 1 + length c) st)"

lemma weight_simps [simp]: "weight [] = 0" "weight (c # st) = 1 + length c + weight st" "weight (st @ st') = weight st + weight st'"
  by (simp_all add: weight_def)

lemma length_render: "length (render st) = max 1 (weight st)"
proof -
  have "length (concat (map ((#) (47 :: u8)) st)) = weight st" by (induction st) auto
  then show ?thesis by (cases st) (auto simp: render_def)
qed

lemma weight_walk: "weight (walk st c) \<le> weight st + 1 + length c"
  by (cases st rule: rev_cases) (auto simp: walk_def)

lemma render_single: "\<forall>c \<in> set st. comp c \<Longrightarrow> render st = [47] \<longleftrightarrow> st = []"
  by (cases st) (auto simp: render_def comp_def)

lemma wash_up:
  assumes "cstr m new (render st)" "\<forall>c \<in> set st. comp c"
  shows "\<exists>slash. strrchr m new 47 = Some slash \<and> (\<forall>m'. m' = (if slash \<noteq> new then m(slash := 0) else m(slash + 1 := 0)) \<longrightarrow>
    cstr m' new (render (butlast st)) \<and> same_outside {new..new + length (render st)} m m')"
proof (cases st rule: rev_cases)
  case Nil
  then show ?thesis
    using assms strrchr_loop_last [of m new "[]" 47 "[]"]
    by (auto simp: strrchr_def intro!: exI [of _ new] same_outsideI)
next
  case (snoc st' d)
  let ?x = "if st' = [] then [] else render st'"
  have d: "47 \<notin> set d" using snoc assms(2) by (simp add: comp_def)
  have c: "cstr m new (?x @ 47 # d)" using assms(1) snoc by (simp add: render_snoc)
  have r: "strrchr m new 47 = Some (new + length ?x)"
    using strrchr_loop_last [OF c d] by (simp add: strrchr_def)
  show ?thesis
  proof (cases "st' = []")
    case True
    with c have "cstr m new ([47] @ d)" by simp
    from cstr_cut [OF this] have "cstr (m(new + 1 := 0)) new [47]" by simp
    with True r snoc show ?thesis
      by (intro exI [of _ new]) (auto simp: intro!: same_outsideI simp: length_render)
  next
    case False
    with c have "cstr m new (render st' @ 47 # d)" by simp
    from cstr_cut [OF this] have "cstr (m(new + length (render st') := 0)) new (render st')" .
    with False r snoc show ?thesis
      by (intro exI [of _ "new + length (render st')"]) (auto intro!: same_outsideI simp: length_render)
  qed
qed

lemma wash_step_ok:
  assumes new: "cstr m new (render st)" "\<forall>c \<in> set st. comp c" and nm: "cstr m nm c" "comp c"
    and dis: "{new..new + weight st + 1 + length c} \<inter> {nm..nm + length c} = {}"
  shows "\<exists>m'. wash_step m new nm = Some m' \<and> cstr m' new (render (walk st c)) \<and>
    same_outside {new..new + weight st + 1 + length c} m m'"
proof -
  let ?I = "{new..new + weight st + 1 + length c}"
  have le: "length (render st) \<le> weight st + 1" by (simp add: length_render)
  note lit = cstr_iff [OF nm(1)] cstr_iff [OF new(1)]
  consider "c = [46, 46]" | "c = [46]" | "c \<noteq> [46, 46]" "c \<noteq> [46]" by blast
  then show ?thesis
  proof cases
    case 1
    obtain slash where r: "strrchr m new 47 = Some slash"
      and up: "\<forall>m'. m' = (if slash \<noteq> new then m(slash := 0) else m(slash + 1 := 0)) \<longrightarrow>
        cstr m' new (render (butlast st)) \<and> same_outside {new..new + length (render st)} m m'"
      using wash_up [OF new] by (elim exE conjE) (rule that)
    have "same_outside ?I m (if slash \<noteq> new then m(slash := 0) else m(slash + 1 := 0))"
      using up le by (intro same_outside_mono [where I = "{new..new + length (render st)}" and K = ?I]) auto
    then show ?thesis using up r 1 by (auto simp: wash_step_def lit walk_def simp del: cstr_Cons)
  next
    case 2
    then show ?thesis using new by (auto simp: wash_step_def lit walk_def same_outside_refl simp del: cstr_Cons)
  next
    case 3
    define w where "w = (if st = [] then [47] else render st @ [47])"
    obtain m1 where m1: "(if \<not> cstr m new [47] then strcat_lit m new [47] else Some m) = Some m1" "cstr m1 new w"
      "same_outside {new + 1..new + weight st + 1} m m1"
    proof (cases "st = []")
      case True
      then show ?thesis using that [of m] new by (simp add: w_def same_outside_refl)
    next
      case False
      obtain m1 where "strcat_lit m new [47] = Some m1" "cstr m1 new (render st @ [47])"
        "same_outside {new + length (render st)..new + length (render st) + 1} m m1"
        using strcat_lit_same [OF new(1), of "[47]"] by auto
      moreover have "weight st \<ge> 1" using False by (cases st) auto
      moreover have "\<not> cstr m new [47]" unfolding lit(2) using False render_single [OF new(2)] by metis
      ultimately show ?thesis
        using False by (intro that [of m1]) (auto simp: w_def length_render simp del: cstr_Cons elim: same_outside_mono)
    qed
    have lw: "length w = weight st + 1"
      by (cases st) (auto simp: w_def length_render)
    have "cstr m1 nm c"
    proof (rule cstr_same [OF m1(3) nm(1)])
      have "{new + 1..new + weight st + 1} \<subseteq> ?I" by auto
      then show "{nm..nm + length c} \<inter> {new + 1..new + weight st + 1} = {}" using dis by blast
    qed
    then obtain m2 where m2: "strcat m1 new nm = Some (m2, new)" "cstr m2 new (w @ c)"
      "same_outside {new + length w..new + length w + length c} m1 m2"
      using strcat_same [OF m1(2), of nm c] dis lw by (auto simp: add.assoc)
    have "same_outside ?I m m2"
      by (rule same_outside_trans [OF m1(3) m2(3)]) (auto simp: lw)
    moreover have "w @ c = render (walk st c)" using 3 by (simp add: walk_def render_snoc w_def)
    ultimately show ?thesis using m2 m1 3 by (auto simp: wash_step_def lit(1) simp del: cstr_Cons)
  qed
qed

text \<open>
  The state of the loop: the path built so far, the component in the name buffer, and the rest of the old path, which lies
  in \<open>R\<close>. \<open>n\<close> bytes are enough for the new path.
\<close>

definition parsed :: "addr set \<Rightarrow> addr \<Rightarrow> u8 list \<Rightarrow> addr \<Rightarrow> u8 list \<Rightarrow> mem \<Rightarrow> bool" where
  "parsed R nm c sub r m \<longleftrightarrow>
     cstr m nm c \<and> (c = [] \<longrightarrow> r = []) \<and> (c \<noteq> [] \<longrightarrow> comp c) \<and> length c < BOFS_NAME_LEN \<and> (r = [] \<or> hd r = 47) \<and> 0 \<notin> set r \<and>
     (\<forall>d \<in> set (components r). length d < BOFS_NAME_LEN) \<and>
     (if r = [] then sub = 0 else 0 < sub \<and> cstr m sub r \<and> {sub..sub + length r} \<subseteq> R)"

lemma name_room_memset: "same_outside (name_room nm) m (fst (memset m nm v (word_of_nat BOFS_NAME_LEN)))"
  using memset_same [of nm "word_of_nat BOFS_NAME_LEN" m v] by (simp add: name_room_def BOFS_NAME_LEN_def)

lemma cstr_cleared:
  assumes "\<And>a. a \<in> name_room nm \<Longrightarrow> m a = 0" "0 \<notin> set c" "length c < BOFS_NAME_LEN"
  shows "cstr (wr_bytes m nm c) nm c"
  using assms by (simp add: cstr_def name_room_def)

lemma memset_cleared: "a \<in> name_room nm \<Longrightarrow> fst (memset m nm 0 (word_of_nat BOFS_NAME_LEN)) a = 0"
  by (rule memset_zeros) (auto simp: name_room_def BOFS_NAME_LEN_def)

text \<open>One round of clearing the name buffer and parsing into it.\<close>

lemma parse_next:
  assumes t: "cstr m p t" "0 < p" "{p..p + length t} \<subseteq> R" and dis: "R \<inter> name_room nm = {}"
    and clear: "\<And>a. a \<in> name_room nm \<Longrightarrow> m a = 0" and len: "\<forall>d \<in> set (components t). length d < BOFS_NAME_LEN"
  shows "\<exists>m' sub. BOFS_ParsePathAfterward m p nm = Some (m', sub) \<and> parsed R nm (first t) sub (rest t) m' \<and>
    same_outside (name_room nm) m m'"
proof -
  have nul: "0 \<notin> set t" using t(1) by (simp add: cstr_def)
  have l: "length (first t) < BOFS_NAME_LEN"
    using len components_first_rest [of t] by (cases "first t = []") (auto simp: BOFS_NAME_LEN_def)
  let ?m = "wr_bytes m nm (first t)"
  have p: "BOFS_ParsePathAfterward m p nm = Some (?m, if rest t = [] then 0 else p + (length t - length (rest t)))"
    by (rule parse_cstr [OF t(1)]) (use t(3) dis l in auto)
  have same: "same_outside (name_room nm) m ?m"
    by (rule same_outside_mono [OF wr_bytes_same]) (use l in \<open>auto simp: name_room_def\<close>)
  obtain x where x: "t = x @ rest t"
    unfolding rest_def by (metis append_assoc takeWhile_dropWhile_id)
  then have lx: "length x = length t - length (rest t)" by (metis add_diff_cancel_right' length_append)
  have "cstr m (p + length x) (rest t)" using t(1) x by (metis cstr_drop)
  moreover have sub: "{p + length x..p + length x + length (rest t)} \<subseteq> R"
    using t(3) arg_cong [OF x, of length] by (intro order_trans [OF _ t(3)]) auto
  ultimately have r: "cstr ?m (p + length x) (rest t)"
    using dis by (intro cstr_same [OF same]) auto
  have "rest t = []" if "first t = []"
    by (rule rest_Nil [OF that])
  moreover have "\<forall>d \<in> set (components (rest t)). length d < BOFS_NAME_LEN"
    using len components_first_rest [of t] calculation by (cases "first t = []") auto
  moreover have "0 \<notin> set (rest t)" using nul x by (metis Un_iff set_append)
  moreover have "first t \<noteq> [] \<longrightarrow> comp (first t)" using first_chars [OF nul] by (simp add: comp_def)
  moreover have "cstr ?m nm (first t)" using clear first_chars [OF nul] l by (intro cstr_cleared) auto
  ultimately have "parsed R nm (first t) (if rest t = [] then 0 else p + length x) (rest t) ?m"
    using r sub l t(2) rest_slash [of t] by (simp add: parsed_def)
  then show ?thesis using p same lx by auto
qed

definition pending :: "u8 list \<Rightarrow> u8 list \<Rightarrow> u8 list list" where
  "pending c r = (if c = [] then [] else c # components r)"

lemma pending_parse: "pending (first t) (rest t) = components t"
  by (simp add: pending_def components_first_rest)

lemma wash_loop_unfold:
  "wash_loop m new nm sub =
     (if m nm = 0 then Some m
      else do { m \<leftarrow> wash_step m new nm;
                let m = fst (memset m nm 0 (word_of_nat BOFS_NAME_LEN));
                (m, sub) \<leftarrow> (if sub \<noteq> 0 then BOFS_ParsePathAfterward m sub nm else Some (m, sub));
                wash_loop m new nm sub })"
  by (rule wash_loop.simps)

lemma wash_loop_ok:
  assumes "cstr m new (render st)" "\<forall>c \<in> set st. comp c" "parsed R nm c sub r m"
    and "weight st + (if c = [] then 0 else 1 + length c + length r) \<le> n"
    and dis: "R \<inter> {new..new + n} = {}" "R \<inter> name_room nm = {}" "{new..new + n} \<inter> name_room nm = {}" and n: "1 \<le> n"
  shows "\<exists>m'. wash_loop m new nm sub = Some m' \<and> cstr m' new (render (foldl walk st (pending c r))) \<and>
    same_outside ({new..new + n} \<union> name_room nm) m m'"
  using assms(1-4)
proof (induction "length c + length r" arbitrary: m st c sub r rule: less_induct)
  case less
  note nmc = less.prems(3) [unfolded parsed_def]
  show ?case
  proof (cases "c = []")
    case True
    then have "m nm = 0" using nmc by simp
    then show ?thesis
      using less.prems(1) True by (subst wash_loop_unfold) (simp add: pending_def same_outside_refl)
  next
    case False
    let ?I = "{new..new + n}" and ?K = "{new..new + n} \<union> name_room nm"
    have c: "comp c" "cstr m nm c" "m nm \<noteq> 0" using nmc False by (cases c; auto)+
    have w: "weight st + 1 + length c + length r \<le> n" using less.prems(4) False by simp
    have I: "{new..new + weight st + 1 + length c} \<subseteq> ?I" using w by auto
    have nmI: "{nm..nm + length c} \<subseteq> name_room nm" using nmc by (auto simp: name_room_def)
    obtain m1 where m1: "wash_step m new nm = Some m1" "cstr m1 new (render (walk st c))" "same_outside ?I m m1"
    proof -
      have "{new..new + weight st + 1 + length c} \<inter> {nm..nm + length c} = {}" using I nmI dis(3) by blast
      then show ?thesis
        using wash_step_ok [OF less.prems(1,2) c(2,1)] same_outside_mono [OF _ I] that by blast
    qed
    define m2 where "m2 = fst (memset m1 nm 0 (word_of_nat BOFS_NAME_LEN))"
    have s2: "same_outside ?K m m2"
      using same_outside_trans [OF m1(3) name_room_memset] by (auto simp: m2_def)
    have wst: "weight (walk st c) \<le> weight st + 1 + length c" by (rule weight_walk)
    have lr: "length (render (walk st c)) \<le> n" using wst w n by (simp add: length_render)
    have st: "\<forall>d \<in> set (walk st c). comp d" using less.prems(2) c(1) by (auto simp: walk_def dest: in_set_butlastD)
    have nI: "{new..new + length (render (walk st c))} \<inter> name_room nm = {}"
    proof -
      have "{new..new + length (render (walk st c))} \<subseteq> ?I" using lr by auto
      then show ?thesis using dis(3) by blast
    qed
    have new2: "cstr m2 new (render (walk st c))"
      unfolding m2_def by (rule cstr_same [OF name_room_memset m1(2) nI])
    obtain m3 sub' c' r' where m3: "(if sub \<noteq> 0 then BOFS_ParsePathAfterward m2 sub nm else Some (m2, sub)) = Some (m3, sub')"
      "parsed R nm c' sub' r' m3" "pending c' r' = components r" "if c' = [] then r' = [] else 1 + length c' + length r' \<le> length r" "same_outside (name_room nm) m2 m3"
    proof (cases "r = []")
      case True
      then have "parsed R nm [] sub [] m2"
        using nmc memset_cleared [of nm nm m1] by (simp add: parsed_def m2_def name_room_def BOFS_NAME_LEN_def)
      with True nmc show ?thesis by (intro that [of m2 sub "[]" "[]"]) (auto simp: pending_def same_outside_refl)
    next
      case False
      then have r: "0 < sub" "cstr m sub r" "{sub..sub + length r} \<subseteq> R" using nmc by auto
      have "cstr m2 sub r" by (rule cstr_same [OF s2 r(2)]) (use r(3) dis in blast)
      then obtain m3 sub' where "BOFS_ParsePathAfterward m2 sub nm = Some (m3, sub')" "parsed R nm (first r) sub' (rest r) m3"
        "same_outside (name_room nm) m2 m3"
        using parse_next [of m2 sub r R nm] r(1,3) dis(2) memset_cleared nmc by (auto simp: m2_def)
      with r(1) show ?thesis by (intro that) (use False nmc length_after_slash [of r] rest_Nil [of r] in \<open>auto simp: pending_parse\<close>)
    qed
    have "cstr m3 new (render (walk st c))"
      by (rule cstr_same [OF m3(5) new2 nI])
    moreover have "weight (walk st c) + (if c' = [] then 0 else 1 + length c' + length r') \<le> n"
      using m3(4) wst w by (auto split: if_splits)
    moreover have "length c' + length r' < length c + length r"
      using m3(4) False by (cases c) (auto split: if_splits)
    ultimately obtain m4 where m4: "wash_loop m3 new nm sub' = Some m4"
      "cstr m4 new (render (foldl walk (walk st c) (pending c' r')))" "same_outside ?K m3 m4"
      using less.hyps [OF _ _ st m3(2)] by blast
    have "same_outside ?K m m4"
      by (rule same_outside_trans [OF same_outside_trans [OF s2 m3(5), of ?K] m4(3)]) blast+
    moreover have "wash_loop m new nm sub = Some m4"
      using c(3) m1(1) m3(1) m4(1) unfolding m2_def by (subst wash_loop_unfold) (auto split: if_splits)
    ultimately show ?thesis using m4(2) m3(3) False by (auto simp: pending_def)
  qed
qed

text \<open>The parameters of a call of \<open>BOFS_WashPath\<close> for the path \<open>t\<close>: its buffers do not overlap and are long enough.\<close>

definition wash_args :: "mem \<Rightarrow> addr \<Rightarrow> addr \<Rightarrow> addr \<Rightarrow> u8 list \<Rightarrow> nat \<Rightarrow> bool" where
  "wash_args m nm old new t n \<longleftrightarrow>
     cstr m old t \<and> t \<noteq> [] \<and> hd t = 47 \<and> 0 < old \<and> length t \<le> n \<and>
     (\<forall>c \<in> set (components t). length c < BOFS_NAME_LEN) \<and>
     {old..old + length t} \<inter> {new..new + n} = {} \<and> {old..old + length t} \<inter> name_room nm = {} \<and>
     {new..new + n} \<inter> name_room nm = {}"

lemma WashPath_ok:
  assumes "wash_args m nm old new t n"
  shows "\<exists>m'. BOFS_WashPath m nm old new = Some m' \<and> cstr m' new (render (foldl walk [] (components t))) \<and>
    same_outside ({new..new + n} \<union> name_room nm) m m'"
proof -
  note a = assms [unfolded wash_args_def]
  let ?R = "{old..old + length t}" and ?K = "{new..new + n} \<union> name_room nm"
  define m1 where "m1 = fst (memset m nm 0 (word_of_nat BOFS_NAME_LEN))"
  have s1: "same_outside (name_room nm) m m1" unfolding m1_def by (rule name_room_memset)
  have "cstr m1 old t" by (rule cstr_same [OF s1]) (use a in auto)
  then obtain m2 sub where m2: "BOFS_ParsePathAfterward m1 old nm = Some (m2, sub)"
      "parsed ?R nm (first t) sub (rest t) m2" "same_outside (name_room nm) m1 m2"
    using parse_next [of m1 old t ?R nm] a memset_cleared by (auto simp: m1_def)
  have s2: "same_outside ?K m m2" by (rule same_outside_trans [OF s1 m2(3)]) auto
  have old: "m old = 47" using a by (cases t) auto
  have n: "1 \<le> n" using a by (cases t) auto
  show ?thesis
  proof (cases "first t = []")
    case True
    then have "m2 nm = 0" using m2(2) by (simp add: parsed_def)
    moreover have "cstr (m2(new := 47, new + 1 := 0)) new (render (foldl walk [] (components t)))"
      using True components_first_rest [of t] by simp
    moreover have "same_outside ?K m2 (m2(new := 47, new + 1 := 0))"
      using n by (intro same_outsideI) (auto simp: fun_upd_def)
    then have "same_outside ?K m (m2(new := 47, new + 1 := 0))" by (rule same_outside_trans [OF s2]) auto
    ultimately show ?thesis using old m2(1) by (simp add: BOFS_WashPath_def m1_def del: cstr_Cons)
  next
    case False
    then have nm: "m2 nm \<noteq> 0" using m2(2) by (cases "first t") (auto simp: parsed_def)
    obtain m3 where m3: "strcat_lit (m2(new := 0)) new [47] = Some m3" "cstr m3 new [47]"
        "same_outside {new..new + 1} (m2(new := 0)) m3"
      using strcat_lit_same [of "m2(new := 0)" new "[]" "[47]"] by auto
    have I: "{new..new + 1} \<subseteq> {new..new + n}" using n by auto
    have s3: "same_outside {new..new + 1} m2 m3" using m3(3) by (auto simp: same_outside_def)
    have "parsed ?R nm (first t) sub (rest t) m3"
    proof -
      have l: "length (first t) < BOFS_NAME_LEN" using m2(2) by (simp add: parsed_def)
      have "{nm..nm + length (first t)} \<subseteq> name_room nm" using l by (auto simp: name_room_def)
      then have 1: "{nm..nm + length (first t)} \<inter> {new..new + 1} = {}" using I a by blast
      have "?R \<inter> {new..new + 1} = {}" using I a by blast
      then have 2: "rest t \<noteq> [] \<Longrightarrow> {sub..sub + length (rest t)} \<inter> {new..new + 1} = {}"
        using m2(2) unfolding parsed_def by auto
      show ?thesis
        using m2(2) cstr_same [OF s3 _ 1] cstr_same [OF s3 _ 2] unfolding parsed_def by auto
    qed
    moreover have "weight [] + (if first t = [] then 0 else 1 + length (first t) + length (rest t)) \<le> n"
      using length_after_slash [of t] a by simp
    ultimately obtain m4 where m4: "wash_loop m3 new nm sub = Some m4"
      "cstr m4 new (render (foldl walk [] (pending (first t) (rest t))))" "same_outside ?K m3 m4"
      using wash_loop_ok [of m3 new "[]" ?R nm "first t" sub "rest t" n] m3(2) a n by auto
    have "same_outside ?K m m4"
      by (rule same_outside_trans [OF same_outside_trans [OF s2 s3, of ?K] m4(3)]) (use I in blast)+
    then show ?thesis
      using m4 old m2(1) nm m3(1) by (simp add: BOFS_WashPath_def m1_def pending_parse)
  qed
qed

end
