(* ===== verification/CallProofs.thy ===== *)
theory CallProofs
  imports PathProofs
begin

text \<open>
  The path of a system call. A task is at a drive and a list of components; \<open>target\<close> gives the drive and components that a
  path name stands for there, and \<open>call_path\<close> computes them.
\<close>

section \<open>Copying the parts of a path\<close>

lemma strmet_loop_cstr:
  assumes "cstr m p u" "{p..p + length u} \<inter> {b..b + length (takeWhile (\<lambda>x. x \<noteq> c) u)} = {}"
  shows "strmet_loop m p b c = Some (wr_bytes m b (takeWhile (\<lambda>x. x \<noteq> c) u @ [0]), p + length (takeWhile (\<lambda>x. x \<noteq> c) u))"
  using assms
proof (induction u arbitrary: m p b)
  case Nil
  then show ?case by (subst strmet_loop.simps) (simp add: fun_upd_def)
next
  case (Cons x u)
  show ?case
  proof (cases "x = c")
    case True
    then show ?thesis using Cons.prems by (subst strmet_loop.simps) (simp add: fun_upd_def)
  next
    case False
    let ?c = "takeWhile (\<lambda>x. x \<noteq> c) u"
    have d: "{p..p + Suc (length u)} \<inter> {b..b + Suc (length ?c)} = {}" using Cons.prems(2) False by simp
    then have "b \<notin> {p..p + Suc (length u)}" by auto
    then have "b < Suc p \<or> Suc p + length u < b" by auto
    then have "cstr (m(b := x)) (p + 1) u" using Cons.prems(1) by simp
    moreover have "{p + 1..p + 1 + length u} \<subseteq> {p..p + Suc (length u)}"
      "{b + 1..b + 1 + length ?c} \<subseteq> {b..b + Suc (length ?c)}" by auto
    then have "{p + 1..p + 1 + length u} \<inter> {b + 1..b + 1 + length ?c} = {}" using d by blast
    ultimately have "strmet_loop (m(b := x)) (p + 1) (b + 1) c
        = Some (wr_bytes (m(b := x)) (b + 1) (?c @ [0]), p + 1 + length ?c)"
      by (rule Cons.IH)
    then show ?thesis
      using False Cons.prems(1) by (subst strmet_loop.simps) (simp add: fun_upd_def [symmetric] mem_simps)
  qed
qed

definition drive_room :: "addr \<Rightarrow> addr set" where
  "drive_room b = {b..<b + 24}"

definition before_colon :: "u8 list \<Rightarrow> u8 list" where
  "before_colon P = takeWhile (\<lambda>x. x \<noteq> 58) P"

lemma strchr_cstr:
  "cstr m p u \<Longrightarrow> 0 < p \<Longrightarrow>
   strchr m p c = Some (if word_of_int c \<in> set u then p + length (takeWhile (\<lambda>x. x \<noteq> word_of_int c) u) else 0)"
  by (simp add: strchr_def strchr_loop_cstr)

lemma PathToDrive_none:
  "cstr m p P \<Longrightarrow> 0 < p \<Longrightarrow> 58 \<notin> set P \<Longrightarrow> BOFS_PathToDrive m p b = Some (m, -1)"
  by (simp add: BOFS_PathToDrive_def strchr_cstr)

lemma PathToDrive_some:
  assumes "cstr m p P" "0 < p" "58 \<in> set P" "before_colon P \<noteq> []" "length (before_colon P) < 24"
    "{p..p + length P} \<inter> drive_room b = {}"
  shows "BOFS_PathToDrive m p b = Some (wr_bytes m b (before_colon P @ [0]), 0)"
proof -
  have "{b..b + length (before_colon P)} \<subseteq> drive_room b" using assms(5) by (auto simp: drive_room_def)
  then have "{p..p + length P} \<inter> {b..b + length (before_colon P)} = {}" using assms(6) by blast
  then show ?thesis
    using strmet_loop_cstr [OF assms(1), of b 58] assms
    by (simp add: BOFS_PathToDrive_def strchr_cstr strmet_def before_colon_def)
qed

lemma cstr_copied:
  assumes "cstr m src u" "length u < n"
  shows "cstr (wr_bytes m dst (rd_bytes m src n)) dst u"
proof -
  have "wr_bytes m dst (rd_bytes m src n) (dst + i) = m (src + i)" if "i < n" for i
    using that by (simp add: wr_bytes_def)
  then show ?thesis using assms by (auto simp: cstr_def list_eq_iff_nth_eq)
qed

lemma GetCWD_ok:
  assumes "cstr m dir W" "length W < 255" "{dir..<dir + 255} \<inter> {dst..<dst + 256} = {}"
  shows "cstr (BOFS_GetCWD m dir dst BOFS_PATH_LEN) dst W"
    and "same_outside {dst..<dst + 256} m (BOFS_GetCWD m dir dst BOFS_PATH_LEN)"
proof -
  have "dst \<le> dir \<or> dir + 255 \<le> dst"
  proof (rule ccontr)
    assume "\<not> ?thesis"
    then have "dst \<in> {dir..<dir + 255}" "dst \<in> {dst..<dst + 256}" by auto
    with assms(3) show False by blast
  qed
  then have eq: "BOFS_GetCWD m dir dst BOFS_PATH_LEN = wr_bytes m dst (rd_bytes m dir 255)"
    by (simp add: BOFS_GetCWD_def BOFS_PATH_LEN_def memcpy_def copy_up_eq)
  show "cstr (BOFS_GetCWD m dir dst BOFS_PATH_LEN) dst W"
    unfolding eq by (rule cstr_copied) (use assms in auto)
  show "same_outside {dst..<dst + 256} m (BOFS_GetCWD m dir dst BOFS_PATH_LEN)"
    unfolding eq by (rule same_outside_mono [OF wr_bytes_same]) auto
qed

section \<open>The absolute path\<close>

definition after_colon :: "u8 list \<Rightarrow> u8 list" where
  "after_colon P = List.tl (dropWhile (\<lambda>x. x \<noteq> 58) P)"

text \<open>The meaning of the path name \<open>P\<close> for a task at the components \<open>st\<close> of the drive \<open>D\<close>.\<close>

definition target :: "u8 list \<Rightarrow> u8 list list \<Rightarrow> u8 list \<Rightarrow> u8 list \<times> u8 list list" where
  "target D st P =
     (if 58 \<in> set P then (before_colon P, foldl walk [] (components (after_colon P)))
      else if P = [47] then (D, []) else (D, foldl walk st (components P)))"

definition drive_name :: "u8 list \<Rightarrow> bool" where
  "drive_name D \<longleftrightarrow> D \<noteq> [] \<and> 47 \<notin> set D \<and> 58 \<notin> set D \<and> length D < 24"

definition path_name :: "u8 list \<Rightarrow> bool" where
  "path_name P \<longleftrightarrow> (58 \<in> set P \<longrightarrow> drive_name (before_colon P) \<and> (after_colon P = [] \<or> hd (after_colon P) = 47)) \<and>
     (\<forall>c \<in> set (components P) \<union> set (components (after_colon P)). length c < BOFS_NAME_LEN)"

definition at_dir :: "mem \<Rightarrow> addr \<Rightarrow> u8 list \<Rightarrow> u8 list list \<Rightarrow> bool" where
  "at_dir m dir D st \<longleftrightarrow> cstr m dir (D @ 58 # render st) \<and> drive_name D \<and> canonical st \<and> (\<forall>c \<in> set st. length c < BOFS_NAME_LEN)"

definition path_room :: "addr \<Rightarrow> addr set" where
  "path_room a = {a..<a + 256}"

lemma split_colon: "58 \<in> set P \<Longrightarrow> P = before_colon P @ 58 # after_colon P"
  unfolding before_colon_def after_colon_def
  by (induction P) auto

lemma until_slash_drive: "47 \<notin> set D \<Longrightarrow> takeWhile (\<lambda>x. x \<noteq> 47) (D @ 58 # 47 # r) = D @ [58]" for D :: "u8 list"
  by (induction D) auto

lemma strchr_slash:
  assumes "cstr m p (D @ 58 # 47 # r)" "47 \<notin> set D" "0 < p"
  shows "strchr m p 47 = Some (p + length D + 1)"
  using assms by (simp add: strchr_cstr until_slash_drive)

text \<open>The working directory as the beginning of a path: it ends with one slash.\<close>

definition base :: "u8 list \<Rightarrow> u8 list list \<Rightarrow> u8 list" where
  "base D st = D @ 58 # (if st = [] then [47] else render st @ [47])"

lemma begin_abs_ok:
  assumes dir: "at_dir m dir D st" "length (D @ 58 # render st) < 255" "{dir..<dir + 255} \<inter> path_room a = {}" "0 < a"
  shows "\<exists>m'. begin_abs m dir a = Some m' \<and> cstr m' a (base D st) \<and> same_outside (path_room a) m m'"
proof -
  note d = dir(1) [unfolded at_dir_def drive_name_def]
  let ?m = "BOFS_GetCWD m dir a BOFS_PATH_LEN"
  have m: "cstr ?m a (D @ 58 # render st)" "same_outside (path_room a) m ?m"
    unfolding path_room_def using GetCWD_ok [OF _ dir(2)] d dir(3) by (auto simp: path_room_def)
  obtain r where r: "render st = 47 # r" using render_hd by blast
  have pos: "strchr ?m a 47 = Some (a + length D + 1)" using strchr_slash m(1) d dir(4) r by metis
  have "cstr ?m a ((D @ [58]) @ 47 # r)" using m(1) r by simp
  from cstr_drop [OF this] have at: "cstr ?m (a + length D + 1) (47 # r)" by (simp del: cstr_Cons)
  have comps: "\<forall>c \<in> set st. comp c" using d by (simp add: canonical_def)
  have nil: "r = [] \<longleftrightarrow> st = []" using render_single [OF comps] r by simp
  show ?thesis
  proof (cases "st = []")
    case True
    then show ?thesis using m pos at nil by (auto simp: begin_abs_def base_def r)
  next
    case False
    then have "?m (a + length D + 2) \<noteq> 0" using at nil by (cases r) auto
    moreover obtain m' where "strcat_lit ?m a [47] = Some m'" "cstr m' a ((D @ 58 # render st) @ [47])"
      "same_outside {a + length (D @ 58 # render st)..a + length (D @ 58 # render st) + 1} ?m m'"
      using strcat_lit_same [OF m(1), of "[47]"] by auto
    moreover from this(3) have "same_outside (path_room a) m m'"
      by (rule same_outside_trans [OF m(2)]) (use dir(2) in \<open>auto simp: path_room_def\<close>)
    ultimately show ?thesis using False pos by (auto simp: begin_abs_def base_def Let_def)
  qed
qed

lemma components_base:
  assumes "canonical st"
  shows "components ((if st = [] then [47] else render st @ [47]) @ P) = st @ components P"
proof -
  have "components (render st @ 47 # P) = st @ components P"
    using components_append [of "render st" P] components_render [of st] assms by (simp add: canonical_def)
  then show ?thesis by simp
qed

lemma foldl_walk_base: "canonical st \<Longrightarrow> foldl walk [] st = st"
  using foldl_walk_id [of "[]" st] by simp

lemma at_dir_same: "at_dir m dir D st \<Longrightarrow> same_outside R m m' \<Longrightarrow> {dir..<dir + 255} \<inter> R = {} \<Longrightarrow>
  length (D @ 58 # render st) < 255 \<Longrightarrow> at_dir m' dir D st"
proof -
  assume a: "at_dir m dir D st" "same_outside R m m'" "{dir..<dir + 255} \<inter> R = {}" "length (D @ 58 # render st) < 255"
  have "{dir..dir + length (D @ 58 # render st)} \<subseteq> {dir..<dir + 255}" using a(4) by auto
  then have "{dir..dir + length (D @ 58 # render st)} \<inter> R = {}" using a(3) by blast
  then show ?thesis using a(1) cstr_same [OF a(2)] by (auto simp: at_dir_def)
qed

text \<open>The path \<open>A\<close> names a drive and a path that leads to the target.\<close>

definition abs_of :: "u8 list \<times> u8 list list \<Rightarrow> u8 list \<Rightarrow> u8 list \<Rightarrow> bool" where
  "abs_of t A T \<longleftrightarrow> A = fst t @ 58 # T \<and> T \<noteq> [] \<and> hd T = 47 \<and> foldl walk [] (components T) = snd t \<and>
     length A < 256 \<and> drive_name (fst t) \<and> (\<forall>c \<in> set (components T). length c < BOFS_NAME_LEN)"

lemma MakeAbsPath_ok:
  assumes dir: "at_dir m dir D st" and P: "cstr m p P" "path_name P" and len: "length (D @ 58 # render st) + 1 + length P < 256"
    and a: "cstr m a []" "0 < p" "0 < a" and room: "R = path_room a \<union> drive_room b" "path_room a \<inter> drive_room b = {}"
    and dis: "{dir..<dir + 255} \<inter> R = {}" "{p..p + length P} \<inter> R = {}"
  shows "\<exists>m' A T. BOFS_MakeAbsPath m dir b p a = Some m' \<and> cstr m' a A \<and> abs_of (target D st P) A T \<and> same_outside R m m'"
proof -
  define m1 where "m1 = fst (memset m b 0 BOFS_DRIVE_NAME_LEN)"
  have D: "drive_name D" "canonical st" using dir by (auto simp: at_dir_def)
  have ax: "{a..a + n} \<subseteq> path_room a" if "n < 256" for n using that by (auto simp: path_room_def)
  have s1: "same_outside (drive_room b) m m1"
    unfolding m1_def drive_room_def using memset_same [of b BOFS_DRIVE_NAME_LEN m 0] by (simp add: BOFS_DRIVE_NAME_LEN_def)
  have keep: "cstr m' p P" if "same_outside R m m'" for m' by (rule cstr_same [OF that P(1) dis(2)])
  have sR: "same_outside R m m1" by (rule same_outside_mono [OF s1]) (use room in blast)
  note p1 = keep [OF sR]
  show ?thesis
  proof (cases "58 \<in> set P")
    case True
    let ?d = "before_colon P" and ?Q = "after_colon P"
    have dn: "drive_name ?d" "?Q = [] \<or> hd ?Q = 47" using P(2) True by (auto simp: path_name_def)
    define m2 where "m2 = wr_bytes m1 b (?d @ [0])"
    have drv: "BOFS_PathToDrive m1 p b = Some (m2, 0)"
      unfolding m2_def using dn True a(2) dis(2) room(1) by (intro PathToDrive_some [OF p1]) (auto simp: drive_name_def)
    have s2: "same_outside (drive_room b) m m2"
    proof -
      have "same_outside {b..<b + length (?d @ [0])} m1 m2" unfolding m2_def by (rule wr_bytes_same)
      from s1 this show ?thesis
        by (rule same_outside_trans) (use dn in \<open>auto simp: drive_name_def drive_room_def\<close>)
    qed
    have s2R: "same_outside R m m2" by (rule same_outside_mono [OF s2]) (use room in blast)
    have "cstr m2 a []" by (rule cstr_same [OF s2 a(1)]) (use room(2) ax [of 0] in auto)
    moreover have "{a..a + length P} \<subseteq> path_room a" by (rule ax) (use len in simp)
    then have "{a..a + length P} \<inter> {p..p + length P} = {}" using dis(2) room(1) by blast
    ultimately obtain m3 where m3: "strcat m2 a p = Some (m3, a)" "cstr m3 a P" "same_outside {a..a + length P} m2 m3"
      using strcat_same [of m2 a "[]" p P] keep [OF s2R] by auto
    have s3: "same_outside R m m3"
      by (rule same_outside_trans [OF s2R m3(3)]) (use room ax [of "length P"] len in auto)
    have PQ: "P = ?d @ 58 # ?Q" by (rule split_colon [OF True])
    have notroot: "\<not> (m2 p = 47 \<and> m2 (p + 1) = 0)"
      using cstr_iff [OF keep [OF s2R], of "[47]"] True by auto
    have mk: "BOFS_MakeAbsPath m dir b p a = do { q \<leftarrow> strchr m3 a 47; if q = 0 then strcat_lit m3 a [47] else Some m3 }"
      using drv notroot m3(1) by (auto simp: BOFS_MakeAbsPath_def m1_def [symmetric])
    have tg: "target D st P = (?d, foldl walk [] (components ?Q))" using True by (simp add: target_def)
    show ?thesis
    proof (cases "?Q = []")
      case nil: True
      then have "47 \<notin> set P" using dn(1) by (subst PQ) (auto simp: drive_name_def)
      then have "strchr m3 a 47 = Some 0" using m3(2) a(3) by (simp add: strchr_cstr)
      moreover obtain m4 where m4: "strcat_lit m3 a [47] = Some m4" "cstr m4 a (P @ [47])"
        "same_outside {a + length P..a + length P + 1} m3 m4"
        using strcat_lit_same [OF m3(2), of "[47]"] by auto
      moreover have "same_outside R m m4"
        by (rule same_outside_trans [OF s3 m4(3)]) (use len room in \<open>auto simp: path_room_def\<close>)
      moreover have "abs_of (target D st P) (P @ [47]) [47]"
        using PQ nil dn(1) len unfolding tg abs_of_def by (auto simp: nil) 
      ultimately show ?thesis using mk by auto
    next
      case False
      then obtain q where q: "?Q = 47 # q" using dn(2) by (cases ?Q) auto
      have "strchr m3 a 47 = Some (a + length ?d + 1)"
        by (rule strchr_slash [where r = q]) (use m3(2) PQ q dn(1) a(3) in \<open>auto simp: drive_name_def\<close>)
      moreover have "abs_of (target D st P) P ?Q"
        using PQ q dn(1) P(2) len unfolding tg abs_of_def by (auto simp: path_name_def)
      ultimately show ?thesis using mk m3(2) s3 by auto
    qed
  next
    case False
    have none: "BOFS_PathToDrive m1 p b = Some (m1, -1)" by (rule PathToDrive_none [OF p1 a(2) False])
    have dir1: "at_dir m1 dir D st" by (rule at_dir_same [OF dir sR dis(1)]) (use len in simp)
    obtain m2 where m2: "begin_abs m1 dir a = Some m2" "cstr m2 a (base D st)" "same_outside (path_room a) m1 m2"
      using begin_abs_ok [OF dir1, of a] len dis(1) room(1) a(3) by auto
    have s2: "same_outside R m m2" by (rule same_outside_trans [OF sR m2(3)]) (use room in auto)
    note p2 = keep [OF s2]
    define X where "X = (if st = [] then [47] else render st @ [47])"
    obtain x where x: "X = 47 # x" using render_hd [of st] unfolding X_def by (cases "st = []") auto
    have pos: "strchr m2 a 47 = Some (a + length D + 1)"
      by (rule strchr_slash [where r = x]) (use m2(2) x D(1) a(3) in \<open>auto simp: base_def X_def drive_name_def\<close>)
    have lb: "length (base D st) \<le> length (D @ 58 # render st) + 1" by (simp add: base_def)
    show ?thesis
    proof (cases "P = [47]")
      case True
      define m3 where "m3 = m2(a + length D + 1 + 1 := 0)"
      have "cstr m2 a ((D @ [58, 47]) @ x)" using m2(2) x by (simp add: base_def X_def [symmetric])
      from cstr_cut [OF this] have "cstr m3 a (D @ [58, 47])" by (simp add: m3_def)
      moreover have "same_outside R m m3"
        by (rule same_outside_trans [OF s2]) (use len room in \<open>auto simp: m3_def same_outside_def path_room_def\<close>)
      moreover have "abs_of (target D st P) (D @ [58, 47]) [47]"
        using True D len by (auto simp: abs_of_def target_def drive_name_def)
      moreover have "BOFS_MakeAbsPath m dir b p a = Some m3"
        using none m2(1) pos cstr_iff [OF p2, of "[47]"] True
        by (simp add: BOFS_MakeAbsPath_def m1_def [symmetric] m3_def)
      ultimately show ?thesis by blast
    next
      case other: False
      have "{a..a + length (base D st) + length P} \<subseteq> path_room a" using lb len by (auto simp: path_room_def)
      then have sub: "{a..a + length (base D st) + length P} \<inter> {p..p + length P} = {}"
        "{a + length (base D st)..a + length (base D st) + length P} \<subseteq> R"
        using dis(2) room(1) by (blast, fastforce)
      obtain m3 where m3: "strcat m2 a p = Some (m3, a)" "cstr m3 a (base D st @ P)"
        "same_outside {a + length (base D st)..a + length (base D st) + length P} m2 m3"
        using strcat_same [OF m2(2) p2 sub(1)] by auto
      have "same_outside R m m3" by (rule same_outside_trans [OF s2 m3(3)]) (use sub(2) in auto)
      moreover have A: "base D st @ P = D @ 58 # (47 # x @ P)" using x by (simp add: base_def X_def [symmetric])
      have "strchr m3 a 47 = Some (a + length D + 1)"
        by (rule strchr_slash [where r = "x @ P"]) (use m3(2) A D(1) a(3) in \<open>auto simp: drive_name_def\<close>)
      moreover have "abs_of (target D st P) (base D st @ P) (X @ P)"
        using A x len lb D P(2) dir False other components_base [OF D(2), of P, folded X_def]
        unfolding abs_of_def target_def by (auto simp: foldl_walk_base path_name_def at_dir_def)
      moreover have "BOFS_MakeAbsPath m dir b p a = Some m3"
        using none m2(1) m3(1) calculation(2) cstr_iff [OF p2, of "[47]"] other
        by (auto simp: BOFS_MakeAbsPath_def m1_def [symmetric])
      ultimately show ?thesis using m3(2) by blast
    qed
  qed
qed

section \<open>The drive and the washed path\<close>

text \<open>The names of the drives are strings outside the buffers of the call.\<close>

definition drive_table :: "mem \<Rightarrow> addr set \<Rightarrow> BOFS_Drive list \<Rightarrow> (BOFS_Drive \<Rightarrow> u8 list) \<Rightarrow> bool" where
  "drive_table m R drs N \<longleftrightarrow>
     (\<forall>d \<in> set drs. cstr m (dr_name d) (N d) \<and> {dr_name d..dr_name d + length (N d)} \<inter> R = {})"

lemma drive_table_same: "drive_table m R drs N \<Longrightarrow> same_outside R m m' \<Longrightarrow> drive_table m' R drs N"
  unfolding drive_table_def using cstr_same by blast

lemma GetDriveByName_ok:
  "drive_table m R drs N \<Longrightarrow> cstr m nm D \<Longrightarrow> BOFS_GetDriveByName m drs nm = Some (List.find (\<lambda>d. N d = D) drs)"
proof (induction drs)
  case (Cons d ds)
  then have "strcmp m (dr_name d) nm = Some (cmp_chars (N d) D)" "cmp_chars (N d) D = 0 \<longleftrightarrow> N d = D"
    by (auto simp: drive_table_def cstr_def intro!: strcmp_cstr cmp_chars_0_iff)
  with Cons show ?case by (auto simp: drive_table_def)
qed simp

lemma GetDriveByPath_ok:
  assumes tab: "drive_table m R drs N" and A: "cstr m a A" "0 < a" "abs_of t A T"
    and room: "drive_room b \<subseteq> R" "{a..a + length A} \<inter> drive_room b = {}"
  shows "\<exists>m'. BOFS_GetDriveByPath m drs b a = Some (List.find (\<lambda>d. N d = fst t) drs, m') \<and> same_outside (drive_room b) m m'"
proof -
  let ?D = "fst t"
  define m1 where "m1 = fst (memset m b 0 BOFS_DRIVE_NAME_LEN)"
  have A': "A = ?D @ 58 # T" "drive_name ?D" using A(3) by (auto simp: abs_of_def)
  have bc: "before_colon A = ?D"
    using A' by (simp add: before_colon_def drive_name_def takeWhile_append)
  have s1: "same_outside (drive_room b) m m1"
    unfolding m1_def drive_room_def using memset_same [of b BOFS_DRIVE_NAME_LEN m 0] by (simp add: BOFS_DRIVE_NAME_LEN_def)
  define m2 where "m2 = wr_bytes m1 b (?D @ [0])"
  have "BOFS_PathToDrive m1 a b = Some (m2, 0)"
    using PathToDrive_some [OF cstr_same [OF s1 A(1) room(2)] A(2) _ _ _ room(2)] A' bc
    by (simp add: m2_def drive_name_def)
  moreover have "same_outside {b..<b + length (?D @ [0])} m1 m2" unfolding m2_def by (rule wr_bytes_same)
  then have s2: "same_outside (drive_room b) m m2"
    by (rule same_outside_trans [OF s1]) (use A'(2) in \<open>auto simp: drive_room_def drive_name_def\<close>)
  moreover have "cstr m2 b ?D" unfolding m2_def using A(1) A'(1) by (intro cstr_wr_bytes) (auto simp: cstr_def)
  then have "BOFS_GetDriveByName m2 drs b = Some (List.find (\<lambda>d. N d = ?D) drs)"
    using drive_table_same [OF tab same_outside_mono [OF s2 room(1)]] by (intro GetDriveByName_ok)
  ultimately show ?thesis by (simp add: BOFS_GetDriveByPath_def m1_def)
qed

definition rooms :: "locals \<Rightarrow> addr set" where
  "rooms L = path_room (absPath L) \<union> path_room (finalPath L) \<union> drive_room (driveName L) \<union> name_room (washName L)"

definition apart_rooms :: "locals \<Rightarrow> bool" where
  "apart_rooms L \<longleftrightarrow> 0 < absPath L \<and>
     path_room (absPath L) \<inter> path_room (finalPath L) = {} \<and> path_room (absPath L) \<inter> drive_room (driveName L) = {} \<and>
     path_room (absPath L) \<inter> name_room (washName L) = {} \<and> path_room (finalPath L) \<inter> drive_room (driveName L) = {} \<and>
     path_room (finalPath L) \<inter> name_room (washName L) = {} \<and> drive_room (driveName L) \<inter> name_room (washName L) = {}"

text \<open>A call with the path name \<open>P\<close> at \<open>p\<close>, by a task whose working directory is \<open>st\<close> on the drive \<open>D\<close>.\<close>

definition call_args :: "mem \<Rightarrow> locals \<Rightarrow> addr \<Rightarrow> BOFS_Drive list \<Rightarrow> (BOFS_Drive \<Rightarrow> u8 list) \<Rightarrow> u8 list \<Rightarrow> u8 list list \<Rightarrow> addr \<Rightarrow> u8 list \<Rightarrow> bool" where
  "call_args m L dir drs N D st p P \<longleftrightarrow>
     apart_rooms L \<and> drive_table m (rooms L) drs N \<and> at_dir m dir D st \<and> {dir..<dir + 255} \<inter> rooms L = {} \<and>
     cstr m p P \<and> path_name P \<and> 0 < p \<and> {p..p + length P} \<inter> rooms L = {} \<and>
     length (D @ 58 # render st) + 1 + length P < 256"

lemma memset_path_room: "same_outside (path_room a) m (fst (memset m a v MAX_PATH_LEN))"
  using memset_same [of a MAX_PATH_LEN m v] by (simp add: path_room_def MAX_PATH_LEN_def)

lemma call_path_ok:
  assumes args: "call_args m L dir drs N D st p P"
  shows "\<exists>m'. call_path L dir drs p m = Some (List.find (\<lambda>d. N d = fst (target D st P)) drs, m') \<and> same_outside (rooms L) m m' \<and>
    (List.find (\<lambda>d. N d = fst (target D st P)) drs \<noteq> None \<longrightarrow> cstr m' (finalPath L) (render (snd (target D st P))))"
proof -
  let ?a = "absPath L" and ?f = "finalPath L" and ?b = "driveName L" and ?t = "target D st P"
  let ?R = "path_room ?a \<union> drive_room ?b"
  note c = args [unfolded call_args_def] and ap = args [unfolded call_args_def apart_rooms_def]
  define m1 where "m1 = fst (memset m ?a 0 MAX_PATH_LEN)"
  have sub: "path_room ?a \<subseteq> rooms L" "?R \<subseteq> rooms L" "drive_room ?b \<subseteq> rooms L" "path_room ?f \<subseteq> rooms L"
    by (auto simp: rooms_def)
  have s1: "same_outside (rooms L) m m1"
    unfolding m1_def by (rule same_outside_mono [OF memset_path_room sub(1)])
  have "at_dir m1 dir D st" using c by (intro at_dir_same [OF _ s1]) auto
  moreover have "cstr m1 p P" using c by (intro cstr_same [OF s1]) auto
  moreover have "cstr m1 ?a []" unfolding m1_def cstr_Nil by (rule memset_zeros) (auto simp: MAX_PATH_LEN_def)
  moreover have "{dir..<dir + 255} \<inter> ?R = {}" "{p..p + length P} \<inter> ?R = {}" using c sub(2) by blast+
  ultimately obtain m2 A T where m2: "BOFS_MakeAbsPath m1 dir ?b p ?a = Some m2" "cstr m2 ?a A" "abs_of ?t A T"
      "same_outside ?R m1 m2"
    using MakeAbsPath_ok [of m1 dir D st p P ?a ?R ?b] ap by auto
  have s2: "same_outside (rooms L) m m2" by (rule same_outside_trans [OF s1 m2(4)]) (use sub in auto)
  note t = m2(3) [unfolded abs_of_def]
  have Asub: "{?a..?a + length A} \<subseteq> path_room ?a" using t by (auto simp: path_room_def)
  obtain m3 where m3: "BOFS_GetDriveByPath m2 drs ?b ?a = Some (List.find (\<lambda>d. N d = fst ?t) drs, m3)"
      "same_outside (drive_room ?b) m2 m3"
  proof -
    have "{?a..?a + length A} \<inter> drive_room ?b = {}" using Asub ap by blast
    then show ?thesis
      using GetDriveByPath_ok [OF drive_table_same [OF _ s2] m2(2) _ m2(3) sub(3)] ap that by blast
  qed
  have s3: "same_outside (rooms L) m m3" by (rule same_outside_trans [OF s2 m3(2)]) (use sub in auto)
  show ?thesis
  proof (cases "List.find (\<lambda>d. N d = fst ?t) drs")
    case None
    then show ?thesis using m2(1) m3(1) s3 by (simp add: call_path_def m1_def)
  next
    case (Some d)
    define m4 where "m4 = fst (memset m3 ?f 0 MAX_PATH_LEN)"
    have f4: "same_outside (path_room ?f) m3 m4" unfolding m4_def by (rule memset_path_room)
    have s4: "same_outside (rooms L) m m4" by (rule same_outside_trans [OF s3 f4]) (use sub in auto)
    have "cstr m3 ?a A" by (rule cstr_same [OF m3(2) m2(2)]) (use Asub ap in blast)
    then have A4: "cstr m4 ?a A" by (rule cstr_same [OF f4]) (use Asub ap in blast)
    let ?o = "?a + length (fst ?t) + 1"
    obtain r where r: "T = 47 # r" using t by (cases T) auto
    have pos: "strchr m4 ?a 47 = Some ?o"
      by (rule strchr_slash [where r = r]) (use A4 t r ap in \<open>auto simp: drive_name_def\<close>)
    have "cstr m4 ?a ((fst ?t @ [58]) @ T)" using A4 t by simp
    from cstr_drop [OF this] have T4: "cstr m4 ?o T" by simp
    have "{?o..?o + length T} \<subseteq> {?a..?a + length A}" using t by auto
    then have osub: "{?o..?o + length T} \<subseteq> path_room ?a" using Asub by blast
    have froom: "{?f..?f + 255} = path_room ?f" by (auto simp: path_room_def)
    have "wash_args m4 (washName L) ?o ?f T 255"
      unfolding wash_args_def froom using T4 t osub ap by (auto simp: disjoint_iff)
    from WashPath_ok [OF this, unfolded froom] obtain m5 where m5: "BOFS_WashPath m4 (washName L) ?o ?f = Some m5"
      "cstr m5 ?f (render (snd ?t))" "same_outside (path_room ?f \<union> name_room (washName L)) m4 m5"
      using t by auto
    have "same_outside (rooms L) m m5"
      by (rule same_outside_trans [OF s4 m5(3)]) (auto simp: rooms_def)
    then show ?thesis
      using m2(1) m3(1) Some pos m5(1,2) by (simp add: call_path_def m1_def [symmetric] m4_def [symmetric])
  qed
qed

end
