(* ===== verification/ChdirProofs.thy ===== *)
theory ChdirProofs
  imports CallProofs BofsProofs
begin

text \<open>
  The working directory. A search changes the memory of the kernel only inside the bitmap of sectors, so that changing the
  working directory is determined by the path name, and keeps the working directory an absolute path without dot components.
\<close>

section \<open>What a search writes\<close>

definition bitmap_room :: "BOFS_SuperBlock \<Rightarrow> addr set" where
  "bitmap_room sb = {bits (sectorBitmap sb)..<bits (sectorBitmap sb) + btmpBytesLen (sectorBitmap sb)}"

definition memk :: "BOFS_SuperBlock \<Rightarrow> bofs \<Rightarrow> bofs \<Rightarrow> bool" where
  "memk sb s s' \<longleftrightarrow> same_outside (bitmap_room sb) (kmem s) (kmem s')"

lemma memk_refl [simp]: "memk sb s s"
  by (simp add: memk_def same_outside_refl)

lemma memk_upd [simp]: "memk sb s (t\<lparr>xfsz := x\<rparr>) = memk sb s t" "memk sb s (t\<lparr>blk := f\<rparr>) = memk sb s t"
  "memk sb s (t\<lparr>faults := bs\<rparr>) = memk sb s t"
  by (simp_all add: memk_def)

lemma attempt_memk: "attempt s = (ok, s') \<Longrightarrow> memk sb t s \<Longrightarrow> memk sb t s'"
  by (auto simp: attempt_def memk_def split: list.splits)

lemma BlockRead_memk: "BlockRead lba s = (b, s') \<Longrightarrow> memk sb t s \<Longrightarrow> memk sb t s'"
  by (auto simp: BlockRead_def split: prod.splits intro: attempt_memk)

lemma BlockWrite_memk: "BlockWrite lba b s = (ok, s') \<Longrightarrow> memk sb t s \<Longrightarrow> memk sb t s'"
  by (auto simp: BlockWrite_def split: prod.splits if_splits intro: attempt_memk)

lemma AllocBitmap_memk:
  assumes "BOFS_AllocBitmap sb BOFS_BMT_SECTOR 1 s = (idx, s')" "memk sb t s"
  shows "memk sb t s'"
proof (cases "BitmapScan (kmem s) (sectorBitmap sb) 1 = -1")
  case True
  then show ?thesis using assms by (simp add: BOFS_AllocBitmap_def bitmap_of_def)
next
  case False
  from free_bit [OF this] obtain r where r: "BitmapScan (kmem s) (sectorBitmap sb) 1 = int r" "r < sector_bits sb" by metis
  have "same_outside (bitmap_room sb) (kmem s) (BitmapSet (kmem s) (sectorBitmap sb) r True)"
    using r(2) by (intro same_outsideI BitmapSet_frame) (auto simp: bitmap_room_def)
  then show ?thesis
    using assms r(1) by (auto simp: BOFS_AllocBitmap_def bitmap_of_def Let_def memk_def numeral_eq_Suc intro: same_outside_trans)
qed

lemma SyncBitmap_memk: "BOFS_SyncBitmap sb' ty idx s = (r, s') \<Longrightarrow> memk sb t s \<Longrightarrow> memk sb t s'"
  by (auto simp: BOFS_SyncBitmap_def Let_def split: prod.splits intro: BlockWrite_memk)

lemma AllocOneSector_memk: "AllocOneSector sb d s = (r, p, s') \<Longrightarrow> memk sb t s \<Longrightarrow> memk sb t s'"
  by (auto simp: AllocOneSector_def Let_def split: prod.splits if_splits; (assumption | erule AllocBitmap_memk [simplified] SyncBitmap_memk attempt_memk BlockWrite_memk)+)

lemma edit_memk: "edit_inode_block sb' nr n s = (r, s') \<Longrightarrow> memk sb t s \<Longrightarrow> memk sb t s'"
  by (auto simp: edit_inode_block_def Let_def split: prod.splits if_splits option.splits; (assumption | erule attempt_memk BlockRead_memk BlockWrite_memk)+)

lemma SyncInode_memk: "memk sb t s \<Longrightarrow> memk sb t (snd (BOFS_SyncInode sb' n s))"
  unfolding BOFS_SyncInode_def by (cases "edit_inode_block sb' (i_id n) n s") (simp, erule edit_memk)

lemma LoadInode_memk: "BOFS_LoadInodeByID sb' nr old s = (r, n, s') \<Longrightarrow> memk sb t s \<Longrightarrow> memk sb t s'"
  by (auto simp: BOFS_LoadInodeByID_def Let_def split: prod.splits if_splits option.splits; (assumption | erule attempt_memk BlockRead_memk)+)

lemma inode_cell_memk: "inode_cell sb k n s = (b, n', s') \<Longrightarrow> memk sb t s \<Longrightarrow> memk sb t s'"
  by (auto simp: inode_cell_def Let_def split: prod.splits if_splits; (assumption | erule AllocOneSector_memk | rule SyncInode_memk)+)

lemma block_cell_memk: "block_cell sb lba i s = (b, s') \<Longrightarrow> memk sb t s \<Longrightarrow> memk sb t s'"
  by (auto simp: block_cell_def Let_def split: prod.splits if_splits option.splits; (assumption | erule BlockRead_memk AllocOneSector_memk BlockWrite_memk | rule SyncInode_memk)+)

lemmas cells_memk = inode_cell_memk block_cell_memk attempt_memk

lemma get1_memk: "GetBlockInInderect1 sb n i old s = (r, p, n', s') \<Longrightarrow> memk sb t s \<Longrightarrow> memk sb t s'"
  by (auto simp: GetBlockInInderect1_def Let_def split: prod.splits if_splits option.splits; (assumption | erule cells_memk | rule SyncInode_memk)+)

lemma get2_memk: "GetBlockInInderect2 sb n i old s = (r, p, n', s') \<Longrightarrow> memk sb t s \<Longrightarrow> memk sb t s'"
  by (auto simp: GetBlockInInderect2_def Let_def split: prod.splits if_splits option.splits; (assumption | erule cells_memk | rule SyncInode_memk)+)

lemma get3_memk: "GetBlockInInderect3 sb n i old s = Some (r, p, n', s') \<Longrightarrow> memk sb t s \<Longrightarrow> memk sb t s'"
  by (auto simp: GetBlockInInderect3_def Let_def split: prod.splits if_splits option.splits; (assumption | erule cells_memk | rule SyncInode_memk)+)

lemma GetInodeData_memk: "BOFS_GetInodeData sb n i old s = Some (r, p, n', s') \<Longrightarrow> memk sb t s \<Longrightarrow> memk sb t s'"
  by (auto simp: BOFS_GetInodeData_def Let_def split: prod.splits if_splits; (assumption | erule AllocOneSector_memk get1_memk get2_memk get3_memk | rule SyncInode_memk)+)

lemma search_loop_memk: "search_loop sb n nm lba i k s = Some (e, s') \<Longrightarrow> memk sb t s \<Longrightarrow> memk sb t s'"
proof (induction k arbitrary: n lba i s)
  case (Suc k)
  from Suc.prems(1) obtain r p n1 s1 where g: "BOFS_GetInodeData sb n i lba s = Some (r, p, n1, s1)"
    by (auto simp: bind_eq_Some_conv)
  have m1: "memk sb t s1" by (rule GetInodeData_memk [OF g Suc.prems(2)])
  obtain b s2 where b: "BlockRead p s1 = (b, s2)" by (metis prod.exhaust)
  have m2: "memk sb t s2" by (rule BlockRead_memk [OF b m1])
  show ?case
    using Suc.prems(1) g b m2 Suc.IH [OF _ m2] by (auto split: option.splits)
qed simp

lemma SearchDirEntry_memk: "BOFS_SearchDirEntry sb parent nm s = Some (e, s') \<Longrightarrow> memk sb t s \<Longrightarrow> memk sb t s'"
  by (auto simp: BOFS_SearchDirEntry_def Let_def split: prod.splits if_splits;
      (assumption | erule search_loop_memk LoadInode_memk attempt_memk)+)

lemma search_path_memk: "search_path sb q p i k parent child s = Some (r, rec, s') \<Longrightarrow> memk sb t s \<Longrightarrow> memk sb t s'"
proof (induction k arbitrary: p i parent child s)
  case (Suc k)
  obtain nm p1 where n: "take_name (kmem s) (p + 1) BOFS_NAME_LEN = (nm, p1)" by (metis prod.exhaust)
  show ?case
  proof (cases "i = 0 \<and> k = 0 \<and> kmem s q = 47 \<and> kmem s (q + 1) = 0")
    case True
    then show ?thesis using Suc.prems n by simp
  next
    case False
    let ?par = "if i = 0 then rootDir sb else parent"
    from Suc.prems(1) n False obtain e s1 where e: "BOFS_SearchDirEntry sb ?par nm s = Some (e, s1)"
      by (auto simp: bind_eq_Some_conv Let_def split: if_splits)
    have m1: "memk sb t s1" by (rule SearchDirEntry_memk [OF e Suc.prems(2)])
    show ?thesis
      using Suc.prems(1) n False e m1 Suc.IH [OF _ m1]
      by (auto simp: bind_eq_Some_conv Let_def split: option.splits if_splits)
  qed
qed simp

lemma SearchDir_memk: "BOFS_SearchDir sb p s = Some (r, rec, s') \<Longrightarrow> memk sb t s \<Longrightarrow> memk sb t s'"
  by (auto simp: BOFS_SearchDir_def Let_def bind_eq_Some_conv split: prod.splits if_splits;
      (assumption | erule search_path_memk attempt_memk)+)

section \<open>Changing the working directory\<close>

lemma walk_short: "\<forall>c \<in> set st. length c < n \<Longrightarrow> length c < n \<Longrightarrow> \<forall>d \<in> set (walk st c). length d < n"
  by (auto simp: walk_def dest: in_set_butlastD)

lemma foldl_walk_short:
  "\<forall>c \<in> set st. length c < n \<Longrightarrow> \<forall>c \<in> set cs. length c < n \<Longrightarrow> \<forall>d \<in> set (foldl walk st cs). length d < n"
proof (induction cs arbitrary: st)
  case (Cons c cs)
  then have "\<forall>d \<in> set (walk st c). length d < n" by (intro walk_short) auto
  with Cons show ?case by simp
qed simp

definition good_stack :: "u8 list list \<Rightarrow> bool" where
  "good_stack st \<longleftrightarrow> canonical st \<and> (\<forall>c \<in> set st. length c < BOFS_NAME_LEN)"

lemma walk_good:
  assumes "good_stack st" "0 \<notin> set Q" "\<forall>c \<in> set (components Q). length c < BOFS_NAME_LEN"
  shows "good_stack (foldl walk st (components Q))"
proof -
  have "\<forall>c \<in> set (components Q). comp c" using components_comp [OF assms(2)] by blast
  then show ?thesis
    using assms foldl_walk_canonical foldl_walk_short unfolding good_stack_def by blast
qed

lemma target_ok:
  assumes "at_dir m dir D st" "path_name P" "0 \<notin> set P"
  shows "drive_name (fst (target D st P)) \<and> good_stack (snd (target D st P))"
proof -
  have nil: "good_stack []" by (simp add: good_stack_def canonical_def)
  have st: "good_stack st" "drive_name D" using assms(1) by (simp_all add: at_dir_def good_stack_def)
  show ?thesis
  proof (cases "58 \<in> set P")
    case True
    have "0 \<notin> set (after_colon P)"
      using assms(3) split_colon [OF True] by (metis Un_iff list.set_intros(2) set_append)
    then have "good_stack (foldl walk [] (components (after_colon P)))"
      using assms(2) by (intro walk_good nil) (auto simp: path_name_def)
    then show ?thesis using True assms(2) by (simp add: target_def path_name_def)
  next
    case False
    have "good_stack (foldl walk st (components P))"
      using assms(2,3) by (intro walk_good st) (auto simp: path_name_def)
    then show ?thesis using False nil st by (simp add: target_def)
  qed
qed

lemma set_cwd_ok:
  assumes nm: "cstr m nm D" "{nm..nm + length D} \<inter> {dir..<dir + 255} = {}"
    and q: "cstr m q T" "{q..q + length T} \<inter> {dir..<dir + 255} = {}" and len: "length (D @ 58 # T) < 255"
  shows "\<exists>m'. set_cwd m dir nm q = Some m' \<and> cstr m' dir (D @ 58 # T) \<and> same_outside {dir..<dir + 255} m m'"
proof -
  let ?I = "{dir..<dir + 255}"
  define m1 where "m1 = fst (memset m dir 0 BOFS_PATH_LEN)"
  have s1: "same_outside ?I m m1"
    unfolding m1_def using memset_same [of dir BOFS_PATH_LEN m 0] by (simp add: BOFS_PATH_LEN_def)
  have "cstr m1 dir []" unfolding m1_def cstr_Nil by (rule memset_zeros) (auto simp: BOFS_PATH_LEN_def)
  moreover have "{dir..dir + length D} \<inter> {nm..nm + length D} = {}" 
  proof -
    have "{dir..dir + length D} \<subseteq> ?I" using len by auto
    then show ?thesis using nm(2) by blast
  qed
  ultimately obtain m2 where m2: "strcat m1 dir nm = Some (m2, dir)" "cstr m2 dir D" "same_outside {dir..dir + length D} m1 m2"
    using strcat_same [of m1 dir "[]" nm D] cstr_same [OF s1 nm] by auto
  obtain m3 where m3: "strcat_lit m2 dir [58] = Some m3" "cstr m3 dir (D @ [58])"
      "same_outside {dir + length D..dir + length D + 1} m2 m3"
    using strcat_lit_same [OF m2(2), of "[58]"] by auto
  have s2: "same_outside ?I m m2" by (rule same_outside_trans [OF s1 m2(3)]) (use len in auto)
  have s3: "same_outside ?I m m3" by (rule same_outside_trans [OF s2 m3(3)]) (use len in auto)
  have "{dir..dir + length (D @ [58]) + length T} \<subseteq> ?I" using len by auto
  then have "{dir..dir + length (D @ [58]) + length T} \<inter> {q..q + length T} = {}" using q(2) by blast
  from strcat_same [OF m3(2) cstr_same [OF s3 q] this] obtain m4 where m4: "strcat m3 dir q = Some (m4, dir)"
    "cstr m4 dir ((D @ [58]) @ T)" "same_outside {dir + length (D @ [58])..dir + length (D @ [58]) + length T} m3 m4"
    by blast
  have "same_outside ?I m m4" by (rule same_outside_trans [OF s3 m4(3)]) (use len in auto)
  then show ?thesis using m2(1) m3(1) m4 by (simp add: set_cwd_def m1_def)
qed

text \<open>A call of \<open>SysChangeCWD\<close>. What it reads lies outside the bitmaps of sectors.\<close>

definition kept_room :: "sysfs \<Rightarrow> locals \<Rightarrow> (BOFS_Drive \<Rightarrow> u8 list) \<Rightarrow> addr set" where
  "kept_room S L N = {cwd S..<cwd S + 255} \<union> rooms L \<union> (\<Union>d \<in> set (drives S). {dr_name d..dr_name d + length (N d)})"

definition chdir_args :: "sysfs \<Rightarrow> locals \<Rightarrow> (BOFS_Drive \<Rightarrow> u8 list) \<Rightarrow> u8 list \<Rightarrow> u8 list list \<Rightarrow> addr \<Rightarrow> u8 list \<Rightarrow> bool" where
  "chdir_args S L N D st p P \<longleftrightarrow>
     call_args (sys_mem S) L (cwd S) (drives S) N D st p P \<and>
     length (fst (target D st P) @ 58 # render (snd (target D st P))) < 255 \<and>
     (\<forall>d \<in> set (drives S). {dr_name d..dr_name d + length (N d)} \<inter> {cwd S..<cwd S + 255} = {} \<and>
        bitmap_room (dr_sb d) \<inter> kept_room S L N = {})"

lemma set_sys_mem [simp]: "sys_mem (set_sys_mem m S) = m" "cwd (set_sys_mem m S) = cwd S" "drives (set_sys_mem m S) = drives S"
  by (simp_all add: sys_mem_def set_sys_mem_def)

lemma ChangeCWD_ok:
  assumes q: "cstr (sys_mem S) q T" and d: "cstr (sys_mem S) (dr_name d) D'" "length (D' @ 58 # T) < 255"
    and room: "{q..q + length T} \<subseteq> K" "{dr_name d..dr_name d + length D'} \<subseteq> K" "bitmap_room (dr_sb d) \<inter> (K \<union> {cwd S..<cwd S + 255}) = {}"
      "K \<inter> {cwd S..<cwd S + 255} = {}"
    and call: "BOFS_ChangeCWD d q S = Some (r, S')"
  shows "cwd S' = cwd S \<and> drives S' = drives S \<and>
    (r = 0 \<and> cstr (sys_mem S') (cwd S) (D' @ 58 # T) \<or> r = -1 \<and> (\<forall>a \<in> {cwd S..<cwd S + 255}. sys_mem S' a = sys_mem S a))"
proof -
  let ?I = "{cwd S..<cwd S + 255}"
  have set: "\<exists>m'. set_cwd m (cwd S) (dr_name d) q = Some m' \<and> cstr m' (cwd S) (D' @ 58 # T)"
    if "cstr m (dr_name d) D'" "cstr m q T" for m
  proof -
    have "{dr_name d..dr_name d + length D'} \<inter> ?I = {}" "{q..q + length T} \<inter> ?I = {}" using room by blast+
    from set_cwd_ok [OF that(1) this(1) that(2) this(2) d(2)] show ?thesis by blast
  qed
  show ?thesis
  proof (cases "sys_mem S q = 47 \<and> sys_mem S (q + 1) = 0")
    case True
    obtain m' where "set_cwd (sys_mem S) (cwd S) (dr_name d) q = Some m'" "cstr m' (cwd S) (D' @ 58 # T)"
      using set [OF d(1) q] by blast
    then show ?thesis using call True by (auto simp: BOFS_ChangeCWD_def)
  next
    case False
    from call False obtain f rec s1 where s: "BOFS_SearchDir (dr_sb d) q (fs (fls S)) = Some (f, rec, s1)"
      by (auto simp: BOFS_ChangeCWD_def on_disk_def on_files_def bind_eq_Some_conv split: if_splits)
    define S1 where "S1 = S\<lparr>fls := (fls S)\<lparr>fs := s1\<rparr>\<rparr>"
    have "memk (dr_sb d) (fs (fls S)) s1" by (rule SearchDir_memk [OF s memk_refl])
    then have same: "same_outside (bitmap_room (dr_sb d)) (sys_mem S) (sys_mem S1)"
      by (simp add: memk_def sys_mem_def S1_def)
    have c: "cstr (sys_mem S1) (dr_name d) D'" by (rule cstr_same [OF same d(1)]) (use room in blast)
    have c': "cstr (sys_mem S1) q T" by (rule cstr_same [OF same q]) (use room in blast)
    obtain m' where m': "set_cwd (sys_mem S1) (cwd S) (dr_name d) q = Some m'" "cstr m' (cwd S) (D' @ 58 # T)"
      using set [OF c c'] by blast
    have keep: "\<forall>a \<in> ?I. sys_mem S1 a = sys_mem S a" using same room(3) unfolding same_outside_def by blast
    have eq: "BOFS_ChangeCWD d q S =
        (if f \<noteq> 0 then Some (-1, S1)
         else do { e \<leftarrow> childDir rec;
                   if d_type e \<noteq> BOFS_FILE_TYPE_DIRECTORY then Some (-1, S1)
                   else do { m \<leftarrow> set_cwd (sys_mem S1) (cwd S1) (dr_name d) q; Some (0, set_sys_mem m S1) } })"
      using False s unfolding BOFS_ChangeCWD_def S1_def by (auto simp: on_disk_def on_files_def)
    have S1: "cwd S1 = cwd S" "drives S1 = drives S" by (simp_all add: S1_def)
    show ?thesis
      using call [unfolded eq] m' keep S1 by (auto simp: bind_eq_Some_conv split: if_splits)
  qed
qed

lemma chdir_ok:
  assumes args: "chdir_args S L N D st p P" and call: "SysChangeCWD L p S = Some (r, S')"
  shows "cwd S' = cwd S \<and> drives S' = drives S \<and>
    (r = 0 \<and> at_dir (sys_mem S') (cwd S') (fst (target D st P)) (snd (target D st P)) \<or>
     r = -1 \<and> at_dir (sys_mem S') (cwd S') D st)"
proof -
  let ?t = "target D st P" and ?I = "{cwd S..<cwd S + 255}"
  note a = args [unfolded chdir_args_def]
  note c = conjunct1 [OF a, unfolded call_args_def]
  obtain m' where m': "call_path L (cwd S) (drives S) p (sys_mem S) = Some (List.find (\<lambda>d. N d = fst ?t) (drives S), m')"
      "same_outside (rooms L) (sys_mem S) m'"
      "List.find (\<lambda>d. N d = fst ?t) (drives S) \<noteq> None \<longrightarrow> cstr m' (finalPath L) (render (snd ?t))"
    using call_path_ok [OF conjunct1 [OF a]] by blast
  have dir: "at_dir m' (cwd S) D st" using c by (intro at_dir_same [OF _ m'(2)]) auto
  show ?thesis
  proof (cases "List.find (\<lambda>d. N d = fst ?t) (drives S)")
    case None
    then show ?thesis using call m'(1) dir by (auto simp: SysChangeCWD_def with_path_def)
  next
    case (Some d)
    then have d: "d \<in> set (drives S)" "N d = fst ?t" by (auto simp: find_Some_iff)
    let ?K = "rooms L \<union> {dr_name d..dr_name d + length (fst ?t)}"
    have nm: "cstr m' (dr_name d) (fst ?t)"
      using drive_table_same [OF _ m'(2)] c d unfolding drive_table_def by metis
    have fin: "{finalPath L..finalPath L + length (render (snd ?t))} \<subseteq> ?K"
      using a by (auto simp: rooms_def path_room_def)
    have "bitmap_room (dr_sb d) \<inter> kept_room S L N = {}" using a d(1) by blast
    moreover have "?K \<union> ?I \<subseteq> kept_room S L N" using d unfolding kept_room_def by auto
    ultimately have bm: "bitmap_room (dr_sb d) \<inter> (?K \<union> ?I) = {}" by blast
    have KI: "?K \<inter> ?I = {}" using a c d by fastforce
    have ch: "BOFS_ChangeCWD d (finalPath L) (set_sys_mem m' S) = Some (r, S')"
      using call m'(1) Some by (auto simp: SysChangeCWD_def with_path_def)
    have "cwd S' = cwd S \<and> drives S' = drives S \<and> (r = 0 \<and> cstr (sys_mem S') (cwd S) (fst ?t @ 58 # render (snd ?t)) \<or>
        r = -1 \<and> (\<forall>a \<in> ?I. sys_mem S' a = m' a))"
      using ChangeCWD_ok [OF _ _ _ fin _ _ _ ch] m'(3) Some nm a bm KI by simp
    moreover have "at_dir (sys_mem S') (cwd S) D st" if "\<forall>a \<in> ?I. sys_mem S' a = m' a"
    proof (rule at_dir_same [OF dir])
      show "same_outside (- ?I) m' (sys_mem S')" using that by (auto simp: same_outside_def)
    qed (use c in auto)
    moreover have "drive_name (fst ?t) \<and> good_stack (snd ?t)"
      using target_ok [of "sys_mem S" "cwd S" D st P] c by (auto simp: cstr_def)
    ultimately show ?thesis by (auto simp: at_dir_def good_stack_def)
  qed
qed

text \<open>Changing to the root of a drive needs no search.\<close>

lemma chdir_root:
  assumes args: "chdir_args S L N D st p P" and root: "snd (target D st P) = []"
    and found: "List.find (\<lambda>d. N d = fst (target D st P)) (drives S) = Some d"
  shows "\<exists>S'. SysChangeCWD L p S = Some (0, S')"
proof -
  let ?t = "target D st P"
  note a = args [unfolded chdir_args_def]
  note c = conjunct1 [OF a, unfolded call_args_def]
  obtain m' where m': "call_path L (cwd S) (drives S) p (sys_mem S) = Some (Some d, m')"
      "same_outside (rooms L) (sys_mem S) m'" "cstr m' (finalPath L) [47]"
    using call_path_ok [OF conjunct1 [OF a]] found root by auto
  have d: "d \<in> set (drives S)" "N d = fst ?t" using found by (auto simp: find_Some_iff)
  have nm: "cstr m' (dr_name d) (fst ?t)"
    using drive_table_same [OF _ m'(2)] c d unfolding drive_table_def by metis
  have 1: "{dr_name d..dr_name d + length (fst ?t)} \<inter> {cwd S..<cwd S + 255} = {}" using a d by metis
  have "{finalPath L..finalPath L + length [47 :: u8]} \<subseteq> rooms L" by (auto simp: rooms_def path_room_def)
  then have 2: "{finalPath L..finalPath L + length [47 :: u8]} \<inter> {cwd S..<cwd S + 255} = {}" using c by blast
  have 3: "length (fst ?t @ 58 # [47]) < 255" using a root by simp
  obtain m2 where "set_cwd m' (cwd S) (dr_name d) (finalPath L) = Some m2"
    using set_cwd_ok [OF nm 1 m'(3) 2 3] by blast
  then show ?thesis using m'(1,3) by (simp add: SysChangeCWD_def with_path_def BOFS_ChangeCWD_def)
qed

end
