(* ===== verification/PathSpec.thy ===== *)
theory PathSpec
  imports ChdirProofs BofsSpec
begin

text \<open>
  What a path name means, stated of the calls: \<open>BOFS_WashPath\<close> resolves the dot components, the path of a system call
  is resolved against the working directory, and \<open>SysChangeCWD\<close> keeps the working directory canonical. At the end, the
  buffer that a long name overruns.
\<close>

section \<open>A task in a directory\<close>

text \<open>For the examples: the working directory is \<open>root:/a/b\<close>, the path name is at address 3000.\<close>

definition example_mem :: "u8 list \<Rightarrow> mem" where
  "example_mem P = wr_bytes (wr_bytes (wr_bytes (\<lambda>_. 0) 1000 ([114, 111, 111, 116] @ 58 # [47, 97, 47, 98] @ [0]))
     2000 ([114, 111, 111, 116] @ [0])) 3000 (P @ [0])"

definition example_locals :: locals where
  "example_locals = \<lparr>absPath = 10000, finalPath = 20000, driveName = 30000, washName = 40000\<rparr>"

definition example_drive :: BOFS_Drive where
  "example_drive = \<lparr>dr_name = 2000, dr_sb = small_sb, dr_blkdev = 0\<rparr>"

definition example_sys :: "u8 list \<Rightarrow> sysfs" where
  "example_sys P = \<lparr>fls = small_files (small_inode 10 0 5) 0 ((small_fs 3 (\<lambda>_ _. 0))\<lparr>kmem := example_mem P\<rparr>),
     drives = [example_drive], cwd = 1000\<rparr>"

lemma example_strings:
  assumes "0 \<notin> set P"
  shows "cstr (example_mem P) 3000 P" "cstr (example_mem P) 2000 [114, 111, 111, 116]"
    "cstr (example_mem P) 1000 [114, 111, 111, 116, 58, 47, 97, 47, 98]"
proof -
  show "cstr (example_mem P) 3000 P" unfolding example_mem_def using assms by (rule cstr_wr_bytes)
  show "cstr (example_mem P) 2000 [114, 111, 111, 116]"
    unfolding example_mem_def by (subst cstr_wr_bytes_disjoint) (auto intro!: cstr_wr_bytes simp del: cstr_Cons append.simps)
  show "cstr (example_mem P) 1000 [114, 111, 111, 116, 58, 47, 97, 47, 98]"
    unfolding example_mem_def
    by (simp add: cstr_wr_bytes_disjoint del: cstr_Cons) (simp add: wr_bytes_def)
qed

lemma example_call:
  assumes "0 \<notin> set P" "58 \<notin> set P" "length P < 200" "\<forall>c \<in> set (components P). length c < BOFS_NAME_LEN"
  shows "call_args (example_mem P) example_locals 1000 [example_drive] (\<lambda>_. [114, 111, 111, 116]) [114, 111, 111, 116] [[97], [98]] 3000 P"
proof -
  have "dropWhile (\<lambda>x. x \<noteq> 58) P = []" using assms(2) by auto
  then have "after_colon P = []" unfolding after_colon_def by (simp only: list.sel)
  then have "path_name P" using assms(2,4) by (simp add: path_name_def)
  moreover have "at_dir (example_mem P) 1000 [114, 111, 111, 116] [[97], [98]]"
    using example_strings(3) [OF assms(1)]
    by (simp add: at_dir_def drive_name_def canonical_def comp_def render_def BOFS_NAME_LEN_def del: cstr_Cons)
  moreover have "drive_table (example_mem P) (rooms example_locals) [example_drive] (\<lambda>_. [114, 111, 111, 116])"
    using example_strings(2) [OF assms(1)]
    by (auto simp: drive_table_def example_drive_def rooms_def example_locals_def path_room_def drive_room_def name_room_def
        BOFS_NAME_LEN_def simp del: cstr_Cons)
  ultimately show ?thesis
    using example_strings(1) [OF assms(1)] assms(3)
    by (auto simp: call_args_def apart_rooms_def rooms_def example_locals_def path_room_def drive_room_def name_room_def
        BOFS_NAME_LEN_def render_def simp del: cstr_Cons)
qed

section \<open>Properties\<close>

text \<open>
  C5: washing a path resolves it: \<open>BOFS_WashPath\<close> returns, the new path is that of the components reached from the root by
  walking the components of the old one, it has no dot components and stands for itself, and only the two buffers change.
\<close>

theorem wash_path_resolves:
  assumes "wash_args m nm old new t n"
  shows "\<exists>m' st. BOFS_WashPath m nm old new = Some m' \<and> st = foldl walk [] (components t) \<and> cstr m' new (render st) \<and>
    canonical st \<and> foldl walk [] (components (render st)) = st \<and> same_outside ({new..new + n} \<union> name_room nm) m m'"
proof -
  have "0 \<notin> set t" "\<forall>c \<in> set (components t). length c < BOFS_NAME_LEN" using assms by (auto simp: wash_args_def cstr_def)
  moreover have "good_stack []" by (simp add: good_stack_def canonical_def)
  ultimately have can: "canonical (foldl walk [] (components t))" using walk_good by (simp add: good_stack_def)
  then have "\<forall>c \<in> set (foldl walk [] (components t)). comp c" by (simp add: canonical_def)
  note eq = components_render [OF this] foldl_walk_base [OF can]
  obtain m' where "BOFS_WashPath m nm old new = Some m'" "cstr m' new (render (foldl walk [] (components t)))"
    "same_outside ({new..new + n} \<union> name_room nm) m m'"
    using WashPath_ok [OF assms] by (elim exE conjE) (rule that)
  then show ?thesis using can eq by (intro exI conjI) (assumption | rule refl | simp only: eq)+
qed

theorem wash_path_resolves_witness:
  "\<exists>m'. BOFS_WashPath (wr_bytes (\<lambda>_. 0) 1000 ([47, 97, 47, 46, 46, 47, 47, 98, 47, 46, 47, 99] @ [0])) 3000 1000 2000 = Some m' \<and>
     cstr m' 2000 [47, 98, 47, 99]"
proof -
  let ?t = "[47, 97, 47, 46, 46, 47, 47, 98, 47, 46, 47, 99] :: u8 list"
  let ?m = "wr_bytes (\<lambda>_. 0) 1000 (?t @ [0])"
  have c: "components ?t = [[97], [46, 46], [98], [46], [99]]" by (simp add: components_other)
  have "cstr ?m 1000 ?t" by (rule cstr_wr_bytes) simp
  then have "wash_args ?m 3000 1000 2000 ?t 20"
    unfolding wash_args_def c by (auto simp: name_room_def BOFS_NAME_LEN_def simp del: append.simps cstr_Cons)
  from wash_path_resolves [OF this] show ?thesis
    unfolding c by (auto simp: walk_def render_def simp del: cstr_Cons)
qed

text \<open>
  C27: the path name of a call means the same as the target of the path from the working directory: the drive is the one of that
  name, if there is one, the path passed on is that of the target's components, and only the buffers of the call change.
\<close>

theorem call_path_resolves:
  assumes "call_args m L dir drs N D st p P"
  shows "\<exists>m'. call_path L dir drs p m = Some (List.find (\<lambda>d. N d = fst (target D st P)) drs, m') \<and> same_outside (rooms L) m m' \<and>
    (List.find (\<lambda>d. N d = fst (target D st P)) drs \<noteq> None \<longrightarrow> cstr m' (finalPath L) (render (snd (target D st P))))"
  by (rule call_path_ok [OF assms])

theorem call_path_resolves_witness:
  "\<exists>m'. call_path example_locals 1000 [example_drive] 3000 (example_mem [46, 46, 47, 99]) = Some (Some example_drive, m') \<and>
     cstr m' 20000 [47, 97, 47, 99]"
proof -
  have c: "components [46, 46, 47, 99] = [[46, 46], [99]]" by (simp add: components_other)
  have "call_args (example_mem [46, 46, 47, 99]) example_locals 1000 [example_drive] (\<lambda>_. [114, 111, 111, 116])
      [114, 111, 111, 116] [[97], [98]] 3000 [46, 46, 47, 99]"
    by (rule example_call) (simp_all add: c BOFS_NAME_LEN_def)
  from call_path_resolves [OF this] show ?thesis
    by (auto simp: target_def c walk_def render_def example_locals_def simp del: cstr_Cons)
qed

text \<open>
  C6: \<open>SysChangeCWD\<close> keeps the working directory a drive and a path without dot components: after a call that succeeds it is
  the target of the path name, after one that fails it is what it was.
\<close>

theorem chdir_keeps_cwd:
  assumes "chdir_args S L N D st p P" "SysChangeCWD L p S = Some (r, S')"
  shows "cwd S' = cwd S \<and> drives S' = drives S \<and>
    (r = 0 \<and> at_dir (sys_mem S') (cwd S') (fst (target D st P)) (snd (target D st P)) \<or>
     r = -1 \<and> at_dir (sys_mem S') (cwd S') D st)"
  by (rule chdir_ok [OF assms])

theorem chdir_keeps_cwd_witness:
  "\<exists>S'. SysChangeCWD example_locals 3000 (example_sys [46, 46, 47, 46, 46, 47, 46, 46]) = Some (0, S') \<and>
     at_dir (sys_mem S') 1000 [114, 111, 111, 116] []"
proof -
  let ?P = "[46, 46, 47, 46, 46, 47, 46, 46] :: u8 list" and ?N = "\<lambda>_ :: BOFS_Drive. [114, 111, 111, 116] :: u8 list"
  let ?S = "example_sys ?P" and ?D = "[114, 111, 111, 116] :: u8 list"
  have c: "components ?P = [[46, 46], [46, 46], [46, 46]]" by (simp add: components_other)
  have t: "target ?D [[97], [98]] ?P = (?D, [])" by (simp add: target_def c walk_def)
  have S: "sys_mem ?S = example_mem ?P" "cwd ?S = 1000" "drives ?S = [example_drive]"
    by (simp_all add: sys_mem_def example_sys_def small_files_def)
  have call: "call_args (example_mem ?P) example_locals 1000 [example_drive] ?N ?D [[97], [98]] 3000 ?P"
    by (rule example_call) (simp_all add: c BOFS_NAME_LEN_def)
  have args: "chdir_args ?S example_locals ?N ?D [[97], [98]] 3000 ?P"
    unfolding chdir_args_def S t using call
    by (auto simp: S example_drive_def bitmap_room_def kept_room_def small_sb_def rooms_def example_locals_def path_room_def
        drive_room_def name_room_def BOFS_NAME_LEN_def)
  obtain S' where S': "SysChangeCWD example_locals 3000 ?S = Some (0, S')"
    using chdir_root [OF args] by (auto simp: t S)
  from chdir_keeps_cwd [OF args this] show ?thesis using S' by (auto simp: t S)
qed

text \<open>
  C37: \<open>BOFS_WashPath\<close> of a path of one component with more than \<open>BOFS_NAME_LEN\<close> characters returns the path, but stores the
  characters from number \<open>BOFS_NAME_LEN\<close> on behind the end of its name buffer, and they stay there. (The byte after them is 0.)
\<close>

theorem wash_name_overrun:
  assumes "cstr m old (47 # c)" "47 \<notin> set c" "BOFS_NAME_LEN < length c" "m (nm + length c) = 0"
    and "{old..old + length c + 1} \<inter> {new..new + length c + 1} = {}" "{old..old + length c + 1} \<inter> {nm..nm + length c} = {}"
    and "{new..new + length c + 1} \<inter> {nm..nm + length c} = {}"
  shows "\<exists>m'. BOFS_WashPath m nm old new = Some m' \<and> cstr m' new (47 # c) \<and>
    (\<forall>i. BOFS_NAME_LEN \<le> i \<and> i < length c \<longrightarrow> m' (nm + i) = c ! i)"
proof -
  let ?N = "{nm..nm + length c}"
  have sub: "name_room nm \<subseteq> ?N" using assms(3) by (auto simp: name_room_def)
  have tw: "takeWhile (\<lambda>x. x \<noteq> 47) c = c" using assms(2) by (auto simp: takeWhile_eq_all_conv)
  have ne: "c \<noteq> []" "0 \<notin> set c" using assms(1,3) by (auto simp: cstr_def)
  moreover have "c ! 0 \<in> set c" using ne(1) by (intro nth_mem) simp
  ultimately have c: "c \<noteq> []" "c ! 0 \<noteq> 47" "c ! 0 \<noteq> 0" "0 \<notin> set c" using assms(2) by metis+
  define m1 where "m1 = fst (memset m nm 0 (word_of_nat BOFS_NAME_LEN))"
  have s1: "same_outside (name_room nm) m m1" unfolding m1_def by (rule name_room_memset)
  have o1: "cstr m1 old (47 # c)" by (rule cstr_same [OF s1 assms(1)]) (use sub assms(6) in auto)
  define m2 where "m2 = wr_bytes m1 nm c"
  have parse: "BOFS_ParsePathAfterward m1 old nm = Some (m2, 0)"
  proof -
    have tail: "cstr m1 (old + 1) c" using o1 by simp
    then have "m1 (old + 1) \<noteq> 47" using c(1,2) by (cases c) auto
    then have "skip_slashes m1 (old + 1) = Some (old + 1)" by (simp add: skip_slashes.simps)
    moreover have "store_name m1 (old + 1) nm = Some (m2, old + 1 + length c)"
      using store_name_cstr [OF tail, of nm] assms(6) unfolding tw m2_def by fastforce
    moreover have "m2 (old + 1 + length c) = 0"
    proof -
      have "same_outside {nm..<nm + length c} m1 m2" unfolding m2_def by (rule wr_bytes_same)
      moreover have "old + 1 + length c \<notin> {nm..<nm + length c}" using assms(6) by fastforce
      ultimately show ?thesis using tail by (auto simp: same_outside_def cstr_def)
    qed
    ultimately show ?thesis using o1 by (simp add: BOFS_ParsePathAfterward_def)
  qed
  have s2: "same_outside {nm..<nm + length c} m1 m2" unfolding m2_def by (rule wr_bytes_same)
  have o2: "cstr m2 old (47 # c)" by (rule cstr_same [OF s2 o1]) (use assms(6) in auto)
  have n2: "m2 (nm + i) = c ! i" if "i < length c" for i using that by (simp add: m2_def wr_bytes_def)
  have "m2 (nm + length c) = m (nm + length c)"
    using s1 s2 assms(3) by (auto simp: same_outside_def name_room_def)
  then have name: "cstr m2 nm c" using n2 c(4) assms(4) by (auto simp: cstr_def intro!: nth_equalityI)
  define m3 where "m3 = m2(new := 0)"
  have s3: "same_outside {new} m2 m3" by (simp add: m3_def same_outside_def)
  have "cstr m3 new []" by (simp add: m3_def)
  from strcat_lit_same [OF this, of "[47]"] obtain m4 where
    m4: "strcat_lit m3 new [47] = Some m4" "cstr m4 new [47]" "same_outside {new..new + 1} m3 m4" by auto
  have s4: "same_outside {new..new + 1} m2 m4" by (rule same_outside_trans [OF s3 m4(3)]) auto
  have apart: "{nm..nm + length c} \<inter> {new..new + 1} = {}" using assms(7) by fastforce
  have n4: "cstr m4 nm c" by (rule cstr_same [OF s4 name apart])
  have "{new..new + length [47] + length c} \<inter> {nm..nm + length c} = {}" using assms(7) by simp
  from strcat_same [OF m4(2) n4 this] obtain m5 where
    m5: "strcat m4 new nm = Some (m5, new)" "cstr m5 new (47 # c)" "same_outside {new + 1..new + 1 + length c} m4 m5" by auto
  have n5: "cstr m5 nm c" by (rule cstr_same [OF m5(3) n4]) (use assms(7) in auto)
  define m6 where "m6 = fst (memset m5 nm 0 (word_of_nat BOFS_NAME_LEN))"
  have s6: "same_outside (name_room nm) m5 m6" unfolding m6_def by (rule name_room_memset)
  have new6: "cstr m6 new (47 # c)" by (rule cstr_same [OF s6 m5(2)]) (use sub assms(7) in auto)
  have z6: "m6 nm = 0" unfolding m6_def by (rule memset_cleared) (simp add: name_room_def BOFS_NAME_LEN_def)
  have k6: "m6 (nm + i) = c ! i" if "BOFS_NAME_LEN \<le> i" "i < length c" for i
  proof -
    have "m6 (nm + i) = m5 (nm + i)" using s6 that(1) by (simp add: same_outside_def name_room_def)
    also have "\<dots> = rd_bytes m5 nm (length c) ! i" using that(2) by simp
    also have "\<dots> = c ! i" using n5 by (simp add: cstr_def)
    finally show ?thesis .
  qed
  have "length c \<noteq> 1" "length c \<noteq> 2" using assms(3) by (simp_all add: BOFS_NAME_LEN_def)
  then have "\<not> cstr m4 nm [46, 46]" "\<not> cstr m4 nm [46]" using cstr_unique [OF n4] by fastforce+
  then have step: "wash_step m4 new nm = Some m5" using m4(2) m5(1) by (simp add: wash_step_def del: cstr_Cons)
  have "m4 nm \<noteq> 0" using n4 c(1,3) by (cases c) auto
  then have "wash_loop m4 new nm 0 = wash_loop m6 new nm 0"
    using step by (subst wash_loop.simps) (simp add: m6_def)
  also have "\<dots> = Some m6" using z6 by (subst wash_loop.simps) simp
  finally have "BOFS_WashPath m nm old new = Some m6"
    using assms(1) parse name c(1,3) m4(1) unfolding BOFS_WashPath_def m1_def [symmetric] m3_def
    by (cases c) (simp_all add: Let_def)
  then show ?thesis using new6 k6 by blast
qed

theorem wash_name_overrun_witness:
  "\<exists>m'. BOFS_WashPath (wr_bytes (\<lambda>_. 0) 1000 (47 # replicate 251 65 @ [0])) 3000 1000 2000 = Some m' \<and> m' (3000 + 250) = 65"
proof -
  let ?m = "wr_bytes (\<lambda>_. 0) 1000 (47 # replicate 251 65 @ [0]) :: mem"
  have "cstr ?m 1000 (47 # replicate 251 65)" using cstr_wr_bytes [of "47 # replicate 251 65" "\<lambda>_. 0" 1000] by simp
  moreover have "?m (3000 + length (replicate 251 (65 :: u8))) = 0" by (simp add: wr_bytes_def)
  ultimately obtain m' where m': "BOFS_WashPath ?m 3000 1000 2000 = Some m'"
    "\<forall>i. BOFS_NAME_LEN \<le> i \<and> i < length (replicate 251 (65 :: u8)) \<longrightarrow> m' (3000 + i) = replicate 251 65 ! i"
    using wash_name_overrun [of ?m 1000 "replicate 251 65" 3000 2000] by (auto simp: BOFS_NAME_LEN_def)
  have "m' (3000 + 250) = 65" using m'(2) [rule_format, of 250] by (simp add: BOFS_NAME_LEN_def)
  then show ?thesis using m'(1) by blast
qed

end
