(* ===== verification/Spec2Isabelle.thy ===== *)
theory Spec2Isabelle imports CType Alarm Softirq VMProofs HeapRun Locks Synclock BofsRelease PathSpec begin

text \<open>
  A verification development for the kernel of XBook (\<open>src/src\<close>, C), a 32-bit x86 teaching
  kernel with processes, POSIX-like signals, timers, an address-space manager, a file system and
  drivers.

  \<^bold>\<open>The program and the theories.\<close> Sources are named under \<open>src/src/\<close>.

  \<^item> \<open>Prelude\<close>: machine integers (\<open>u8\<close> to \<open>u64\<close>, \<open>i32\<close>), flat byte memory, NUL-terminated strings,
    singly linked lists.
  \<^item> \<open>CString\<close>, \<open>CType\<close>: \<open>share/string.c\<close>, \<open>share/ctype.c\<close>, \<open>share/math.c\<close>, \<open>share/inet.c\<close>: every
    routine on the flat memory, with the C results for bad arguments.
  \<^item> \<open>Bitmap\<close>: \<open>kernel/bitmap.c\<close>, the bit allocator that memory and disk code use.
  \<^item> \<open>KList\<close>: \<open>include/book/list.h\<close>, the doubly linked rings of all kernel queues; \<open>dlist\<close> reads a ring
    as a list, and the locale \<open>node_queue\<close>, interpreted on the ring operations, gives queue behaviour.
  \<^item> \<open>SigSet\<close>: \<open>share/signal.c\<close>, with the laws of a set in the locale \<open>signal_set\<close>.
  \<^item> \<open>Task\<close>, \<open>Sched\<close>: \<open>include/book/task.h\<close>, \<open>kernel/task.c\<close>, \<open>kernel/schedule.c\<close>, half of
    \<open>kernel/sleep_wakeup.c\<close>. \<open>Task\<close> holds the kernel state \<open>kstate\<close> that the following theories
    share: task structures, the links of all list nodes, the running task, timers. \<open>Sched\<close> has the
    invariant \<open>sched_inv\<close> (the ready list holds exactly the ready tasks, at most the current task is
    running, every task is on the global list once) and its preservation.
  \<^item> \<open>Timer\<close>: \<open>drivers/timer.c\<close> and sleeping; \<open>ExitWait\<close>: \<open>kernel/exit_wait.c\<close>.
  \<^item> \<open>Signal\<close>, \<open>SigProofs\<close>: \<open>kernel/signal.c\<close>: sending, delivery, signal frames on the user stack,
    dispositions and masks.
  \<^item> \<open>Alarm\<close>: \<open>kernel/alarm.c\<close> and \<open>drivers/clock.c\<close> (ticks, calendar, timer softirq, polling sleep).
  \<^item> \<open>Softirq\<close>: \<open>kernel/softirq.c\<close>, \<open>book/bitops.h\<close>: softirqs and the two queues of task assists, one
    locale (\<open>assist_queue\<close>) interpreted for both.
  \<^item> \<open>VMSpace\<close>, \<open>VMProofs\<close>: \<open>mm/vmspace.c\<close> and \<open>CopyVMSpace\<close> of \<open>mm/fork.c\<close>: the linked lists of
    mapped spaces, \<open>mmap\<close>, \<open>munmap\<close>, \<open>brk\<close>, release and copy at fork.
  \<^item> \<open>PhyMem\<close>: the page allocator on the table of memory nodes (\<open>arch/x86/mm/phymem.c\<close>,
    \<open>AllocPages\<close> and \<open>FreePages\<close> of \<open>arch/x86/mm/page.c\<close>).
  \<^item> \<open>MemCache\<close>, \<open>MemProofs\<close>, \<open>HeapRun\<close>: \<open>mm/memcache.c\<close>, the slab allocator behind \<open>kmalloc\<close>, on the
    page allocator, the bitmaps and the rings of \<open>KList\<close>; its invariant \<open>heap_inv\<close>; runs of \<open>kmalloc\<close> and \<open>kfree\<close>.
  \<^item> \<open>Locks\<close>: \<open>kernel/spinlock.c\<close>, \<open>kernel/mutex.c\<close>; \<open>Synclock\<close>: \<open>kernel/synclock.c\<close> on \<open>book/semaphore.h\<close>. Both
    are step relations in which the statements of all tasks interleave.
  \<^item> \<open>Bofs\<close>, \<open>BofsDir\<close>, \<open>BofsFile\<close>: the BOFS file system, \<open>fs/bofs/\<close>: \<open>bitmap.c\<close>, \<open>super_block.c\<close>,
    \<open>inode.c\<close> (sector allocation, inodes, the three levels of block pointers), \<open>dir_entry.c\<close>, \<open>dir.c\<close>
    (entries, path search, making and removing directories, reading them), \<open>file.c\<close> (open, close, read, write,
    seek, unlink, rename, access, mode, stat) and \<open>bofsinit.c\<close> (making and mounting). The state
    \<open>bofs\<close> is the disk seen through the block cache, the super block with the two bitmaps, and the
    list \<open>faults\<close> of blocks whose transfer fails; \<open>files\<close> adds the file descriptors and open files.
  \<^item> \<open>BofsProofs\<close>, \<open>BofsData\<close>, \<open>BofsSpec\<close>, \<open>BofsRelease\<close>: allocation and the tree of pointer blocks
    (\<open>node\<close>, \<open>file_ok\<close>), the bytes of a file (\<open>fbyte\<close>, \<open>file_bytes\<close>) and the refinement of
    reads and writes by operations on byte lists, and what release and bitmap write-back get wrong.
  \<^item> \<open>BofsPath\<close>, \<open>BofsCalls\<close>: paths on the flat memory (\<open>BOFS_WashPath\<close>, \<open>BOFS_MakeAbsPath\<close> and the splitting functions
    of \<open>fs/bofs/dir.c\<close>, \<open>drive.c\<close>), and the system calls of \<open>fs/symphyses.c\<close> that take a path, with the device and task files
    of \<open>device.c\<close> and \<open>task.c\<close> and the working directory of a task.
  \<^item> \<open>PathProofs\<close>, \<open>CallProofs\<close>, \<open>ChdirProofs\<close>, \<open>PathSpec\<close>: the components of a path and the walk along them, the drive and
    components a path means from a working directory (\<open>target\<close>, \<open>at_dir\<close>, \<open>call_args\<close>), and that \<open>chdir\<close> keeps the
    working directory in normal form.

  The parts interact as in the code: the clock interrupt raises softirqs (\<open>Softirq\<close>, \<open>Alarm\<close>); the
  timer softirq advances alarms, which force signals (\<open>Signal\<close>), and timers, which wake sleepers
  (\<open>Timer\<close>, \<open>Task\<close>); the scheduler softirq preempts (\<open>Task\<close>); signals end tasks through \<open>SysExit\<close>.

  \<^bold>\<open>Conventions.\<close> A record models a struct, with the fields in the order of the source; pointers to
  structs are numbers or node names with the store in the state. \<open>None\<close> is a kernel stop: a failed
  \<open>ASSERT\<close>, \<open>Panic\<close>, a NULL dereference, or a loop that does not end. Code that runs with interrupts
  off is one step. \<open>Schedule\<close> ends in \<open>SwitchTo\<close>, so a blocking call is modelled up to the switch and
  its rest is a definition of its own (\<open>TaskSleep_resume\<close>, \<open>SysWait_pass\<close>, \<open>Stopped\<close> in \<open>Signal\<close>).
  Results of \<open>kmalloc\<close> and contents of uninitialised memory are arguments. Unsigned C integers are
  words; signed ones are integers with \<open>i32\<close> where they can wrap.

  \<^bold>\<open>Bounds and fuel.\<close> Loops over linked lists are partial functions whose value is \<open>None\<close> when they do
  not end; the theorems state that they return. \<open>DoSignal_loop\<close> counts the 31 signal numbers left,
  \<open>redo_loop\<close> the ten rounds of \<open>HandleSoftirq\<close>: both are the bounds of the code. The loops of
  \<open>fs/bofs\<close> count blocks, directory slots or bytes left, all bounded by the sizes on the disk.

  \<^bold>\<open>What the lemmas show.\<close> For each component: an invariant or abstraction (\<open>dlist\<close>, \<open>sched_inv\<close>,
  \<open>sig_inv\<close>, \<open>nq.queue\<close>, \<open>spaces\<close> with \<open>apart\<close>, \<open>pages_ok\<close>, \<open>heap_inv\<close>, \<open>mutex_inv\<close>, \<open>sync_inv\<close>,
  \<open>ready\<close> for a mounted file system with no failing block, \<open>at_dir\<close> for a working directory), one lemma per operation that gives its result and
  preserves the invariant, and the properties built on them. Properties of kind \<open>error\<close> state what
  the code does where that is not what it means to do.

  \<^bold>\<open>Not modelled.\<close> Port and device I/O, interrupt entry and descriptor tables, page tables and the
  context switch (assembly and hardware state); program loading;
  vmalloc; the boot memory map; the request queues of the block layer, so that a block read returns what was written
  last or fails; reading and writing device files and pipes; the network stack; the terminal; the user programs.
  The manifest lists each with the reason. Outside \<open>Locks\<close> and \<open>Synclock\<close>, a part that holds a spin lock
  with interrupts off is one step.
\<close>

end
